(* ===== verification/BrlPrelude.thy ===== *)
theory BrlPrelude
  imports Main "HOL-Library.Word" "HOL-Library.Monad_Syntax"
begin

text \<open>
  What the component theories share.  A routine that may end in
  \<open>bu_bomb()\<close> (the library's fatal-error exit), or that would read memory
  that is not there, returns \<open>'a option\<close>: \<open>None\<close> is the abnormal end and
  \<open>Some r\<close> the value returned.  Routines that report an error code to their
  caller keep it in the value they return.

  The two collections gather the facts the component proofs use by default:
  \<open>option_elims\<close> takes a do-block apart, \<open>byte_simps\<close> normalises
  small machine integers.
\<close>

named_theorems byte_simps "normal forms of 8-bit and 32-bit values"
named_theorems option_elims "taking monadic results apart"

section \<open>Options\<close>

lemma bind_eq_SomeE [option_elims]:
  assumes "Option.bind x f = Some y"
  obtains a where "x = Some a" and "f a = Some y"
  using assms by (cases x) auto

lemma if_then_None_eq_Some [option_elims]:
  assumes "(if b then None else x) = Some y"
  obtains "\<not> b" and "x = Some y"
  using assms by (auto split: if_splits)

lemma map_option_eq_SomeE [option_elims]:
  assumes "map_option f x = Some y"
  obtains a where "x = Some a" and "y = f a"
  using assms by (cases x) auto

section \<open>Lists\<close>

lemma nth_append_same [simp]: "(xs @ y # ys) ! length xs = y"
  by simp

lemma take_Suc_snoc: "i < length xs \<Longrightarrow> take (Suc i) xs = take i xs @ [xs ! i]"
  by (rule take_Suc_conv_app_nth)

lemma drop_eq_nth_Cons: "i < length xs \<Longrightarrow> drop i xs = xs ! i # drop (Suc i) xs"
  by (rule Cons_nth_drop_Suc [symmetric])

lemma list_update_take_drop:
  "i < length xs \<Longrightarrow> xs[i := v] = take i xs @ v # drop (Suc i) xs"
  by (rule upd_conv_take_nth_drop)


section \<open>Bytes and C strings\<close>

type_synonym byte = "8 word"

text \<open>\<open>size_t\<close>, and \<open>off_t\<close>, which is the same word read as a signed number.\<close>

type_synonym size_t = "64 word"
type_synonym off_t = "64 word"

text \<open>A \<open>char *\<close> points at a byte sequence; the string is what stands before the
  first zero byte.  A sequence without one makes \<open>strlen\<close> run off its end.\<close>

definition byte_of :: "char \<Rightarrow> byte" where
  "byte_of c = of_char c"

definition char_of_byte :: "byte \<Rightarrow> char" where
  "char_of_byte b = char_of (unat b)"

definition bytes_of :: "string \<Rightarrow> byte list" where
  "bytes_of = map byte_of"

definition string_of :: "byte list \<Rightarrow> string" where
  "string_of = map char_of_byte"

fun c_string :: "byte list \<Rightarrow> byte list option" where
  "c_string [] = None"
| "c_string (b # bs) = (if b = 0 then Some [] else map_option (Cons b) (c_string bs))"

definition no_nul :: "string \<Rightarrow> bool" where
  "no_nul s = (CHR 0x00 \<notin> set s)"

lemma of_char_nat_bound: "(of_char c :: nat) < 256"
proof -
  have "of_char c = (of_char c :: nat) mod 256"
    by (metis char_of_mod_256 of_char_of char_of_char)
  then show ?thesis by (metis mod_less_divisor zero_less_numeral)
qed

lemma unat_byte_of: "unat (byte_of c) = of_char c"
proof -
  have "byte_of c = (word_of_nat (of_char c) :: byte)"
    by (simp add: byte_of_def of_nat_of_char)
  then show ?thesis
    using of_char_nat_bound[of c] by (simp add: unat_of_nat)
qed

lemma char_of_byte_of [simp]: "char_of_byte (byte_of c) = c"
  by (simp add: char_of_byte_def unat_byte_of)

lemma string_of_bytes_of [simp]: "string_of (bytes_of s) = s"
  by (simp add: string_of_def bytes_of_def comp_def)

lemma byte_of_eq_0: "byte_of c = 0 \<longleftrightarrow> c = CHR 0x00"
proof -
  have "byte_of (CHR 0x00) = 0" by (simp add: byte_of_def)
  then show ?thesis by (metis char_of_byte_of)
qed

lemma length_bytes_of [simp]: "length (bytes_of s) = length s"
  by (simp add: bytes_of_def)

lemma c_string_append:
  "0 \<notin> set s \<Longrightarrow> c_string (s @ 0 # rest) = Some s"
  by (induction s) auto

lemma c_string_bytes_of [simp]:
  "no_nul s \<Longrightarrow> c_string (bytes_of s @ 0 # rest) = Some (bytes_of s)"
  by (rule c_string_append) (auto simp: no_nul_def bytes_of_def byte_of_eq_0)

end
