(* ===== verification/RtMemAlloc.thy ===== *)
theory RtMemAlloc
  imports BrlPrelude
begin

text \<open>
  The resource map of \<open>librt/memalloc.c\<close> (\<open>rt/mem.h\<close>), which keeps the free extents of a
  database file.

  A chain of \<open>mem_map\<close> structures is the list of its elements; \<open>m_nxtp\<close> is the next
  element of the list.  \<open>mm_list\<close> is the chain of the caller (\<open>*pp\<close>), \<open>freemap\<close> the
  static list \<open>rt_mem_freemap\<close> of unused structures.  Sizes and addresses are 64-bit
  words; \<open>off_t\<close> is compared as a signed number.
\<close>

unbundle bit_operations_syntax

section \<open>Data and operations\<close>

record mem_map =
  m_size :: size_t
  m_addr :: off_t

record rt_mem =
  mm_list :: "mem_map list"
  freemap :: "mem_map list"

definition M_TMTCH :: byte where "M_TMTCH = 1"
definition M_BMTCH :: byte where "M_BMTCH = 2"
definition M_TOVFL :: byte where "M_TOVFL = 4"
definition M_BOVFL :: byte where "M_BOVFL = 8"

lemmas M_defs = M_TMTCH_def M_BMTCH_def M_TOVFL_def M_BOVFL_def

text \<open>The search loops split the chain at the element they stop at.\<close>

fun memalloc_find :: "size_t \<Rightarrow> mem_map list \<Rightarrow> (mem_map list \<times> mem_map \<times> mem_map list) option" where
  "memalloc_find sz [] = None"
| "memalloc_find sz (curp # cs) =
     (if m_size curp \<ge> sz then Some ([], curp, cs)
      else map_option (\<lambda>(prev, c, rest). (curp # prev, c, rest)) (memalloc_find sz cs))"

definition rt_memalloc :: "size_t \<Rightarrow> rt_mem \<Rightarrow> size_t \<times> rt_mem" where
  "rt_memalloc sz m =
     (if sz = 0 then (0, m)
      else case memalloc_find sz (mm_list m) of
             None \<Rightarrow> (0, m)
           | Some (prev, curp, rest) \<Rightarrow>
               let addr = m_addr curp;
                   curp = curp\<lparr>m_addr := m_addr curp + sz, m_size := m_size curp - sz\<rparr>
               in (addr, if m_size curp = 0
                         then m\<lparr>mm_list := prev @ rest, freemap := curp # freemap m\<rparr>
                         else m\<lparr>mm_list := prev @ curp # rest\<rparr>))"

text \<open>The best fit search: \<open>i\<close> is the position of \<open>curp\<close>, \<open>best\<close> that of the best so far.\<close>

fun nosplit_loop :: "size_t \<Rightarrow> mem_map list \<Rightarrow> mem_map list \<Rightarrow> nat \<Rightarrow> nat option \<Rightarrow> nat option" where
  "nosplit_loop sz ps [] i best = best"
| "nosplit_loop sz ps (curp # cs) i best =
     (if m_size curp < sz then nosplit_loop sz ps cs (i + 1) best
      else if m_size curp = sz then Some i
      else if (case best of None \<Rightarrow> True | Some j \<Rightarrow> m_size curp < m_size (ps ! j))
           then nosplit_loop sz ps cs (i + 1) (Some i)
           else nosplit_loop sz ps cs (i + 1) best)"

definition rt_memalloc_nosplit :: "size_t \<Rightarrow> rt_mem \<Rightarrow> mem_map option \<times> rt_mem" where
  "rt_memalloc_nosplit sz m =
     (if sz = 0 then (None, m)
      else case nosplit_loop sz (mm_list m) (mm_list m) 0 None of
             None \<Rightarrow> (None, m)
           | Some i \<Rightarrow>
               let best = mm_list m ! i
               in (Some best, m\<lparr>mm_list := take i (mm_list m) @ drop (Suc i) (mm_list m),
                                freemap := best # freemap m\<rparr>))"

fun memfree_find :: "off_t \<Rightarrow> mem_map list \<Rightarrow> mem_map list \<times> mem_map list" where
  "memfree_find addr [] = ([], [])"
| "memfree_find addr (curp # cs) =
     (if addr <s m_addr curp then ([], curp # cs)
      else (let (prev, rest) = memfree_find addr cs in (curp # prev, rest)))"

definition memfree_type :: "mem_map list \<Rightarrow> mem_map list \<Rightarrow> size_t \<Rightarrow> off_t \<Rightarrow> byte" where
  "memfree_type prev rest sz addr =
     (let type = 0;
          type = (if prev = [] then type
                  else let il = m_addr (last prev) + m_size (last prev);
                           type = (if addr <s il then type OR M_BOVFL else type)
                       in if il = addr then type OR M_BMTCH else type)
      in case rest of [] \<Rightarrow> type
         | curp # _ \<Rightarrow>
             let il = addr + sz;
                 type = (if m_addr curp <s il then type OR M_TOVFL else type)
             in if il = m_addr curp then type OR M_TMTCH else type)"

text \<open>The surgery on the chain.  With no structure left on \<open>rt_mem_freemap\<close> a new one is
  allocated.\<close>

definition rt_memfree :: "size_t \<Rightarrow> off_t \<Rightarrow> rt_mem \<Rightarrow> rt_mem" where
  "rt_memfree sz addr m =
     (if sz = 0 then m
      else let (prev, rest) = memfree_find addr (mm_list m);
               type = memfree_type prev rest sz addr;
               prevp = last prev; curp = hd rest
           in if type AND (M_TOVFL OR M_BOVFL) \<noteq> 0 then m
              else if type AND (M_BMTCH OR M_TMTCH) = M_TMTCH OR M_BMTCH
              then m\<lparr>mm_list := butlast prev
                        @ prevp\<lparr>m_size := m_size prevp + (sz + m_size curp)\<rparr> # tl rest,
                     freemap := curp # freemap m\<rparr>
              else if type AND (M_BMTCH OR M_TMTCH) = M_BMTCH
              then m\<lparr>mm_list := butlast prev @ prevp\<lparr>m_size := m_size prevp + sz\<rparr> # rest\<rparr>
              else if type AND (M_BMTCH OR M_TMTCH) = M_TMTCH
              then m\<lparr>mm_list := prev
                        @ curp\<lparr>m_size := m_size curp + sz, m_addr := m_addr curp - sz\<rparr> # tl rest\<rparr>
              else m\<lparr>mm_list := prev @ \<lparr>m_size = sz, m_addr = addr\<rparr> # rest,
                     freemap := tl (freemap m)\<rparr>)"

definition rt_mempurge :: "rt_mem \<Rightarrow> rt_mem" where
  "rt_mempurge m = (if mm_list m = [] then m else \<lparr>mm_list = [], freemap = mm_list m @ freemap m\<rparr>)"

definition rt_memclose :: "rt_mem \<Rightarrow> rt_mem" where
  "rt_memclose m = m\<lparr>freemap := []\<rparr>"

section \<open>The invariant\<close>

text \<open>The chain is sorted, its extents are not empty, lie below \<open>2 ^ 63\<close>, and do not
  even touch.\<close>

definition m_end :: "mem_map \<Rightarrow> nat" where
  "m_end c = unat (m_addr c) + unat (m_size c)"

definition block_ok :: "mem_map \<Rightarrow> bool" where
  "block_ok c \<longleftrightarrow> 0 < unat (m_size c) \<and> m_end c < 2 ^ 63"

definition before :: "mem_map \<Rightarrow> mem_map \<Rightarrow> bool" where
  "before c d \<longleftrightarrow> m_end c < unat (m_addr d)"

definition chain_ok :: "mem_map list \<Rightarrow> bool" where
  "chain_ok ps \<longleftrightarrow> (\<forall>c\<in>set ps. block_ok c) \<and> sorted_wrt before ps"

definition extent :: "mem_map \<Rightarrow> nat set" where
  "extent c = {unat (m_addr c)..<m_end c}"

definition units_of :: "mem_map list \<Rightarrow> nat set" where
  "units_of ps = \<Union> (extent ` set ps)"

definition free_units :: "rt_mem \<Rightarrow> nat set" where
  "free_units m = units_of (mm_list m)"

definition mem_inv :: "rt_mem \<Rightarrow> bool" where
  "mem_inv m = chain_ok (mm_list m)"

lemma units_of_simps [simp]:
  "units_of [] = {}" "units_of (c # cs) = extent c \<union> units_of cs"
  "units_of (ps @ qs) = units_of ps \<union> units_of qs"
  by (auto simp: units_of_def)

lemma chain_ok_simps [simp]:
  "chain_ok []" "chain_ok (c # cs) \<longleftrightarrow> block_ok c \<and> (\<forall>d\<in>set cs. before c d) \<and> chain_ok cs"
  "chain_ok (ps @ qs) \<longleftrightarrow> chain_ok ps \<and> chain_ok qs \<and> (\<forall>c\<in>set ps. \<forall>d\<in>set qs. before c d)"
  by (auto simp: chain_ok_def sorted_wrt_append)

lemma units_before:
  "(\<forall>d\<in>set ps. before d c) \<Longrightarrow> x \<in> units_of ps \<Longrightarrow> x < unat (m_addr c)"
  by (fastforce simp: units_of_def extent_def before_def)

lemma units_after:
  "(\<forall>d\<in>set ps. before c d) \<Longrightarrow> x \<in> units_of ps \<Longrightarrow> m_end c < x"
  by (fastforce simp: units_of_def extent_def before_def)

lemma chain_disjoint:
  assumes "chain_ok (ps @ c # qs)"
  shows "extent c \<inter> (units_of ps \<union> units_of qs) = {}"
proof -
  have "x \<notin> units_of ps" if "x \<in> extent c" for x
    using assms that units_before[of ps c x] by (auto simp: extent_def)
  moreover have "x \<notin> units_of qs" if "x \<in> extent c" for x
    using assms that units_after[of qs c x] by (auto simp: extent_def)
  ultimately show ?thesis by blast
qed

section \<open>Machine arithmetic below \<open>2 ^ 63\<close>\<close>

lemma sless_unat:
  fixes a b :: "64 word"
  assumes "unat a < 2 ^ 63" "unat b < 2 ^ 63"
  shows "a <s b \<longleftrightarrow> unat a < unat b"
proof -
  have s: "sint x = int (unat x)" if "unat x < 2 ^ 63" for x :: "64 word"
  proof -
    have u: "uint x = int (unat x)" by simp
    have "int (unat x) < int (2 ^ 63)" using that by (simp only: of_nat_less_iff)
    then have "uint x < 2 ^ 63" by simp
    then have "signed_take_bit 63 (uint x) = uint x"
      by (intro signed_take_bit_int_eq_self order_trans[OF _ uint_ge_0]) simp_all
    moreover have "sint x = signed_take_bit (LENGTH(64) - Suc 0) (uint x)" by (rule sint_uint)
    moreover have "LENGTH(64) - Suc 0 = 63" by simp
    ultimately show ?thesis using u by metis
  qed
  show ?thesis
    unfolding word_sless_alt s[OF assms(1)] s[OF assms(2)] of_nat_less_iff ..
qed

lemma unat_add_small:
  fixes a b :: "64 word"
  assumes "unat a + unat b < 2 ^ 63"
  shows "unat (a + b) = unat a + unat b"
  using assms unat_add_lem[of a b] by simp

lemma unat_sub_small:
  fixes a b :: "64 word"
  assumes "unat b \<le> unat a"
  shows "unat (a - b) = unat a - unat b"
  using assms by (intro unat_sub) (simp add: word_le_nat_alt)

section \<open>First fit\<close>

lemma memalloc_find_Some:
  "memalloc_find n ps = Some (prev, c, rest) \<Longrightarrow>
     ps = prev @ c # rest \<and> unat n \<le> unat (m_size c) \<and> (\<forall>d\<in>set prev. unat (m_size d) < unat n)"
  by (induction ps arbitrary: prev)
    (auto simp: word_le_nat_alt not_le split: if_splits)

lemma memalloc_find_None:
  "memalloc_find n ps = None \<Longrightarrow> \<forall>c\<in>set ps. unat (m_size c) < unat n"
  by (induction ps) (auto simp: word_le_nat_alt not_le split: if_splits)

text \<open>The two shapes of a successful allocation.\<close>

lemma rt_memalloc_shape:
  assumes "mem_inv m" "0 < unat n" "memalloc_find n (mm_list m) = Some (prev, c, rest)"
  shows "mm_list m = prev @ c # rest \<and> unat n \<le> unat (m_size c)
    \<and> rt_memalloc n m = (m_addr c, if unat (m_size c) = unat n
        then m\<lparr>mm_list := prev @ rest,
               freemap := c\<lparr>m_addr := m_addr c + n, m_size := 0\<rparr> # freemap m\<rparr>
        else m\<lparr>mm_list := prev @ c\<lparr>m_addr := m_addr c + n, m_size := m_size c - n\<rparr> # rest\<rparr>)"
proof -
  have f: "mm_list m = prev @ c # rest" "unat n \<le> unat (m_size c)"
    using memalloc_find_Some[OF assms(3)] by auto
  have "n \<noteq> 0" using assms(2) by auto
  moreover have "m_size c - n = 0 \<longleftrightarrow> unat (m_size c) = unat n"
    using f(2) unat_sub_small[OF f(2)] by (auto simp: word_unat_eq_iff)
  ultimately show ?thesis using f assms(3) by (auto simp: rt_memalloc_def Let_def)
qed

lemma split_block:
  assumes "block_ok c" "unat n < unat (m_size c)"
  defines "c' \<equiv> c\<lparr>m_addr := m_addr c + n, m_size := m_size c - n\<rparr>"
  shows "unat (m_addr c') = unat (m_addr c) + unat n" "m_end c' = m_end c"
    "unat (m_size c') = unat (m_size c) - unat n"
    "extent c' = extent c - {unat (m_addr c)..<unat (m_addr c) + unat n}"
proof -
  show a: "unat (m_addr c') = unat (m_addr c) + unat n"
    using assms by (simp add: block_ok_def m_end_def unat_add_small)
  show s: "unat (m_size c') = unat (m_size c) - unat n"
    using assms by (simp add: unat_sub_small)
  then show e: "m_end c' = m_end c" using a assms(2) by (simp add: m_end_def)
  then show "extent c' = extent c - {unat (m_addr c)..<unat (m_addr c) + unat n}"
    using a s by (auto simp: extent_def)
qed

lemma rt_memalloc_takes:
  assumes "mem_inv m" "0 < unat n" "memalloc_find n (mm_list m) = Some (prev, c, rest)"
    and "rt_memalloc n m = (a, m')"
  shows "mem_inv m' \<and> {unat a..<unat a + unat n} \<subseteq> free_units m
    \<and> free_units m' = free_units m - {unat a..<unat a + unat n}"
proof -
  note sh = rt_memalloc_shape[OF assms(1-3)]
  then have m: "mm_list m = prev @ c # rest" and a: "a = m_addr c" using assms(4) by auto
  have ok: "chain_ok (prev @ c # rest)" using assms(1) m by (simp add: mem_inv_def)
  let ?t = "{unat a..<unat a + unat n}"
  have t: "?t \<subseteq> extent c" using sh a by (auto simp: extent_def m_end_def)
  then have out: "?t \<inter> (units_of prev \<union> units_of rest) = {}" using chain_disjoint[OF ok] by blast
  have sub: "?t \<subseteq> free_units m" using t by (auto simp: free_units_def m)
  show ?thesis
  proof (cases "unat (m_size c) = unat n")
    case True
    then have "mm_list m' = prev @ rest" using sh assms(4) by auto
    moreover have "?t = extent c" using True a by (simp add: extent_def m_end_def)
    ultimately show ?thesis using ok sub chain_disjoint[OF ok]
      by (auto simp: mem_inv_def free_units_def m)
  next
    case False
    let ?c = "c\<lparr>m_addr := m_addr c + n, m_size := m_size c - n\<rparr>"
    have lt: "unat n < unat (m_size c)" using False sh by simp
    have bok: "block_ok c" using ok by simp
    note sp = split_block[OF bok lt]
    have l: "mm_list m' = prev @ ?c # rest" using False sh assms(4) by auto
    have "block_ok ?c" using bok lt sp(2,3) by (simp add: block_ok_def)
    moreover have "\<forall>d\<in>set prev. before d ?c"
    proof
      fix d assume "d \<in> set prev"
      then have "before d c" using ok by simp
      then show "before d ?c" using sp(1) by (simp add: before_def)
    qed
    moreover have "\<forall>d\<in>set rest. before ?c d" using ok sp(2) by (simp add: before_def)
    ultimately have "mem_inv m'" using ok l by (simp add: mem_inv_def)
    moreover have "free_units m' = free_units m - ?t"
      using sp(4) out a by (auto simp: free_units_def m l)
    ultimately show ?thesis using sub by simp
  qed
qed

section \<open>Freeing\<close>

lemma memfree_find_eq:
  "\<forall>c\<in>set prev. \<not> a <s m_addr c \<Longrightarrow> rest = [] \<or> a <s m_addr (hd rest) \<Longrightarrow>
     memfree_find a (prev @ rest) = (prev, rest)"
proof (induction prev)
  case Nil
  then show ?case by (cases rest) auto
qed simp

lemma memfree_find_split:
  "memfree_find a ps = (prev, rest) \<Longrightarrow>
     ps = prev @ rest \<and> (\<forall>c\<in>set prev. \<not> a <s m_addr c) \<and> (rest = [] \<or> a <s m_addr (hd rest))"
  by (induction ps arbitrary: prev) (auto split: if_splits prod.splits)

text \<open>The four tests, read over the extents.\<close>

definition fits_below :: "mem_map list \<Rightarrow> nat \<Rightarrow> bool" where
  "fits_below prev a \<longleftrightarrow> prev = [] \<or> m_end (last prev) \<le> a"

definition fits_above :: "mem_map list \<Rightarrow> nat \<Rightarrow> bool" where
  "fits_above rest e \<longleftrightarrow> rest = [] \<or> e \<le> unat (m_addr (hd rest))"

definition touches_below :: "mem_map list \<Rightarrow> nat \<Rightarrow> bool" where
  "touches_below prev a \<longleftrightarrow> prev \<noteq> [] \<and> m_end (last prev) = a"

definition touches_above :: "mem_map list \<Rightarrow> nat \<Rightarrow> bool" where
  "touches_above rest e \<longleftrightarrow> rest \<noteq> [] \<and> unat (m_addr (hd rest)) = e"

lemmas touch_defs = fits_below_def fits_above_def touches_below_def touches_above_def

lemma block_ok_bounds:
  "block_ok c \<Longrightarrow> unat (m_addr c) < 2 ^ 63 \<and> unat (m_addr c + m_size c) = m_end c"
  by (simp add: block_ok_def m_end_def unat_add_small)

lemma memfree_type_eq:
  assumes "chain_ok prev" "chain_ok rest" "unat a + unat n < 2 ^ 63"
  shows "memfree_type prev rest n a =
    (if fits_below prev (unat a) then 0 else M_BOVFL)
    OR (if touches_below prev (unat a) then M_BMTCH else 0)
    OR (if fits_above rest (unat a + unat n) then 0 else M_TOVFL)
    OR (if touches_above rest (unat a + unat n) then M_TMTCH else 0)"
proof -
  have an: "unat (a + n) = unat a + unat n" "unat a < 2 ^ 63"
    using assms(3) by (simp_all add: unat_add_small)
  have p: "(a <s m_addr (last prev) + m_size (last prev) \<longleftrightarrow> unat a < m_end (last prev))
      \<and> (m_addr (last prev) + m_size (last prev) = a \<longleftrightarrow> m_end (last prev) = unat a)"
    if "prev \<noteq> []"
  proof -
    have "block_ok (last prev)" using assms(1) that by (simp add: chain_ok_def)
    from block_ok_bounds[OF this] this an(2) show ?thesis
      by (simp add: sless_unat word_unat_eq_iff block_ok_def)
  qed
  have r: "(m_addr c <s a + n \<longleftrightarrow> unat (m_addr c) < unat a + unat n)
      \<and> (a + n = m_addr c \<longleftrightarrow> unat (m_addr c) = unat a + unat n)"
    if "rest = c # cs" for c cs
  proof -
    have "block_ok c" using assms(2) that by simp
    from block_ok_bounds[OF this] assms(3) an(1) show ?thesis
      by (auto simp: sless_unat word_unat_eq_iff)
  qed
  show ?thesis
  proof (cases rest)
    case Nil
    then show ?thesis using p by (cases "prev = []") (auto simp: memfree_type_def touch_defs Let_def)
  next
    case (Cons c cs)
    then show ?thesis using p r[OF Cons]
      by (cases "prev = []") (auto simp: memfree_type_def touch_defs Let_def)
  qed
qed

lemma rt_memfree_eq:
  assumes "mem_inv m" "0 < unat n" "unat a + unat n < 2 ^ 63"
    and "memfree_find a (mm_list m) = (prev, rest)"
  defines "e \<equiv> unat a + unat n"
  shows "rt_memfree n a m =
    (if \<not> fits_below prev (unat a) \<or> \<not> fits_above rest e then m
     else if touches_below prev (unat a) \<and> touches_above rest e
     then m\<lparr>mm_list := butlast prev
              @ (last prev)\<lparr>m_size := m_size (last prev) + (n + m_size (hd rest))\<rparr> # tl rest,
            freemap := hd rest # freemap m\<rparr>
     else if touches_below prev (unat a)
     then m\<lparr>mm_list := butlast prev @ (last prev)\<lparr>m_size := m_size (last prev) + n\<rparr> # rest\<rparr>
     else if touches_above rest e
     then m\<lparr>mm_list := prev
              @ (hd rest)\<lparr>m_size := m_size (hd rest) + n, m_addr := m_addr (hd rest) - n\<rparr> # tl rest\<rparr>
     else m\<lparr>mm_list := prev @ \<lparr>m_size = n, m_addr = a\<rparr> # rest, freemap := tl (freemap m)\<rparr>)"
proof -
  have ps: "mm_list m = prev @ rest" using memfree_find_split[OF assms(4)] by simp
  then have ok: "chain_ok prev" "chain_ok rest" using assms(1) by (simp_all add: mem_inv_def)
  have "n \<noteq> 0" using assms(2) by auto
  then show ?thesis
    unfolding rt_memfree_def memfree_type_eq[OF ok assms(3)] assms(4) e_def[symmetric]
      prod.case Let_def
    by (simp add: M_defs)
qed

text \<open>An extent overlaps the free units exactly when it does not fit between its
  neighbours.\<close>

lemma memfree_pos:
  assumes "mem_inv m" "unat a < 2 ^ 63" "memfree_find a (mm_list m) = (prev, rest)"
  shows "mm_list m = prev @ rest" "chain_ok prev" "chain_ok rest" "\<forall>c\<in>set prev. \<forall>d\<in>set rest. before c d"
    "\<forall>c\<in>set prev. unat (m_addr c) \<le> unat a" "rest \<noteq> [] \<Longrightarrow> unat a < unat (m_addr (hd rest))"
proof -
  note sp = memfree_find_split[OF assms(3)]
  show ps: "mm_list m = prev @ rest" using sp by simp
  show ok: "chain_ok prev" "chain_ok rest" "\<forall>c\<in>set prev. \<forall>d\<in>set rest. before c d"
    using assms(1) ps by (simp_all add: mem_inv_def)
  have lt: "a <s m_addr c \<longleftrightarrow> unat a < unat (m_addr c)" if "c \<in> set prev \<union> set rest" for c
  proof -
    have "block_ok c" using that ok(1,2) by (auto simp: chain_ok_def)
    then show ?thesis using assms(2) block_ok_bounds by (intro sless_unat) auto
  qed
  show "\<forall>c\<in>set prev. unat (m_addr c) \<le> unat a" using sp lt by (auto simp: not_less)
  show "unat a < unat (m_addr (hd rest))" if "rest \<noteq> []" using sp lt[of "hd rest"] that by auto
qed

lemma last_end_max:
  assumes "chain_ok prev" "c \<in> set prev"
  shows "m_end c \<le> m_end (last prev)"
proof (cases prev rule: rev_cases)
  case (snoc ys y)
  then show ?thesis using assms by (auto simp: before_def m_end_def)
qed (use assms in simp)

lemma units_bound:
  "chain_ok prev \<Longrightarrow> x \<in> units_of prev \<Longrightarrow> prev \<noteq> [] \<and> x < m_end (last prev)"
  using last_end_max by (fastforce simp: units_of_def extent_def)

lemma units_lower:
  assumes "chain_ok rest" "x \<in> units_of rest"
  shows "rest \<noteq> [] \<and> unat (m_addr (hd rest)) \<le> x"
  using assms by (cases rest) (auto simp: units_of_def extent_def before_def m_end_def)

lemma overlap_iff:
  assumes "chain_ok prev" "chain_ok rest" "0 < n"
    and "\<forall>c\<in>set prev. unat (m_addr c) \<le> a" "rest \<noteq> [] \<Longrightarrow> a < unat (m_addr (hd rest))"
  shows "{a..<a + n} \<inter> (units_of prev \<union> units_of rest) = {}
    \<longleftrightarrow> fits_below prev a \<and> fits_above rest (a + n)"
proof
  assume d: "{a..<a + n} \<inter> (units_of prev \<union> units_of rest) = {}"
  show "fits_below prev a \<and> fits_above rest (a + n)"
  proof (rule ccontr)
    assume "\<not> (fits_below prev a \<and> fits_above rest (a + n))"
    then consider "prev \<noteq> []" "a < m_end (last prev)"
      | "rest \<noteq> []" "unat (m_addr (hd rest)) < a + n" by (auto simp: touch_defs)
    then show False
    proof cases
      case 1
      then have "a \<in> extent (last prev)" using assms(4) by (simp add: extent_def)
      then have "a \<in> units_of prev" using 1 by (auto simp: units_of_def)
      moreover have "a \<in> {a..<a + n}" using assms(3) by simp
      ultimately show False using d by blast
    next
      case 2
      then have "0 < unat (m_size (hd rest))" using assms(2) by (cases rest) (auto simp: block_ok_def)
      then have "unat (m_addr (hd rest)) \<in> extent (hd rest)" by (simp add: extent_def m_end_def)
      then have "unat (m_addr (hd rest)) \<in> units_of rest" using 2 by (auto simp: units_of_def)
      moreover have "unat (m_addr (hd rest)) \<in> {a..<a + n}" using 2 assms(5)[OF 2(1)] by simp
      ultimately show False using d by blast
    qed
  qed
next
  assume f: "fits_below prev a \<and> fits_above rest (a + n)"
  have "\<not> (a \<le> x)" if "x \<in> units_of prev" for x
    using units_bound[OF assms(1) that] f by (auto simp: touch_defs)
  moreover have "\<not> (x < a + n)" if "x \<in> units_of rest" for x
    using units_lower[OF assms(2) that] f by (auto simp: touch_defs)
  ultimately show "{a..<a + n} \<inter> (units_of prev \<union> units_of rest) = {}" by fastforce
qed

text \<open>Growing a block upwards or downwards.\<close>

lemma grow_up:
  assumes "block_ok c" "m_end c + unat n < 2 ^ 63"
  defines "c' \<equiv> c\<lparr>m_size := m_size c + n\<rparr>"
  shows "block_ok c'" "m_end c' = m_end c + unat n" "extent c' = extent c \<union> {m_end c..<m_end c + unat n}"
proof -
  have "unat (m_size c + n) = unat (m_size c) + unat n"
    using assms by (intro unat_add_small) (simp add: m_end_def)
  then show e: "m_end c' = m_end c + unat n" by (simp add: m_end_def c'_def)
  show "block_ok c'" using assms e by (auto simp: block_ok_def unat_add_small m_end_def)
  show "extent c' = extent c \<union> {m_end c..<m_end c + unat n}"
    using e by (auto simp: extent_def c'_def m_end_def)
qed

lemma grow_down:
  assumes "block_ok c" "a + unat n = unat (m_addr c)"
  defines "c' \<equiv> c\<lparr>m_size := m_size c + n, m_addr := m_addr c - n\<rparr>"
  shows "block_ok c'" "m_end c' = m_end c" "unat (m_addr c') = a" "extent c' = extent c \<union> {a..<a + unat n}"
proof -
  have s: "unat (m_size c') = unat (m_size c) + unat n"
    unfolding c'_def using assms by (simp add: unat_add_small block_ok_def m_end_def)
  show a: "unat (m_addr c') = a" unfolding c'_def using assms(2) by (simp add: unat_sub_small)
  show e: "m_end c' = m_end c" using s a assms(2) by (simp add: m_end_def)
  show "block_ok c'" using assms(1) s e by (simp add: block_ok_def)
  show "extent c' = extent c \<union> {a..<a + unat n}"
    using e a assms(2) by (auto simp: extent_def m_end_def)
qed

text \<open>The extents given back, in the four cases of the \<open>switch\<close>.\<close>

lemma rt_memfree_gives:
  assumes "mem_inv m" "0 < unat n" "unat a + unat n < 2 ^ 63"
    and dis: "{unat a..<unat a + unat n} \<inter> free_units m = {}"
  shows "mem_inv (rt_memfree n a m)
    \<and> free_units (rt_memfree n a m) = free_units m \<union> {unat a..<unat a + unat n}"
proof -
  obtain prev rest where f: "memfree_find a (mm_list m) = (prev, rest)" by fastforce
  let ?T = "{unat a..<unat a + unat n}" and ?e = "unat a + unat n"
  have a63: "unat a < 2 ^ 63" using assms(3) by simp
  note pos = memfree_pos[OF assms(1) a63 f]
  have "{unat a..<unat a + unat n} \<inter> (units_of prev \<union> units_of rest) = {}"
    using dis by (simp add: free_units_def pos(1))
  then have fits: "fits_below prev (unat a)" "fits_above rest ?e"
    using overlap_iff[OF pos(2,3) assms(2) pos(5,6)] by blast+
  have below: "\<forall>c\<in>set prev. m_end c \<le> unat a"
    using last_end_max[OF pos(2)] fits(1) by (fastforce simp: touch_defs)
  have above: "\<forall>d\<in>set rest. ?e \<le> unat (m_addr d)"
    using units_lower[OF pos(3)] fits(2) pos(3) by (cases rest) (auto simp: touch_defs before_def m_end_def)
  note eq = rt_memfree_eq[OF assms(1-3) f]
  show ?thesis
  proof (cases "touches_below prev (unat a)")
    case tb: True
    then obtain p x where p: "prev = p @ [x]" and x: "m_end x = unat a"
      by (cases prev rule: rev_cases) (auto simp: touch_defs)
    have xok: "block_ok x" and px: "\<forall>c\<in>set p. before c x" using pos(2) p by auto
    show ?thesis
    proof (cases "touches_above rest ?e")
      case ta: True
      then obtain y r where r: "rest = y # r" and y: "unat (m_addr y) = ?e"
        by (cases rest) (auto simp: touch_defs)
      have yok: "block_ok y" and yr: "\<forall>d\<in>set r. before y d" using pos(3) r by auto
      have ny: "unat (n + m_size y) = unat n + unat (m_size y)"
        using yok y assms(3) by (intro unat_add_small) (simp add: block_ok_def m_end_def)
      then have ye: "m_end x + unat (n + m_size y) = m_end y" using x y by (simp add: m_end_def)
      then have "m_end x + unat (n + m_size y) < 2 ^ 63" using yok by (simp add: block_ok_def)
      note g = grow_up[OF xok this, unfolded ye]
      have l: "mm_list (rt_memfree n a m)
          = p @ x\<lparr>m_size := m_size x + (n + m_size y)\<rparr> # r"
        using eq fits tb ta by (simp add: p r)
      have "{m_end x..<m_end y} = ?T \<union> extent y" using x y by (auto simp: extent_def m_end_def)
      then show ?thesis
        using g l pos(2,3,4) px yr
        by (auto simp: mem_inv_def free_units_def pos(1) p r before_def)
    next
      case ta: False
      have "m_end x + unat n < 2 ^ 63" using x assms(3) by simp
      note g = grow_up[OF xok this, unfolded x]
      have l: "mm_list (rt_memfree n a m) = p @ x\<lparr>m_size := m_size x + n\<rparr> # rest"
        using eq fits tb ta by (simp add: p)
      have "\<forall>d\<in>set rest. ?e < unat (m_addr d)"
        using above ta pos(3) by (cases rest) (auto simp: touch_defs before_def m_end_def)
      then show ?thesis using g l pos(2,3,4) px
        by (auto simp: mem_inv_def free_units_def pos(1) p before_def)
    qed
  next
    case tb: False
    have lt: "\<forall>c\<in>set prev. m_end c < unat a"
    proof
      fix c assume c: "c \<in> set prev"
      then have "prev \<noteq> []" by auto
      then have "m_end (last prev) < unat a"
        using below tb by (auto simp: touch_defs order.order_iff_strict)
      with last_end_max[OF pos(2) c] show "m_end c < unat a" by simp
    qed
    show ?thesis
    proof (cases "touches_above rest ?e")
      case ta: True
      then obtain y r where r: "rest = y # r" and y: "unat (m_addr y) = ?e"
        by (cases rest) (auto simp: touch_defs)
      have yok: "block_ok y" and yr: "\<forall>d\<in>set r. before y d" using pos(3) r by auto
      note g = grow_down[OF yok y[symmetric]]
      have l: "mm_list (rt_memfree n a m)
          = prev @ y\<lparr>m_size := m_size y + n, m_addr := m_addr y - n\<rparr> # r"
        using eq fits tb ta by (simp add: r)
      show ?thesis using g l pos(2,3,4) lt yr
        by (auto simp: mem_inv_def free_units_def pos(1) r before_def)
    next
      case ta: False
      let ?c = "\<lparr>m_size = n, m_addr = a\<rparr>"
      have l: "mm_list (rt_memfree n a m) = prev @ ?c # rest" using eq fits tb ta by simp
      have "\<forall>d\<in>set rest. ?e < unat (m_addr d)"
        using above ta pos(3) by (cases rest) (auto simp: touch_defs before_def m_end_def)
      then show ?thesis using l pos(2,3,4) lt assms(2,3)
        by (auto simp: mem_inv_def free_units_def pos(1) before_def block_ok_def m_end_def extent_def)
    qed
  qed
qed

lemma rt_memfree_refuses:
  assumes "mem_inv m" "0 < unat n" "unat a + unat n < 2 ^ 63"
    and dis: "{unat a..<unat a + unat n} \<inter> free_units m \<noteq> {}"
  shows "rt_memfree n a m = m"
proof -
  obtain prev rest where f: "memfree_find a (mm_list m) = (prev, rest)" by fastforce
  have a63: "unat a < 2 ^ 63" using assms(3) by simp
  note pos = memfree_pos[OF assms(1) a63 f]
  have "{unat a..<unat a + unat n} \<inter> (units_of prev \<union> units_of rest) \<noteq> {}"
    using dis by (simp add: free_units_def pos(1))
  then have "\<not> fits_below prev (unat a) \<or> \<not> fits_above rest (unat a + unat n)"
    using overlap_iff[OF pos(2,3) assms(2) pos(5,6)] by blast
  then show ?thesis using rt_memfree_eq[OF assms(1-3) f] by simp
qed

text \<open>Giving an allocation back restores the map, chain and spare structures alike.\<close>

lemma rt_memalloc_restore:
  assumes "mem_inv m" "0 < unat n" "memalloc_find n (mm_list m) = Some (prev, c, rest)"
    and "rt_memalloc n m = (a, m')"
  shows "rt_memfree n a m' = m"
proof -
  note sh = rt_memalloc_shape[OF assms(1-3)]
  then have m: "mm_list m = prev @ c # rest" and a: "a = m_addr c" using assms(4) by auto
  have ok: "chain_ok (prev @ c # rest)" using assms(1) m by (simp add: mem_inv_def)
  then have bc: "block_ok c" "\<forall>d\<in>set prev. before d c" "\<forall>d\<in>set rest. before c d" by auto
  have an: "unat a + unat n < 2 ^ 63" using bc(1) sh a by (simp add: block_ok_def m_end_def)
  have inv': "mem_inv m'" using rt_memalloc_takes[OF assms] by simp
  have prev: "\<forall>d\<in>set prev. \<not> a <s m_addr d"
  proof
    fix d assume d: "d \<in> set prev"
    then have "block_ok d" "before d c" using ok bc(2) by (auto simp: chain_ok_def)
    then show "\<not> a <s m_addr d"
      using block_ok_bounds[OF \<open>block_ok d\<close>] a an by (simp add: sless_unat before_def m_end_def)
  qed
  have tb: "fits_below prev (unat a)" "\<not> touches_below prev (unat a)"
    using bc(2) by (cases prev rule: rev_cases; force simp: touch_defs before_def a)+
  show ?thesis
  proof (cases "unat (m_size c) = unat n")
    case True
    then have m': "m' = m\<lparr>mm_list := prev @ rest,
        freemap := c\<lparr>m_addr := m_addr c + n, m_size := 0\<rparr> # freemap m\<rparr>" using sh assms(4) by auto
    have r: "\<forall>d\<in>set rest. unat a + unat n < unat (m_addr d) \<and> unat (m_addr d) < 2 ^ 63"
      using bc(3) True a ok block_ok_bounds by (auto simp: before_def m_end_def chain_ok_def)
    then have "rest = [] \<or> a <s m_addr (hd rest)"
      using an by (cases rest) (auto simp: sless_unat)
    then have "memfree_find a (mm_list m') = (prev, rest)" using prev by (simp add: m' memfree_find_eq)
    from rt_memfree_eq[OF inv' assms(2) an this] tb r have
      "rt_memfree n a m' = m'\<lparr>mm_list := prev @ \<lparr>m_size = n, m_addr = a\<rparr> # rest, freemap := tl (freemap m')\<rparr>"
      by (cases rest) (auto simp: touch_defs)
    moreover have "\<lparr>m_size = n, m_addr = a\<rparr> = c" using True a by (simp add: word_unat_eq_iff)
    ultimately show ?thesis using m by (simp add: m')
  next
    case False
    let ?c = "c\<lparr>m_addr := m_addr c + n, m_size := m_size c - n\<rparr>"
    have lt: "unat n < unat (m_size c)" using False sh by simp
    have m': "m' = m\<lparr>mm_list := prev @ ?c # rest\<rparr>" using False sh assms(4) by auto
    note sp = split_block[OF bc(1) lt]
    have "unat (m_addr ?c) < 2 ^ 63" using sp(1) an a by simp
    then have "a <s m_addr ?c" using an sp(1) a assms(2) by (simp add: sless_unat)
    then have "memfree_find a (mm_list m') = (prev, ?c # rest)" using prev by (simp add: m' memfree_find_eq)
    moreover have "fits_above (?c # rest) (unat a + unat n)" "touches_above (?c # rest) (unat a + unat n)"
      using sp(1) a by (simp_all add: touch_defs)
    ultimately show ?thesis
      using rt_memfree_eq[OF inv' assms(2) an] tb m by (simp add: m')
  qed
qed

section \<open>Best fit\<close>

definition best_fit :: "size_t \<Rightarrow> mem_map list \<Rightarrow> nat option \<Rightarrow> bool" where
  "best_fit n ps r \<longleftrightarrow> (case r of
     None \<Rightarrow> \<forall>c\<in>set ps. m_size c < n
   | Some i \<Rightarrow> i < length ps \<and> n \<le> m_size (ps ! i)
        \<and> (\<forall>c\<in>set ps. n \<le> m_size c \<longrightarrow> m_size (ps ! i) \<le> m_size c))"

lemma best_fit_prefix:
  assumes "best_fit n ps (Some j)"
  shows "(ps @ qs) ! j = ps ! j"
  using assms by (simp add: best_fit_def nth_append)

lemma nosplit_loop_best:
  "best_fit n done best \<Longrightarrow> best_fit n (done @ cs) (nosplit_loop n (done @ cs) cs (length done) best)"
proof (induction cs arbitrary: "done" best)
  case (Cons c cs)
  have IH: "best_fit n (done @ [c]) b \<Longrightarrow>
      best_fit n (done @ c # cs) (nosplit_loop n (done @ c # cs) cs (length done + 1) b)" for b
    using Cons.IH[of "done @ [c]" b] by simp
  have skip: "best_fit n (done @ [c]) best" if "m_size c < n"
    using that Cons.prems by (cases best) (auto simp: best_fit_def nth_append)
  have keep: "best_fit n (done @ [c]) best" if "best = Some j" "m_size (done ! j) \<le> m_size c" for j
    using that Cons.prems by (auto simp: best_fit_def nth_append)
  have this_one: "best_fit n (done @ [c]) (Some (length done))"
    if "n \<le> m_size c" "\<And>j. best = Some j \<Longrightarrow> m_size c \<le> m_size (done ! j)"
  proof (cases best)
    case None
    then have "\<forall>x\<in>set done. \<not> n \<le> m_size x" using Cons.prems by (auto simp: best_fit_def)
    then show ?thesis using that(1) by (auto simp: best_fit_def nth_append)
  next
    case (Some j)
    then have "\<forall>x\<in>set done. n \<le> m_size x \<longrightarrow> m_size c \<le> m_size x"
      using Cons.prems that(2)[OF Some] by (auto simp: best_fit_def intro: order_trans)
    then show ?thesis using that(1) by (auto simp: best_fit_def nth_append)
  qed
  have exact: "best_fit n (done @ c # cs) (Some (length done))" if "m_size c = n"
    using that by (auto simp: best_fit_def nth_append)
  have nthd: "(done @ c # cs) ! j = done ! j" if "best = Some j" for j
    using Cons.prems that best_fit_prefix by blast
  show ?case
  proof (cases "m_size c < n \<or> m_size c = n")
    case True
    then show ?thesis using IH[OF skip] exact by auto
  next
    case False
    then have "n \<le> m_size c" by auto
    then show ?thesis
      using False IH[OF keep] IH[OF this_one] nthd
      by (cases best) (auto simp: not_less intro: less_imp_le)
  qed
qed simp

lemma rt_memalloc_nosplit_takes:
  assumes "mem_inv m" "rt_memalloc_nosplit n m = (Some b, m')"
  shows "mem_inv m' \<and> block_ok b \<and> unat n \<le> unat (m_size b) \<and> b \<in> set (mm_list m)
    \<and> extent b \<subseteq> free_units m \<and> free_units m' = free_units m - extent b
    \<and> (\<forall>c\<in>set (mm_list m). n \<le> m_size c \<longrightarrow> m_size b \<le> m_size c)"
proof -
  let ?ps = "mm_list m"
  obtain i where i: "nosplit_loop n ?ps ?ps 0 None = Some i" and b: "b = ?ps ! i"
    and m': "mm_list m' = take i ?ps @ drop (Suc i) ?ps"
    using assms(2) by (auto simp: rt_memalloc_nosplit_def Let_def split: if_splits option.splits)
  have bf: "best_fit n ?ps (Some i)"
    using nosplit_loop_best[of n "[]" None ?ps] i by (simp add: best_fit_def)
  then have il: "i < length ?ps" by (simp add: best_fit_def)
  have ps: "?ps = take i ?ps @ b # drop (Suc i) ?ps" unfolding b by (rule id_take_nth_drop[OF il])
  have ok: "chain_ok (take i ?ps @ b # drop (Suc i) ?ps)" using assms(1) ps by (simp add: mem_inv_def)
  have "free_units m = units_of (take i ?ps) \<union> extent b \<union> units_of (drop (Suc i) ?ps)"
    unfolding free_units_def by (subst ps) auto
  then have "extent b \<subseteq> free_units m \<and> free_units m' = free_units m - extent b"
    using chain_disjoint[OF ok] by (auto simp: free_units_def m')
  moreover have "mem_inv m'" "block_ok b" using ok by (simp_all add: mem_inv_def m')
  ultimately show ?thesis using bf b il by (auto simp: best_fit_def word_le_nat_alt)
qed

lemma rt_memalloc_nosplit_None:
  assumes "rt_memalloc_nosplit n m = (None, m')"
  shows "m' = m \<and> (n = 0 \<or> (\<forall>c\<in>set (mm_list m). m_size c < n))"
proof -
  have "n = 0 \<or> nosplit_loop n (mm_list m) (mm_list m) 0 None = None"
    using assms by (auto simp: rt_memalloc_nosplit_def Let_def split: if_splits option.splits)
  moreover have "m' = m" using assms
    by (auto simp: rt_memalloc_nosplit_def Let_def split: if_splits option.splits)
  ultimately show ?thesis
    using nosplit_loop_best[of n "[]" None "mm_list m"] by (auto simp: best_fit_def)
qed

section \<open>The interface\<close>

text \<open>What the allocator of database files needs: a set of free units, from which a
  block can be taken and to which an extent can be given back.\<close>

locale extent_map =
  fixes inv :: "'s \<Rightarrow> bool" and units :: "'s \<Rightarrow> nat set"
    and take_block :: "size_t \<Rightarrow> 's \<Rightarrow> mem_map option \<times> 's"
    and give :: "size_t \<Rightarrow> off_t \<Rightarrow> 's \<Rightarrow> 's"
  assumes taken: "inv m \<Longrightarrow> take_block n m = (Some b, m') \<Longrightarrow>
      inv m' \<and> block_ok b \<and> unat n \<le> unat (m_size b)
      \<and> extent b \<subseteq> units m \<and> units m' = units m - extent b"
    and not_taken: "take_block n m = (None, m') \<Longrightarrow> m' = m"
    and given: "inv m \<Longrightarrow> 0 < unat n \<Longrightarrow> unat a + unat n < 2 ^ 63 \<Longrightarrow>
      {unat a..<unat a + unat n} \<inter> units m = {} \<Longrightarrow>
      inv (give n a m) \<and> units (give n a m) = units m \<union> {unat a..<unat a + unat n}"
begin

text \<open>Taking a block and giving the surplus back takes exactly the units asked for.\<close>

lemma take_exact:
  assumes "inv m" "take_block n m = (Some b, m')" "unat n < unat (m_size b)"
  shows "inv (give (m_size b - n) (m_addr b + n) m')
    \<and> units (give (m_size b - n) (m_addr b + n) m')
        = units m - {unat (m_addr b)..<unat (m_addr b) + unat n}
    \<and> {unat (m_addr b)..<unat (m_addr b) + unat n} \<subseteq> units m"
proof -
  note t = taken[OF assms(1,2)]
  then have e: "unat (m_addr b) + unat (m_size b) < 2 ^ 63" by (simp add: block_ok_def m_end_def)
  have a: "unat (m_addr b + n) = unat (m_addr b) + unat n" using e assms(3) by (simp add: unat_add_small)
  have s: "unat (m_size b - n) = unat (m_size b) - unat n" using assms(3) by (simp add: unat_sub_small)
  have sum: "unat (m_addr b + n) + unat (m_size b - n) = m_end b"
    using a s assms(3) by (simp add: m_end_def)
  have sub: "{unat (m_addr b + n)..<m_end b} \<subseteq> extent b" by (auto simp: extent_def a)
  have "0 < unat (m_size b - n)" using s assms(3) by simp
  moreover have "unat (m_addr b + n) + unat (m_size b - n) < 2 ^ 63" using sum e by (simp add: m_end_def)
  moreover have "{unat (m_addr b + n)..<unat (m_addr b + n) + unat (m_size b - n)} \<inter> units m' = {}"
    using t sub unfolding sum by blast
  ultimately have g: "inv (give (m_size b - n) (m_addr b + n) m')"
    "units (give (m_size b - n) (m_addr b + n) m') = units m' \<union> {unat (m_addr b) + unat n..<m_end b}"
    using given t sum a by auto
  have "extent b = {unat (m_addr b)..<unat (m_addr b) + unat n} \<union> {unat (m_addr b) + unat n..<m_end b}"
    using assms(3) by (auto simp: extent_def m_end_def)
  then show ?thesis using g t by auto
qed

end

interpretation resmap: extent_map mem_inv free_units rt_memalloc_nosplit rt_memfree
proof unfold_locales
  show "mem_inv m' \<and> block_ok b \<and> unat n \<le> unat (m_size b) \<and> extent b \<subseteq> free_units m
      \<and> free_units m' = free_units m - extent b"
    if "mem_inv m" "rt_memalloc_nosplit n m = (Some b, m')" for m n b m'
    using rt_memalloc_nosplit_takes[OF that] by simp
qed (use rt_memalloc_nosplit_None rt_memfree_gives in auto)

section \<open>Alignment\<close>

definition aligned8 :: "mem_map \<Rightarrow> bool" where
  "aligned8 c \<longleftrightarrow> 8 dvd unat (m_addr c) \<and> 8 dvd unat (m_size c)"

definition mem_aligned :: "rt_mem \<Rightarrow> bool" where
  "mem_aligned m \<longleftrightarrow> (\<forall>c\<in>set (mm_list m). aligned8 c)"

lemma dvd_add_word:
  fixes x y :: "64 word"
  assumes "8 dvd unat x" "8 dvd unat y"
  shows "8 dvd unat (x + y)" "8 dvd unat (x - y)"
proof -
  have d: "8 dvd unat (of_nat k :: 64 word)" if "8 dvd k" for k
    using that by (simp add: unat_of_nat dvd_mod)
  from assms have "8 dvd unat x + unat y" "8 dvd unat x + (2 ^ 64 - unat y)" by auto
  moreover have "x + y = of_nat (unat x + unat y)" by simp
  moreover have "x - y = of_nat (unat x + (2 ^ 64 - unat y))"
  proof -
    have "unat y \<le> 2 ^ 64" using unsigned_less[of y, where ?'a=nat] by simp
    then show ?thesis by (simp add: of_nat_diff)
  qed
  ultimately show "8 dvd unat (x + y)" "8 dvd unat (x - y)" using d by metis+
qed

lemma rt_memfree_aligned:
  assumes "mem_inv m" "mem_aligned m" "0 < unat n" "unat a + unat n < 2 ^ 63"
    and "8 dvd unat a" "8 dvd unat n"
  shows "mem_aligned (rt_memfree n a m)"
proof -
  obtain prev rest where f: "memfree_find a (mm_list m) = (prev, rest)" by fastforce
  then have ps: "mm_list m = prev @ rest" using memfree_find_split[OF f] by simp
  have al: "\<forall>c\<in>set prev. aligned8 c" "\<forall>c\<in>set rest. aligned8 c"
    using assms(2) ps by (auto simp: mem_aligned_def)
  have bl: "\<forall>c\<in>set (butlast prev). aligned8 c" "\<forall>c\<in>set (tl rest). aligned8 c"
    using al by (auto dest: in_set_butlastD) (cases rest; simp)
  have la: "prev \<noteq> [] \<Longrightarrow> aligned8 (last prev)" "rest \<noteq> [] \<Longrightarrow> aligned8 (hd rest)" using al by auto
  show ?thesis
    unfolding rt_memfree_eq[OF assms(1,3,4) f]
    using assms(2,5,6) al bl la
    by (auto simp: mem_aligned_def aligned8_def touches_below_def touches_above_def dvd_add_word)
qed

locale aligned_extent_map = extent_map +
  fixes aligned :: "'a \<Rightarrow> bool"
  assumes taken_aligned: "inv m \<Longrightarrow> aligned m \<Longrightarrow> take_block n m = (Some b, m') \<Longrightarrow>
      aligned m' \<and> aligned8 b"
    and given_aligned: "inv m \<Longrightarrow> aligned m \<Longrightarrow> 0 < unat n \<Longrightarrow> unat a + unat n < 2 ^ 63 \<Longrightarrow>
      8 dvd unat a \<Longrightarrow> 8 dvd unat n \<Longrightarrow> aligned (give n a m)"
begin

lemma take_exact_aligned:
  assumes "inv m" "aligned m" "take_block n m = (Some b, m')" "unat n < unat (m_size b)" "8 dvd unat n"
  shows "aligned (give (m_size b - n) (m_addr b + n) m')"
proof -
  note t = taken[OF assms(1,3)] and al = taken_aligned[OF assms(1-3)]
  then have e: "unat (m_addr b) + unat (m_size b) < 2 ^ 63" by (simp add: block_ok_def m_end_def)
  have "unat (m_addr b + n) = unat (m_addr b) + unat n" using e assms(4) by (simp add: unat_add_small)
  moreover have "unat (m_size b - n) = unat (m_size b) - unat n"
    using assms(4) by (simp add: unat_sub_small)
  ultimately show ?thesis
    using t al e assms(4,5) by (intro given_aligned) (auto simp: aligned8_def)
qed

end

interpretation resmap8: aligned_extent_map mem_inv free_units rt_memalloc_nosplit rt_memfree mem_aligned
proof unfold_locales
  show "mem_aligned m' \<and> aligned8 b"
    if "mem_inv m" "mem_aligned m" "rt_memalloc_nosplit n m = (Some b, m')" for m n b m'
  proof -
    have "set (mm_list m') \<subseteq> set (mm_list m)"
      using that(3) by (auto simp: rt_memalloc_nosplit_def Let_def split: if_splits option.splits
          dest: in_set_takeD in_set_dropD)
    moreover have "b \<in> set (mm_list m)" using rt_memalloc_nosplit_takes[OF that(1,3)] by simp
    ultimately show ?thesis using that(2) by (auto simp: mem_aligned_def)
  qed
qed (use rt_memfree_aligned in auto)

section \<open>Properties\<close>

text \<open>Whenever some free extent is large enough, \<open>rt_memalloc\<close> takes its units from the
  lowest such extent: the units returned were free and are no longer, nothing else
  changes, the chain stays sorted and coalesced, and giving the units back with
  \<open>rt_memfree\<close> restores the map exactly, spare structures included.\<close>

theorem memalloc_first_fit:
  assumes "mem_inv m" "0 < unat n" "c \<in> set (mm_list m)" "n \<le> m_size c"
  shows "\<exists>a m'. rt_memalloc n m = (a, m') \<and> mem_inv m'
    \<and> {unat a..<unat a + unat n} \<subseteq> free_units m
    \<and> free_units m' = free_units m - {unat a..<unat a + unat n}
    \<and> rt_memfree n a m' = m
    \<and> (\<forall>d\<in>set (mm_list m). n \<le> m_size d \<longrightarrow> unat a \<le> unat (m_addr d))"
proof -
  obtain prev d rest where f: "memalloc_find n (mm_list m) = Some (prev, d, rest)"
    using memalloc_find_None[of n "mm_list m"] assms(3,4)
    by (cases "memalloc_find n (mm_list m)") (auto simp: word_le_nat_alt)
  note sh = rt_memalloc_shape[OF assms(1,2) f]
  obtain a m' where r: "rt_memalloc n m = (a, m')" by fastforce
  then have a: "a = m_addr d" using sh by (auto split: if_splits)
  have "chain_ok (prev @ d # rest)" using assms(1) sh by (simp add: mem_inv_def)
  then have after: "\<forall>x\<in>set rest. before d x" by simp
  have small: "\<forall>x\<in>set prev. \<not> n \<le> m_size x"
    using memalloc_find_Some[OF f] by (auto simp: word_le_nat_alt)
  have "unat a \<le> unat (m_addr x)" if "x \<in> set (mm_list m)" "n \<le> m_size x" for x
  proof -
    have "x = d \<or> x \<in> set rest" using that small sh by auto
    then show ?thesis using after a by (auto simp: before_def m_end_def)
  qed
  with r rt_memalloc_takes[OF assms(1,2) f r] rt_memalloc_restore[OF assms(1,2) f r]
  show ?thesis by auto
qed

lemma memalloc_first_fit_witness:
  "\<exists>a m'. rt_memalloc 4 \<lparr>mm_list = [\<lparr>m_size = 2, m_addr = 8\<rparr>, \<lparr>m_size = 6, m_addr = 16\<rparr>], freemap = []\<rparr>
      = (a, m') \<and> mem_inv m' \<and> unat a \<le> 16"
proof -
  let ?m = "\<lparr>mm_list = [\<lparr>m_size = 2, m_addr = 8\<rparr>, \<lparr>m_size = 6, m_addr = 16\<rparr>], freemap = []\<rparr>"
  have "mem_inv ?m" by (simp add: mem_inv_def block_ok_def m_end_def before_def)
  from memalloc_first_fit[OF this, of 4 "\<lparr>m_size = 6, m_addr = 16\<rparr>"] show ?thesis by auto
qed

text \<open>C27: \<open>rt_memfree\<close> adds exactly the units given back and keeps the chain sorted and
  coalesced, whichever of the four cases of its \<open>switch\<close> applies; an extent that overlaps
  a free unit is refused and the map stays as it is.\<close>

theorem memfree_coalesces:
  assumes "mem_inv m" "0 < unat n" "unat a + unat n < 2 ^ 63"
  shows "if {unat a..<unat a + unat n} \<inter> free_units m = {}
    then mem_inv (rt_memfree n a m)
      \<and> free_units (rt_memfree n a m) = free_units m \<union> {unat a..<unat a + unat n}
    else rt_memfree n a m = m"
  using rt_memfree_gives[OF assms] rt_memfree_refuses[OF assms] by simp

lemma memfree_coalesces_witness:
  "free_units (rt_memfree 8 24 \<lparr>mm_list = [\<lparr>m_size = 16, m_addr = 8\<rparr>, \<lparr>m_size = 8, m_addr = 32\<rparr>], freemap = []\<rparr>)
     = {8..<40}"
proof -
  let ?m = "\<lparr>mm_list = [\<lparr>m_size = 16, m_addr = 8\<rparr>, \<lparr>m_size = 8, m_addr = 32\<rparr>], freemap = []\<rparr>"
  have inv: "mem_inv ?m" by (simp add: mem_inv_def block_ok_def m_end_def before_def)
  have units: "free_units ?m = {8..<24} \<union> {32..<40}" by (simp add: free_units_def extent_def m_end_def)
  have "{unat (24 :: off_t)..<unat (24 :: off_t) + unat (8 :: size_t)} \<inter> free_units ?m = {}"
    unfolding units by auto
  then have *: "free_units (rt_memfree 8 24 ?m) = free_units ?m \<union> {24..<32}"
    using memfree_coalesces[OF inv, of 8 24] by simp
  have eq: "{8..<24} \<union> {32..<40} \<union> {24..<32} = {8..<40::nat}" by auto
  show ?thesis unfolding * units eq ..
qed

text \<open>\<open>rt_memalloc_nosplit\<close> is a best fit: it returns a smallest extent that is large
  enough and removes it whole, and returns nothing only when none is large enough.\<close>

theorem nosplit_best_fit:
  assumes "mem_inv m" "n \<noteq> 0" "rt_memalloc_nosplit n m = (r, m')"
  shows "case r of
      None \<Rightarrow> m' = m \<and> (\<forall>c\<in>set (mm_list m). m_size c < n)
    | Some b \<Rightarrow> mem_inv m' \<and> b \<in> set (mm_list m) \<and> n \<le> m_size b
        \<and> (\<forall>c\<in>set (mm_list m). n \<le> m_size c \<longrightarrow> m_size b \<le> m_size c)
        \<and> free_units m' = free_units m - extent b"
proof (cases r)
  case None
  then show ?thesis using rt_memalloc_nosplit_None[of n m m'] assms by auto
next
  case (Some b)
  then show ?thesis using rt_memalloc_nosplit_takes[OF assms(1), of n b m'] assms(3)
    by (simp add: word_le_nat_alt)
qed

lemma nosplit_best_fit_witness:
  "fst (rt_memalloc_nosplit 4 \<lparr>mm_list = [\<lparr>m_size = 8, m_addr = 8\<rparr>, \<lparr>m_size = 6, m_addr = 32\<rparr>], freemap = []\<rparr>)
     \<noteq> Some \<lparr>m_size = 8, m_addr = 8\<rparr>"
proof -
  let ?m = "\<lparr>mm_list = [\<lparr>m_size = 8, m_addr = 8\<rparr>, \<lparr>m_size = 6, m_addr = 32\<rparr>], freemap = []\<rparr>"
  obtain r m' where r: "rt_memalloc_nosplit 4 ?m = (r, m')" by fastforce
  have "mem_inv ?m" by (simp add: mem_inv_def block_ok_def m_end_def before_def)
  from nosplit_best_fit[OF this _ r] r show ?thesis by auto
qed

end
