(* ===== verification/Db5Codec.thy ===== *)
theory Db5Codec
  imports BrlPrelude
begin

unbundle bit_operations_syntax

text \<open>
  The variable-width length fields of the v5 database format
  (\<open>librt/db5_io.c\<close>: \<open>db5_select_length_encoding\<close>, \<open>db5_encode_length\<close>,
  \<open>db5_decode_length\<close>, \<open>db5_decode_signed\<close>), with the big-endian readers
  \<open>BU_GSHORT\<close>, \<open>BU_GLONG\<close>, \<open>BU_GLONGLONG\<close> of \<open>include/bu/cv.h\<close> and the
  double converters \<open>bu_cv_htond\<close>, \<open>bu_cv_ntohd\<close> of \<open>libbu/htond.c\<close> on a
  little-endian IEEE machine.  A \<open>size_t\<close> has 64 bits.  A pointer into a buffer
  is the list of the bytes from there to the end of the buffer.
\<close>

section \<open>Byte-order macros\<close>


definition BU_GSHORT :: "byte \<Rightarrow> byte \<Rightarrow> 16 word" where
  "BU_GSHORT c0 c1 = push_bit 8 (ucast c0) OR ucast c1"

definition BU_GLONG :: "byte \<Rightarrow> byte \<Rightarrow> byte \<Rightarrow> byte \<Rightarrow> 32 word" where
  "BU_GLONG c0 c1 c2 c3 =
     push_bit 24 (ucast c0) OR push_bit 16 (ucast c1) OR push_bit 8 (ucast c2) OR ucast c3"

definition BU_GLONGLONG ::
  "byte \<Rightarrow> byte \<Rightarrow> byte \<Rightarrow> byte \<Rightarrow> byte \<Rightarrow> byte \<Rightarrow> byte \<Rightarrow> byte \<Rightarrow> 64 word" where
  "BU_GLONGLONG c0 c1 c2 c3 c4 c5 c6 c7 =
     push_bit 56 (ucast c0) OR push_bit 48 (ucast c1) OR push_bit 40 (ucast c2) OR
     push_bit 32 (ucast c3) OR push_bit 24 (ucast c4) OR push_bit 16 (ucast c5) OR
     push_bit 8 (ucast c6) OR ucast c7"

text \<open>The bytes in memory of a value stored through \<open>htons\<close>, \<open>htonl\<close>, \<open>htonll\<close>.\<close>

definition htons_bytes :: "16 word \<Rightarrow> byte list" where
  "htons_bytes v = [ucast (drop_bit 8 v), ucast v]"

definition htonl_bytes :: "32 word \<Rightarrow> byte list" where
  "htonl_bytes v = [ucast (drop_bit 24 v), ucast (drop_bit 16 v), ucast (drop_bit 8 v), ucast v]"

definition htonll_bytes :: "64 word \<Rightarrow> byte list" where
  "htonll_bytes v =
     [ucast (drop_bit 56 v), ucast (drop_bit 48 v), ucast (drop_bit 40 v), ucast (drop_bit 32 v),
      ucast (drop_bit 24 v), ucast (drop_bit 16 v), ucast (drop_bit 8 v), ucast v]"

text \<open>A byte cut out of a word and shifted back fills its own eight bits.\<close>

lemma bit_byte_slot:
  fixes v :: "'a::len word"
  shows "bit (push_bit k (ucast (ucast (drop_bit k v) :: byte)) :: 'a word) n
     \<longleftrightarrow> k \<le> n \<and> n < k + 8 \<and> bit v n"
proof (cases "k \<le> n \<and> n < LENGTH('a)")
  case True
  then have "k + (n - k) = n" "n - k < 8 \<longleftrightarrow> n < k + 8" by auto
  with True show ?thesis by (auto simp: bit_simps)
next
  case False
  then show ?thesis using bit_imp_le_length[of v n] by (auto simp: bit_simps)
qed

lemma bit_low_byte:
  fixes v :: "'a::len word"
  shows "bit (ucast (ucast v :: byte) :: 'a word) n \<longleftrightarrow> n < 8 \<and> bit v n"
  using bit_byte_slot[of 0 v n] by simp

lemma BU_GSHORT_htons:
  "BU_GSHORT (ucast (drop_bit 8 v)) (ucast v) = v" for v :: "16 word"
  by (rule bit_word_eqI)
    (simp add: BU_GSHORT_def bit_or_iff bit_byte_slot bit_low_byte; arith)

lemma BU_GLONG_htonl:
  "BU_GLONG (ucast (drop_bit 24 v)) (ucast (drop_bit 16 v)) (ucast (drop_bit 8 v)) (ucast v) = v"
  for v :: "32 word"
  by (rule bit_word_eqI) (simp add: BU_GLONG_def bit_or_iff bit_byte_slot bit_low_byte; arith)

lemma BU_GLONGLONG_htonll:
  "BU_GLONGLONG (ucast (drop_bit 56 v)) (ucast (drop_bit 48 v)) (ucast (drop_bit 40 v))
     (ucast (drop_bit 32 v)) (ucast (drop_bit 24 v)) (ucast (drop_bit 16 v))
     (ucast (drop_bit 8 v)) (ucast v) = v" for v :: "64 word"
  by (rule bit_word_eqI) (simp add: BU_GLONGLONG_def bit_or_iff bit_byte_slot bit_low_byte; arith)

lemma unat_size_of_nat: "k < 2 ^ 64 \<Longrightarrow> unat (of_nat k :: size_t) = k"
  by (simp add: unsigned_of_nat take_bit_nat_eq_self_iff)

section \<open>Length fields\<close>

definition DB5HDR_WIDTHCODE_8BIT :: nat where "DB5HDR_WIDTHCODE_8BIT = 0"
definition DB5HDR_WIDTHCODE_16BIT :: nat where "DB5HDR_WIDTHCODE_16BIT = 1"
definition DB5HDR_WIDTHCODE_32BIT :: nat where "DB5HDR_WIDTHCODE_32BIT = 2"
definition DB5HDR_WIDTHCODE_64BIT :: nat where "DB5HDR_WIDTHCODE_64BIT = 3"

lemmas widthcode_defs = DB5HDR_WIDTHCODE_8BIT_def DB5HDR_WIDTHCODE_16BIT_def
  DB5HDR_WIDTHCODE_32BIT_def DB5HDR_WIDTHCODE_64BIT_def

definition ENCODE_LEN :: "nat \<Rightarrow> nat" where
  "ENCODE_LEN len = 2 ^ len"

definition db5_select_length_encoding :: "size_t \<Rightarrow> nat" where
  "db5_select_length_encoding len =
     (if len \<le> 255 then DB5HDR_WIDTHCODE_8BIT
      else if len \<le> 65535 then DB5HDR_WIDTHCODE_16BIT
      else if len < 0x7ffffffe then DB5HDR_WIDTHCODE_32BIT
      else DB5HDR_WIDTHCODE_64BIT)"

definition db5_encode_length :: "size_t \<Rightarrow> nat \<Rightarrow> byte list option" where
  "db5_encode_length val format =
     (if format = DB5HDR_WIDTHCODE_8BIT then Some [ucast val AND 0xFF]
      else if format = DB5HDR_WIDTHCODE_16BIT then Some (htons_bytes (ucast val))
      else if format = DB5HDR_WIDTHCODE_32BIT then Some (htonl_bytes (ucast val))
      else if format = DB5HDR_WIDTHCODE_64BIT then Some (htonll_bytes val)
      else None)"

text \<open>The decoders: the value stored through \<open>lenp\<close> and the number of bytes used;
  \<open>None\<close> for an unknown width code (\<open>bu_bomb\<close>) and for a read past the buffer.\<close>

definition db5_decode_length :: "byte list \<Rightarrow> nat \<Rightarrow> (size_t \<times> nat) option" where
  "db5_decode_length cp format =
     (if format = DB5HDR_WIDTHCODE_8BIT then
        (case cp of c0 # _ \<Rightarrow> Some (ucast c0, 1) | _ \<Rightarrow> None)
      else if format = DB5HDR_WIDTHCODE_16BIT then
        (case cp of c0 # c1 # _ \<Rightarrow> Some (ucast (BU_GSHORT c0 c1), 2) | _ \<Rightarrow> None)
      else if format = DB5HDR_WIDTHCODE_32BIT then
        (case cp of c0 # c1 # c2 # c3 # _ \<Rightarrow> Some (ucast (BU_GLONG c0 c1 c2 c3), 4) | _ \<Rightarrow> None)
      else if format = DB5HDR_WIDTHCODE_64BIT then
        (case cp of c0 # c1 # c2 # c3 # c4 # c5 # c6 # c7 # _ \<Rightarrow>
           Some (BU_GLONGLONG c0 c1 c2 c3 c4 c5 c6 c7, 8) | _ \<Rightarrow> None)
      else None)"

definition sign_fill :: "size_t \<Rightarrow> size_t \<Rightarrow> size_t \<Rightarrow> size_t" where
  "sign_fill sbit ones len = (if len AND sbit \<noteq> 0 then len OR (- 1 XOR ones) else len)"

definition db5_decode_signed :: "byte list \<Rightarrow> nat \<Rightarrow> (size_t \<times> nat) option" where
  "db5_decode_signed cp format =
     (if format = DB5HDR_WIDTHCODE_8BIT then
        (case cp of c0 # _ \<Rightarrow> Some (sign_fill 0x80 0xFF (ucast c0), 1) | _ \<Rightarrow> None)
      else if format = DB5HDR_WIDTHCODE_16BIT then
        (case cp of c0 # c1 # _ \<Rightarrow>
           Some (sign_fill 0x8000 0xFFFF (ucast (BU_GSHORT c0 c1)), 2) | _ \<Rightarrow> None)
      else if format = DB5HDR_WIDTHCODE_32BIT then
        (case cp of c0 # c1 # c2 # c3 # _ \<Rightarrow>
           Some (sign_fill 0x80000000 0xFFFFFFFF (ucast (BU_GLONG c0 c1 c2 c3)), 4) | _ \<Rightarrow> None)
      else if format = DB5HDR_WIDTHCODE_64BIT then
        (case cp of c0 # c1 # c2 # c3 # c4 # c5 # c6 # c7 # _ \<Rightarrow>
           Some (BU_GLONGLONG c0 c1 c2 c3 c4 c5 c6 c7, 8) | _ \<Rightarrow> None)
      else None)"

text \<open>The interface of a length codec: what is encoded at a width decodes, in front
  of any other bytes, to the value, using up exactly the encoded bytes.\<close>

locale length_codec =
  fixes enc :: "size_t \<Rightarrow> nat \<Rightarrow> byte list option"
    and dec :: "byte list \<Rightarrow> nat \<Rightarrow> (size_t \<times> nat) option"
    and fits :: "size_t \<Rightarrow> nat \<Rightarrow> bool"
  assumes encodes: "fits v w \<Longrightarrow> \<exists>bs. enc v w = Some bs \<and> length bs = ENCODE_LEN w"
    and decodes: "fits v w \<Longrightarrow> enc v w = Some bs \<Longrightarrow> dec (bs @ rest) w = Some (v, length bs)"
begin

lemma roundtrip:
  assumes "fits v w"
  obtains bs where "enc v w = Some bs" "length bs = ENCODE_LEN w"
    "\<And>rest. dec (bs @ rest) w = Some (v, ENCODE_LEN w)"
proof -
  obtain bs where bs: "enc v w = Some bs" "length bs = ENCODE_LEN w"
    using encodes[OF assms] by blast
  then show ?thesis using that decodes[OF assms bs(1)] by simp
qed

lemma enc_inj:
  assumes "fits v w" "fits v' w" "enc v w = enc v' w"
  shows "v = v'"
proof -
  obtain bs where "enc v w = Some bs" using encodes[OF assms(1)] by blast
  with assms show ?thesis using decodes[of v w bs "[]"] decodes[of v' w bs "[]"] by simp
qed

end

definition fits_unsigned :: "size_t \<Rightarrow> nat \<Rightarrow> bool" where
  "fits_unsigned v w \<longleftrightarrow> w \<le> 3 \<and> unat v < 2 ^ (8 * ENCODE_LEN w)"

definition fits_signed :: "size_t \<Rightarrow> nat \<Rightarrow> bool" where
  "fits_signed v w \<longleftrightarrow> w \<le> 3 \<and> (v = - 1 \<or> unat v < 2 ^ (8 * ENCODE_LEN w - 1))"

lemma width_cases:
  assumes "w \<le> (3::nat)" obtains "w = 0" | "w = 1" | "w = 2" | "w = 3"
  using assms by linarith

lemma ucast_ucast_small:
  fixes v :: "64 word"
  assumes "unat v < 2 ^ LENGTH('a::len)" "LENGTH('a) \<le> 64"
  shows "ucast (ucast v :: 'a word) = v"
proof -
  have "take_bit LENGTH('a) v = v"
    using assms(1) by (simp add: word_unat_eq_iff unsigned_take_bit_eq take_bit_nat_eq_self_iff)
  moreover have "ucast (ucast v :: 'a word) = take_bit LENGTH('a) v"
    using assms(2) by (intro bit_word_eqI) (auto simp: bit_simps)
  ultimately show ?thesis by simp
qed

lemma db5_encode_length_length:
  "w \<le> 3 \<Longrightarrow> \<exists>bs. db5_encode_length v w = Some bs \<and> length bs = ENCODE_LEN w"
  by (erule width_cases)
    (auto simp: db5_encode_length_def widthcode_defs ENCODE_LEN_def htons_bytes_def
      htonl_bytes_def htonll_bytes_def)


lemma and_0xFF_byte [simp, byte_simps]: "(b :: byte) AND 0xFF = b"
proof -
  have ones: "(0xFF :: byte) = - 1" by code_simp
  show ?thesis unfolding ones by simp
qed

lemma db5_decode_encode:
  assumes "fits_unsigned v w" "db5_encode_length v w = Some bs"
  shows "db5_decode_length (bs @ rest) w = Some (v, length bs)"
proof -
  have w: "w \<le> 3" and v: "unat v < 2 ^ (8 * ENCODE_LEN w)"
    using assms(1) by (auto simp: fits_unsigned_def)
  from w show ?thesis
  proof (cases rule: width_cases)
    case 1
    then show ?thesis using assms(2) v ucast_ucast_small[of v, where 'a=8]
      by (auto simp: db5_encode_length_def db5_decode_length_def widthcode_defs ENCODE_LEN_def)
  next
    case 2
    then show ?thesis using assms(2) v ucast_ucast_small[of v, where 'a=16]
      by (auto simp: db5_encode_length_def db5_decode_length_def widthcode_defs ENCODE_LEN_def
          htons_bytes_def BU_GSHORT_htons)
  next
    case 3
    then show ?thesis using assms(2) v ucast_ucast_small[of v, where 'a=32]
      by (auto simp: db5_encode_length_def db5_decode_length_def widthcode_defs ENCODE_LEN_def
          htonl_bytes_def BU_GLONG_htonl)
  next
    case 4
    then show ?thesis using assms(2)
      by (auto simp: db5_encode_length_def db5_decode_length_def widthcode_defs
          htonll_bytes_def BU_GLONGLONG_htonll)
  qed
qed

lemma and_two_power_eq_0:
  fixes v :: "64 word"
  assumes "unat v < 2 ^ n"
  shows "v AND 2 ^ n = 0"
proof -
  have "take_bit n v = v"
    using assms by (simp add: word_unat_eq_iff unsigned_take_bit_eq take_bit_nat_eq_self_iff)
  then have "\<not> bit v n" by (metis bit_take_bit_iff less_irrefl)
  then show ?thesis
    by (intro bit_word_eqI) (auto simp: bit_simps exp_eq_0_imp_not_bit)
qed

lemma sign_fill_small:
  "unat v < 2 ^ n \<Longrightarrow> sign_fill (2 ^ n) ones v = v"
  by (simp add: sign_fill_def and_two_power_eq_0)

lemma sign_fill_ones:
  "sign_fill 0x80 0xFF (ucast (ucast (- 1 :: size_t) :: 8 word)) = - 1"
  "sign_fill 0x8000 0xFFFF (ucast (ucast (- 1 :: size_t) :: 16 word)) = - 1"
  "sign_fill 0x80000000 0xFFFFFFFF (ucast (ucast (- 1 :: size_t) :: 32 word)) = - 1"
  by code_simp+

lemma db5_decode_signed_encode:
  assumes "fits_signed v w" "db5_encode_length v w = Some bs"
  shows "db5_decode_signed (bs @ rest) w = Some (v, length bs)"
proof (cases "v = - 1")
  case True
  have w: "w \<le> 3" using assms(1) by (auto simp: fits_signed_def)
  then show ?thesis using assms(2) True
    using sign_fill_ones BU_GLONGLONG_htonll[of "- 1"]
    by (cases rule: width_cases)
      (auto simp: db5_encode_length_def db5_decode_signed_def widthcode_defs
        htons_bytes_def htonl_bytes_def htonll_bytes_def
        BU_GSHORT_htons BU_GLONG_htonl BU_GLONGLONG_htonll)
next
  case False
  have w: "w \<le> 3" and v: "unat v < 2 ^ (8 * ENCODE_LEN w - 1)"
    using assms(1) False by (auto simp: fits_signed_def)
  have "(2::nat) ^ (8 * ENCODE_LEN w - 1) \<le> 2 ^ (8 * ENCODE_LEN w)"
    by (intro power_increasing) auto
  with v have "unat v < 2 ^ (8 * ENCODE_LEN w)" by (rule less_le_trans)
  then have "fits_unsigned v w" using w by (simp add: fits_unsigned_def)
  note u = db5_decode_encode[OF this assms(2), of rest]
  from w show ?thesis
  proof (cases rule: width_cases)
    case 1
    have "sign_fill 0x80 0xFF v = v" using v 1 sign_fill_small[of v 7] by (simp add: ENCODE_LEN_def)
    with u 1 show ?thesis
      by (auto simp: db5_decode_length_def db5_decode_signed_def widthcode_defs split: list.splits)
  next
    case 2
    have "sign_fill 0x8000 0xFFFF v = v"
      using v 2 sign_fill_small[of v 15] by (simp add: ENCODE_LEN_def)
    with u 2 show ?thesis
      by (auto simp: db5_decode_length_def db5_decode_signed_def widthcode_defs split: list.splits)
  next
    case 3
    have "sign_fill 0x80000000 0xFFFFFFFF v = v"
      using v 3 sign_fill_small[of v 31] by (simp add: ENCODE_LEN_def)
    with u 3 show ?thesis
      by (auto simp: db5_decode_length_def db5_decode_signed_def widthcode_defs split: list.splits)
  next
    case 4
    with u show ?thesis
      by (auto simp: db5_decode_length_def db5_decode_signed_def widthcode_defs split: list.splits)
  qed
qed

interpretation unsigned_len: length_codec db5_encode_length db5_decode_length fits_unsigned
  by unfold_locales
    (auto simp: db5_decode_encode fits_unsigned_def dest: db5_encode_length_length)

interpretation signed_len: length_codec db5_encode_length db5_decode_signed fits_signed
  by unfold_locales
    (auto simp: db5_decode_signed_encode fits_signed_def dest: db5_encode_length_length)

text \<open>The width selected for a value holds it, and so does the width selected for the
  bitwise or of several values.\<close>

lemma fits_select: "fits_unsigned v (db5_select_length_encoding v)"
  using unsigned_less[of v, where 'a=nat]
  by (auto simp: fits_unsigned_def db5_select_length_encoding_def widthcode_defs ENCODE_LEN_def
      word_le_nat_alt word_less_nat_alt)

lemma select_le_3: "db5_select_length_encoding v \<le> 3"
  by (auto simp: db5_select_length_encoding_def widthcode_defs)

lemma select_mono: "v \<le> v' \<Longrightarrow> db5_select_length_encoding v \<le> db5_select_length_encoding v'"
  by (auto simp: db5_select_length_encoding_def widthcode_defs)

lemma fits_unsigned_wider:
  assumes "fits_unsigned v w" "w \<le> w'" "w' \<le> 3"
  shows "fits_unsigned v w'"
proof -
  have "8 * ENCODE_LEN w \<le> 8 * ENCODE_LEN w'"
    using assms(2) by (auto simp: ENCODE_LEN_def intro: power_increasing)
  then have "(2::nat) ^ (8 * ENCODE_LEN w) \<le> 2 ^ (8 * ENCODE_LEN w')"
    by (intro power_increasing) auto
  with assms show ?thesis by (auto simp: fits_unsigned_def intro: less_le_trans)
qed

lemma word_le_or: "v \<le> v OR u" "u \<le> v OR u" for u v :: "'a::len word"
  using le_word_or2[of v u] le_word_or2[of u v] by (simp_all add: or.commute)

lemma fits_select_le: "v \<le> v' \<Longrightarrow> fits_unsigned v (db5_select_length_encoding v')"
  by (rule fits_unsigned_wider[OF fits_select select_mono select_le_3])


section \<open>Doubles in network order\<close>

datatype bu_endian_t = BU_LITTLE_ENDIAN | BU_BIG_ENDIAN | BU_PDP_ENDIAN

text \<open>The little-endian loop of both converters: each group of eight bytes is
  reversed.  A buffer shorter than \<open>count\<close> doubles is read past its end.\<close>

fun swap_doubles :: "byte list \<Rightarrow> nat \<Rightarrow> byte list option" where
  "swap_doubles bs 0 = Some []"
| "swap_doubles (b0 # b1 # b2 # b3 # b4 # b5 # b6 # b7 # bs) (Suc i) =
     map_option (\<lambda>out. [b7, b6, b5, b4, b3, b2, b1, b0] @ out) (swap_doubles bs i)"
| "swap_doubles bs (Suc i) = None"

definition bu_cv_htond :: "bu_endian_t \<Rightarrow> byte list \<Rightarrow> nat \<Rightarrow> byte list option" where
  "bu_cv_htond order bs count =
     (case order of
        BU_BIG_ENDIAN \<Rightarrow> if 8 * count \<le> length bs then Some (take (8 * count) bs) else None
      | BU_LITTLE_ENDIAN \<Rightarrow> swap_doubles bs count
      | BU_PDP_ENDIAN \<Rightarrow> None)"

definition bu_cv_ntohd :: "bu_endian_t \<Rightarrow> byte list \<Rightarrow> nat \<Rightarrow> byte list option" where
  "bu_cv_ntohd order bs count =
     (case order of
        BU_BIG_ENDIAN \<Rightarrow> if 8 * count \<le> length bs then Some (take (8 * count) bs) else None
      | BU_LITTLE_ENDIAN \<Rightarrow> swap_doubles bs count
      | BU_PDP_ENDIAN \<Rightarrow> None)"

lemma length_ge8E:
  assumes "8 \<le> length bs"
  obtains b0 b1 b2 b3 b4 b5 b6 b7 bs' where "bs = b0 # b1 # b2 # b3 # b4 # b5 # b6 # b7 # bs'"
  using assms
  by (auto simp: numeral_nat Suc_le_length_iff)

lemma swap_doubles_twice:
  "length bs = 8 * count \<Longrightarrow> \<exists>out. swap_doubles bs count = Some out \<and> length out = 8 * count
     \<and> (\<forall>rest. swap_doubles (out @ rest) count = Some bs)"
proof (induction count arbitrary: bs)
  case (Suc count)
  then have "8 \<le> length bs" by simp
  then obtain b0 b1 b2 b3 b4 b5 b6 b7 bs' where
    bs: "bs = b0 # b1 # b2 # b3 # b4 # b5 # b6 # b7 # bs'" by (rule length_ge8E)
  with Suc.prems have "length bs' = 8 * count" by simp
  then obtain out where "swap_doubles bs' count = Some out" "length out = 8 * count"
    "\<And>rest. swap_doubles (out @ rest) count = Some bs'"
    using Suc.IH by blast
  then show ?case by (simp add: bs)
qed simp

lemma bu_cv_double_roundtrip:
  assumes "order \<noteq> BU_PDP_ENDIAN" "length bs = 8 * count"
  shows "\<exists>out. bu_cv_htond order bs count = Some out \<and> length out = 8 * count
     \<and> (\<forall>rest. bu_cv_ntohd order (out @ rest) count = Some bs)"
proof (cases order)
  case BU_LITTLE_ENDIAN
  then show ?thesis
    using swap_doubles_twice[OF assms(2)] by (auto simp: bu_cv_htond_def bu_cv_ntohd_def)
qed (use assms in \<open>auto simp: bu_cv_htond_def bu_cv_ntohd_def\<close>)

end
