(* ===== verification/Db5Object.thy ===== *)
theory Db5Object
  imports Db5Codec
begin

unbundle bit_operations_syntax

text \<open>
  Objects of the v5 database file (\<open>librt/db5_io.c\<close>): the header check
  \<open>db5_header_is_valid\<close>, the parser \<open>crack_disk_header\<close> /
  \<open>db5_get_raw_internal_ptr\<close>, the writer \<open>db5_export_object3\<close>, and the free-storage
  objects \<open>db5_make_free_object_hdr\<close> and \<open>db5_make_free_object\<close>.

  The parser does not copy: a \<open>bu_external\<close> of \<open>db5_raw_internal\<close> is a byte count and
  the offset of its data in the object (\<open>None\<close> is the null pointer).
\<close>

section \<open>Parsing\<close>

definition DB5HDR_MAGIC1 :: byte where "DB5HDR_MAGIC1 = 0x76"
definition DB5HDR_MAGIC2 :: byte where "DB5HDR_MAGIC2 = 0x35"
definition DB5HDR_HFLAGS_DLI_MASK :: byte where "DB5HDR_HFLAGS_DLI_MASK = 0x03"
definition DB5HDR_HFLAGS_HIDDEN_OBJECT :: byte where "DB5HDR_HFLAGS_HIDDEN_OBJECT = 0x4"
definition DB5HDR_HFLAGS_NAME_PRESENT :: byte where "DB5HDR_HFLAGS_NAME_PRESENT = 0x20"
definition DB5HDR_HFLAGS_OBJECT_WIDTH_MASK :: byte where "DB5HDR_HFLAGS_OBJECT_WIDTH_MASK = 0xc0"
definition DB5HDR_HFLAGS_NAME_WIDTH_MASK :: byte where "DB5HDR_HFLAGS_NAME_WIDTH_MASK = 0x18"
definition DB5HDR_AFLAGS_ZZZ_MASK :: byte where "DB5HDR_AFLAGS_ZZZ_MASK = 0x07"
definition DB5HDR_AFLAGS_PRESENT :: byte where "DB5HDR_AFLAGS_PRESENT = 0x20"
definition DB5HDR_AFLAGS_WIDTH_MASK :: byte where "DB5HDR_AFLAGS_WIDTH_MASK = 0xc0"

lemmas hdr_defs = DB5HDR_MAGIC1_def DB5HDR_MAGIC2_def DB5HDR_HFLAGS_DLI_MASK_def
  DB5HDR_HFLAGS_HIDDEN_OBJECT_def DB5HDR_HFLAGS_NAME_PRESENT_def
  DB5HDR_HFLAGS_OBJECT_WIDTH_MASK_def DB5HDR_HFLAGS_NAME_WIDTH_MASK_def
  DB5HDR_AFLAGS_ZZZ_MASK_def DB5HDR_AFLAGS_PRESENT_def DB5HDR_AFLAGS_WIDTH_MASK_def

fun db5_header_is_valid :: "byte list \<Rightarrow> bool option" where
  "db5_header_is_valid (m1 # hflags # aflags # bflags # major # minor # len # m2 # _) =
     Some (\<not> m1 \<noteq> DB5HDR_MAGIC1
         \<and> \<not> m2 \<noteq> DB5HDR_MAGIC2
         \<and> \<not> hflags AND DB5HDR_HFLAGS_DLI_MASK \<noteq> 1
         \<and> \<not> hflags AND DB5HDR_HFLAGS_NAME_PRESENT \<noteq> 0
         \<and> \<not> drop_bit 6 (hflags AND DB5HDR_HFLAGS_OBJECT_WIDTH_MASK) \<noteq> 0
         \<and> \<not> aflags AND DB5HDR_AFLAGS_ZZZ_MASK \<noteq> 0
         \<and> \<not> aflags AND DB5HDR_AFLAGS_PRESENT \<noteq> 0
         \<and> \<not> drop_bit 6 (aflags AND DB5HDR_AFLAGS_WIDTH_MASK) \<noteq> 0
         \<and> \<not> bflags AND DB5HDR_AFLAGS_ZZZ_MASK \<noteq> 0
         \<and> \<not> bflags AND DB5HDR_AFLAGS_PRESENT \<noteq> 0
         \<and> \<not> drop_bit 6 (bflags AND DB5HDR_AFLAGS_WIDTH_MASK) \<noteq> 0
         \<and> \<not> major \<noteq> 0
         \<and> \<not> minor \<noteq> 0
         \<and> \<not> len \<noteq> 1)"
| "db5_header_is_valid _ = None"

record bu_external =
  ext_nbytes :: size_t
  ext_buf :: "nat option"

record db5_raw_internal =
  h_object_width :: byte
  h_name_hidden :: byte
  h_name_present :: byte
  h_name_width :: byte
  h_dli :: byte
  a_width :: byte
  a_present :: byte
  a_zzz :: byte
  b_width :: byte
  b_present :: byte
  b_zzz :: byte
  major_type :: byte
  minor_type :: byte
  object_length :: size_t
  rname :: bu_external
  rbody :: bu_external
  rattributes :: bu_external

text \<open>The result code and the structure; on a bad first byte the structure is left as
  it was, and the code is 0 all the same.\<close>

fun crack_disk_header :: "db5_raw_internal \<Rightarrow> byte list \<Rightarrow> (int \<times> db5_raw_internal) option" where
  "crack_disk_header rip (c0 # c1 # c2 # c3 # c4 # c5 # _) =
     (if c0 \<noteq> DB5HDR_MAGIC1 then Some (0, rip)
      else Some (0, rip\<lparr>
        h_dli := c1 AND DB5HDR_HFLAGS_DLI_MASK,
        h_object_width := drop_bit 6 (c1 AND DB5HDR_HFLAGS_OBJECT_WIDTH_MASK),
        h_name_present := c1 AND DB5HDR_HFLAGS_NAME_PRESENT,
        h_name_hidden := c1 AND DB5HDR_HFLAGS_HIDDEN_OBJECT,
        h_name_width := drop_bit 3 (c1 AND DB5HDR_HFLAGS_NAME_WIDTH_MASK),
        a_width := drop_bit 6 (c2 AND DB5HDR_AFLAGS_WIDTH_MASK),
        a_present := c2 AND DB5HDR_AFLAGS_PRESENT,
        a_zzz := c2 AND DB5HDR_AFLAGS_ZZZ_MASK,
        b_width := drop_bit 6 (c3 AND DB5HDR_AFLAGS_WIDTH_MASK),
        b_present := c3 AND DB5HDR_AFLAGS_PRESENT,
        b_zzz := c3 AND DB5HDR_AFLAGS_ZZZ_MASK,
        major_type := c4,
        minor_type := c5\<rparr>))"
| "crack_disk_header rip _ = None"

definition BU_EXTERNAL_INIT :: bu_external where
  "BU_EXTERNAL_INIT = \<lparr>ext_nbytes = 0, ext_buf = None\<rparr>"

definition grab :: "byte list \<Rightarrow> byte \<Rightarrow> byte \<Rightarrow> nat \<Rightarrow> (bu_external \<times> nat) option" where
  "grab buf present width cp =
     (if present = 0 then Some (BU_EXTERNAL_INIT, cp)
      else do { (n, used) \<leftarrow> db5_decode_length (drop cp buf) (unat width);
                let cp = cp + used;
                Some (\<lparr>ext_nbytes = n, ext_buf = Some cp\<rparr>, cp + unat n) })"

definition grab_sections ::
  "db5_raw_internal \<Rightarrow> byte list \<Rightarrow> nat \<Rightarrow> (db5_raw_internal \<times> nat option) option" where
  "grab_sections rip ip cp =
     do { (nm, cp) \<leftarrow> grab ip (h_name_present rip) (h_name_width rip) cp;
          (at, cp) \<leftarrow> grab ip (a_present rip) (a_width rip) cp;
          (bd, cp) \<leftarrow> grab ip (b_present rip) (b_width rip) cp;
          Some (rip\<lparr>rname := nm, rattributes := at, rbody := bd\<rparr>,
                Some (unat (object_length rip))) }"

definition sizeof_header :: nat where "sizeof_header = 6"

text \<open>The structure and the pointer returned: \<open>None\<close> is null, otherwise the offset
  just past the object.\<close>

definition db5_get_raw_internal_ptr ::
  "db5_raw_internal \<Rightarrow> byte list \<Rightarrow> (db5_raw_internal \<times> nat option) option" where
  "db5_get_raw_internal_ptr rip ip =
     do { (rc, rip) \<leftarrow> crack_disk_header rip ip;
          if rc < 0 then Some (rip, None)
          else do {
            let cp = sizeof_header;
            (len, used) \<leftarrow> db5_decode_length (drop cp ip) (unat (h_object_width rip));
            let cp = cp + used;
            let rip = rip\<lparr>object_length := push_bit 3 len\<rparr>;
            if unat (object_length rip) < sizeof_header then Some (rip, None)
            else if length ip < unat (object_length rip) then None
            else if ip ! (unat (object_length rip) - 1) \<noteq> DB5HDR_MAGIC2 then Some (rip, None)
            else grab_sections rip ip cp } }"

section \<open>Writing\<close>

text \<open>An optional section: with no bytes it counts as absent.\<close>

definition section_of :: "byte list option \<Rightarrow> byte list option" where
  "section_of x = (case x of None \<Rightarrow> None | Some bs \<Rightarrow> if length bs > 0 then Some bs else None)"

definition section_width :: "byte list option \<Rightarrow> nat" where
  "section_width x = (case x of None \<Rightarrow> 0 | Some bs \<Rightarrow> db5_select_length_encoding (of_nat (length bs)))"

definition section_need :: "byte list option \<Rightarrow> nat" where
  "section_need x = (case x of None \<Rightarrow> 0 | Some bs \<Rightarrow> length bs + ENCODE_LEN (section_width x))"

definition put_section :: "byte list option \<Rightarrow> byte list option" where
  "put_section x =
     (case x of None \<Rightarrow> Some []
      | Some bs \<Rightarrow> do { l \<leftarrow> db5_encode_length (of_nat (length bs)) (section_width x); Some (l @ bs) })"

definition section_flags :: "byte list option \<Rightarrow> nat \<Rightarrow> byte" where
  "section_flags x zzz =
     (let f = push_bit 6 (of_nat (section_width x));
          f = (if x = None then f else f OR DB5HDR_AFLAGS_PRESENT)
      in f OR (of_nat zzz AND DB5HDR_AFLAGS_ZZZ_MASK))"

definition pad8 :: "nat \<Rightarrow> nat" where
  "pad8 n = (if (n + 1) mod 8 = 0 then 0 else 8 - (n + 1) mod 8)"

definition hflags_of :: "nat \<Rightarrow> nat \<Rightarrow> byte list option \<Rightarrow> byte \<Rightarrow> byte" where
  "hflags_of h_width dli nm hidden =
     (let hflags = push_bit 6 (of_nat h_width) OR (of_nat dli AND DB5HDR_HFLAGS_DLI_MASK);
          hflags = (if nm = None then hflags
                    else hflags OR (DB5HDR_HFLAGS_NAME_PRESENT OR
                                    push_bit 3 (of_nat (section_width nm))))
      in (if hidden = 0 then hflags else hflags OR DB5HDR_HFLAGS_HIDDEN_OBJECT))"

definition name_section :: "string option \<Rightarrow> byte list option" where
  "name_section name = (case name of None \<Rightarrow> None
     | Some s \<Rightarrow> if length s + 1 > 1 then Some (bytes_of s @ [0]) else None)"

definition object_need :: "byte list option \<Rightarrow> byte list option \<Rightarrow> byte list option \<Rightarrow> nat" where
  "object_need nm at bd = sizeof_header + 8 + section_need nm + section_need at + section_need bd + 8"

text \<open>Padding to a multiple of eight, the trailing magic, and the object length that
  replaces the provisional one.  The buffer of \<open>need\<close> bytes is filled from the front; a
  result longer than it would be a write past its end.\<close>

definition finish_object :: "byte list \<Rightarrow> byte list \<Rightarrow> byte list \<Rightarrow> nat \<Rightarrow> nat \<Rightarrow> byte list option" where
  "finish_object hdr len secs need h_width =
     (let out = hdr @ len @ secs;
          out = out @ replicate (pad8 (length out)) 0 @ [DB5HDR_MAGIC2]
      in do { len' \<leftarrow> db5_encode_length (of_nat (length out div 8)) h_width;
              let out = hdr @ len' @ drop (length hdr + length len') out;
              if length out mod 8 \<noteq> 0 \<or> length out > need \<or> length out < 8 then None
              else Some out })"

definition db5_export_object3 ::
  "nat \<Rightarrow> string option \<Rightarrow> byte \<Rightarrow> byte list option \<Rightarrow> byte list option \<Rightarrow> nat \<Rightarrow> nat
     \<Rightarrow> nat \<Rightarrow> nat \<Rightarrow> byte list option" where
  "db5_export_object3 dli name hidden attrib body major minor azip bzip =
     (let nm = name_section name;
          attrib = section_of attrib;
          body = section_of body;
          need = object_need nm attrib body;
          h_width = db5_select_length_encoding (of_nat ((need + 7) div 8));
          hdr = [DB5HDR_MAGIC1, hflags_of h_width dli nm hidden, section_flags attrib azip,
                 section_flags body bzip, of_nat major, of_nat minor]
      in if azip \<noteq> 0 \<or> bzip \<noteq> 0 then None
         else if (case attrib of None \<Rightarrow> False | Some bs \<Rightarrow> length bs < 4) then None
         else do { len \<leftarrow> db5_encode_length 7 h_width;
                   n \<leftarrow> put_section nm;
                   a \<leftarrow> put_section attrib;
                   b \<leftarrow> put_section body;
                   finish_object hdr len (n @ a @ b) need h_width })"

definition free_header :: "nat \<Rightarrow> byte list option" where
  "free_header len =
     (let h_width = db5_select_length_encoding (of_nat (len div 8))
      in do { l \<leftarrow> db5_encode_length (of_nat (len div 8)) h_width;
              Some ([DB5HDR_MAGIC1, push_bit 6 (of_nat h_width) OR 2, 0, 0, 0, 0] @ l) })"

definition db5_make_free_object_hdr :: "nat \<Rightarrow> byte list option" where
  "db5_make_free_object_hdr len =
     (if len < 8 \<or> len mod 8 \<noteq> 0 then None
      else do { h \<leftarrow> free_header len;
                if length h > 16 then None else Some (h @ replicate (16 - length h) 0) })"

definition db5_make_free_object :: "nat \<Rightarrow> byte list option" where
  "db5_make_free_object len =
     (if len < 8 \<or> len mod 8 \<noteq> 0 then None
      else do { h \<leftarrow> free_header len;
                if length h > len then None
                else Some ((h @ replicate (len - length h) 0)[len - 1 := DB5HDR_MAGIC2]) })"


section \<open>Reading back what was written\<close>

definition ext_data :: "byte list \<Rightarrow> bu_external \<Rightarrow> byte list option" where
  "ext_data ip e = map_option (\<lambda>off. take (unat (ext_nbytes e)) (drop off ip)) (ext_buf e)"

text \<open>The section lies within the object.\<close>

definition ext_fits :: "byte list \<Rightarrow> bu_external \<Rightarrow> bool" where
  "ext_fits ip e \<longleftrightarrow> (case ext_buf e of None \<Rightarrow> True | Some off \<Rightarrow> off + unat (ext_nbytes e) \<le> length ip)"

definition small_section :: "byte list option \<Rightarrow> bool" where
  "small_section x \<longleftrightarrow> (case x of None \<Rightarrow> True | Some bs \<Rightarrow> length bs < 2 ^ 58)"

definition attr_ok :: "byte list option \<Rightarrow> bool" where
  "attr_ok x \<longleftrightarrow> (case x of None \<Rightarrow> True | Some bs \<Rightarrow> 4 \<le> length bs)"

lemma section_width_le_3: "section_width x \<le> 3"
  by (auto simp: section_width_def select_le_3 split: option.splits)

lemma put_section_length:
  "\<exists>s. put_section x = Some s \<and> length s = section_need x"
proof (cases x)
  case (Some bs)
  from db5_encode_length_length[OF section_width_le_3, of "of_nat (length bs)" x]
  show ?thesis by (auto simp: put_section_def section_need_def Some)
qed (simp add: put_section_def section_need_def)

lemma grab_section:
  assumes "put_section x = Some s" "drop cp ip = s @ r"
    and "small_section x"
    and "present = 0 \<longleftrightarrow> x = None" "unat width = section_width x"
  shows "\<exists>e. grab ip present width cp = Some (e, cp + length s) \<and> ext_data ip e = x \<and> ext_fits ip e"
proof (cases x)
  case None
  then show ?thesis using assms(1,4) by (simp add: grab_def put_section_def ext_data_def ext_fits_def BU_EXTERNAL_INIT_def)
next
  case (Some bs)
  let ?v = "of_nat (length bs) :: size_t"
  have v: "unat ?v = length bs" using assms(3) Some by (intro unat_size_of_nat) (simp add: small_section_def)
  obtain l where l: "db5_encode_length ?v (section_width x) = Some l" "s = l @ bs"
    using assms(1) Some by (auto simp: put_section_def elim!: option_elims)
  have fits: "fits_unsigned ?v (section_width x)"
    by (simp add: section_width_def Some fits_select)
  have dec: "db5_decode_length (drop cp ip) (unat width) = Some (?v, length l)"
    using db5_decode_encode[OF fits l(1), of "bs @ r"] assms(2,5) l(2) by simp
  have "drop (cp + length l) ip = drop (length l) (drop cp ip)" by (simp add: add.commute)
  then have d: "drop (cp + length l) ip = bs @ r" using assms(2) l(2) by simp
  have "length l = ENCODE_LEN (section_width x)"
    using db5_encode_length_length[OF section_width_le_3, of ?v x] l(1) by simp
  then have "0 < length l" by (simp add: ENCODE_LEN_def)
  moreover have "length ip - cp = length l + length bs + length r"
    using arg_cong[OF assms(2), of length] l(2) by simp
  ultimately have "cp + length l + length bs \<le> length ip" by linarith
  then show ?thesis
    using dec assms(4) Some v l(2) d by (simp add: grab_def ext_data_def ext_fits_def Let_def)
qed

lemma width_byte_cases:
  assumes "w \<le> (3::nat)"
  shows "(of_nat w :: byte) \<in> {0, 1, 2, 3}"
  using assms by (cases rule: width_cases) auto

lemma section_flags_fields:
  "unat (drop_bit 6 (section_flags x 0 AND DB5HDR_AFLAGS_WIDTH_MASK)) = section_width x"
  "section_flags x 0 AND DB5HDR_AFLAGS_PRESENT = 0 \<longleftrightarrow> x = None"
  "section_flags x 0 AND DB5HDR_AFLAGS_ZZZ_MASK = 0"
proof -
  have "section_width x \<le> 3" by (rule section_width_le_3)
  then show "unat (drop_bit 6 (section_flags x 0 AND DB5HDR_AFLAGS_WIDTH_MASK)) = section_width x"
    by (cases rule: width_cases; cases x) (simp_all add: section_flags_def hdr_defs Let_def)
  have "section_width x \<le> 3" by (rule section_width_le_3)
  then show "section_flags x 0 AND DB5HDR_AFLAGS_PRESENT = 0 \<longleftrightarrow> x = None"
    by (cases rule: width_cases; cases x) (simp_all add: section_flags_def hdr_defs Let_def)
  have "section_width x \<le> 3" by (rule section_width_le_3)
  then show "section_flags x 0 AND DB5HDR_AFLAGS_ZZZ_MASK = 0"
    by (cases rule: width_cases; cases x) (simp_all add: section_flags_def hdr_defs Let_def)
qed

lemma dli_cases:
  obtains "(of_nat dli AND 3 :: byte) = 0" | "(of_nat dli AND 3 :: byte) = 1"
    | "(of_nat dli AND 3 :: byte) = 2" | "(of_nat dli AND 3 :: byte) = 3"
proof -
  let ?v = "of_nat dli AND 3 :: byte"
  have "?v \<le> 3" by (rule word_and_le1)
  then have "unat ?v \<le> 3" by (simp add: word_le_nat_alt)
  then show thesis
    by (cases rule: width_cases) (use that in \<open>simp_all add: word_unat_eq_iff\<close>)
qed

lemma section_width_None [simp]: "section_width None = 0"
  by (simp add: section_width_def)

lemma hflags_fields:
  assumes "h_width \<le> 3"
  shows "unat (drop_bit 6 (hflags_of h_width dli nm hidden AND DB5HDR_HFLAGS_OBJECT_WIDTH_MASK)) = h_width"
    and "hflags_of h_width dli nm hidden AND DB5HDR_HFLAGS_DLI_MASK = of_nat dli AND 3"
    and "hflags_of h_width dli nm hidden AND DB5HDR_HFLAGS_NAME_PRESENT = 0 \<longleftrightarrow> nm = None"
    and "unat (drop_bit 3 (hflags_of h_width dli nm hidden AND DB5HDR_HFLAGS_NAME_WIDTH_MASK))
       = section_width nm"
    and "hflags_of h_width dli nm hidden AND DB5HDR_HFLAGS_HIDDEN_OBJECT = 0 \<longleftrightarrow> hidden = 0"
proof -
  have w: "section_width nm \<le> 3" by (rule section_width_le_3)
  have "(unat (drop_bit 6 (hflags_of h_width dli nm hidden AND DB5HDR_HFLAGS_OBJECT_WIDTH_MASK)) = h_width)
    \<and> (hflags_of h_width dli nm hidden AND DB5HDR_HFLAGS_DLI_MASK = of_nat dli AND 3)
    \<and> (hflags_of h_width dli nm hidden AND DB5HDR_HFLAGS_NAME_PRESENT = 0 \<longleftrightarrow> nm = None)
    \<and> (unat (drop_bit 3 (hflags_of h_width dli nm hidden AND DB5HDR_HFLAGS_NAME_WIDTH_MASK))
       = section_width nm)
    \<and> (hflags_of h_width dli nm hidden AND DB5HDR_HFLAGS_HIDDEN_OBJECT = 0 \<longleftrightarrow> hidden = 0)"
    by (rule dli_cases[of dli]; rule width_cases[OF assms]; rule width_cases[OF w]; cases nm)
      (auto simp: hflags_of_def hdr_defs Let_def)
  then show "unat (drop_bit 6 (hflags_of h_width dli nm hidden AND DB5HDR_HFLAGS_OBJECT_WIDTH_MASK)) = h_width"
    and "hflags_of h_width dli nm hidden AND DB5HDR_HFLAGS_DLI_MASK = of_nat dli AND 3"
    and "hflags_of h_width dli nm hidden AND DB5HDR_HFLAGS_NAME_PRESENT = 0 \<longleftrightarrow> nm = None"
    and "unat (drop_bit 3 (hflags_of h_width dli nm hidden AND DB5HDR_HFLAGS_NAME_WIDTH_MASK))
       = section_width nm"
    and "hflags_of h_width dli nm hidden AND DB5HDR_HFLAGS_HIDDEN_OBJECT = 0 \<longleftrightarrow> hidden = 0"
    by blast+
qed


lemma pad8_mod: "(n + pad8 n + 1) mod 8 = 0"
  unfolding pad8_def by presburger

lemma pad8_le: "pad8 n \<le> 7"
  by (auto simp: pad8_def)

lemma ENCODE_LEN_le_8: "w \<le> 3 \<Longrightarrow> ENCODE_LEN w \<le> 8"
  by (erule width_cases) (simp_all add: ENCODE_LEN_def)

lemma section_need_small: "small_section x \<Longrightarrow> section_need x < 2 ^ 59"
  using ENCODE_LEN_le_8[OF section_width_le_3, of x]
  by (auto simp: small_section_def section_need_def split: option.splits)

lemma finish_object_spec:
  assumes "length hdr = 6" "length len = ENCODE_LEN hw" "hw \<le> 3"
    and "6 + ENCODE_LEN hw + length secs + 8 \<le> need"
  shows "\<exists>l pad. finish_object hdr len secs need hw
       = Some (hdr @ l @ secs @ pad @ [DB5HDR_MAGIC2])
     \<and> db5_encode_length (of_nat ((6 + ENCODE_LEN hw + length secs + length pad + 1) div 8)) hw = Some l
     \<and> length l = ENCODE_LEN hw \<and> (6 + ENCODE_LEN hw + length secs + length pad + 1) mod 8 = 0
     \<and> length pad \<le> 7"
proof -
  define m where "m = 6 + ENCODE_LEN hw + length secs"
  define L where "L = m + pad8 m + 1"
  obtain l where l: "db5_encode_length (of_nat (L div 8)) hw = Some l" "length l = ENCODE_LEN hw"
    using db5_encode_length_length[OF assms(3)] by blast
  have L8: "L mod 8 = 0" using pad8_mod[of m] by (simp add: L_def)
  have "8 \<le> L" using L8 by (simp add: L_def m_def) presburger
  moreover have "L \<le> need" using assms(4) pad8_le[of m] by (simp add: L_def m_def)
  moreover have "length (hdr @ len @ secs) = m" by (simp add: m_def assms)
  moreover have "m + (pad8 m + 1) = L" by (simp add: L_def)
  moreover have "length (hdr @ l @ secs @ replicate (pad8 m) 0 @ [DB5HDR_MAGIC2]) = L"
    by (simp add: L_def m_def assms l(2))
  moreover have "drop (length hdr + length l) ((hdr @ len @ secs) @ replicate (pad8 m) 0 @ [DB5HDR_MAGIC2])
      = secs @ replicate (pad8 m) 0 @ [DB5HDR_MAGIC2]"
    by (simp add: assms l(2))
  ultimately have "finish_object hdr len secs need hw
      = Some (hdr @ l @ secs @ replicate (pad8 m) 0 @ [DB5HDR_MAGIC2])"
    using l(1) L8 unfolding finish_object_def Let_def
    by (simp only: length_append length_replicate list.size bind.bind_lunit) simp
  then show ?thesis
    using l L8 pad8_le[of m] by (intro exI[of _ l] exI[of _ "replicate (pad8 m) 0"]) (simp add: L_def m_def)
qed

lemma size_of_nat_mono:
  assumes "a \<le> b" "b < 2 ^ 64"
  shows "(of_nat a :: size_t) \<le> of_nat b"
proof -
  have "a < 2 ^ 64" by (rule le_less_trans[OF assms])
  then show ?thesis
    unfolding word_le_nat_alt using assms by (simp only: unat_size_of_nat)
qed

lemma chunks_le: "8 \<le> x \<Longrightarrow> (x + 7) div 8 \<le> (x :: nat)"
  by presburger

lemma positive_multiple: "x mod 8 = 0 \<Longrightarrow> 0 < x \<Longrightarrow> 8 \<le> (x :: nat)"
  by presburger

lemma export_object3_shape:
  assumes "small_section (name_section name)" "small_section (section_of attrib)"
    "small_section (section_of body)"
    and "attr_ok (section_of attrib)"
  shows "\<exists>out len n a b pad hw. db5_export_object3 dli name hidden attrib body major minor 0 0 = Some out
    \<and> out = [DB5HDR_MAGIC1, hflags_of hw dli (name_section name) hidden,
             section_flags (section_of attrib) 0, section_flags (section_of body) 0,
             of_nat major, of_nat minor] @ len @ n @ a @ b @ pad @ [DB5HDR_MAGIC2]
    \<and> db5_encode_length (of_nat (length out div 8)) hw = Some len \<and> hw \<le> 3
    \<and> fits_unsigned (of_nat (length out div 8)) hw
    \<and> put_section (name_section name) = Some n \<and> put_section (section_of attrib) = Some a
    \<and> put_section (section_of body) = Some b
    \<and> length out mod 8 = 0 \<and> length out < 2 ^ 63 \<and> 8 \<le> length out"
proof -
  let ?nm = "name_section name" and ?at = "section_of attrib" and ?bd = "section_of body"
  let ?need = "object_need ?nm ?at ?bd"
  define hw where "hw = db5_select_length_encoding (of_nat ((?need + 7) div 8))"
  have hw: "hw \<le> 3" by (simp add: hw_def select_le_3)
  obtain n a b where put: "put_section ?nm = Some n" "put_section ?at = Some a"
    "put_section ?bd = Some b" and len: "length n = section_need ?nm"
    "length a = section_need ?at" "length b = section_need ?bd"
    using put_section_length by metis
  define hdr where "hdr = [DB5HDR_MAGIC1, hflags_of hw dli ?nm hidden, section_flags ?at 0,
    section_flags ?bd 0, of_nat major, of_nat minor]"
  have h6: "length hdr = 6" by (simp add: hdr_def)
  define m where "m = 6 + ENCODE_LEN hw + length (n @ a @ b)"
  have mneed: "m + 8 \<le> ?need"
    using ENCODE_LEN_le_8[OF hw] by (simp add: m_def object_need_def len sizeof_header_def)
  have need: "?need < 2 ^ 63"
    using section_need_small[OF assms(1)] section_need_small[OF assms(2)]
      section_need_small[OF assms(3)] by (simp add: object_need_def sizeof_header_def)
  obtain l7 where l7: "db5_encode_length 7 hw = Some l7" "length l7 = ENCODE_LEN hw"
    using db5_encode_length_length[OF hw] by blast
  obtain l pad where fin: "finish_object hdr l7 (n @ a @ b) ?need hw
        = Some (hdr @ l @ (n @ a @ b) @ pad @ [DB5HDR_MAGIC2])"
    and l: "db5_encode_length (of_nat ((m + length pad + 1) div 8)) hw = Some l"
      "length l = ENCODE_LEN hw"
    and L: "(m + length pad + 1) mod 8 = 0" "length pad \<le> 7"
    using finish_object_spec[OF h6 l7(2) hw, of "n @ a @ b" ?need] mneed by (auto simp: m_def)
  have out: "length (hdr @ l @ (n @ a @ b) @ pad @ [DB5HDR_MAGIC2]) = m + length pad + 1"
    by (simp add: m_def h6 l(2))
  let ?out = "hdr @ l @ (n @ a @ b) @ pad @ [DB5HDR_MAGIC2]"
  have fits: "fits_unsigned (of_nat (length ?out div 8)) hw"
    unfolding out unfolding hw_def
  proof (intro fits_select_le size_of_nat_mono)
    have "m + length pad + 1 \<le> ?need + 7" using mneed L(2) by linarith
    then show "(m + length pad + 1) div 8 \<le> (?need + 7) div 8" by (rule div_le_mono)
    have "8 \<le> ?need" using mneed by (rule order_trans[OF le_add2])
    then have "(?need + 7) div 8 \<le> ?need" by (rule chunks_le)
    also have "?need < 2 ^ 63" by (rule need)
    also have "(2 :: nat) ^ 63 < 2 ^ 64" by simp
    finally show "(?need + 7) div 8 < 2 ^ 64" .
  qed
  have enc: "db5_encode_length (of_nat (length ?out div 8)) hw = Some l"
    unfolding out by (rule l(1))
  have "m + length pad + 1 \<le> ?need" using mneed L(2) by linarith
  then have "m + length pad + 1 < 2 ^ 63" using need by (rule le_less_trans)
  moreover have "8 \<le> m + length pad + 1" by (rule positive_multiple[OF L(1)]) simp
  ultimately have sizes: "length ?out mod 8 = 0" "length ?out < 2 ^ 63" "8 \<le> length ?out"
    unfolding out using L(1) by blast+
  have exp: "db5_export_object3 dli name hidden attrib body major minor 0 0 = Some ?out"
  proof -
    have "\<not> (case ?at of None \<Rightarrow> False | Some bs \<Rightarrow> length bs < 4)"
      using assms(4) by (auto simp: attr_ok_def split: option.splits)
    then show ?thesis
      by (simp add: db5_export_object3_def Let_def put l7(1) fin[unfolded hdr_def] hdr_def
          flip: hw_def)
  qed
  have shape: "?out = [DB5HDR_MAGIC1, hflags_of hw dli ?nm hidden, section_flags ?at 0,
    section_flags ?bd 0, of_nat major, of_nat minor] @ l @ n @ a @ b @ pad @ [DB5HDR_MAGIC2]"
    by (simp add: hdr_def)
  show ?thesis
    by (rule exI[of _ ?out], rule exI[of _ l], rule exI[of _ n], rule exI[of _ a],
        rule exI[of _ b], rule exI[of _ pad], rule exI[of _ hw],
        intro conjI exp shape enc hw fits put sizes)
qed


lemma unat_push_bit_3:
  assumes "L mod 8 = 0" "L < 2 ^ 63"
  shows "unat (push_bit 3 (of_nat (L div 8)) :: size_t) = L"
proof -
  have "push_bit 3 (of_nat (L div 8)) = (of_nat (L div 8 * 8) :: size_t)"
    by (simp add: push_bit_eq_mult)
  also have "L div 8 * 8 = L" using assms(1) by presburger
  finally show ?thesis using assms(2) by (simp add: unat_size_of_nat)
qed

section \<open>Properties\<close>

lemma object_read_back:
  assumes small: "small_section (name_section name)" "small_section (section_of attrib)"
    "small_section (section_of body)"
    and attr4: "attr_ok (section_of attrib)"
  shows "\<exists>out rip'. db5_export_object3 dli name hidden attrib body major minor 0 0 = Some out
    \<and> db5_get_raw_internal_ptr rip (out @ rest) = Some (rip', Some (length out))
    \<and> length out mod 8 = 0
    \<and> h_dli rip' = of_nat dli AND 3 \<and> (h_name_hidden rip' = 0 \<longleftrightarrow> hidden = 0)
    \<and> major_type rip' = of_nat major \<and> minor_type rip' = of_nat minor
    \<and> ext_data (out @ rest) (rname rip') = name_section name
    \<and> ext_data (out @ rest) (rattributes rip') = section_of attrib
    \<and> ext_data (out @ rest) (rbody rip') = section_of body
    \<and> ext_fits (out @ rest) (rname rip') \<and> ext_fits (out @ rest) (rattributes rip')
    \<and> ext_fits (out @ rest) (rbody rip')"
proof -
  obtain out len n a b pad hw where
    exp: "db5_export_object3 dli name hidden attrib body major minor 0 0 = Some out"
    and out: "out = [DB5HDR_MAGIC1, hflags_of hw dli (name_section name) hidden,
             section_flags (section_of attrib) 0, section_flags (section_of body) 0,
             of_nat major, of_nat minor] @ len @ n @ a @ b @ pad @ [DB5HDR_MAGIC2]"
    and enc: "db5_encode_length (of_nat (length out div 8)) hw = Some len" and hw: "hw \<le> 3"
    and fits: "fits_unsigned (of_nat (length out div 8)) hw"
    and put: "put_section (name_section name) = Some n" "put_section (section_of attrib) = Some a"
      "put_section (section_of body) = Some b"
    and sz: "length out mod 8 = 0" "length out < 2 ^ 63" "8 \<le> length out"
    using export_object3_shape[OF small attr4, of dli hidden major minor]
    by (elim exE conjE) (rule that)
  let ?ip = "out @ rest"
  note hf = hflags_fields[OF hw, of dli "name_section name" hidden]
  have d6: "drop 6 ?ip = len @ n @ a @ b @ pad @ DB5HDR_MAGIC2 # rest" by (simp add: out)
  have dec: "db5_decode_length (drop 6 ?ip) hw = Some (of_nat (length out div 8), length len)"
    unfolding d6 by (rule db5_decode_encode[OF fits enc])
  have last: "?ip ! (length out - 1) = DB5HDR_MAGIC2"
  proof -
    have "out \<noteq> []" "last out = DB5HDR_MAGIC2" by (simp_all add: out)
    then show ?thesis by (simp add: nth_append last_conv_nth)
  qed
  note L = unat_push_bit_3[OF sz(1,2)]
  have d6k: "drop (6 + k) ?ip = drop k (len @ n @ a @ b @ pad @ DB5HDR_MAGIC2 # rest)" for k
    unfolding d6[symmetric] by (simp only: drop_drop add.commute)
  have dn: "drop (6 + length len) ?ip = n @ a @ b @ pad @ DB5HDR_MAGIC2 # rest"
    and da: "drop (6 + length len + length n) ?ip = a @ b @ pad @ DB5HDR_MAGIC2 # rest"
    and db: "drop (6 + length len + length n + length a) ?ip = b @ pad @ DB5HDR_MAGIC2 # rest"
    by (simp_all add: d6k add.assoc del: drop_append) (simp_all add: drop_append)
  obtain en where en: "grab ?ip (hflags_of hw dli (name_section name) hidden AND DB5HDR_HFLAGS_NAME_PRESENT)
      (drop_bit 3 (hflags_of hw dli (name_section name) hidden AND DB5HDR_HFLAGS_NAME_WIDTH_MASK))
      (6 + length len) = Some (en, 6 + length len + length n)" "ext_data ?ip en = name_section name" "ext_fits ?ip en"
    using grab_section[OF put(1) dn small(1) hf(3,4)] by blast
  obtain ea where ea: "grab ?ip (section_flags (section_of attrib) 0 AND DB5HDR_AFLAGS_PRESENT)
      (drop_bit 6 (section_flags (section_of attrib) 0 AND DB5HDR_AFLAGS_WIDTH_MASK))
      (6 + length len + length n) = Some (ea, 6 + length len + length n + length a)"
    "ext_data ?ip ea = section_of attrib" "ext_fits ?ip ea"
    using grab_section[OF put(2) da small(2) section_flags_fields(2,1)] by blast
  obtain eb where eb: "grab ?ip (section_flags (section_of body) 0 AND DB5HDR_AFLAGS_PRESENT)
      (drop_bit 6 (section_flags (section_of body) 0 AND DB5HDR_AFLAGS_WIDTH_MASK))
      (6 + length len + length n + length a) = Some (eb, 6 + length len + length n + length a + length b)"
    "ext_data ?ip eb = section_of body" "ext_fits ?ip eb"
    using grab_section[OF put(3) db small(3) section_flags_fields(2,1)] by blast
  have crack: "\<exists>r. crack_disk_header rip ?ip = Some (0, r)
      \<and> h_object_width r = drop_bit 6 (hflags_of hw dli (name_section name) hidden AND DB5HDR_HFLAGS_OBJECT_WIDTH_MASK)
      \<and> h_name_present r = hflags_of hw dli (name_section name) hidden AND DB5HDR_HFLAGS_NAME_PRESENT
      \<and> h_name_width r = drop_bit 3 (hflags_of hw dli (name_section name) hidden AND DB5HDR_HFLAGS_NAME_WIDTH_MASK)
      \<and> h_dli r = of_nat dli AND 3 \<and> (h_name_hidden r = 0 \<longleftrightarrow> hidden = 0)
      \<and> a_present r = section_flags (section_of attrib) 0 AND DB5HDR_AFLAGS_PRESENT
      \<and> a_width r = drop_bit 6 (section_flags (section_of attrib) 0 AND DB5HDR_AFLAGS_WIDTH_MASK)
      \<and> b_present r = section_flags (section_of body) 0 AND DB5HDR_AFLAGS_PRESENT
      \<and> b_width r = drop_bit 6 (section_flags (section_of body) 0 AND DB5HDR_AFLAGS_WIDTH_MASK)
      \<and> major_type r = of_nat major \<and> minor_type r = of_nat minor"
    using hf(2,5) by (simp add: out)
  then obtain r where r: "crack_disk_header rip ?ip = Some (0, r)"
    and rf: "h_object_width r = drop_bit 6 (hflags_of hw dli (name_section name) hidden AND DB5HDR_HFLAGS_OBJECT_WIDTH_MASK)"
      "h_name_present r = hflags_of hw dli (name_section name) hidden AND DB5HDR_HFLAGS_NAME_PRESENT"
      "h_name_width r = drop_bit 3 (hflags_of hw dli (name_section name) hidden AND DB5HDR_HFLAGS_NAME_WIDTH_MASK)"
      "h_dli r = of_nat dli AND 3" "h_name_hidden r = 0 \<longleftrightarrow> hidden = 0"
      "a_present r = section_flags (section_of attrib) 0 AND DB5HDR_AFLAGS_PRESENT"
      "a_width r = drop_bit 6 (section_flags (section_of attrib) 0 AND DB5HDR_AFLAGS_WIDTH_MASK)"
      "b_present r = section_flags (section_of body) 0 AND DB5HDR_AFLAGS_PRESENT"
      "b_width r = drop_bit 6 (section_flags (section_of body) 0 AND DB5HDR_AFLAGS_WIDTH_MASK)"
      "major_type r = of_nat major" "minor_type r = of_nat minor"
    by blast
  have "db5_get_raw_internal_ptr rip ?ip
      = Some (r\<lparr>object_length := push_bit 3 (of_nat (length out div 8)),
                rname := en, rattributes := ea, rbody := eb\<rparr>, Some (length out))"
    unfolding db5_get_raw_internal_ptr_def
    using r dec last L sz(3) hf(1)[folded rf(1)] en(1)[folded rf(2,3)] ea(1)[folded rf(6,7)]
      eb(1)[folded rf(8,9)]
    by (simp add: sizeof_header_def grab_sections_def Let_def)
  then show ?thesis
    using exp sz(1) rf(4,5,10,11) en(2,3) ea(2,3) eb(2,3) by fastforce
qed

text \<open>C22: an object written by \<open>db5_export_object3\<close> fits the buffer allocated for it,
  its length is a multiple of eight, and \<open>db5_get_raw_internal_ptr\<close>, whatever the
  structure held before and whatever bytes follow, returns the position just past it and
  recovers the type, the flags, the name, the attributes and the body.\<close>

theorem object_roundtrip:
  assumes small: "small_section (name_section name)" "small_section (section_of attrib)"
    "small_section (section_of body)"
    and attr4: "attr_ok (section_of attrib)"
  shows "\<exists>out rip'. db5_export_object3 dli name hidden attrib body major minor 0 0 = Some out
    \<and> db5_get_raw_internal_ptr rip (out @ rest) = Some (rip', Some (length out))
    \<and> length out mod 8 = 0
    \<and> h_dli rip' = of_nat dli AND 3 \<and> (h_name_hidden rip' = 0 \<longleftrightarrow> hidden = 0)
    \<and> major_type rip' = of_nat major \<and> minor_type rip' = of_nat minor
    \<and> ext_data (out @ rest) (rname rip') = name_section name
    \<and> ext_data (out @ rest) (rattributes rip') = section_of attrib
    \<and> ext_data (out @ rest) (rbody rip') = section_of body"
  using object_read_back[OF assms, where dli = dli and hidden = hidden and major = major and minor = minor
    and rip = rip and rest = rest] by (elim exE conjE) (intro exI conjI; assumption)


lemma object_roundtrip_witness:
  "\<forall>rip0. \<exists>out rip'. db5_export_object3 0 (Some ''ball'') 0 None (Some [1, 2, 3]) 1 3 0 0 = Some out
     \<and> db5_get_raw_internal_ptr rip0 (out @ [9]) = Some (rip', Some (length out))
     \<and> ext_data (out @ [9]) (rbody rip') = Some [1, 2, 3]"
proof -
  have "small_section (name_section (Some ''ball''))" "small_section (section_of None)"
    "small_section (section_of (Some [1, 2, 3]))" "attr_ok (section_of None)"
    by (simp_all add: small_section_def name_section_def section_of_def attr_ok_def)
  from object_roundtrip[OF this, of 0 0 1 3 _ "[9]"] show ?thesis
    by (fastforce simp: section_of_def)
qed

lemma drop_change_first: "0 < k \<Longrightarrow> drop k (c # bs) = drop k (c' # bs)"
  by (cases k) auto

lemma grab_change_first: "0 < cp \<Longrightarrow> grab (c # bs) p w cp = grab (c' # bs) p w cp"
  using drop_change_first[of cp c bs c'] by (simp add: grab_def)

lemma grab_advances: "grab buf p w cp = Some (e, cp') \<Longrightarrow> cp \<le> cp'"
  by (auto simp: grab_def Let_def split: if_splits elim!: option_elims)

lemma crack_disk_header_other:
  assumes "crack_disk_header rip (c # bs) = Some (rc, r)" "c' \<noteq> DB5HDR_MAGIC1"
  shows "crack_disk_header r' (c' # bs) = Some (0, r')"
  using assms by (cases "(rip, c # bs)" rule: crack_disk_header.cases) auto

lemma crack_disk_header_rc: "crack_disk_header rip bs = Some (rc, r) \<Longrightarrow> rc = 0"
  by (cases "(rip, bs)" rule: crack_disk_header.cases) (auto split: if_splits)

lemma grab_sections_change_first:
  assumes "0 < cp"
  shows "grab_sections rip (c # bs) cp = grab_sections rip (c' # bs) cp"
proof -
  have same: "grab (c # bs) p w k = grab (c' # bs) p w k" if "0 < k" for p w k
    using that by (rule grab_change_first)
  show ?thesis
  proof (cases "grab (c' # bs) (h_name_present rip) (h_name_width rip) cp")
    case (Some x)
    obtain nm cp1 where n: "x = (nm, cp1)" by fastforce
    then have cp1: "0 < cp1" using grab_advances[of "c' # bs"] Some assms by fastforce
    show ?thesis
    proof (cases "grab (c' # bs) (a_present rip) (a_width rip) cp1")
      case Some': (Some y)
      obtain at cp2 where a: "y = (at, cp2)" by fastforce
      then have cp2: "0 < cp2" using grab_advances[of "c' # bs"] Some' cp1 by fastforce
      show ?thesis by (simp add: grab_sections_def same[OF assms] Some n same[OF cp1] Some' a same[OF cp2])
    qed (simp add: grab_sections_def same[OF assms] Some n same[OF cp1])
  qed (simp add: grab_sections_def same[OF assms])
qed

lemma grab_sections_again:
  assumes "grab_sections rip ip cp = Some (rip', x)"
  shows "\<exists>nm at bd. rip' = rip\<lparr>rname := nm, rattributes := at, rbody := bd\<rparr>"
    and "x = Some (unat (object_length rip))" and "grab_sections rip' ip cp = Some (rip', x)"
  using assms by (auto simp: grab_sections_def elim!: option_elims)

text \<open>\<open>crack_disk_header\<close> is documented to return -1 on error but returns 0 when the
  leading magic number is wrong, leaving the structure alone.  So if the structure still
  holds a previously parsed object, that object is accepted again with any first byte.\<close>

theorem bad_magic_accepted:
  assumes "db5_get_raw_internal_ptr rip (c # bs) = Some (rip', Some n)" "c' \<noteq> DB5HDR_MAGIC1"
  shows "db5_get_raw_internal_ptr rip' (c' # bs) = Some (rip', Some n)"
proof -
  obtain rc r where r: "crack_disk_header rip (c # bs) = Some (rc, r)"
    using assms(1) by (auto simp: db5_get_raw_internal_ptr_def elim!: option_elims)
  note rc = crack_disk_header_rc[OF r]
  obtain len used where dec: "db5_decode_length (drop 6 (c # bs)) (unat (h_object_width r)) = Some (len, used)"
    using assms(1) r rc by (auto simp: db5_get_raw_internal_ptr_def sizeof_header_def elim!: option_elims)
  let ?L = "unat (push_bit 3 len)" and ?r = "r\<lparr>object_length := push_bit 3 len\<rparr>"
  have L: "\<not> ?L < 6" "\<not> length (c # bs) < ?L" "(c # bs) ! (?L - 1) = DB5HDR_MAGIC2"
    and g: "grab_sections ?r (c # bs) (6 + used) = Some (rip', Some n)"
    using assms(1) r rc dec
    by (simp_all add: db5_get_raw_internal_ptr_def sizeof_header_def Let_def split: if_splits)
  obtain nm at bd where rip': "rip' = ?r\<lparr>rname := nm, rattributes := at, rbody := bd\<rparr>"
    using grab_sections_again(1)[OF g] by blast
  have g': "grab_sections rip' (c' # bs) (6 + used) = Some (rip', Some n)"
    using grab_sections_again(3)[OF g] grab_sections_change_first[of "6 + used" rip' c bs c'] by simp
  have d': "db5_decode_length (drop 6 (c' # bs)) (unat (h_object_width rip')) = Some (len, used)"
    using dec drop_change_first[of 6 c bs c'] by (simp add: rip')
  have m': "(c' # bs) ! (?L - 1) = DB5HDR_MAGIC2"
    using L by (simp add: nth_Cons')
  have same: "rip'\<lparr>object_length := push_bit 3 len\<rparr> = rip'" "object_length rip' = push_bit 3 len"
    by (simp_all add: rip')
  have g'': "grab_sections (rip'\<lparr>object_length := push_bit 3 len\<rparr>) (c' # bs) (6 + used)
      = Some (rip', Some n)" unfolding same(1) by (rule g')
  show ?thesis
    unfolding db5_get_raw_internal_ptr_def sizeof_header_def
    using crack_disk_header_other[OF r assms(2), of rip'] L d' m' g'' same(2)
    by (simp add: Let_def)
qed

lemma bad_magic_accepted_witness:
  "\<forall>rip0. \<exists>out rip'. db5_get_raw_internal_ptr rip0 (0x76 # out) = Some (rip', Some 8)
     \<and> db5_get_raw_internal_ptr rip' (0x49 # out) = Some (rip', Some 8)"
proof
  fix rip0
  have "\<exists>rip'. db5_get_raw_internal_ptr rip0 (0x76 # [1, 0, 0, 0, 0, 1, 0x35]) = Some (rip', Some 8)"
    by (simp add: db5_get_raw_internal_ptr_def hdr_defs sizeof_header_def db5_decode_length_def
        widthcode_defs grab_def grab_sections_def Let_def)
  then obtain rip' where
    r: "db5_get_raw_internal_ptr rip0 (0x76 # [1, 0, 0, 0, 0, 1, 0x35]) = Some (rip', Some 8)" by blast
  from bad_magic_accepted[OF r, of "0x49"] r
  show "\<exists>out rip'. db5_get_raw_internal_ptr rip0 (0x76 # out) = Some (rip', Some 8)
     \<and> db5_get_raw_internal_ptr rip' (0x49 # out) = Some (rip', Some 8)"
    by (auto simp: hdr_defs)
qed

text \<open>The header object that starts a database, exported with no name, attributes
  or body, is exactly what \<open>db5_header_is_valid\<close> accepts.\<close>

theorem ident_header_valid:
  "\<exists>out. db5_export_object3 1 None 0 None None 0 0 0 0 = Some out
     \<and> db5_header_is_valid (out @ rest) = Some True"
  by (simp add: db5_export_object3_def name_section_def section_of_def object_need_def
      section_need_def sizeof_header_def db5_select_length_encoding_def widthcode_defs
      put_section_def db5_encode_length_def finish_object_def pad8_def hdr_defs hflags_of_def
      section_flags_def section_width_def Let_def)

lemma replicate_update_last: "(replicate (Suc z) x)[z := y] = replicate z x @ [y]"
  by (induction z) auto

lemma free_header_spec:
  assumes "len < 2 ^ 60"
  shows "\<exists>l w. free_header len = Some ([DB5HDR_MAGIC1, push_bit 6 (of_nat w) OR 2, 0, 0, 0, 0] @ l)
     \<and> w \<le> 3 \<and> db5_encode_length (of_nat (len div 8)) w = Some l \<and> length l = ENCODE_LEN w
     \<and> fits_unsigned (of_nat (len div 8)) w \<and> (8 \<le> len \<longrightarrow> 6 + length l < len)"
proof -
  define w where "w = db5_select_length_encoding (of_nat (len div 8))"
  have w: "w \<le> 3" by (simp add: w_def select_le_3)
  obtain l where l: "db5_encode_length (of_nat (len div 8)) w = Some l" "length l = ENCODE_LEN w"
    using db5_encode_length_length[OF w] by blast
  have u: "unat (of_nat (len div 8) :: size_t) = len div 8" using assms by (intro unat_size_of_nat) simp
  have "w = 0 \<or> 2048 \<le> len"
    using u by (auto simp: w_def db5_select_length_encoding_def widthcode_defs word_le_nat_alt)
  then have "8 \<le> len \<longrightarrow> 6 + length l < len"
    using l(2) ENCODE_LEN_le_8[OF w] by (auto simp: ENCODE_LEN_def)
  then show ?thesis
    using w l fits_select[of "of_nat (len div 8)"]
    by (auto simp: free_header_def Let_def simp flip: w_def)
qed

text \<open>A free-storage object built for a length that is a multiple of eight is a
  well-formed object of that very length, marked as free storage and without name,
  attributes and body.\<close>

theorem free_object_parses:
  assumes "8 \<le> len" "len mod 8 = 0" "len < 2 ^ 60"
  shows "\<exists>buf rip'. db5_make_free_object len = Some buf \<and> length buf = len
     \<and> db5_get_raw_internal_ptr rip (buf @ rest) = Some (rip', Some len)
     \<and> h_dli rip' = 2 \<and> ext_buf (rname rip') = None
     \<and> ext_buf (rattributes rip') = None \<and> ext_buf (rbody rip') = None"
proof -
  obtain l w where "free_header len = Some ([DB5HDR_MAGIC1, push_bit 6 (of_nat w) OR 2, 0, 0, 0, 0] @ l)"
    and w: "w \<le> 3" and l: "db5_encode_length (of_nat (len div 8)) w = Some l"
    and fits: "fits_unsigned (of_nat (len div 8)) w" and sz: "6 + length l < len"
    using free_header_spec[OF assms(3)] assms(1) by blast
  define z where "z = len - (7 + length l)"
  have len: "len = 6 + length l + z + 1" using sz by (simp add: z_def)
  let ?buf = "[DB5HDR_MAGIC1, push_bit 6 (of_nat w) OR 2, 0, 0, 0, 0] @ l @ replicate z 0 @ [DB5HDR_MAGIC2]"
  have buf: "db5_make_free_object len = Some ?buf"
  proof -
    define h where "h = [DB5HDR_MAGIC1, push_bit 6 (of_nat w) OR 2, 0, 0, 0, 0] @ l"
    have hl: "length h = 6 + length l" by (simp add: h_def)
    have n: "len - length h = Suc z" "len - 1 = length h + z" "\<not> len < length h"
      using len hl by simp_all
    have "(h @ replicate (Suc z) 0)[length h + z := DB5HDR_MAGIC2]
        = h @ (replicate (Suc z) 0)[z := DB5HDR_MAGIC2]"
      by (simp add: list_update_append del: replicate.simps)
    then have "(h @ replicate (len - length h) 0)[len - 1 := DB5HDR_MAGIC2] = ?buf"
      unfolding n replicate_update_last by (simp add: h_def)
    then show ?thesis
      using assms(1,2) n(3) \<open>free_header len = _\<close>[folded h_def]
      by (simp add: db5_make_free_object_def)
  qed
  have dec: "db5_decode_length (l @ replicate z 0 @ DB5HDR_MAGIC2 # rest) w
      = Some (of_nat (len div 8), length l)"
    by (rule db5_decode_encode[OF fits l])
  have L: "unat (push_bit 3 (of_nat (len div 8)) :: size_t) = len"
    using assms by (intro unat_push_bit_3) auto
  have ow: "unat (drop_bit 6 ((push_bit 6 (of_nat w) OR 2) AND DB5HDR_HFLAGS_OBJECT_WIDTH_MASK) :: byte) = w"
    "((push_bit 6 (of_nat w) OR 2) AND DB5HDR_HFLAGS_DLI_MASK :: byte) = 2"
    "((push_bit 6 (of_nat w) OR 2) AND DB5HDR_HFLAGS_NAME_PRESENT :: byte) = 0"
    using w by (cases rule: width_cases; simp add: hdr_defs)+
  have last: "(?buf @ rest) ! (len - 1) = DB5HDR_MAGIC2"
    by (simp add: len nth_append)
  let ?r = "rip\<lparr>h_dli := 2, h_object_width := drop_bit 6 ((push_bit 6 (of_nat w) OR 2)
        AND DB5HDR_HFLAGS_OBJECT_WIDTH_MASK), h_name_present := 0,
      h_name_hidden := (push_bit 6 (of_nat w) OR 2) AND DB5HDR_HFLAGS_HIDDEN_OBJECT,
      h_name_width := drop_bit 3 ((push_bit 6 (of_nat w) OR 2) AND DB5HDR_HFLAGS_NAME_WIDTH_MASK),
      a_width := 0, a_present := 0, a_zzz := 0, b_width := 0, b_present := 0, b_zzz := 0,
      major_type := 0, minor_type := 0\<rparr>"
  have crack: "crack_disk_header rip (?buf @ rest) = Some (0, ?r)"
    using ow(2,3) by simp
  have d6: "drop 6 (?buf @ rest) = l @ replicate z 0 @ DB5HDR_MAGIC2 # rest" by simp
  have "db5_get_raw_internal_ptr rip (?buf @ rest) = grab_sections
      (?r\<lparr>object_length := push_bit 3 (of_nat (len div 8))\<rparr>) (?buf @ rest) (6 + length l)"
    unfolding db5_get_raw_internal_ptr_def sizeof_header_def crack
    using dec ow(1) L last sz by (simp add: d6 Let_def len)
  then show ?thesis using buf L len
    by (simp add: grab_sections_def grab_def BU_EXTERNAL_INIT_def)
qed


lemma free_object_parses_witness:
  "\<forall>rip0. \<exists>buf rip'. db5_make_free_object 16 = Some buf
     \<and> db5_get_raw_internal_ptr rip0 (buf @ []) = Some (rip', Some 16) \<and> h_dli rip' = 2"
  using free_object_parses[of 16 _ "[]"] by fastforce

end
