(* ===== verification/Db5Alloc.thy ===== *)
theory Db5Alloc
  imports RtMemAlloc Db5Object
begin

text \<open>
  Storage of objects in a v5 database file: \<open>librt/db5_alloc.c\<close>, \<open>db_read\<close>, \<open>db_write\<close> and
  \<open>db_get_external\<close> of \<open>librt/db_io.c\<close>, \<open>db_put_external5\<close> of \<open>librt/db5_io.c\<close> and
  \<open>db_delete\<close> of \<open>librt/db_alloc.c\<close> for version 5.

  The file is the list of its bytes.  \<open>dbi_io\<close> holds the outcomes of the coming calls of
  \<open>fwrite\<close>: \<open>None\<close> writes everything, \<open>Some k\<close> stops after \<open>k\<close> bytes; when the list is
  used up every write succeeds.  A \<open>None\<close> result of an operation is a failed assertion or
  an access outside a buffer.
\<close>

unbundle bit_operations_syntax

section \<open>Data\<close>

text \<open>\<open>d_un\<close> is a union: the offset in the file, or the memory of an object that is only
  in memory, whose bytes are \<open>None\<close> as long as they are indeterminate.\<close>

datatype d_un = FileOffset off_t | MemPtr "byte option list option"

record directory =
  d_un :: d_un
  d_len :: size_t
  d_inmem :: bool
  d_namep :: string

record db_i =
  dbi_freep :: rt_mem
  dbi_eof :: off_t
  dbi_read_only :: bool
  dbi_inmem :: "byte list option"
  dbi_file :: "byte list"
  dbi_io :: "nat option list"

definition RT_DIR_PHONY_ADDR :: off_t where "RT_DIR_PHONY_ADDR = -1"

text \<open>For an object in memory \<open>d_addr\<close> reads the pointer, which is only ever compared with
  \<open>RT_DIR_PHONY_ADDR\<close> and is not equal to it.\<close>

definition d_addr :: "directory \<Rightarrow> off_t" where
  "d_addr dp = (case d_un dp of FileOffset a \<Rightarrow> a | MemPtr _ \<Rightarrow> 0)"

section \<open>Reading and writing the file\<close>

definition write_at :: "nat \<Rightarrow> byte list \<Rightarrow> byte list \<Rightarrow> byte list" where
  "write_at off bs f =
     (if bs = [] then f
      else take off (f @ replicate (off - length f) 0) @ bs @ drop (off + length bs) f)"

definition db_write :: "db_i \<Rightarrow> byte list \<Rightarrow> off_t \<Rightarrow> int \<times> db_i" where
  "db_write dbip addr offset =
     (if dbi_read_only dbip then (-1, dbip)
      else if length addr = 0 then (-1, dbip)
      else if dbi_inmem dbip \<noteq> None then (-1, dbip)
      else let got = (case dbi_io dbip of Some k # _ \<Rightarrow> min k (length addr) | _ \<Rightarrow> length addr);
               dbip = dbip\<lparr>dbi_file := write_at (unat offset) (take got addr) (dbi_file dbip),
                           dbi_io := tl (dbi_io dbip)\<rparr>
           in if got \<noteq> length addr then (-1, dbip\<lparr>dbi_read_only := True\<rparr>) else (0, dbip))"

definition db_read :: "db_i \<Rightarrow> size_t \<Rightarrow> off_t \<Rightarrow> (int \<times> byte list) option" where
  "db_read dbip count offset =
     (if count = 0 then Some (-1, [])
      else if offset + count > dbi_eof dbip then Some (-1, [])
      else case dbi_inmem dbip of
             Some mem \<Rightarrow> if unat offset + unat count \<le> length mem
                         then Some (0, take (unat count) (drop (unat offset) mem)) else None
           | None \<Rightarrow> let got = take (unat count) (drop (unat offset) (dbi_file dbip))
                     in if length got \<noteq> unat count then Some (-1, []) else Some (0, got))"

text \<open>Reading a memory object copies bytes that must have been written.\<close>

definition all_written :: "byte option list \<Rightarrow> byte list option" where
  "all_written bs = (if None \<in> set bs then None else Some (map the bs))"

definition db_get_external :: "directory \<Rightarrow> db_i \<Rightarrow> (int \<times> byte list) option" where
  "db_get_external dp dbip =
     (if \<not> d_inmem dp \<and> d_addr dp = RT_DIR_PHONY_ADDR then Some (-1, [])
      else if d_inmem dp
      then case d_un dp of
             MemPtr (Some p) \<Rightarrow> if unat (d_len dp) \<le> length p
                                then map_option (Pair 0) (all_written (take (unat (d_len dp)) p)) else None
           | _ \<Rightarrow> None
      else map_option (\<lambda>(rc, bs). if rc < 0 then (-1, []) else (0, bs))
             (db_read dbip (d_len dp) (d_addr dp)))"

section \<open>Allocation\<close>

definition mem_put :: "d_un \<Rightarrow> byte list \<Rightarrow> d_un option" where
  "mem_put u bs =
     (case u of
        MemPtr (Some p) \<Rightarrow> if length bs \<le> length p
                           then Some (MemPtr (Some (map Some bs @ drop (length bs) p))) else None
      | _ \<Rightarrow> None)"

definition db5_write_free :: "db_i \<Rightarrow> directory \<Rightarrow> size_t \<Rightarrow> (int \<times> db_i \<times> directory) option" where
  "db5_write_free dbip dp len =
     (if len \<le> 8192
      then do { ext \<leftarrow> db5_make_free_object (unat len);
                if d_inmem dp
                then do { u \<leftarrow> mem_put (d_un dp) ext; Some (0, dbip, dp\<lparr>d_un := u\<rparr>) }
                else (let (rc, dbip) = db_write dbip ext (d_addr dp)
                      in Some (if rc < 0 then -1 else 0, dbip, dp)) }
      else do { ext \<leftarrow> db5_make_free_object_hdr (unat len);
                if d_inmem dp
                then do { u \<leftarrow> mem_put (d_un dp) ext;
                          if unat len - 1 < length ext then Some (0, dbip, dp\<lparr>d_un := u\<rparr>)
                          else None }
                else (let (rc, dbip) = db_write dbip ext (d_addr dp)
                      in if rc < 0 then Some (-1, dbip, dp)
                         else let (rc, dbip) = db_write dbip [DB5HDR_MAGIC2] (d_addr dp + len - 1)
                              in Some (if rc < 0 then -1 else 0, dbip, dp)) })"

definition realloc_mem :: "d_un \<Rightarrow> nat \<Rightarrow> d_un option" where
  "realloc_mem u n =
     (case u of
        MemPtr (Some p) \<Rightarrow> Some (MemPtr (Some (take n p @ replicate (n - length p) None)))
      | MemPtr None \<Rightarrow> Some (MemPtr (Some (replicate n None)))
      | FileOffset _ \<Rightarrow> None)"

text \<open>The object is getting smaller.\<close>

definition realloc_smaller :: "db_i \<Rightarrow> directory \<Rightarrow> size_t \<Rightarrow> (int \<times> db_i \<times> directory) option" where
  "realloc_smaller dbip dp n =
     (let baseaddr = d_addr dp; baselen = d_len dp; dp = dp\<lparr>d_len := n\<rparr>
      in do { (rc, dbip, dp) \<leftarrow> db5_write_free dbip dp (d_len dp);
              if rc < 0 then Some (-1, dbip, dp)
              else do {
                let dp = dp\<lparr>d_un := FileOffset (baseaddr + n), d_len := baselen - n\<rparr>;
                (rc, dbip, dp) \<leftarrow> db5_write_free dbip dp (d_len dp);
                if rc < 0 then Some (-1, dbip, dp)
                else Some (0, dbip\<lparr>dbi_freep := rt_memfree (d_len dp) (d_addr dp) (dbi_freep dbip)\<rparr>,
                           dp\<lparr>d_un := FileOffset baseaddr, d_len := n\<rparr>) } })"

text \<open>The object is getting larger: its storage is released first.\<close>

definition realloc_release :: "db_i \<Rightarrow> directory \<Rightarrow> (int \<times> db_i \<times> directory) option" where
  "realloc_release dbip dp =
     (if d_addr dp \<noteq> RT_DIR_PHONY_ADDR
      then do { let dbip = dbip\<lparr>dbi_freep := rt_memfree (d_len dp) (d_addr dp) (dbi_freep dbip)\<rparr>;
                (rc, dbip, dp) \<leftarrow> db5_write_free dbip dp (d_len dp);
                if rc < 0 then Some (-1, dbip, dp)
                else Some (0, dbip, dp\<lparr>d_un := FileOffset RT_DIR_PHONY_ADDR\<rparr>) }
      else Some (0, dbip, dp))"

definition realloc_place :: "db_i \<Rightarrow> directory \<Rightarrow> size_t \<Rightarrow> (int \<times> db_i \<times> directory) option" where
  "realloc_place dbip dp n =
     (case rt_memalloc_nosplit n (dbi_freep dbip) of
        (Some mmp, m) \<Rightarrow>
          (let dbip = dbip\<lparr>dbi_freep := m\<rparr>
           in if m_size mmp < n then None
              else if m_size mmp = n
              then Some (0, dbip, dp\<lparr>d_un := FileOffset (m_addr mmp), d_len := n\<rparr>)
              else do {
                let newaddr = m_addr mmp;
                let dp = dp\<lparr>d_un := FileOffset (m_addr mmp + n), d_len := m_size mmp - n\<rparr>;
                (rc, dbip, dp) \<leftarrow> db5_write_free dbip dp (d_len dp);
                if rc < 0 then Some (-1, dbip, dp)
                else do {
                  let dbip = dbip\<lparr>dbi_freep := rt_memfree (d_len dp) (d_addr dp) (dbi_freep dbip)\<rparr>;
                  let dp = dp\<lparr>d_un := FileOffset newaddr, d_len := n\<rparr>;
                  (rc, dbip, dp) \<leftarrow> db5_write_free dbip dp (d_len dp);
                  Some (if rc < 0 then -1 else 0, dbip, dp) } })
      | (None, m) \<Rightarrow>
          Some (0, dbip\<lparr>dbi_freep := m, dbi_eof := dbi_eof dbip + n\<rparr>,
                dp\<lparr>d_un := FileOffset (dbi_eof dbip), d_len := n\<rparr>))"

text \<open>\<open>db_dirbuild\<close>, which scans a database whose directory is not built yet, is a
  parameter.\<close>

definition db5_realloc ::
  "(db_i \<Rightarrow> int \<times> db_i) \<Rightarrow> db_i \<Rightarrow> directory \<Rightarrow> size_t \<Rightarrow> (int \<times> db_i \<times> directory) option" where
  "db5_realloc db_dirbuild dbip dp n =
     (if n AND 7 \<noteq> 0 then None
      else if d_addr dp \<noteq> RT_DIR_PHONY_ADDR \<and> n = d_len dp then Some (0, dbip, dp)
      else if d_addr dp = RT_DIR_PHONY_ADDR \<and> d_len dp \<noteq> 0 then None
      else if d_inmem dp
      then do { u \<leftarrow> realloc_mem (d_un dp) (unat n); Some (0, dbip, dp\<lparr>d_un := u, d_len := n\<rparr>) }
      else let (ret, dbip) = (if dbi_eof dbip = RT_DIR_PHONY_ADDR then db_dirbuild dbip else (0, dbip))
           in if ret \<noteq> 0 then Some (-1, dbip, dp)
              else if dbi_read_only dbip then Some (-1, dbip, dp)
              else if n < d_len dp then realloc_smaller dbip dp n
              else do { (rc, dbip, dp) \<leftarrow> realloc_release dbip dp;
                        if rc < 0 then Some (-1, dbip, dp) else realloc_place dbip dp n })"

section \<open>Storing and deleting objects\<close>

text \<open>A section of a parsed object, copied out of the buffer it points into.\<close>

definition ext_copy :: "byte list \<Rightarrow> bu_external \<Rightarrow> byte list option option" where
  "ext_copy buf e =
     (case ext_buf e of
        None \<Rightarrow> Some None
      | Some off \<Rightarrow> if off + unat (ext_nbytes e) \<le> length buf
                    then Some (Some (take (unat (ext_nbytes e)) (drop off buf))) else None)"

text \<open>\<open>raw\<close> is what the uninitialised local structure holds.\<close>

definition db_wrap_v5_external ::
  "db5_raw_internal \<Rightarrow> byte list \<Rightarrow> string \<Rightarrow> (int \<times> byte list) option" where
  "db_wrap_v5_external raw ep name =
     do { (raw, next) \<leftarrow> db5_get_raw_internal_ptr raw ep;
          if next = None then Some (-1, ep)
          else if h_dli raw \<noteq> 0 then None
          else do {
            same \<leftarrow> (case ext_buf (rname raw) of
                       None \<Rightarrow> Some False
                     | Some off \<Rightarrow> map_option (\<lambda>s. s = bytes_of name) (c_string (drop off ep)));
            if same then Some (0, ep)
            else do {
              attributes \<leftarrow> ext_copy ep (rattributes raw);
              body \<leftarrow> ext_copy ep (rbody raw);
              out \<leftarrow> db5_export_object3 0 (Some name) (h_name_hidden raw) attributes body
                       (unat (major_type raw)) (unat (minor_type raw))
                       (unat (a_zzz raw)) (unat (b_zzz raw));
              Some (0, out) } } }"

definition db_put_external5 ::
  "(db_i \<Rightarrow> int \<times> db_i) \<Rightarrow> db5_raw_internal \<Rightarrow> byte list \<Rightarrow> directory \<Rightarrow> db_i
     \<Rightarrow> (int \<times> db_i \<times> directory) option" where
  "db_put_external5 db_dirbuild raw ep dp dbip =
     (if dbi_read_only dbip then Some (-1, dbip, dp)
      else do {
        (rc, ep) \<leftarrow> db_wrap_v5_external raw ep (d_namep dp);
        if rc < 0 then Some (-1, dbip, dp)
        else do {
          (rc, dbip, dp) \<leftarrow>
            (if of_nat (length ep) \<noteq> d_len dp \<or> d_addr dp = RT_DIR_PHONY_ADDR
             then db5_realloc db_dirbuild dbip dp (of_nat (length ep)) else Some (0, dbip, dp));
          if rc < 0 then Some (-5, dbip, dp)
          else if of_nat (length ep) \<noteq> d_len dp then None
          else if d_inmem dp
          then do { u \<leftarrow> mem_put (d_un dp) ep; Some (0, dbip, dp\<lparr>d_un := u\<rparr>) }
          else (let (rc, dbip) = db_write dbip ep (d_addr dp)
                in Some (if rc < 0 then -1 else 0, dbip, dp)) } })"

definition db_delete :: "db_i \<Rightarrow> directory \<Rightarrow> (int \<times> db_i \<times> directory) option" where
  "db_delete dbip dp =
     (if d_inmem dp then Some (0, dbip, dp\<lparr>d_un := MemPtr None, d_len := 0\<rparr>)
      else do {
        (i, dbip, dp) \<leftarrow> db5_write_free dbip dp (d_len dp);
        let dbip = dbip\<lparr>dbi_freep := rt_memfree (d_len dp) (d_addr dp) (dbi_freep dbip)\<rparr>;
        Some (i, dbip, dp\<lparr>d_un := FileOffset RT_DIR_PHONY_ADDR, d_len := 0\<rparr>) })"

section \<open>What an operation changes in the file\<close>

definition changed_only :: "nat set \<Rightarrow> byte list \<Rightarrow> byte list \<Rightarrow> bool" where
  "changed_only R f f' \<longleftrightarrow> length f \<le> length f' \<and> (\<forall>x<length f. x \<notin> R \<longrightarrow> f' ! x = f ! x)"

lemma changed_only_refl [simp]: "changed_only R f f"
  by (simp add: changed_only_def)

lemma changed_only_trans:
  "changed_only R f g \<Longrightarrow> changed_only S g h \<Longrightarrow> changed_only (R \<union> S) f h"
  by (auto simp: changed_only_def)

lemma changed_only_mono: "changed_only R f g \<Longrightarrow> R \<subseteq> S \<Longrightarrow> changed_only S f g"
  by (auto simp: changed_only_def)

lemma changed_only_write_at:
  "changed_only {off..<off + length bs} f (write_at off bs f)"
  by (auto simp: changed_only_def write_at_def nth_append min_def not_less)

lemma take_write_at:
  "take (length bs) (drop off (write_at off bs f)) = bs"
  by (cases "bs = []") (simp_all add: write_at_def)

text \<open>The parts of the database record that file access leaves alone, and the two ways a
  write can end.\<close>

definition same_maps :: "db_i \<Rightarrow> db_i \<Rightarrow> bool" where
  "same_maps d d' \<longleftrightarrow> dbi_freep d' = dbi_freep d \<and> dbi_eof d' = dbi_eof d \<and> dbi_inmem d' = dbi_inmem d"

definition io_end :: "int \<Rightarrow> db_i \<Rightarrow> bool" where
  "io_end rc d \<longleftrightarrow> (if rc < 0 then rc = -1 \<and> dbi_read_only d else rc = 0 \<and> \<not> dbi_read_only d)"

lemma db_write_spec:
  assumes "bs \<noteq> []" "\<not> dbi_read_only d" "dbi_inmem d = None"
  shows "\<exists>rc d'. db_write d bs off = (rc, d') \<and> io_end rc d' \<and> same_maps d d'
    \<and> changed_only {unat off..<unat off + length bs} (dbi_file d) (dbi_file d')
    \<and> (0 \<le> rc \<longrightarrow> dbi_file d' = write_at (unat off) bs (dbi_file d))"
proof -
  have sub: "changed_only {unat off..<unat off + length bs} f (write_at (unat off) (take k bs) f)" for k f
    using changed_only_write_at[of "unat off" "take k bs" f] by (rule changed_only_mono) auto
  show ?thesis using assms sub changed_only_write_at[of "unat off" bs "dbi_file d"]
    by (auto simp: db_write_def io_end_def same_maps_def Let_def split: list.splits option.splits)
qed

lemma make_free_length:
  assumes "8 \<le> n" "8 dvd n" "n < 2 ^ 60"
  shows "\<exists>h. db5_make_free_object n = Some h \<and> length h = n"
    and "\<exists>h. db5_make_free_object_hdr n = Some h \<and> length h = 16"
proof -
  obtain h where f: "free_header n = Some h" and l: "length h < n" "length h \<le> 14"
  proof -
    obtain l w where "free_header n = Some ([DB5HDR_MAGIC1, push_bit 6 (of_nat w) OR 2, 0, 0, 0, 0] @ l)"
      "w \<le> 3" "length l = ENCODE_LEN w" "6 + length l < n"
      using free_header_spec[OF assms(3)] assms(1) by blast
    then show ?thesis using ENCODE_LEN_le_8[of w] by (intro that) auto
  qed
  show "\<exists>h. db5_make_free_object n = Some h \<and> length h = n"
    using assms(1,2) f l by (auto simp: db5_make_free_object_def)
  show "\<exists>h. db5_make_free_object_hdr n = Some h \<and> length h = 16"
    using assms(1,2) f l by (auto simp: db5_make_free_object_hdr_def)
qed

lemma db5_write_free_spec:
  assumes "d_un dp = FileOffset a" "\<not> d_inmem dp" "8 \<le> unat len" "8 dvd unat len"
    and "unat a + unat len < 2 ^ 60" "\<not> dbi_read_only d" "dbi_inmem d = None"
  shows "\<exists>rc d'. db5_write_free d dp len = Some (rc, d', dp) \<and> io_end rc d' \<and> same_maps d d'
    \<and> changed_only {unat a..<unat a + unat len} (dbi_file d) (dbi_file d')"
proof -
  have n60: "unat len < 2 ^ 60" using assms(5) by simp
  have da: "d_addr dp = a" by (simp add: d_addr_def assms(1))
  show ?thesis
  proof (cases "len \<le> 8192")
    case True
    obtain h where h: "db5_make_free_object (unat len) = Some h" "length h = unat len"
      using make_free_length(1)[OF assms(3,4) n60] by blast
    then have "h \<noteq> []" using assms(3) by auto
    from db_write_spec[OF this assms(6,7), of a] h(2) obtain rc d' where
      "db_write d h a = (rc, d')" "io_end rc d'" "same_maps d d'"
      "changed_only {unat a..<unat a + unat len} (dbi_file d) (dbi_file d')" by auto
    then show ?thesis using True h(1) assms(2)
      by (auto simp: db5_write_free_def da io_end_def split: if_splits)
  next
    case False
    then have big: "8192 < unat len" by (simp add: word_le_nat_alt)
    obtain h where h: "db5_make_free_object_hdr (unat len) = Some h" "length h = 16"
      using make_free_length(2)[OF assms(3,4) n60] by blast
    then have "h \<noteq> []" by auto
    from db_write_spec[OF this assms(6,7), of a] h(2) obtain rc d' where
      w: "db_write d h a = (rc, d')" "io_end rc d'" "same_maps d d'"
      "changed_only {unat a..<unat a + 16} (dbi_file d) (dbi_file d')" by auto
    have sub: "changed_only {unat a..<unat a + unat len} (dbi_file d) (dbi_file d')"
      using w(4) by (rule changed_only_mono) (use big in auto)
    show ?thesis
    proof (cases "rc < 0")
      case True
      then show ?thesis using False h(1) w sub assms(2)
        by (auto simp: db5_write_free_def da io_end_def)
    next
      case ok: False
      have "\<not> dbi_read_only d'" "dbi_inmem d' = None"
        using ok w(2,3) assms(7) by (auto simp: io_end_def same_maps_def)
      from db_write_spec[OF _ this, of "[DB5HDR_MAGIC2]" "a + len - 1"] obtain rc' d'' where
        w': "db_write d' [DB5HDR_MAGIC2] (a + len - 1) = (rc', d'')" "io_end rc' d''" "same_maps d' d''"
        "changed_only {unat (a + len - 1)..<unat (a + len - 1) + 1} (dbi_file d') (dbi_file d'')" by auto
      have "unat (a + len) = unat a + unat len" using assms(5) by (intro unat_add_small) simp
      then have "unat (a + len - 1) = unat a + unat len - 1" using big by (simp add: unat_sub_small)
      then have "changed_only {unat a..<unat a + unat len} (dbi_file d') (dbi_file d'')"
        using w'(4) big by (elim changed_only_mono) auto
      from changed_only_trans[OF sub this] show ?thesis
        using False ok h(1) w(1) w' w(3) assms(2)
        by (auto simp: db5_write_free_def da io_end_def same_maps_def)
    qed
  qed
qed

section \<open>The layout of a file\<close>

text \<open>The free map lies within the file; an object has no storage yet, or an extent of the
  file that is not free.  Everything is a multiple of eight bytes.\<close>

definition file_ok :: "db_i \<Rightarrow> bool" where
  "file_ok d \<longleftrightarrow> mem_inv (dbi_freep d) \<and> mem_aligned (dbi_freep d)
     \<and> free_units (dbi_freep d) \<subseteq> {..<unat (dbi_eof d)} \<and> 8 dvd unat (dbi_eof d)
     \<and> unat (dbi_eof d) < 2 ^ 60 \<and> dbi_inmem d = None"

definition dp_extent :: "directory \<Rightarrow> nat set" where
  "dp_extent dp = {unat (d_addr dp)..<unat (d_addr dp) + unat (d_len dp)}"

definition dp_ok :: "db_i \<Rightarrow> directory \<Rightarrow> bool" where
  "dp_ok d dp \<longleftrightarrow> \<not> d_inmem dp \<and> d_un dp = FileOffset (d_addr dp)
     \<and> (if d_addr dp = RT_DIR_PHONY_ADDR then d_len dp = 0
        else 8 dvd unat (d_addr dp) \<and> 8 dvd unat (d_len dp) \<and> 8 \<le> unat (d_len dp)
          \<and> unat (d_addr dp) + unat (d_len dp) \<le> unat (dbi_eof d))
     \<and> dp_extent dp \<inter> free_units (dbi_freep d) = {}"

definition owned :: "db_i \<Rightarrow> directory \<Rightarrow> nat set" where
  "owned d dp = free_units (dbi_freep d) \<union> dp_extent dp"

text \<open>What an operation that gives an object \<open>n\<close> bytes of storage may do: it touches only
  free storage and that of the object, and when it succeeds the layout is in order again.
  When it fails the file is read-only from then on.\<close>

definition placed :: "db_i \<Rightarrow> directory \<Rightarrow> size_t \<Rightarrow> int \<Rightarrow> db_i \<Rightarrow> directory \<Rightarrow> bool" where
  "placed d dp n rc d' dp' \<longleftrightarrow>
     changed_only (owned d dp) (dbi_file d) (dbi_file d') \<and> io_end rc d' \<and> d_namep dp' = d_namep dp
     \<and> (0 \<le> rc \<longrightarrow> file_ok d' \<and> dp_ok d' dp' \<and> d_len dp' = n \<and> d_addr dp' \<noteq> RT_DIR_PHONY_ADDR
          \<and> unat (dbi_eof d) \<le> unat (dbi_eof d')
          \<and> owned d' dp' \<subseteq> owned d dp \<union> {unat (dbi_eof d)..<unat (dbi_eof d')})"

lemma unat_phony: "unat RT_DIR_PHONY_ADDR = 2 ^ 64 - 1"
  by (simp add: RT_DIR_PHONY_ADDR_def unsigned_minus_1_eq_mask mask_eq_exp_minus_1)

lemma not_phony: "unat a < 2 ^ 63 \<Longrightarrow> a \<noteq> RT_DIR_PHONY_ADDR"
  using unat_phony by auto

lemma d_addr_FileOffset [simp]: "d_addr (dp\<lparr>d_un := FileOffset a\<rparr>) = a"
  "d_addr (dp\<lparr>d_un := FileOffset a, d_len := n\<rparr>) = a" "d_addr (dp\<lparr>d_len := n\<rparr>) = d_addr dp"
  by (simp_all add: d_addr_def)

lemma file_ok_same: "same_maps d d' \<Longrightarrow> file_ok d \<Longrightarrow> file_ok d'"
  by (simp add: same_maps_def file_ok_def)

lemma dp_ok_bounds:
  assumes "file_ok d" "dp_ok d dp" "d_addr dp \<noteq> RT_DIR_PHONY_ADDR"
  shows "unat (d_addr dp) + unat (d_len dp) \<le> unat (dbi_eof d)"
    "unat (d_addr dp) + unat (d_len dp) < 2 ^ 60" "8 \<le> unat (d_len dp)"
    "8 dvd unat (d_addr dp)" "8 dvd unat (d_len dp)" "d_un dp = FileOffset (d_addr dp)" "\<not> d_inmem dp"
  using assms by (auto simp: file_ok_def dp_ok_def)

text \<open>Giving an extent of the file back.\<close>

lemma give_back:
  assumes "file_ok d" "8 dvd unat a" "8 dvd unat n" "8 \<le> unat n"
    and "unat a + unat n \<le> unat (dbi_eof d)"
    and "{unat a..<unat a + unat n} \<inter> free_units (dbi_freep d) = {}"
  defines "d' \<equiv> d\<lparr>dbi_freep := rt_memfree n a (dbi_freep d)\<rparr>"
  shows "file_ok d'" "free_units (dbi_freep d') = free_units (dbi_freep d) \<union> {unat a..<unat a + unat n}"
proof -
  have inv: "mem_inv (dbi_freep d)" "mem_aligned (dbi_freep d)" and e: "unat (dbi_eof d) < 2 ^ 60"
    using assms(1) by (auto simp: file_ok_def)
  have n: "0 < unat n" "unat a + unat n < 2 ^ 63" using assms(4,5) e by auto
  note g = resmap.given[OF inv(1) n assms(6)]
  then show u: "free_units (dbi_freep d') = free_units (dbi_freep d) \<union> {unat a..<unat a + unat n}"
    by (simp add: d'_def)
  have "{unat a..<unat a + unat n} \<subseteq> {..<unat (dbi_eof d)}" using assms(5) by auto
  then show "file_ok d'"
    using assms(1) g u resmap8.given_aligned[OF inv n assms(2,3)]
    by (auto simp: file_ok_def d'_def)
qed

lemma realloc_smaller_placed:
  assumes "file_ok d" "dp_ok d dp" "\<not> dbi_read_only d" "d_addr dp \<noteq> RT_DIR_PHONY_ADDR"
    and "unat n < unat (d_len dp)" "8 dvd unat n" "8 \<le> unat n"
  shows "\<exists>rc d' dp'. realloc_smaller d dp n = Some (rc, d', dp') \<and> placed d dp n rc d' dp'"
proof -
  note b = dp_ok_bounds[OF assms(1,2,4)]
  let ?a = "d_addr dp" and ?l = "d_len dp"
  have an: "unat (?a + n) = unat ?a + unat n" using b(2) assms(5) by (intro unat_add_small) simp
  have ln: "unat (?l - n) = unat ?l - unat n" using assms(5) by (intro unat_sub_small) simp
  let ?dp1 = "dp\<lparr>d_len := n\<rparr>"
  let ?dp2 = "?dp1\<lparr>d_un := FileOffset (?a + n), d_len := ?l - n\<rparr>"
  have inm: "dbi_inmem d = None" using assms(1) by (simp add: file_ok_def)
  have "unat ?a + unat n < 2 ^ 60" using b(2) assms(5) by simp
  from db5_write_free_spec[of ?dp1 ?a n d, OF _ _ assms(7,6) this assms(3) inm]
  obtain rc d1 where w1: "db5_write_free d ?dp1 n = Some (rc, d1, ?dp1)" "io_end rc d1" "same_maps d d1"
    "changed_only {unat ?a..<unat ?a + unat n} (dbi_file d) (dbi_file d1)"
    using b(6,7) by auto
  have c1: "changed_only (owned d dp) (dbi_file d) (dbi_file d1)"
    using w1(4) by (rule changed_only_mono) (use assms(5) in \<open>auto simp: owned_def dp_extent_def\<close>)
  show ?thesis
  proof (cases "rc < 0")
    case True
    then have "realloc_smaller d dp n = Some (-1, d1, ?dp1)"
      using w1(1) by (simp add: realloc_smaller_def Let_def)
    then show ?thesis using c1 w1(2) True by (auto simp: placed_def io_end_def)
  next
    case False
    then have ok1: "\<not> dbi_read_only d1" "dbi_inmem d1 = None"
      using w1(2,3) inm by (auto simp: io_end_def same_maps_def)
    have l8: "8 dvd unat (?l - n)" "8 \<le> unat (?l - n)"
    proof -
      show "8 dvd unat (?l - n)" using ln b(5) assms(6) by (simp add: dvd_diff_nat)
      then show "8 \<le> unat (?l - n)" using ln assms(5) by (intro dvd_imp_le) auto
    qed
    have s2: "unat (?a + n) + unat (?l - n) = unat ?a + unat ?l" using an ln assms(5) by simp
    then have "unat (?a + n) + unat (?l - n) < 2 ^ 60" using b(2) by simp
    from db5_write_free_spec[of ?dp2 "?a + n" "?l - n" d1, OF _ _ l8(2,1) this ok1]
    obtain rc' d2 where w2: "db5_write_free d1 ?dp2 (?l - n) = Some (rc', d2, ?dp2)" "io_end rc' d2"
      "same_maps d1 d2"
      "changed_only {unat (?a + n)..<unat (?a + n) + unat (?l - n)} (dbi_file d1) (dbi_file d2)"
      using b(7) by auto
    have "changed_only (owned d dp) (dbi_file d1) (dbi_file d2)"
      using w2(4) by (rule changed_only_mono) (use s2 an in \<open>auto simp: owned_def dp_extent_def\<close>)
    from changed_only_trans[OF c1 this] have c2: "changed_only (owned d dp) (dbi_file d) (dbi_file d2)"
      by simp
    show ?thesis
    proof (cases "rc' < 0")
      case True
      then have "realloc_smaller d dp n = Some (-1, d2, ?dp2)"
        using w1(1) w2(1) False by (simp add: realloc_smaller_def Let_def)
      then show ?thesis using c2 w2(2) True by (auto simp: placed_def io_end_def)
    next
      case ok: False
      let ?d3 = "d2\<lparr>dbi_freep := rt_memfree (?l - n) (?a + n) (dbi_freep d2)\<rparr>"
      let ?dp3 = "?dp2\<lparr>d_un := FileOffset ?a, d_len := n\<rparr>"
      have r: "realloc_smaller d dp n = Some (0, ?d3, ?dp3)"
        using w1(1) w2(1) False ok by (simp add: realloc_smaller_def Let_def)
      have sm: "same_maps d d2" using w1(3) w2(3) by (simp add: same_maps_def)
      have f2: "file_ok d2" using file_ok_same[OF sm assms(1)] .
      have dis: "{unat (?a + n)..<unat (?a + n) + unat (?l - n)} \<inter> free_units (dbi_freep d2) = {}"
      proof -
        have "{unat (?a + n)..<unat (?a + n) + unat (?l - n)} \<subseteq> dp_extent dp"
          unfolding s2 using an by (auto simp: dp_extent_def)
        then show ?thesis using assms(2) sm by (auto simp: dp_ok_def same_maps_def)
      qed
      have "8 dvd unat (?a + n)" using an b(4) assms(6) by simp
      moreover have "unat (?a + n) + unat (?l - n) \<le> unat (dbi_eof d2)"
        unfolding s2 using b(1) sm by (simp add: same_maps_def)
      ultimately have g: "file_ok ?d3" "free_units (dbi_freep ?d3)
          = free_units (dbi_freep d2) \<union> {unat (?a + n)..<unat ?a + unat ?l}"
        using give_back[OF f2 _ l8 _ dis] unfolding s2 by blast+
      have u: "free_units (dbi_freep ?d3)
          = free_units (dbi_freep d) \<union> {unat ?a + unat n..<unat ?a + unat ?l}"
        using g(2) sm unfolding an by (simp only: same_maps_def)
      note g(1)
      moreover have "dp_ok ?d3 ?dp3"
      proof -
        have "dp_extent ?dp3 \<subseteq> dp_extent dp" "dp_extent ?dp3 \<inter> {unat ?a + unat n..<unat ?a + unat ?l} = {}"
          using assms(5) by (auto simp: dp_extent_def)
        moreover have "dp_extent dp \<inter> free_units (dbi_freep d) = {}" using assms(2) by (simp add: dp_ok_def)
        ultimately have "dp_extent ?dp3 \<inter> free_units (dbi_freep ?d3) = {}" using u by blast
        then show ?thesis using assms(4-7) b sm by (simp add: dp_ok_def same_maps_def)
      qed
      moreover have "owned ?d3 ?dp3 \<subseteq> owned d dp"
        using u assms(5) by (auto simp: owned_def dp_extent_def)
      ultimately show ?thesis
        using r c2 w2(2) ok assms(4) sm by (auto simp: placed_def io_end_def same_maps_def)
    qed
  qed
qed

lemma dp_extent_phony: "d_len dp = 0 \<Longrightarrow> dp_extent dp = {}"
  by (simp add: dp_extent_def)

lemma realloc_release_frees:
  assumes "file_ok d" "dp_ok d dp" "\<not> dbi_read_only d"
  shows "\<exists>rc d' dp'. realloc_release d dp = Some (rc, d', dp')
    \<and> changed_only (owned d dp) (dbi_file d) (dbi_file d') \<and> io_end rc d' \<and> d_namep dp' = d_namep dp
    \<and> (0 \<le> rc \<longrightarrow> file_ok d' \<and> dbi_eof d' = dbi_eof d \<and> free_units (dbi_freep d') = owned d dp
         \<and> \<not> d_inmem dp')"
proof (cases "d_addr dp = RT_DIR_PHONY_ADDR")
  case True
  then have "dp_extent dp = {}" "\<not> d_inmem dp" using assms(2) dp_extent_phony by (auto simp: dp_ok_def)
  then show ?thesis using True assms by (auto simp: realloc_release_def io_end_def owned_def)
next
  case False
  note b = dp_ok_bounds[OF assms(1,2) False]
  let ?a = "d_addr dp" and ?l = "d_len dp"
  let ?d1 = "d\<lparr>dbi_freep := rt_memfree ?l ?a (dbi_freep d)\<rparr>"
  have dis: "{unat ?a..<unat ?a + unat ?l} \<inter> free_units (dbi_freep d) = {}"
    using assms(2) by (simp add: dp_ok_def dp_extent_def)
  note g = give_back[OF assms(1) b(4,5,3,1) dis]
  have io: "\<not> dbi_read_only ?d1" "dbi_inmem ?d1 = None" using assms(1,3) by (simp_all add: file_ok_def)
  obtain rc d2 where w: "db5_write_free ?d1 dp ?l = Some (rc, d2, dp)" "io_end rc d2" "same_maps ?d1 d2"
    "changed_only {unat ?a..<unat ?a + unat ?l} (dbi_file ?d1) (dbi_file d2)"
    using db5_write_free_spec[OF b(6,7,3,5,2) io] by blast
  have c: "changed_only (owned d dp) (dbi_file d) (dbi_file d2)"
    using changed_only_mono[OF w(4)] by (simp add: owned_def dp_extent_def)
  show ?thesis
  proof (cases "rc < 0")
    case True
    then show ?thesis using False w c by (auto simp: realloc_release_def Let_def io_end_def)
  next
    case ok: False
    have "file_ok d2" using file_ok_same[OF w(3) g(1)] .
    then show ?thesis using False ok w c g(2) b(7)
      by (auto simp: realloc_release_def Let_def io_end_def same_maps_def owned_def dp_extent_def)
  qed
qed

lemma realloc_place_placed:
  assumes "file_ok d" "\<not> d_inmem dp" "\<not> dbi_read_only d" "8 dvd unat n" "8 \<le> unat n"
    and "unat (dbi_eof d) + unat n < 2 ^ 60"
  shows "\<exists>rc d' dp'. realloc_place d dp n = Some (rc, d', dp')
    \<and> changed_only (free_units (dbi_freep d)) (dbi_file d) (dbi_file d') \<and> io_end rc d'
    \<and> d_namep dp' = d_namep dp
    \<and> (0 \<le> rc \<longrightarrow> file_ok d' \<and> dp_ok d' dp' \<and> d_len dp' = n \<and> d_addr dp' \<noteq> RT_DIR_PHONY_ADDR
         \<and> unat (dbi_eof d) \<le> unat (dbi_eof d')
         \<and> owned d' dp' \<subseteq> free_units (dbi_freep d) \<union> {unat (dbi_eof d)..<unat (dbi_eof d')})"
proof -
  have inv: "mem_inv (dbi_freep d)" "mem_aligned (dbi_freep d)" "dbi_inmem d = None"
    and sub: "free_units (dbi_freep d) \<subseteq> {..<unat (dbi_eof d)}" and e8: "8 dvd unat (dbi_eof d)"
    and e60: "unat (dbi_eof d) < 2 ^ 60"
    using assms(1) by (auto simp: file_ok_def)
  obtain r m where r: "rt_memalloc_nosplit n (dbi_freep d) = (r, m)" by fastforce
  show ?thesis
  proof (cases r)
    case None
    let ?d' = "d\<lparr>dbi_freep := m, dbi_eof := dbi_eof d + n\<rparr>"
    let ?dp' = "dp\<lparr>d_un := FileOffset (dbi_eof d), d_len := n\<rparr>"
    have m: "m = dbi_freep d" using resmap.not_taken r None by blast
    have e: "unat (dbi_eof d + n) = unat (dbi_eof d) + unat n"
      using assms(6) by (intro unat_add_small) simp
    have np: "dbi_eof d \<noteq> RT_DIR_PHONY_ADDR" using e60 by (intro not_phony) simp
    have f: "file_ok ?d'" using assms(1,4,6) sub by (auto simp: file_ok_def m e)
    have dis: "dp_extent ?dp' \<inter> free_units (dbi_freep ?d') = {}"
      using sub by (auto simp: dp_extent_def m)
    have "dp_ok ?d' ?dp'" using dis np assms(2,4,5) e8 by (simp add: dp_ok_def e)
    then show ?thesis using r None f np assms(3)
      by (auto simp: realloc_place_def io_end_def e m owned_def dp_extent_def)
  next
    case (Some b)
    let ?a = "m_addr b" and ?l = "m_size b"
    let ?d1 = "d\<lparr>dbi_freep := m\<rparr>"
    have rb: "rt_memalloc_nosplit n (dbi_freep d) = (Some b, m)" using r Some by simp
    note t = resmap.taken[OF inv(1) rb]
    note al = resmap8.taken_aligned[OF inv(1,2) rb]
    have ext: "extent b \<subseteq> {..<unat (dbi_eof d)}" using t sub by blast
    have be: "unat ?a + unat ?l \<le> unat (dbi_eof d)"
    proof -
      have "0 < unat ?l" using t by (simp add: block_ok_def)
      then have "unat ?a + unat ?l - 1 \<in> extent b" by (auto simp: extent_def m_end_def)
      then show ?thesis using ext by auto
    qed
    then have np: "?a \<noteq> RT_DIR_PHONY_ADDR" using e60 by (intro not_phony) simp
    have b60: "unat ?a + unat ?l < 2 ^ 60" using be e60 by simp
    have f1: "file_ok ?d1" using assms(1) t al by (auto simp: file_ok_def)
    show ?thesis
    proof (cases "?l = n")
      case True
      let ?dp' = "dp\<lparr>d_un := FileOffset ?a, d_len := n\<rparr>"
      have ex: "dp_extent ?dp' = extent b" by (simp add: dp_extent_def extent_def m_end_def True)
      then have dis: "dp_extent ?dp' \<inter> free_units (dbi_freep ?d1) = {}" using t by simp
      have "dp_ok ?d1 ?dp'" using dis np assms(2,4,5) be al True by (simp add: dp_ok_def aligned8_def)
      moreover have "owned ?d1 ?dp' \<subseteq> free_units (dbi_freep d)" unfolding owned_def ex using t by auto
      moreover have "realloc_place d dp n = Some (0, ?d1, ?dp')"
        using rb True by (simp add: realloc_place_def Let_def)
      ultimately show ?thesis using f1 np assms(3) by (auto simp: io_end_def)
    next
      case False
      then have lt: "unat n < unat ?l" using t by (auto simp: word_unat_eq_iff order.order_iff_strict)
      let ?dp1 = "dp\<lparr>d_un := FileOffset (?a + n), d_len := ?l - n\<rparr>"
      have an: "unat (?a + n) = unat ?a + unat n" using b60 lt by (intro unat_add_small) simp
      have ln: "unat (?l - n) = unat ?l - unat n" using lt by (intro unat_sub_small) simp
      have s: "unat (?a + n) + unat (?l - n) = unat ?a + unat ?l" using an ln lt by simp
      have l8: "8 dvd unat (?l - n)" "8 \<le> unat (?l - n)"
      proof -
        show "8 dvd unat (?l - n)" using ln al assms(4) by (simp add: dvd_diff_nat aligned8_def)
        then show "8 \<le> unat (?l - n)" using ln lt by (intro dvd_imp_le) auto
      qed
      have io1: "\<not> dbi_read_only ?d1" "dbi_inmem ?d1 = None" using assms(3) inv(3) by simp_all
      have "unat (?a + n) + unat (?l - n) < 2 ^ 60" using s b60 by simp
      from db5_write_free_spec[of ?dp1 "?a + n" "?l - n" ?d1, OF _ _ l8(2,1) this io1]
      obtain rc d2 where w: "db5_write_free ?d1 ?dp1 (?l - n) = Some (rc, d2, ?dp1)" "io_end rc d2"
        "same_maps ?d1 d2"
        "changed_only {unat (?a + n)..<unat (?a + n) + unat (?l - n)} (dbi_file ?d1) (dbi_file d2)"
        using assms(2) by auto
      have sb: "{unat (?a + n)..<unat (?a + n) + unat (?l - n)} \<subseteq> extent b"
        unfolding s using an by (auto simp: extent_def m_end_def)
      have "changed_only (free_units (dbi_freep d)) (dbi_file ?d1) (dbi_file d2)"
        using w(4) by (rule changed_only_mono) (use sb t in blast)
      then have c2: "changed_only (free_units (dbi_freep d)) (dbi_file d) (dbi_file d2)" by simp
      show ?thesis
      proof (cases "rc < 0")
        case True
        then have "realloc_place d dp n = Some (-1, d2, ?dp1)"
          using rb w(1) False t by (simp add: realloc_place_def Let_def word_le_nat_alt word_less_nat_alt)
        then show ?thesis using c2 w(2) True by (auto simp: io_end_def)
      next
        case ok: False
        let ?d3 = "d2\<lparr>dbi_freep := rt_memfree (?l - n) (?a + n) (dbi_freep d2)\<rparr>"
        let ?dp3 = "?dp1\<lparr>d_un := FileOffset ?a, d_len := n\<rparr>"
        have d2m: "dbi_freep d2 = m" "dbi_eof d2 = dbi_eof d" "dbi_inmem d2 = None"
          using w(3) inv(3) by (auto simp: same_maps_def)
        note te = resmap.take_exact[OF inv(1) rb lt]
        note ta = resmap8.take_exact_aligned[OF inv(1,2) rb lt assms(4)]
        have f3: "file_ok ?d3" using te ta sub e8 e60 by (auto simp: file_ok_def d2m)
        have io3: "\<not> dbi_read_only ?d3" "dbi_inmem ?d3 = None" using ok w(2) d2m by (simp_all add: io_end_def)
        have "unat ?a + unat n < 2 ^ 60" using b60 lt by simp
        from db5_write_free_spec[of ?dp3 ?a n ?d3, OF _ _ assms(5,4) this io3]
        obtain rc' d4 where w4: "db5_write_free ?d3 ?dp3 n = Some (rc', d4, ?dp3)" "io_end rc' d4"
          "same_maps ?d3 d4" "changed_only {unat ?a..<unat ?a + unat n} (dbi_file ?d3) (dbi_file d4)"
          using assms(2) by auto
        have "changed_only (free_units (dbi_freep d)) (dbi_file ?d3) (dbi_file d4)"
          using w4(4) by (rule changed_only_mono) (use te in blast)
        then have "changed_only (free_units (dbi_freep d)) (dbi_file d2) (dbi_file d4)" by simp
        from changed_only_trans[OF c2 this] have c4: "changed_only (free_units (dbi_freep d)) (dbi_file d) (dbi_file d4)"
          by simp
        have rp: "realloc_place d dp n = Some (if rc' < 0 then -1 else 0, d4, ?dp3)"
          using rb w(1) w4(1) False ok t by (simp add: realloc_place_def Let_def word_less_nat_alt)
        have f4: "file_ok d4" using file_ok_same[OF w4(3) f3] .
        have u4: "free_units (dbi_freep d4) = free_units (dbi_freep d) - {unat ?a..<unat ?a + unat n}"
          and e4: "dbi_eof d4 = dbi_eof d" using w4(3) te d2m by (auto simp: same_maps_def)
        have ex: "dp_extent ?dp3 = {unat ?a..<unat ?a + unat n}" by (simp add: dp_extent_def)
        have "dp_extent ?dp3 \<inter> free_units (dbi_freep d4) = {}" unfolding ex u4 by blast
        then have "dp_ok d4 ?dp3" using np assms(2,4,5) be al lt e4 by (simp add: dp_ok_def aligned8_def)
        moreover have "owned d4 ?dp3 \<subseteq> free_units (dbi_freep d)" unfolding owned_def ex u4 using te by blast
        ultimately show ?thesis using rp c4 f4 np e4 w4(2) by (auto simp: io_end_def)
      qed
    qed
  qed
qed

lemma and_7: "n AND 7 = 0 \<longleftrightarrow> 8 dvd unat n" for n :: size_t
proof -
  have "(7 :: size_t) = mask 3" by (simp add: mask_eq_exp_minus_1)
  then have "n AND 7 = take_bit 3 n" by (simp only: take_bit_eq_mask)
  also have "unat \<dots> = unat n mod 8" by (simp add: take_bit_eq_mod unat_mod_distrib)
  finally have "unat (n AND 7) = unat n mod 8" .
  then show ?thesis by (simp add: word_unat_eq_iff dvd_eq_mod_eq_0)
qed

lemma changed_only_owned: "changed_only (free_units (dbi_freep d)) f g \<Longrightarrow> changed_only (owned d dp) f g"
  by (rule changed_only_mono) (auto simp: owned_def)

lemma db5_realloc_placed:
  assumes "file_ok d" "dp_ok d dp" "\<not> dbi_read_only d" "8 dvd unat n" "8 \<le> unat n"
    and "unat (dbi_eof d) + unat n < 2 ^ 60"
  shows "\<exists>rc d' dp'. db5_realloc db_dirbuild d dp n = Some (rc, d', dp') \<and> placed d dp n rc d' dp'"
proof -
  have n7: "n AND 7 = 0" using assms(4) and_7 by blast
  have eof: "dbi_eof d \<noteq> RT_DIR_PHONY_ADDR" using assms(1) by (intro not_phony) (simp add: file_ok_def)
  have mem: "\<not> d_inmem dp" and phl: "d_addr dp = RT_DIR_PHONY_ADDR \<Longrightarrow> d_len dp = 0"
    using assms(2) by (auto simp: dp_ok_def)
  consider (same) "d_addr dp \<noteq> RT_DIR_PHONY_ADDR" "n = d_len dp"
    | (smaller) "d_addr dp \<noteq> RT_DIR_PHONY_ADDR" "n < d_len dp"
    | (larger) "\<not> (d_addr dp \<noteq> RT_DIR_PHONY_ADDR \<and> n = d_len dp)" "\<not> n < d_len dp"
    using phl by fastforce
  then show ?thesis
  proof cases
    case same
    then have "db5_realloc db_dirbuild d dp n = Some (0, d, dp)" using n7 by (simp add: db5_realloc_def)
    then show ?thesis using same assms(1-3) by (auto simp: placed_def io_end_def)
  next
    case smaller
    then have "db5_realloc db_dirbuild d dp n = realloc_smaller d dp n"
      using n7 mem eof assms(3) by (auto simp: db5_realloc_def)
    then show ?thesis
      using realloc_smaller_placed[OF assms(1-3) smaller(1) _ assms(4,5)] smaller(2)
      by (simp add: word_less_nat_alt)
  next
    case larger
    obtain rc d1 dp1 where r: "realloc_release d dp = Some (rc, d1, dp1)"
      "changed_only (owned d dp) (dbi_file d) (dbi_file d1)" "io_end rc d1" "d_namep dp1 = d_namep dp"
      and ok: "0 \<le> rc \<Longrightarrow> file_ok d1 \<and> dbi_eof d1 = dbi_eof d
        \<and> free_units (dbi_freep d1) = owned d dp \<and> \<not> d_inmem dp1"
      using realloc_release_frees[OF assms(1-3)] by blast
    have eq: "db5_realloc db_dirbuild d dp n =
        (if rc < 0 then Some (-1, d1, dp1) else realloc_place d1 dp1 n)"
      using n7 mem eof assms(3) larger phl r(1) by (auto simp: db5_realloc_def)
    show ?thesis
    proof (cases "rc < 0")
      case True
      then show ?thesis using eq r by (auto simp: placed_def io_end_def)
    next
      case False
      then have ok1: "file_ok d1" "dbi_eof d1 = dbi_eof d" "free_units (dbi_freep d1) = owned d dp"
        "\<not> d_inmem dp1" "\<not> dbi_read_only d1" using ok r(3) by (auto simp: io_end_def)
      obtain rc' d2 dp2 where p: "realloc_place d1 dp1 n = Some (rc', d2, dp2)"
        "changed_only (owned d dp) (dbi_file d1) (dbi_file d2)" "io_end rc' d2" "d_namep dp2 = d_namep dp"
        and ok2: "0 \<le> rc' \<Longrightarrow> file_ok d2 \<and> dp_ok d2 dp2 \<and> d_len dp2 = n \<and> d_addr dp2 \<noteq> RT_DIR_PHONY_ADDR
          \<and> unat (dbi_eof d) \<le> unat (dbi_eof d2)
          \<and> owned d2 dp2 \<subseteq> owned d dp \<union> {unat (dbi_eof d)..<unat (dbi_eof d2)}"
        using realloc_place_placed[OF ok1(1,4,5) assms(4,5)] assms(6) r(4)
        unfolding ok1(2,3) by auto
      have "changed_only (owned d dp) (dbi_file d) (dbi_file d2)"
        using changed_only_trans[OF r(2) p(2)] by simp
      then show ?thesis using eq False p ok2 by (auto simp: placed_def)
    qed
  qed
qed

section \<open>Storing and reading back\<close>

lemma finish_object_length: "finish_object hdr len secs need w = Some out \<Longrightarrow> 8 \<le> length out"
  unfolding finish_object_def Let_def
  by (elim option_elims) (metis linorder_not_less option.distinct(1) option.inject)

lemma db5_export_object3_length:
  "db5_export_object3 dli name hidden at bd major minor az bz = Some out \<Longrightarrow> 8 \<le> length out"
  by (auto simp: db5_export_object3_def Let_def split: if_splits elim!: option_elims
      dest: finish_object_length)

lemma crack_disk_header_length:
  "crack_disk_header rip ip = Some x \<Longrightarrow> 6 \<le> length ip"
  by (cases "(rip, ip)" rule: crack_disk_header.cases) auto

lemma db_wrap_length:
  assumes "db_wrap_v5_external raw ep name = Some (0, ep')"
  shows "6 \<le> length ep'"
proof -
  obtain raw' nx where r: "db5_get_raw_internal_ptr raw ep = Some (raw', nx)" "nx \<noteq> None"
    and c: "ep' = ep \<or> (\<exists>h at bd ma mi az bz.
      db5_export_object3 0 (Some name) h at bd ma mi az bz = Some ep')"
    using assms unfolding db_wrap_v5_external_def
    by (elim option_elims case_prodE) (force split: if_splits elim!: option_elims intro: that)
  have "6 \<le> length ep"
    using r(1) by (auto simp: db5_get_raw_internal_ptr_def elim!: option_elims dest: crack_disk_header_length)
  then show ?thesis using c db5_export_object3_length by fastforce
qed

lemma db_get_external_stored:
  assumes "file_ok d" "dp_ok d dp" "d_addr dp \<noteq> RT_DIR_PHONY_ADDR"
    and "take (unat (d_len dp)) (drop (unat (d_addr dp)) (dbi_file d)) = bs" "length bs = unat (d_len dp)"
  shows "db_get_external dp d = Some (0, bs)"
proof -
  note b = dp_ok_bounds[OF assms(1-3)]
  have "unat (d_addr dp + d_len dp) = unat (d_addr dp) + unat (d_len dp)"
    using b(2) by (intro unat_add_small) simp
  then have "\<not> d_addr dp + d_len dp > dbi_eof d" using b(1) by (simp add: word_less_nat_alt)
  moreover have "d_len dp \<noteq> 0" using b(3) by auto
  moreover have "dbi_inmem d = None" using assms(1) by (simp add: file_ok_def)
  ultimately have "db_read d (d_len dp) (d_addr dp) = Some (0, bs)"
    using assms(4,5) by (simp add: db_read_def Let_def)
  then show ?thesis using assms(3) b(7) by (simp add: db_get_external_def)
qed

text \<open>\<open>db_put_external5\<close> up to the name: either the storage could not be had, or it was
  written.\<close>

definition put_ok :: "db_i \<Rightarrow> directory \<Rightarrow> byte list \<Rightarrow> int \<Rightarrow> db_i \<Rightarrow> directory \<Rightarrow> bool" where
  "put_ok d dp ep rc d' dp' \<longleftrightarrow>
     changed_only (owned d dp \<union> {unat (dbi_eof d)..}) (dbi_file d) (dbi_file d')
     \<and> d_namep dp' = d_namep dp
     \<and> (rc < 0 \<longrightarrow> dbi_read_only d')
     \<and> (0 \<le> rc \<longrightarrow> rc = 0 \<and> \<not> dbi_read_only d' \<and> file_ok d' \<and> dp_ok d' dp'
          \<and> d_addr dp' \<noteq> RT_DIR_PHONY_ADDR \<and> db_get_external dp' d' = Some (0, ep)
          \<and> unat (dbi_eof d) \<le> unat (dbi_eof d')
          \<and> owned d' dp' \<subseteq> owned d dp \<union> {unat (dbi_eof d)..<unat (dbi_eof d')})"

lemma realloc_for_put:
  assumes "file_ok d" "dp_ok d dp" "\<not> dbi_read_only d"
    and "8 dvd length ep" "8 \<le> length ep" "unat (dbi_eof d) + length ep < 2 ^ 60"
  shows "\<exists>rc d' dp'. (if of_nat (length ep) \<noteq> d_len dp \<or> d_addr dp = RT_DIR_PHONY_ADDR
       then db5_realloc db_dirbuild d dp (of_nat (length ep)) else Some (0, d, dp)) = Some (rc, d', dp')
     \<and> placed d dp (of_nat (length ep)) rc d' dp'"
proof (cases "of_nat (length ep) \<noteq> d_len dp \<or> d_addr dp = RT_DIR_PHONY_ADDR")
  case True
  have "unat (of_nat (length ep) :: size_t) = length ep" using assms(6) by (intro unat_size_of_nat) simp
  then show ?thesis
    using True db5_realloc_placed[OF assms(1-3), of "of_nat (length ep)" db_dirbuild] assms(4-6) by simp
next
  case False
  then show ?thesis using assms(1-3) by (auto simp: placed_def io_end_def)
qed

lemma db_put_external5_ok:
  assumes "file_ok d" "dp_ok d dp" "\<not> dbi_read_only d"
    and "db_wrap_v5_external raw ep (d_namep dp) = Some (0, ep')"
    and "8 dvd length ep'" "unat (dbi_eof d) + length ep' < 2 ^ 60"
  shows "\<exists>rc d' dp'. db_put_external5 db_dirbuild raw ep dp d = Some (rc, d', dp')
     \<and> put_ok d dp ep' rc d' dp'"
proof -
  let ?n = "of_nat (length ep') :: size_t"
  have "6 \<le> length ep'" using db_wrap_length[OF assms(4)] .
  then have l8: "8 \<le> length ep'" using assms(5) by (intro dvd_imp_le) auto
  have n: "unat ?n = length ep'" using assms(6) by (intro unat_size_of_nat) simp
  obtain rc d1 dp1 where r: "(if ?n \<noteq> d_len dp \<or> d_addr dp = RT_DIR_PHONY_ADDR
       then db5_realloc db_dirbuild d dp ?n else Some (0, d, dp)) = Some (rc, d1, dp1)"
    and p: "placed d dp ?n rc d1 dp1"
    using realloc_for_put[OF assms(1-3,5) l8 assms(6)] by blast
  have c1: "changed_only (owned d dp \<union> {unat (dbi_eof d)..}) (dbi_file d) (dbi_file d1)"
    using p unfolding placed_def by (elim conjE changed_only_mono) auto
  have eq: "db_put_external5 db_dirbuild raw ep dp d =
     (if rc < 0 then Some (-5, d1, dp1)
      else if ?n \<noteq> d_len dp1 then None
      else if d_inmem dp1
      then do { u \<leftarrow> mem_put (d_un dp1) ep'; Some (0, d1, dp1\<lparr>d_un := u\<rparr>) }
      else (let (rc, dbip) = db_write d1 ep' (d_addr dp1) in Some (if rc < 0 then -1 else 0, dbip, dp1)))"
    by (simp only: db_put_external5_def assms(3,4) r Option.bind_lunit prod.case less_irrefl if_False)
  show ?thesis
  proof (cases "rc < 0")
    case True
    then have "db_put_external5 db_dirbuild raw ep dp d = Some (-5, d1, dp1)" by (simp add: eq)
    then show ?thesis using True p c1 by (auto simp: put_ok_def placed_def io_end_def)
  next
    case False
    then have ok: "file_ok d1" "dp_ok d1 dp1" "d_len dp1 = ?n" "d_addr dp1 \<noteq> RT_DIR_PHONY_ADDR"
      "unat (dbi_eof d) \<le> unat (dbi_eof d1)"
      "owned d1 dp1 \<subseteq> owned d dp \<union> {unat (dbi_eof d)..<unat (dbi_eof d1)}"
      "\<not> dbi_read_only d1" "d_namep dp1 = d_namep dp" "\<not> d_inmem dp1" "dbi_inmem d1 = None"
      using p by (auto simp: placed_def io_end_def dp_ok_def file_ok_def)
    have "ep' \<noteq> []" using l8 by auto
    from db_write_spec[OF this ok(7,10), of "d_addr dp1"] obtain rc' d2 where
      w: "db_write d1 ep' (d_addr dp1) = (rc', d2)" "io_end rc' d2" "same_maps d1 d2"
      "changed_only {unat (d_addr dp1)..<unat (d_addr dp1) + length ep'} (dbi_file d1) (dbi_file d2)"
      "0 \<le> rc' \<longrightarrow> dbi_file d2 = write_at (unat (d_addr dp1)) ep' (dbi_file d1)" by blast
    have put: "db_put_external5 db_dirbuild raw ep dp d = Some (if rc' < 0 then -1 else 0, d2, dp1)"
      using False ok(3,9) w(1) by (simp add: eq)
    have "dp_extent dp1 \<subseteq> owned d1 dp1" by (simp add: owned_def)
    then have "{unat (d_addr dp1)..<unat (d_addr dp1) + length ep'} \<subseteq> owned d dp \<union> {unat (dbi_eof d)..}"
      using ok(3,6) n by (force simp: dp_extent_def)
    with w(4) have "changed_only (owned d dp \<union> {unat (dbi_eof d)..}) (dbi_file d1) (dbi_file d2)"
      by (rule changed_only_mono)
    from changed_only_trans[OF c1 this]
    have c2: "changed_only (owned d dp \<union> {unat (dbi_eof d)..}) (dbi_file d) (dbi_file d2)" by simp
    have f2: "file_ok d2" using file_ok_same[OF w(3) ok(1)] .
    have dp2: "dp_ok d2 dp1" using ok(2) w(3) by (simp add: dp_ok_def same_maps_def)
    have "db_get_external dp1 d2 = Some (0, ep')" if "0 \<le> rc'"
      using db_get_external_stored[OF f2 dp2 ok(4)] w(5) that ok(3) n
      by (metis take_write_at)
    then show ?thesis using put c2 f2 dp2 ok w(2,3)
      by (auto simp: put_ok_def io_end_def same_maps_def owned_def)
  qed
qed

lemma db_delete_ok:
  assumes "file_ok d" "dp_ok d dp" "\<not> dbi_read_only d" "d_addr dp \<noteq> RT_DIR_PHONY_ADDR"
  shows "\<exists>rc d' dp'. db_delete d dp = Some (rc, d', dp')
    \<and> changed_only (owned d dp) (dbi_file d) (dbi_file d') \<and> io_end rc d'
    \<and> file_ok d' \<and> dbi_eof d' = dbi_eof d \<and> free_units (dbi_freep d') = owned d dp
    \<and> dp_ok d' dp' \<and> d_addr dp' = RT_DIR_PHONY_ADDR \<and> d_namep dp' = d_namep dp"
proof -
  note b = dp_ok_bounds[OF assms(1,2,4)]
  have inm: "dbi_inmem d = None" using assms(1) by (simp add: file_ok_def)
  obtain rc d1 where w: "db5_write_free d dp (d_len dp) = Some (rc, d1, dp)" "io_end rc d1" "same_maps d d1"
    "changed_only {unat (d_addr dp)..<unat (d_addr dp) + unat (d_len dp)} (dbi_file d) (dbi_file d1)"
    using db5_write_free_spec[OF b(6,7,3,5,2) assms(3) inm] by blast
  have f1: "file_ok d1" using file_ok_same[OF w(3) assms(1)] .
  have dis: "{unat (d_addr dp)..<unat (d_addr dp) + unat (d_len dp)} \<inter> free_units (dbi_freep d1) = {}"
    using assms(2) w(3) by (simp add: dp_ok_def dp_extent_def same_maps_def)
  have "unat (d_addr dp) + unat (d_len dp) \<le> unat (dbi_eof d1)" using b(1) w(3) by (simp add: same_maps_def)
  note g = give_back[OF f1 b(4,5,3) this dis]
  let ?d' = "d1\<lparr>dbi_freep := rt_memfree (d_len dp) (d_addr dp) (dbi_freep d1)\<rparr>"
  let ?dp' = "dp\<lparr>d_un := FileOffset RT_DIR_PHONY_ADDR, d_len := 0\<rparr>"
  have "db_delete d dp = Some (rc, ?d', ?dp')"
    using w(1) b(7) by (simp add: db_delete_def Let_def)
  moreover have "dp_ok ?d' ?dp'" using b(7) by (simp add: dp_ok_def dp_extent_phony)
  ultimately show ?thesis using g w changed_only_mono[OF w(4)]
    by (auto simp: io_end_def same_maps_def owned_def dp_extent_def)
qed

section \<open>Many objects\<close>

text \<open>A directory maps names to entries.  An entry is entered with no storage
  (\<open>RT_DIR_PHONY_ADDR\<close>), its object is stored, possibly again and with another size,
  and deleted.  The parameter is \<open>db_dirbuild\<close>.\<close>

type_synonym db_state = "db_i \<times> (string \<Rightarrow> directory option)"

definition phony_entry :: "string \<Rightarrow> directory" where
  "phony_entry name = \<lparr>d_un = FileOffset RT_DIR_PHONY_ADDR, d_len = 0, d_inmem = False, d_namep = name\<rparr>"

definition put_bounded :: "db_i \<Rightarrow> directory \<Rightarrow> db5_raw_internal \<Rightarrow> byte list \<Rightarrow> bool" where
  "put_bounded d dp raw ep \<longleftrightarrow>
     (case db_wrap_v5_external raw ep (d_namep dp) of
        None \<Rightarrow> True | Some (rc, ep') \<Rightarrow> unat (dbi_eof d) + length ep' < 2 ^ 60)"

inductive db_step :: "(db_i \<Rightarrow> int \<times> db_i) \<Rightarrow> db_state \<Rightarrow> db_state \<Rightarrow> bool" for db_dirbuild where
  Enter: "objs name = None \<Longrightarrow> db_step db_dirbuild (d, objs) (d, objs(name \<mapsto> phony_entry name))"
| Put: "objs name = Some dp \<Longrightarrow> put_bounded d dp raw ep \<Longrightarrow>
     db_put_external5 db_dirbuild raw ep dp d = Some (rc, d', dp') \<Longrightarrow>
     db_step db_dirbuild (d, objs) (d', objs(name \<mapsto> dp'))"
| Delete: "objs name = Some dp \<Longrightarrow> db_delete d dp = Some (rc, d', dp') \<Longrightarrow>
     db_step db_dirbuild (d, objs) (d', objs(name := None))"

inductive_cases db_stepE: "db_step db_dirbuild (d, objs) (d', objs')"

definition disk_ok :: "db_state \<Rightarrow> bool" where
  "disk_ok s \<longleftrightarrow> (case s of (d, objs) \<Rightarrow> file_ok d
     \<and> (\<forall>name dp. objs name = Some dp \<longrightarrow> dp_ok d dp)
     \<and> (\<forall>n m dp dq. n \<noteq> m \<longrightarrow> objs n = Some dp \<longrightarrow> objs m = Some dq \<longrightarrow> dp_extent dp \<inter> dp_extent dq = {}))"

lemma disk_okD:
  assumes "disk_ok (d, objs)"
  shows "file_ok d" "objs n = Some dp \<Longrightarrow> dp_ok d dp"
    "n \<noteq> m \<Longrightarrow> objs n = Some dp \<Longrightarrow> objs m = Some dq \<Longrightarrow> dp_extent dp \<inter> dp_extent dq = {}"
  using assms by (auto simp: disk_ok_def)

lemma dp_extent_below:
  assumes "dp_ok d dp"
  shows "dp_extent dp \<subseteq> {..<unat (dbi_eof d)}"
  using assms by (auto simp: dp_ok_def dp_extent_def split: if_splits)

text \<open>Replacing one entry, when what it owns now it owned before or is new in the file.\<close>

lemma disk_ok_update:
  assumes "disk_ok (d, objs)" "objs n = Some dp" "file_ok d'" "dp_ok d' dp'"
    and "unat (dbi_eof d) \<le> unat (dbi_eof d')"
    and own: "owned d' dp' \<subseteq> owned d dp \<union> {unat (dbi_eof d)..<unat (dbi_eof d')}"
  shows "disk_ok (d', objs(n \<mapsto> dp'))"
proof -
  have apart: "dp_extent dq \<inter> owned d' dp' = {}" and below: "dp_ok d dq" "dp_extent dq \<subseteq> {..<unat (dbi_eof d)}"
    if "m \<noteq> n" "objs m = Some dq" for m dq
  proof -
    show ok: "dp_ok d dq" using disk_okD(2)[OF assms(1) that(2)] .
    then show b: "dp_extent dq \<subseteq> {..<unat (dbi_eof d)}" by (rule dp_extent_below)
    have "dp_extent dq \<inter> dp_extent dp = {}" using disk_okD(3)[OF assms(1) that(1,2) assms(2)] .
    moreover have "dp_extent dq \<inter> free_units (dbi_freep d) = {}" using ok by (simp add: dp_ok_def)
    ultimately have "dp_extent dq \<inter> owned d dp = {}" by (auto simp: owned_def)
    moreover have "dp_extent dq \<inter> {unat (dbi_eof d)..<unat (dbi_eof d')} = {}" using b by fastforce
    ultimately show "dp_extent dq \<inter> owned d' dp' = {}" using own by blast
  qed
  have others: "dp_ok d' dq" if "m \<noteq> n" "objs m = Some dq" for m dq
  proof -
    have "dp_extent dq \<inter> free_units (dbi_freep d') = {}" using apart[OF that] by (auto simp: owned_def)
    then show ?thesis using below(1)[OF that] assms(5) by (auto simp: dp_ok_def split: if_splits)
  qed
  have disj: "dp_extent dq \<inter> dp_extent dp' = {}" if "m \<noteq> n" "objs m = Some dq" for m dq
    using apart[OF that] by (auto simp: owned_def)
  show ?thesis
    unfolding disk_ok_def prod.case
  proof (intro conjI allI impI)
    fix a b x y assume "a \<noteq> b" "(objs(n \<mapsto> dp')) a = Some x" "(objs(n \<mapsto> dp')) b = Some y"
    then show "dp_extent x \<inter> dp_extent y = {}"
      using disj[of b y] disj[of a x] disk_okD(3)[OF assms(1), of a b x y]
      by (auto simp: Int_commute split: if_splits)
  qed (use assms(3,4) others in \<open>auto split: if_splits\<close>)
qed

lemma disk_ok_remove: "disk_ok (d, objs) \<Longrightarrow> disk_ok (d, objs(n := None))"
  by (auto simp: disk_ok_def)

lemma put_dvd:
  assumes "db_put_external5 db_dirbuild raw ep dp d = Some (rc, d', dp')" "dp_ok d dp"
    and "\<not> dbi_read_only d" "db_wrap_v5_external raw ep (d_namep dp) = Some (0, ep')" "length ep' < 2 ^ 60"
  shows "8 dvd length ep'"
proof -
  have n: "unat (of_nat (length ep') :: size_t) = length ep'" using assms(5) by (intro unat_size_of_nat) simp
  show ?thesis
  proof (cases "of_nat (length ep') \<noteq> d_len dp \<or> d_addr dp = RT_DIR_PHONY_ADDR")
    case True
    then have "db5_realloc db_dirbuild d dp (of_nat (length ep')) \<noteq> None"
      using assms(1,3,4) by (auto simp: db_put_external5_def elim!: option_elims)
    then show ?thesis using and_7[of "of_nat (length ep')"] n by (auto simp: db5_realloc_def split: if_splits)
  next
    case False
    then show ?thesis using assms(2) n by (auto simp: dp_ok_def)
  qed
qed

text \<open>A put in a well laid out file: nothing happens, the file has become read-only, or the
  object is stored.\<close>

lemma put_cases:
  assumes "file_ok d" "dp_ok d dp" "put_bounded d dp raw ep"
    and "db_put_external5 db_dirbuild raw ep dp d = Some (rc, d', dp')"
  shows "rc < 0 \<and> d' = d \<and> dp' = dp
    \<or> \<not> dbi_read_only d
      \<and> (\<exists>ep'. db_wrap_v5_external raw ep (d_namep dp) = Some (0, ep') \<and> put_ok d dp ep' rc d' dp')"
proof (cases "dbi_read_only d")
  case True
  then show ?thesis using assms(4) by (auto simp: db_put_external5_def)
next
  case False
  then obtain rc1 ep' where w: "db_wrap_v5_external raw ep (d_namep dp) = Some (rc1, ep')"
    using assms(4) by (auto simp: db_put_external5_def elim!: option_elims)
  show ?thesis
  proof (cases "rc1 < 0")
    case True
    then show ?thesis using assms(4) False w by (auto simp: db_put_external5_def)
  next
    case ok: False
    then have w0: "db_wrap_v5_external raw ep (d_namep dp) = Some (0, ep')"
      using w by (auto simp: db_wrap_v5_external_def split: if_splits elim!: option_elims)
    have b: "unat (dbi_eof d) + length ep' < 2 ^ 60" using assms(3) w0 by (simp add: put_bounded_def)
    then have "length ep' < 2 ^ 60" by simp
    from put_dvd[OF assms(4,2) False w0 this] have "8 dvd length ep'" .
    from db_put_external5_ok[OF assms(1,2) False w0 this b, of db_dirbuild] assms(4) show ?thesis
      using False w0 by auto
  qed
qed

lemma db5_write_free_read_only:
  "db5_write_free d dp len = Some (rc, d', dp') \<Longrightarrow> dbi_read_only d \<Longrightarrow> dbi_read_only d'"
  by (auto simp: db5_write_free_def db_write_def Let_def split: if_splits elim!: option_elims)

lemma delete_stored:
  assumes "db_delete d dp = Some (rc, d', dp')" "dp_ok d dp"
  shows "d_addr dp \<noteq> RT_DIR_PHONY_ADDR"
proof
  assume "d_addr dp = RT_DIR_PHONY_ADDR"
  then have "d_len dp = 0" "\<not> d_inmem dp" using assms(2) by (auto simp: dp_ok_def)
  then show False
    using assms(1) by (simp add: db_delete_def db5_write_free_def db5_make_free_object_def)
qed

lemma db_step_keeps:
  assumes "db_step db_dirbuild (d, objs) (d', objs')" "dbi_read_only d \<or> disk_ok (d, objs)"
  shows "dbi_read_only d' \<or> disk_ok (d', objs')"
  using assms(1)
proof (cases rule: db_stepE[consumes 1, case_names Enter Put Delete])
  case (Enter name)
  have "dp_extent (phony_entry name) = {}" "dp_ok d (phony_entry name)"
    by (simp_all add: phony_entry_def dp_ok_def dp_extent_def d_addr_def)
  then have "disk_ok (d, objs(name \<mapsto> phony_entry name))" if "disk_ok (d, objs)"
    using that by (auto simp: disk_ok_def split: if_splits)
  then show ?thesis using assms(2) Enter by auto
next
  case (Put name dp raw ep rc dp')
  show ?thesis
  proof (cases "dbi_read_only d")
    case True
    then have "d' = d" using Put(4) by (auto simp: db_put_external5_def)
    then show ?thesis using True by simp
  next
    case False
    then have ok: "disk_ok (d, objs)" using assms(2) by simp
    then have "file_ok d" "dp_ok d dp" using disk_okD Put(2) by auto
    from put_cases[OF this Put(3,4)] consider "d' = d" "dp' = dp" | ep' where "put_ok d dp ep' rc d' dp'"
      by blast
    then show ?thesis
    proof cases
      case 1
      then show ?thesis using Put(1,2) ok by (simp add: fun_upd_idem)
    next
      case 2
      then show ?thesis using disk_ok_update[OF ok Put(2)] Put(1) by (cases "rc < 0") (auto simp: put_ok_def)
    qed
  qed
next
  case (Delete name dp rc dp')
  show ?thesis
  proof (cases "dbi_read_only d")
    case True
    then show ?thesis using Delete(3)
      by (auto simp: db_delete_def Let_def dest: db5_write_free_read_only split: if_splits elim!: option_elims)
  next
    case False
    then have ok: "disk_ok (d, objs)" using assms(2) by simp
    then have k: "file_ok d" "dp_ok d dp" using disk_okD Delete(2) by auto
    from db_delete_ok[OF k False delete_stored[OF Delete(3) k(2)]] Delete(3)
    have del: "file_ok d'" "dbi_eof d' = dbi_eof d" "free_units (dbi_freep d') = owned d dp" "dp_ok d' dp'"
      and "d_addr dp' = RT_DIR_PHONY_ADDR" by auto
    then have "dp_extent dp' = {}" by (simp add: dp_ok_def dp_extent_phony)
    then have "owned d' dp' \<subseteq> owned d dp \<union> {unat (dbi_eof d)..<unat (dbi_eof d')}"
      using del(3) by (simp add: owned_def)
    from disk_ok_update[OF ok Delete(2) del(1,4) _ this] del(2)
    have "disk_ok (d', objs(name \<mapsto> dp'))" by simp
    from disk_ok_remove[OF this, of name] show ?thesis using Delete(1) by simp
  qed
qed

lemma slice_unchanged:
  assumes "changed_only R f g" "{a..<a + n} \<inter> R = {}" "a + n \<le> length f"
  shows "take n (drop a g) = take n (drop a f)"
proof (rule nth_equalityI)
  show "length (take n (drop a g)) = length (take n (drop a f))"
    using assms by (auto simp: changed_only_def)
  fix i assume "i < length (take n (drop a g))"
  then have i: "i < n" by simp
  then have "a + i \<in> {a..<a + n}" by simp
  then have "a + i \<notin> R" using assms(2) by blast
  then show "take n (drop a g) ! i = take n (drop a f) ! i"
    using assms(1,3) i by (auto simp: changed_only_def)
qed

lemma db_get_external_slice:
  assumes "db_get_external dp d = Some (0, bs)" "dp_ok d dp" "file_ok d"
  shows "d_addr dp \<noteq> RT_DIR_PHONY_ADDR" "length bs = unat (d_len dp)"
    "take (unat (d_len dp)) (drop (unat (d_addr dp)) (dbi_file d)) = bs"
    "unat (d_addr dp) + unat (d_len dp) \<le> length (dbi_file d)"
proof -
  have m: "\<not> d_inmem dp" "dbi_inmem d = None" using assms(2,3) by (auto simp: dp_ok_def file_ok_def)
  show np: "d_addr dp \<noteq> RT_DIR_PHONY_ADDR" using assms(1) m by (auto simp: db_get_external_def)
  have "db_read d (d_len dp) (d_addr dp) = Some (0, bs)"
    using assms(1) m np by (auto simp: db_get_external_def db_read_def Let_def split: if_splits)
  then have t: "take (unat (d_len dp)) (drop (unat (d_addr dp)) (dbi_file d)) = bs"
    and l: "length bs = unat (d_len dp)"
    using m by (auto simp: db_read_def Let_def split: if_splits)
  show "take (unat (d_len dp)) (drop (unat (d_addr dp)) (dbi_file d)) = bs" "length bs = unat (d_len dp)"
    by (rule t l)+
  have "8 \<le> unat (d_len dp)" using dp_ok_bounds(3)[OF assms(3,2) np] .
  then show "unat (d_addr dp) + unat (d_len dp) \<le> length (dbi_file d)"
    using arg_cong[OF t, of length] l by auto
qed

section \<open>Properties\<close>

text \<open>C26: in a well laid out file, \<open>db5_realloc\<close> to a positive multiple of eight bytes never
  fails an assertion.  It writes only into free storage and the object's own, and when it
  succeeds the object has exactly the size asked for, its extent is not free and lies in
  the file, the free map is sorted, coalesced and aligned, and the object and the free map
  own nothing but what they owned and what was appended.  It fails only by a write error,
  after which the file is read-only.\<close>

theorem realloc_keeps_layout:
  assumes "file_ok d" "dp_ok d dp" "\<not> dbi_read_only d" "8 dvd unat n" "8 \<le> unat n"
    and "unat (dbi_eof d) + unat n < 2 ^ 60"
  shows "\<exists>rc d' dp'. db5_realloc db_dirbuild d dp n = Some (rc, d', dp')
    \<and> changed_only (owned d dp) (dbi_file d) (dbi_file d')
    \<and> (if rc = 0 then file_ok d' \<and> dp_ok d' dp' \<and> d_len dp' = n \<and> d_addr dp' \<noteq> RT_DIR_PHONY_ADDR
         \<and> owned d' dp' \<subseteq> owned d dp \<union> {unat (dbi_eof d)..<unat (dbi_eof d')}
       else dbi_read_only d')"
proof -
  obtain rc d' dp' where r: "db5_realloc db_dirbuild d dp n = Some (rc, d', dp')" "placed d dp n rc d' dp'"
    using db5_realloc_placed[OF assms] by blast
  then have "rc = 0 \<or> rc < 0" by (auto simp: placed_def io_end_def split: if_splits)
  with r show ?thesis by (cases "rc < 0") (auto simp: placed_def io_end_def)
qed

definition fresh_db :: db_i where
  "fresh_db = \<lparr>dbi_freep = \<lparr>mm_list = [], freemap = []\<rparr>, dbi_eof = 8, dbi_read_only = False,
     dbi_inmem = None, dbi_file = [0x76, 1, 0, 0, 0, 0, 1, 0x35], dbi_io = []\<rparr>"

lemma fresh_db_ok: "file_ok fresh_db" "dp_ok fresh_db (phony_entry name)"
  "dbi_eof fresh_db = 8" "\<not> dbi_read_only fresh_db"
  by (simp_all add: fresh_db_def file_ok_def mem_inv_def mem_aligned_def free_units_def
      phony_entry_def dp_ok_def dp_extent_def d_addr_def)

lemma realloc_keeps_layout_witness:
  "\<exists>rc d' dp'. db5_realloc (\<lambda>d. (-1, d)) fresh_db (phony_entry ''a'') 16 = Some (rc, d', dp')
     \<and> (rc = 0 \<longrightarrow> d_len dp' = 16)"
  using realloc_keeps_layout[OF fresh_db_ok(1,2,4), of 16 "\<lambda>d. (-1, d)" "''a''"] fresh_db_ok(3)
  by (fastforce split: if_splits)

text \<open>A database that holds its header object only, and an object to store in it.\<close>

definition raw_zero :: db5_raw_internal where
  "raw_zero = \<lparr>h_object_width = 0, h_name_hidden = 0, h_name_present = 0, h_name_width = 0, h_dli = 0,
     a_width = 0, a_present = 0, a_zzz = 0, b_width = 0, b_present = 0, b_zzz = 0, major_type = 0,
     minor_type = 0, object_length = 0, rname = BU_EXTERNAL_INIT, rbody = BU_EXTERNAL_INIT,
     rattributes = BU_EXTERNAL_INIT\<rparr>"

definition small_object :: "byte list" where
  "small_object = [0x76, 0x20, 0, 0x20, 1, 3, 2, 2, 97, 0, 3, 1, 2, 3, 0, 0x35]"

lemma small_object_wrap:
  "db_wrap_v5_external raw_zero small_object (d_namep (phony_entry ''a'')) = Some (0, small_object)"
  by code_simp

lemma small_object_bounded: "put_bounded fresh_db (phony_entry ''a'') raw_zero small_object"
  unfolding put_bounded_def small_object_wrap by (simp add: fresh_db_def small_object_def)

lemma small_object_put:
  "\<exists>d' dp'. db_put_external5 (\<lambda>d. (-1, d)) raw_zero small_object (phony_entry ''a'') fresh_db
     = Some (0, d', dp')"
proof -
  have "case db_put_external5 (\<lambda>d. (-1, d)) raw_zero small_object (phony_entry ''a'') fresh_db of
      Some (rc, _) \<Rightarrow> rc = 0 | None \<Rightarrow> False" by code_simp
  then show ?thesis by (auto split: option.splits)
qed

lemma fresh_disk_ok: "disk_ok (fresh_db, [''a'' \<mapsto> phony_entry ''a''])" "disk_ok (fresh_db, Map.empty)"
  using fresh_db_ok by (auto simp: disk_ok_def)

text \<open>C25: an object that is stored can be read back byte for byte, and storing it leaves
  every other object of the database as it was, whatever moves the allocator makes.\<close>

theorem put_then_get:
  assumes "disk_ok (d, objs)" "objs n = Some dp" "put_bounded d dp raw ep"
    and "db_put_external5 db_dirbuild raw ep dp d = Some (0, d', dp')"
  shows "disk_ok (d', objs(n \<mapsto> dp'))
    \<and> (\<exists>ep'. db_wrap_v5_external raw ep (d_namep dp) = Some (0, ep') \<and> db_get_external dp' d' = Some (0, ep'))
    \<and> (\<forall>m dq bs. m \<noteq> n \<and> objs m = Some dq \<and> db_get_external dq d = Some (0, bs)
         \<longrightarrow> db_get_external dq d' = Some (0, bs))"
proof -
  have k: "file_ok d" "dp_ok d dp" using disk_okD assms(1,2) by auto
  obtain ep' where w: "db_wrap_v5_external raw ep (d_namep dp) = Some (0, ep')" "put_ok d dp ep' 0 d' dp'"
    using put_cases[OF k assms(3,4)] by auto
  then have p: "file_ok d'" "dp_ok d' dp'" "db_get_external dp' d' = Some (0, ep')"
    "unat (dbi_eof d) \<le> unat (dbi_eof d')"
    "owned d' dp' \<subseteq> owned d dp \<union> {unat (dbi_eof d)..<unat (dbi_eof d')}"
    and ch: "changed_only (owned d dp \<union> {unat (dbi_eof d)..}) (dbi_file d) (dbi_file d')"
    by (auto simp: put_ok_def)
  have disk: "disk_ok (d', objs(n \<mapsto> dp'))" using disk_ok_update[OF assms(1,2) p(1,2,4,5)] .
  have "db_get_external dq d' = Some (0, bs)"
    if "m \<noteq> n" "objs m = Some dq" "db_get_external dq d = Some (0, bs)" for m dq bs
  proof -
    have q: "dp_ok d dq" using disk_okD(2)[OF assms(1) that(2)] .
    note g = db_get_external_slice[OF that(3) q k(1)]
    have "dp_extent dq \<inter> (owned d dp \<union> {unat (dbi_eof d)..}) = {}"
      using disk_okD(3)[OF assms(1) that(1,2) assms(2)] dp_extent_below[OF q] q
      by (fastforce simp: owned_def dp_ok_def)
    from slice_unchanged[OF ch this[unfolded dp_extent_def] g(4)] g(3)
    have "take (unat (d_len dq)) (drop (unat (d_addr dq)) (dbi_file d')) = bs" by simp
    moreover have "dp_ok d' dq" using disk_okD(2)[OF disk, of m dq] that(1,2) by simp
    ultimately show ?thesis using db_get_external_stored[OF p(1) _ g(1)] g(2) by simp
  qed
  with disk w(1) p(3) show ?thesis by blast
qed

lemma put_then_get_witness:
  "\<exists>d' dp'. db_put_external5 (\<lambda>d. (-1, d)) raw_zero small_object (phony_entry ''a'') fresh_db
      = Some (0, d', dp') \<and> db_get_external dp' d' = Some (0, small_object)"
proof -
  obtain d' dp' where p: "db_put_external5 (\<lambda>d. (-1, d)) raw_zero small_object (phony_entry ''a'') fresh_db
      = Some (0, d', dp')" using small_object_put by blast
  have "[''a'' \<mapsto> phony_entry ''a''] ''a'' = Some (phony_entry ''a'')" by simp
  from put_then_get[OF fresh_disk_ok(1) this small_object_bounded p] small_object_wrap p
  show ?thesis by auto
qed

text \<open>C24: whatever sequence of entering, storing, growing, shrinking and deleting objects is
  carried out, and whichever writes fail, as long as the file has not been forced
  read-only all objects have disjoint extents within the file, none of which is free, and
  the free map is in order.\<close>

theorem storage_invariant:
  assumes "(db_step db_dirbuild)\<^sup>*\<^sup>* s s'" "disk_ok s"
  shows "dbi_read_only (fst s') \<or> disk_ok s'"
  using assms
proof (induction rule: rtranclp_induct)
  case (step t u)
  then show ?case using db_step_keeps[of db_dirbuild "fst t" "snd t" "fst u" "snd u"] by simp
qed simp

lemma storage_invariant_witness:
  "\<exists>s'. (db_step (\<lambda>d. (-1, d)))\<^sup>*\<^sup>* (fresh_db, Map.empty) s' \<and> snd s' ''a'' \<noteq> None
     \<and> (dbi_read_only (fst s') \<or> disk_ok s')"
proof -
  have "db_step (\<lambda>d. (-1, d)) (fresh_db, Map.empty) (fresh_db, Map.empty(''a'' \<mapsto> phony_entry ''a''))"
    by (rule db_step.Enter) simp
  then have "(db_step (\<lambda>d. (-1, d)))\<^sup>*\<^sup>* (fresh_db, Map.empty) (fresh_db, [''a'' \<mapsto> phony_entry ''a''])"
    by simp
  from this storage_invariant[OF this fresh_disk_ok(2)] show ?thesis by (intro exI conjI) auto
qed

text \<open>Releasing the storage of a large object that is only in memory writes the
  trailing magic number at the end of a sixteen-byte buffer instead of the object:
  \<open>db5_write_free\<close> leaves the buffer for every such object over 8192 bytes.\<close>

theorem write_free_inmem_overflow:
  assumes "d_inmem dp" "8192 < unat len"
  shows "db5_write_free d dp len = None"
proof -
  have "length ext = 16" if "db5_make_free_object_hdr (unat len) = Some ext" for ext
    using that by (auto simp: db5_make_free_object_hdr_def split: if_splits elim!: option_elims)
  then show ?thesis
    using assms by (cases "db5_make_free_object_hdr (unat len)")
      (auto simp: db5_write_free_def word_le_nat_alt bind_eq_None_conv)
qed

lemma write_free_inmem_overflow_witness:
  "db5_write_free fresh_db ((phony_entry ''a'')\<lparr>d_inmem := True, d_un := MemPtr (Some [])\<rparr>) 16384 = None"
  by (rule write_free_inmem_overflow) simp_all

end
