(* ===== verification/CStrings.thy ===== *)
theory CStrings
  imports BrlPrelude
begin

text \<open>
  What the attribute code uses of the C library and of libbu's strings: the comparisons of
  \<open>libbu/str.c\<close> (a null string counts as an empty one), \<open>bu_str_true\<close> of
  \<open>libbu/booleanize.c\<close>, and decimal numbers, written by \<open>printf\<close> and read by \<open>strtol\<close>, \<open>atol\<close>,
  \<open>atoi\<close> and \<open>sscanf\<close>, in the C locale and with a \<open>long\<close> of 64 bits.
\<close>

section \<open>Characters and comparison\<close>

definition code :: "char \<Rightarrow> nat" where "code c = of_char c"

definition isspace :: "char \<Rightarrow> bool" where
  "isspace c \<longleftrightarrow> code c = 32 \<or> 9 \<le> code c \<and> code c \<le> 13"

definition isdigit :: "char \<Rightarrow> bool" where
  "isdigit c \<longleftrightarrow> 48 \<le> code c \<and> code c \<le> 57"

definition tolower :: "char \<Rightarrow> char" where
  "tolower c = (if 65 \<le> code c \<and> code c \<le> 90 then char_of (code c + 32) else c)"

definition or_empty :: "string option \<Rightarrow> string" where
  "or_empty s = (case s of None \<Rightarrow> [] | Some s \<Rightarrow> s)"

definition BU_STR_EQUAL :: "string option \<Rightarrow> string option \<Rightarrow> bool" where
  "BU_STR_EQUAL s1 s2 \<longleftrightarrow> or_empty s1 = or_empty s2"

definition BU_STR_EQUIV :: "string option \<Rightarrow> string option \<Rightarrow> bool" where
  "BU_STR_EQUIV s1 s2 \<longleftrightarrow> map tolower (or_empty s1) = map tolower (or_empty s2)"

definition trimspace :: "string \<Rightarrow> string" where
  "trimspace s = dropWhile isspace (rev (dropWhile isspace (rev s)))"

section \<open>Decimal numbers\<close>

fun print_nat :: "nat \<Rightarrow> string" where
  "print_nat n = (if n < 10 then [char_of (48 + n)] else print_nat (n div 10) @ [char_of (48 + n mod 10)])"

declare print_nat.simps [simp del]

definition print_long :: "int \<Rightarrow> string" where
  "print_long i = (if i < 0 then CHR ''-'' # print_nat (nat (- i)) else print_nat (nat i))"

fun digits_val :: "nat \<Rightarrow> string \<Rightarrow> nat \<times> string" where
  "digits_val acc [] = (acc, [])"
| "digits_val acc (c # s) = (if isdigit c then digits_val (acc * 10 + (code c - 48)) s else (acc, c # s))"

text \<open>Sign and digits after white space; \<open>None\<close> when there is no number.\<close>

definition scan_digits :: "string \<Rightarrow> (nat \<times> string) option" where
  "scan_digits s = (case s of [] \<Rightarrow> None | c # _ \<Rightarrow> if isdigit c then Some (digits_val 0 s) else None)"

definition scan_int :: "string \<Rightarrow> (int \<times> string) option" where
  "scan_int s =
     (case dropWhile isspace s of
        [] \<Rightarrow> None
      | c # t \<Rightarrow> if c = CHR ''-'' then map_option (\<lambda>(n, r). (- int n, r)) (scan_digits t)
                 else if c = CHR ''+'' then map_option (\<lambda>(n, r). (int n, r)) (scan_digits t)
                 else map_option (\<lambda>(n, r). (int n, r)) (scan_digits (c # t)))"

definition LONG_MAX :: int where "LONG_MAX = 2 ^ 63 - 1"
definition LONG_MIN :: int where "LONG_MIN = - (2 ^ 63)"

text \<open>The value, whether \<open>errno\<close> is set, and where the number ends.\<close>

definition strtol10 :: "string \<Rightarrow> int \<times> bool \<times> string" where
  "strtol10 s =
     (case scan_int s of
        None \<Rightarrow> (0, False, s)
      | Some (v, r) \<Rightarrow> if v > LONG_MAX then (LONG_MAX, True, r)
                      else if v < LONG_MIN then (LONG_MIN, True, r) else (v, False, r))"

definition atol :: "string \<Rightarrow> 64 word" where
  "atol s = word_of_int (fst (strtol10 s))"

definition atoi :: "string \<Rightarrow> 32 word" where
  "atoi s = word_of_int (fst (strtol10 s))"

text \<open>\<open>sscanf(s, "%d/%d/%d", ...) == 3\<close>.\<close>

definition scan_char :: "char \<Rightarrow> string \<Rightarrow> string option" where
  "scan_char c s = (case s of [] \<Rightarrow> None | d # r \<Rightarrow> if d = c then Some r else None)"

definition sscanf_rgb :: "string \<Rightarrow> (32 word \<times> 32 word \<times> 32 word) option" where
  "sscanf_rgb s =
     do { (r, s) \<leftarrow> scan_int s; s \<leftarrow> scan_char (CHR ''/'') s;
          (g, s) \<leftarrow> scan_int s; s \<leftarrow> scan_char (CHR ''/'') s;
          (b, s) \<leftarrow> scan_int s;
          Some (word_of_int r, word_of_int g, word_of_int b) }"

section \<open>\<open>bu_str_true\<close>\<close>

definition bu_str_true :: "string option \<Rightarrow> int" where
  "bu_str_true str =
     (case str of
        None \<Rightarrow> 0
      | Some s \<Rightarrow>
          let t = trimspace s; (val, err, endptr) = strtol10 t
          in if length t = 0 then 0
             else if BU_STR_EQUIV (Some t) (Some ''n'') \<or> BU_STR_EQUIV (Some t) (Some ''no'') then 0
             else if BU_STR_EQUIV (Some t) (Some ''false'') then 0
             else if BU_STR_EQUIV (Some t) (Some ''off'') then 0
             else if val = 0 \<and> \<not> err \<and> endptr = [] then 0
             else if BU_STR_EQUIV (Some t) (Some ''(null)'') then 0
             else if BU_STR_EQUIV (Some t) (Some ''y'') \<or> BU_STR_EQUIV (Some t) (Some ''yes'') then 1
             else if BU_STR_EQUIV (Some t) (Some ''true'') then 1
             else if BU_STR_EQUIV (Some t) (Some ''on'') then 1
             else if val = 1 \<and> \<not> err \<and> endptr = [] then 1
             else sint (byte_of (hd t)))"

definition bu_str_false :: "string option \<Rightarrow> int" where
  "bu_str_false str = (if bu_str_true str = 0 then 1 else 0)"

section \<open>Reading a number that was written\<close>

lemma code_char_of: "n < 256 \<Longrightarrow> code (char_of n) = n"
  by (simp add: code_def)

lemma digit_char: "n < 10 \<Longrightarrow> isdigit (char_of (48 + n)) \<and> code (char_of (48 + n)) - 48 = n"
  by (simp add: isdigit_def code_char_of)

lemma digits_val_snoc:
  "digits_val a (s @ r) = digits_val (fst (digits_val a s)) r" if "\<forall>c\<in>set s. isdigit c"
  using that by (induction s arbitrary: a) auto

lemma print_nat_digits: "\<forall>c\<in>set (print_nat n). isdigit c"
proof (induction n rule: print_nat.induct)
  case (1 n)
  then show ?case using digit_char[of n] digit_char[of "n mod 10"]
    by (subst print_nat.simps) auto
qed

lemma print_nat_ne: "print_nat n \<noteq> []"
  by (subst print_nat.simps) simp

lemma digits_val_print: "fst (digits_val 0 (print_nat n)) = n"
proof (induction n rule: print_nat.induct)
  case (1 n)
  show ?case
  proof (cases "n < 10")
    case True
    then show ?thesis using digit_char[OF True] by (subst print_nat.simps) simp
  next
    case False
    have d: "n mod 10 < 10" by simp
    show ?thesis
      using False 1[OF False] digits_val_snoc[OF print_nat_digits, of 0 "n div 10" "[char_of (48 + n mod 10)]"]
        digit_char[OF d]
      by (subst print_nat.simps) simp
  qed
qed

lemma print_nat_first: "0 < n \<Longrightarrow> hd (print_nat n) \<noteq> CHR ''0''"
proof (induction n rule: print_nat.induct)
  case (1 n)
  show ?case
  proof (cases "n < 10")
    case True
    then have "code (char_of (48 + n)) = 48 + n" by (intro code_char_of) simp
    moreover have "code (CHR ''0'') = 48" by (simp add: code_def)
    ultimately have "char_of (48 + n) \<noteq> CHR ''0''" using 1(2) by auto
    then show ?thesis using True by (subst print_nat.simps) simp
  next
    case False
    then show ?thesis using 1(1)[OF False] print_nat_ne[of "n div 10"] by (subst print_nat.simps) simp
  qed
qed

definition no_digit :: "string \<Rightarrow> bool" where
  "no_digit r \<longleftrightarrow> (case r of [] \<Rightarrow> True | c # _ \<Rightarrow> \<not> isdigit c)"

lemma scan_digits_print:
  assumes "no_digit r"
  shows "scan_digits (print_nat n @ r) = Some (n, r)"
proof -
  obtain c s where p: "print_nat n = c # s" using print_nat_ne[of n] by (cases "print_nat n") auto
  then have "isdigit c" using print_nat_digits[of n] by simp
  moreover have "digits_val 0 (print_nat n @ r) = (n, r)"
    using digits_val_snoc[OF print_nat_digits, of 0 n r] digits_val_print[of n] assms
    by (cases r) (auto simp: no_digit_def)
  ultimately show ?thesis by (simp add: scan_digits_def p)
qed

lemma digit_not_space: "isdigit c \<Longrightarrow> \<not> isspace c \<and> c \<noteq> CHR ''-'' \<and> c \<noteq> CHR ''+''"
  by (auto simp: isdigit_def isspace_def code_def)

lemma scan_int_print:
  assumes "no_digit r"
  shows "scan_int (print_long i @ r) = Some (i, r)"
proof (cases "i < 0")
  case True
  have "\<not> isspace (CHR ''-'')" by (simp add: isspace_def code_def)
  then show ?thesis using True scan_digits_print[OF assms, of "nat (- i)"]
    by (simp add: scan_int_def print_long_def)
next
  case False
  obtain c s where p: "print_nat (nat i) = c # s"
    using print_nat_ne[of "nat i"] by (cases "print_nat (nat i)") auto
  then have "isdigit c" using print_nat_digits[of "nat i"] by simp
  then show ?thesis using False scan_digits_print[OF assms, of "nat i"] digit_not_space[of c] p
    by (simp add: scan_int_def print_long_def)
qed

lemma atol_print: "atol (print_long (sint (w :: 64 word))) = w"
proof -
  have "scan_int (print_long (sint w)) = Some (sint w, [])"
    using scan_int_print[of "[]" "sint w"] by (simp add: no_digit_def)
  moreover have "sint w \<le> LONG_MAX" "LONG_MIN \<le> sint w"
    using sint_range_size[of w] by (simp_all add: LONG_MAX_def LONG_MIN_def word_size)
  ultimately show ?thesis by (simp add: atol_def strtol10_def)
qed

definition print_rgb :: "byte \<times> byte \<times> byte \<Rightarrow> string" where
  "print_rgb c = (case c of (r, g, b) \<Rightarrow>
     print_long (uint r) @ CHR ''/'' # print_long (uint g) @ CHR ''/'' # print_long (uint b))"

lemma sscanf_print_rgb:
  "sscanf_rgb (print_rgb (r, g, b)) = Some (ucast r, ucast g, ucast b)"
proof -
  have nd: "no_digit (CHR ''/'' # s)" "no_digit []" for s
    by (simp_all add: no_digit_def isdigit_def code_def)
  have e: "scan_int (print_long i) = Some (i, [])" for i using scan_int_print[OF nd(2), of i] by simp
  show ?thesis
    by (simp add: sscanf_rgb_def print_rgb_def scan_int_print nd e scan_char_def)
qed

lemma print_ok: "no_nul (print_long i)" "no_nul (print_rgb c)" "print_long i \<noteq> []"
proof -
  have d: "CHR 0x00 \<notin> set (print_nat n)" for n
    using print_nat_digits[of n] by (auto simp: isdigit_def code_def)
  then show l: "no_nul (print_long i)" for i by (simp add: no_nul_def print_long_def)
  then show "no_nul (print_rgb c)" by (cases c) (auto simp: no_nul_def print_rgb_def)
  show "print_long i \<noteq> []" using print_nat_ne by (simp add: print_long_def)
qed

end
