(* ===== verification/Dictionary.thy ===== *)
theory Dictionary
  imports BrlPrelude
begin

text \<open>
  The contract of the containers of libbu that map keys to values: attribute sets
  (\<open>AttrSet\<close>) and hash tables (\<open>BuHash\<close>) provide it.
\<close>

section \<open>The interface of a dictionary\<close>

text \<open>What a client needs of a dictionary: lookup after an update, and an invariant that updates
  keep.  The operations under it are those of a finite map.\<close>

locale dictionary =
  fixes find :: "'d \<Rightarrow> 'k \<Rightarrow> 'v option"
    and put :: "'k \<Rightarrow> 'v \<Rightarrow> 'd \<Rightarrow> 'd"
    and inv :: "'d \<Rightarrow> bool" and key_ok :: "'k \<Rightarrow> bool"
  assumes inv_put: "inv d \<Longrightarrow> key_ok k \<Longrightarrow> inv (put k v d)"
    and find_put: "inv d \<Longrightarrow> key_ok k \<Longrightarrow> find (put k v d) k' = (if k' = k then Some v else find d k')"
begin

text \<open>Storing a list of pairs one after the other: the last pair of a key wins.\<close>

fun put_all :: "('k \<times> 'v) list \<Rightarrow> 'd \<Rightarrow> 'd" where
  "put_all [] d = d"
| "put_all ((k, v) # kvs) d = put_all kvs (put k v d)"

lemma inv_put_all: "inv d \<Longrightarrow> \<forall>(k, v)\<in>set kvs. key_ok k \<Longrightarrow> inv (put_all kvs d)"
  by (induction kvs d rule: put_all.induct) (auto simp: inv_put)

lemma find_put_all:
  "inv d \<Longrightarrow> \<forall>(k, v)\<in>set kvs. key_ok k \<Longrightarrow>
     find (put_all kvs d) k' = (case map_of (rev kvs) k' of None \<Rightarrow> find d k' | Some v \<Rightarrow> Some v)"
proof (induction kvs d rule: put_all.induct)
  case (2 k v kvs d)
  then show ?case
    by (auto simp: inv_put find_put map_add_def split: option.splits)
qed simp

lemma find_put_twice:
  assumes "inv d" "key_ok k"
  shows "find (put k v (put k u d)) k' = find (put k v d) k'"
  using assms by (simp add: find_put inv_put)

lemma find_put_swap:
  assumes "inv d" "key_ok k" "key_ok j" "j \<noteq> k"
  shows "find (put k v (put j u d)) k' = find (put j u (put k v d)) k'"
  using assms by (simp add: find_put inv_put)

end

end
