(* ===== verification/AttrSet.thy ===== *)
theory AttrSet
  imports Dictionary "HOL-Library.Multiset"
begin

text \<open>
  Attribute/value sets of libbu (\<open>bu/avs.h\<close>, \<open>libbu/avs.c\<close>) and their on-disk form
  (\<open>db5_export_attributes\<close>, \<open>db5_import_attributes\<close> of \<open>librt/attributes.c\<close>, built
  without binary attributes).

  The array \<open>avp\<close> is the list of its \<open>count\<close> valid entries; \<open>max\<close> is kept beside
  it.  A value that is the null pointer is \<open>None\<close>.  The \<open>BU_AVS_FOR\<close> loops run from
  the last entry down to the first.
\<close>

section \<open>\<open>bu_avs\<close>\<close>

type_synonym avpair = "string \<times> string option"

record bu_avs =
  avp :: "avpair list"
  avs_max :: nat

definition AVS_ALLOCATION_INCREMENT :: nat where "AVS_ALLOCATION_INCREMENT = 32"

definition bu_avs_init_empty :: bu_avs where
  "bu_avs_init_empty = \<lparr>avp = [], avs_max = 0\<rparr>"

definition bu_avs_init :: "nat \<Rightarrow> bu_avs" where
  "bu_avs_init len =
     \<lparr>avp = [], avs_max = (if len = 0 then AVS_ALLOCATION_INCREMENT + AVS_ALLOCATION_INCREMENT else len)\<rparr>"

definition bu_avs_new :: "nat \<Rightarrow> bu_avs" where
  "bu_avs_new len = bu_avs_init len"

text \<open>The search shared by the loops: \<open>i\<close> entries are left to look at.\<close>

fun avs_for :: "avpair list \<Rightarrow> string \<Rightarrow> nat \<Rightarrow> nat option" where
  "avs_for ps name 0 = None"
| "avs_for ps name (Suc i) = (if fst (ps ! i) = name then Some i else avs_for ps name i)"

definition avs_append :: "avpair \<Rightarrow> bu_avs \<Rightarrow> bu_avs" where
  "avs_append p avs =
     avs\<lparr>avs_max := (if length (avp avs) \<ge> avs_max avs then avs_max avs + AVS_ALLOCATION_INCREMENT
                     else avs_max avs),
         avp := avp avs @ [p]\<rparr>"

definition bu_avs_add :: "bu_avs \<Rightarrow> string option \<Rightarrow> string option \<Rightarrow> int \<times> bu_avs" where
  "bu_avs_add avs name value =
     (case name of
        None \<Rightarrow> (0, avs)
      | Some n \<Rightarrow>
          if length n = 0 then (0, avs)
          else case avs_for (avp avs) n (length (avp avs)) of
                 Some i \<Rightarrow> (1, avs\<lparr>avp := (avp avs)[i := (n, value)]\<rparr>)
               | None \<Rightarrow> (2, avs_append (n, value) avs))"

definition bu_avs_add_nonunique :: "bu_avs \<Rightarrow> string option \<Rightarrow> string option \<Rightarrow> bu_avs" where
  "bu_avs_add_nonunique avs name value =
     (case name of None \<Rightarrow> avs | Some n \<Rightarrow> avs_append (n, value) avs)"

definition bu_avs_get :: "bu_avs \<Rightarrow> string option \<Rightarrow> string option" where
  "bu_avs_get avs name =
     (if length (avp avs) < 1 then None
      else case name of
             None \<Rightarrow> None
           | Some n \<Rightarrow> (case avs_for (avp avs) n (length (avp avs)) of
                          None \<Rightarrow> None | Some i \<Rightarrow> snd (avp avs ! i)))"

text \<open>The removal loop moves the last entry down to the place of each match.\<close>

fun avs_remove_loop :: "string \<Rightarrow> nat \<Rightarrow> avpair list \<Rightarrow> avpair list" where
  "avs_remove_loop name 0 ps = ps"
| "avs_remove_loop name (Suc i) ps =
     (if fst (ps ! i) \<noteq> name then avs_remove_loop name i ps
      else let epp = ps ! (length ps - 1)
           in avs_remove_loop name i (butlast (if i \<noteq> length ps - 1 then ps[i := epp] else ps)))"

definition bu_avs_remove :: "bu_avs \<Rightarrow> string option \<Rightarrow> int \<times> bu_avs" where
  "bu_avs_remove avs name =
     (case name of
        None \<Rightarrow> (-1, avs)
      | Some n \<Rightarrow> if length (avp avs) < 1 then (-1, avs)
                  else (0, avs\<lparr>avp := avs_remove_loop n (length (avp avs)) (avp avs)\<rparr>))"

fun avs_merge_loop :: "avpair list \<Rightarrow> nat \<Rightarrow> bu_avs \<Rightarrow> bu_avs" where
  "avs_merge_loop src 0 dest = dest"
| "avs_merge_loop src (Suc i) dest =
     avs_merge_loop src i (snd (bu_avs_add dest (Some (fst (src ! i))) (snd (src ! i))))"

definition bu_avs_merge :: "bu_avs \<Rightarrow> bu_avs \<Rightarrow> bu_avs" where
  "bu_avs_merge dest src = avs_merge_loop (avp src) (length (avp src)) dest"

definition bu_avs_free :: "bu_avs \<Rightarrow> bu_avs" where
  "bu_avs_free avs = (if avs_max avs < 1 then avs else \<lparr>avp = [], avs_max = 0\<rparr>)"

definition avs_wf :: "bu_avs \<Rightarrow> bool" where
  "avs_wf avs \<longleftrightarrow> length (avp avs) \<le> avs_max avs \<and> distinct (map fst (avp avs))
     \<and> (\<forall>p\<in>set (avp avs). fst p \<noteq> [])"

lemma avs_for_None: "avs_for ps n i = None \<longleftrightarrow> (\<forall>j<i. fst (ps ! j) \<noteq> n)"
  by (induction i) (auto simp: less_Suc_eq)

lemma avs_for_Some:
  "avs_for ps n i = Some j \<Longrightarrow> j < i \<and> fst (ps ! j) = n \<and> (\<forall>k<i. j < k \<longrightarrow> fst (ps ! k) \<noteq> n)"
  by (induction i) (auto simp: less_Suc_eq split: if_splits)

lemma avs_for_absent: "avs_for ps n (length ps) = None \<longleftrightarrow> n \<notin> fst ` set ps"
proof -
  have "n \<notin> fst ` set ps \<longleftrightarrow> (\<forall>p\<in>set ps. fst p \<noteq> n)" by auto
  then show ?thesis by (simp add: avs_for_None all_set_conv_all_nth)
qed

lemma avs_for_distinct:
  assumes "distinct (map fst ps)" "j < length ps" "fst (ps ! j) = n"
  shows "avs_for ps n (length ps) = Some j"
proof (cases "avs_for ps n (length ps)")
  case None
  then show ?thesis using assms by (auto simp: avs_for_None)
next
  case (Some i)
  with avs_for_Some[OF Some] assms show ?thesis
    by (metis distinct_conv_nth length_map nth_map)
qed

text \<open>Lookup as a map: the entry of a name that stands last.\<close>

lemma avs_for_map_of:
  "(case avs_for ps n (length ps) of None \<Rightarrow> None | Some i \<Rightarrow> Some (snd (ps ! i)))
     = map_of (rev ps) n"
proof -
  have "(case avs_for ps n i of None \<Rightarrow> None | Some j \<Rightarrow> Some (snd (ps ! j)))
      = map_of (rev (take i ps)) n" if "i \<le> length ps" for i
    using that by (induction i) (auto simp: take_Suc_snoc prod_eq_iff split: option.splits)
  from this[of "length ps"] show ?thesis by simp
qed

definition avs_find :: "bu_avs \<Rightarrow> string \<Rightarrow> string option" where
  "avs_find avs n = bu_avs_get avs (Some n)"

lemma avs_find_map_of: "avs_find avs n = Option.bind (map_of (rev (avp avs)) n) (\<lambda>v. v)"
  unfolding avs_find_def bu_avs_get_def avs_for_map_of[symmetric]
  by (auto split: option.splits)

lemma wf_avs_append:
  assumes "avs_wf avs" "n \<notin> fst ` set (avp avs)" "n \<noteq> []"
  shows "avs_wf (avs_append (n, v) avs)"
  using assms by (auto simp: avs_wf_def avs_append_def AVS_ALLOCATION_INCREMENT_def)

lemma wf_bu_avs_add:
  assumes "avs_wf avs" shows "avs_wf (snd (bu_avs_add avs name v))"
proof (cases name)
  case (Some n)
  show ?thesis
  proof (cases "avs_for (avp avs) n (length (avp avs))")
    case None
    then show ?thesis
      using assms Some wf_avs_append[of avs n v] avs_for_absent[of "avp avs" n]
      by (simp add: bu_avs_add_def)
  next
    case (Some i)
    have "map fst ((avp avs)[i := (n, v)]) = map fst (avp avs)"
      using avs_for_Some[OF Some] by (intro nth_equalityI) (auto simp: nth_list_update)
    then have "distinct (map fst ((avp avs)[i := (n, v)]))" using assms by (simp add: avs_wf_def)
    then show ?thesis
      using assms Some \<open>name = Some n\<close> set_update_subset_insert[of "avp avs" i "(n, v)"]
      by (auto simp: bu_avs_add_def avs_wf_def)
  qed
qed (use assms in \<open>simp add: bu_avs_add_def\<close>)

lemma map_of_rev_update:
  assumes "i < length ps" "fst (ps ! i) = n" "\<forall>k<length ps. i < k \<longrightarrow> fst (ps ! k) \<noteq> n"
  shows "map_of (rev (ps[i := (n, v)])) k = (if k = n then Some v else map_of (rev ps) k)"
proof -
  have ps: "ps = take i ps @ ps ! i # drop (Suc i) ps" using assms(1) by (rule id_take_nth_drop)
  have up: "ps[i := (n, v)] = take i ps @ (n, v) # drop (Suc i) ps"
    using assms(1) by (rule upd_conv_take_nth_drop)
  have "\<forall>p\<in>set (drop (Suc i) ps). fst p \<noteq> n"
    using assms(3) by (simp add: all_set_conv_all_nth)
  then have "n \<notin> fst ` set (drop (Suc i) ps)" by auto
  then have "map_of (rev (drop (Suc i) ps)) n = None"
    by (simp add: map_of_eq_None_iff)
  moreover obtain u where "ps ! i = (n, u)" using assms(2) by (cases "ps ! i") auto
  ultimately show ?thesis
    by (subst (2) ps) (auto simp: up map_add_def split: option.splits)
qed

lemma avs_find_add:
  assumes "n \<noteq> []"
  shows "avs_find (snd (bu_avs_add avs (Some n) (Some v))) k
    = (if k = n then Some v else avs_find avs k)"
proof (cases "avs_for (avp avs) n (length (avp avs))")
  case None
  then show ?thesis using assms
    by (simp add: bu_avs_add_def avs_append_def avs_find_map_of)
next
  case (Some i)
  with avs_for_Some[OF Some] show ?thesis using assms
    by (simp add: bu_avs_add_def avs_find_map_of map_of_rev_update)
qed

interpretation avs: dictionary avs_find "\<lambda>n v avs. snd (bu_avs_add avs (Some n) (Some v))" avs_wf
  "\<lambda>n. n \<noteq> []"
  by unfold_locales (simp_all add: wf_bu_avs_add avs_find_add)


text \<open>Removal: the entries of the name go, the others stay (in another order).\<close>

lemma avs_remove_loop_spec:
  "i \<le> length ps \<Longrightarrow> \<forall>k<length ps. i \<le> k \<longrightarrow> fst (ps ! k) \<noteq> n \<Longrightarrow>
     mset (avs_remove_loop n i ps) = filter_mset (\<lambda>p. fst p \<noteq> n) (mset ps)"
proof (induction n i ps rule: avs_remove_loop.induct)
  case (1 n ps)
  then have "\<forall>p\<in>set ps. fst p \<noteq> n" by (simp add: all_set_conv_all_nth)
  then have "filter (\<lambda>p. fst p \<noteq> n) ps = ps" by (simp add: filter_id_conv)
  then show ?case by (simp flip: mset_filter)
next
  case (2 n i ps)
  show ?case
  proof (cases "fst (ps ! i) \<noteq> n")
    case True
    then have "\<forall>k<length ps. i \<le> k \<longrightarrow> fst (ps ! k) \<noteq> n"
      using "2.prems"(2) by (metis Suc_leI le_neq_implies_less)
    then show ?thesis using "2.IH"(1)[OF True] "2.prems" True by simp
  next
    case False
    let ?last = "ps ! (length ps - 1)"
    let ?qs = "butlast (if i \<noteq> length ps - 1 then ps[i := ?last] else ps)"
    have ne: "ps \<noteq> []" using "2.prems"(1) by auto
    have qs: "?qs = (butlast ps)[i := ?last] \<or> i = length ps - 1 \<and> ?qs = butlast ps"
      using "2.prems"(1) by (auto simp: butlast_list_update)
    have ps: "ps = butlast ps @ [?last]" using ne by (metis append_butlast_last_id last_conv_nth)
    have later: "\<forall>k<length ?qs. i \<le> k \<longrightarrow> fst (?qs ! k) \<noteq> n"
    proof (intro allI impI)
      fix k assume k: "k < length ?qs" "i \<le> k"
      then have "i \<noteq> length ps - 1" using "2.prems"(1) by auto
      then show "fst (?qs ! k) \<noteq> n"
        using k "2.prems" by (cases "k = i") (auto simp: nth_butlast)
    qed
    have ms: "filter_mset (\<lambda>p. fst p \<noteq> n) (mset ?qs) = filter_mset (\<lambda>p. fst p \<noteq> n) (mset ps)"
    proof (cases "i = length ps - 1")
      case True
      then have "fst ?last = n" using False by simp
      moreover have "mset ps = mset (butlast ps) + {#?last#}" by (subst ps) simp
      ultimately show ?thesis using True by simp
    next
      case i: False
      then have il: "i < length (butlast ps)" using "2.prems"(1) by simp
      then have "ps ! i \<in># mset (butlast ps)" by (metis in_set_conv_nth nth_butlast set_mset_mset)
      moreover have "butlast ps ! i = ps ! i" using il by (simp add: nth_butlast)
      ultimately have "mset ((butlast ps)[i := ?last]) + {#ps ! i#} = mset (butlast ps) + {#?last#}"
        using il by (simp add: mset_update)
      also have "\<dots> = mset ps" by (subst (2) ps) simp
      finally have "mset ps = mset ((butlast ps)[i := ?last]) + {#ps ! i#}" by simp
      moreover have "?qs = (butlast ps)[i := ?last]" using i il by (simp add: butlast_list_update)
      ultimately show ?thesis using False by simp
    qed
    have "i \<le> length ?qs" using "2.prems"(1) by auto
    then show ?thesis
      using "2.IH"(2)[OF False refl] later ms False
      by (cases "i = length ps - Suc 0") (simp_all add: Let_def)
  qed
qed

lemma bu_avs_remove_absent:
  "bu_avs_remove avs (Some n) = (rc, avs') \<Longrightarrow> n \<notin> fst ` set (avp avs')"
proof (cases "length (avp avs) < 1")
  case False
  assume "bu_avs_remove avs (Some n) = (rc, avs')"
  then have "avp avs' = avs_remove_loop n (length (avp avs)) (avp avs)"
    using False by (auto simp: bu_avs_remove_def)
  then have "mset (avp avs') = filter_mset (\<lambda>p. fst p \<noteq> n) (mset (avp avs))"
    using avs_remove_loop_spec[of "length (avp avs)" "avp avs" n] by simp
  from arg_cong[OF this, of set_mset]
  have "set (avp avs') = {p \<in> set (avp avs). fst p \<noteq> n}" by (simp add: set_mset_filter)
  then show ?thesis by auto
qed (auto simp: bu_avs_remove_def)


section \<open>On disk\<close>

definition str_bytes :: "string option \<Rightarrow> byte list" where
  "str_bytes x = (case x of None \<Rightarrow> [] | Some s \<Rightarrow> bytes_of s)"

definition db5_export_attributes :: "bu_avs \<Rightarrow> byte list" where
  "db5_export_attributes avs =
     (if length (avp avs) = 0 then []
      else concat (map (\<lambda>p. bytes_of (fst p) @ 0 # str_bytes (snd p) @ [0]) (avp avs)) @ [0])"

text \<open>The first pass: the number of pairs and where the final zero byte is.\<close>

function count_attributes :: "byte list \<Rightarrow> (nat \<times> byte list) option" where
  "count_attributes cp =
     (case cp of
        [] \<Rightarrow> None
      | b # _ \<Rightarrow>
          if b = 0 then Some (0, cp)
          else do { n \<leftarrow> c_string cp;
                    let cp = drop (length n + 1) cp;
                    v \<leftarrow> c_string cp;
                    let cp = drop (length v + 1) cp;
                    (k, ep) \<leftarrow> count_attributes cp;
                    Some (k + 1, ep) })"
  by pat_completeness auto
termination by (relation "measure length") auto

function add_attributes :: "byte list \<Rightarrow> bu_avs \<Rightarrow> (bu_avs \<times> byte list) option" where
  "add_attributes cp avs =
     (case cp of
        [] \<Rightarrow> None
      | b # _ \<Rightarrow>
          if b = 0 then Some (avs, cp)
          else do { n \<leftarrow> c_string cp;
                    let cp = drop (length n + 1) cp;
                    v \<leftarrow> c_string cp;
                    let avs = snd (bu_avs_add avs (Some (string_of n)) (Some (string_of v)));
                    let cp = drop (length v + 1) cp;
                    add_attributes cp avs })"
  by pat_completeness auto
termination by (relation "measure (\<lambda>(cp, avs). length cp)") auto

declare count_attributes.simps [simp del] add_attributes.simps [simp del]

text \<open>The assertions (\<open>None\<close>) come after each pass: the list must end with the buffer,
  and the set must hold as many attributes as were counted.\<close>

definition db5_import_attributes :: "byte list \<Rightarrow> (int \<times> bu_avs) option" where
  "db5_import_attributes ap =
     (if length ap < 4 then None
      else do { (count, ep) \<leftarrow> count_attributes ap;
                (if length ep \<noteq> 1 then None
                 else do { (avs, ep) \<leftarrow> add_attributes ap (bu_avs_init count);
                           (if length ep = 1 \<and> length (avp avs) \<le> avs_max avs
                               \<and> length (avp avs) = count
                            then Some (int (length (avp avs)), avs) else None) }) })"

definition pair_bytes :: "string \<times> string \<Rightarrow> byte list" where
  "pair_bytes p = bytes_of (fst p) @ 0 # bytes_of (snd p) @ [0]"

definition pair_ok :: "string \<times> string \<Rightarrow> bool" where
  "pair_ok p \<longleftrightarrow> fst p \<noteq> [] \<and> no_nul (fst p) \<and> no_nul (snd p)"

lemma pair_bytes_first:
  assumes "pair_ok p"
  obtains b bs where "pair_bytes p @ rest = b # bs" "b \<noteq> 0"
proof -
  obtain c cs where "fst p = c # cs" using assms by (cases "fst p") (auto simp: pair_ok_def)
  then show ?thesis using assms that
    by (auto simp: pair_bytes_def bytes_of_def pair_ok_def no_nul_def byte_of_eq_0)
qed

lemma pair_strings:
  assumes "pair_ok p"
  shows "c_string (pair_bytes p @ rest) = Some (bytes_of (fst p))"
    "c_string (drop (length (fst p) + 1) (pair_bytes p @ rest)) = Some (bytes_of (snd p))"
    "drop (length (snd p) + 1) (drop (length (fst p) + 1) (pair_bytes p @ rest)) = rest"
  using assms by (simp_all add: pair_bytes_def pair_ok_def)

lemma count_attributes_step:
  assumes "pair_ok p"
  shows "count_attributes (pair_bytes p @ rest)
    = map_option (\<lambda>(k, ep). (k + 1, ep)) (count_attributes rest)"
proof -
  obtain b bs where b: "pair_bytes p @ rest = b # bs" "b \<noteq> 0"
    using pair_bytes_first[OF assms] .
  show ?thesis
    using pair_strings[OF assms, of rest] unfolding b
    by (subst count_attributes.simps)
      (auto simp: b(2) map_option_case split: option.splits)
qed

lemma add_attributes_step:
  assumes "pair_ok p"
  shows "add_attributes (pair_bytes p @ rest) avs
    = add_attributes rest (snd (bu_avs_add avs (Some (fst p)) (Some (snd p))))"
proof -
  obtain b bs where b: "pair_bytes p @ rest = b # bs" "b \<noteq> 0"
    using pair_bytes_first[OF assms] .
  show ?thesis
    using pair_strings[OF assms, of rest] unfolding b
    by (subst add_attributes.simps) (auto simp: b(2) Let_def)
qed

lemma count_attributes_pairs:
  "\<forall>p\<in>set ps. pair_ok p \<Longrightarrow>
     count_attributes (concat (map pair_bytes ps) @ [0]) = Some (length ps, [0])"
  by (induction ps) (simp_all add: count_attributes_step, simp add: count_attributes.simps)

lemma add_attributes_pairs:
  "\<forall>p\<in>set ps. pair_ok p \<Longrightarrow>
     add_attributes (concat (map pair_bytes ps) @ [0]) avs = Some (avs.put_all ps avs, [0])"
proof (induction ps arbitrary: avs)
  case (Cons p ps)
  then show ?case by (cases p) (simp add: add_attributes_step)
qed (simp add: add_attributes.simps)

text \<open>Adding pairs with new, distinct names appends them.\<close>

lemma put_all_append:
  "distinct (map fst ps) \<Longrightarrow> fst ` set ps \<inter> fst ` set (avp avs) = {} \<Longrightarrow> \<forall>p\<in>set ps. pair_ok p \<Longrightarrow>
     avp (avs.put_all ps avs) = avp avs @ map (\<lambda>p. (fst p, Some (snd p))) ps"
proof (induction ps arbitrary: avs)
  case (Cons p ps)
  obtain n v where p: "p = (n, v)" by fastforce
  have add: "snd (bu_avs_add avs (Some n) (Some v)) = avs_append (n, Some v) avs"
    using Cons.prems avs_for_absent[of "avp avs" n]
    by (auto simp: bu_avs_add_def p pair_ok_def)
  have "avp (avs.put_all ps (avs_append (n, Some v) avs))
      = avp (avs_append (n, Some v) avs) @ map (\<lambda>p. (fst p, Some (snd p))) ps"
    using Cons.prems by (intro Cons.IH) (auto simp: avs_append_def p)
  then show ?case by (simp add: p add avs_append_def)
qed simp

lemma put_all_count:
  "\<forall>p\<in>set ps. pair_ok p \<Longrightarrow> length (avp (avs.put_all ps avs)) \<le> length (avp avs) + length ps"
proof (induction ps arbitrary: avs)
  case (Cons p ps)
  obtain n v where p: "p = (n, v)" by fastforce
  have "length (avp (snd (bu_avs_add avs (Some n) (Some v)))) \<le> length (avp avs) + 1"
    by (auto simp: bu_avs_add_def avs_append_def split: option.splits)
  then show ?case using Cons.IH[of "snd (bu_avs_add avs (Some n) (Some v))"] Cons.prems
    by (simp add: p)
qed simp

lemma add_names:
  "fst ` set (avp (snd (bu_avs_add avs (Some n) (Some v)))) \<subseteq> insert n (fst ` set (avp avs))"
proof (cases "avs_for (avp avs) n (length (avp avs))")
  case None
  then show ?thesis by (auto simp: bu_avs_add_def avs_append_def)
next
  case (Some i)
  have "fst ` set ((avp avs)[i := (n, Some v)]) \<subseteq> fst ` insert (n, Some v) (set (avp avs))"
    by (intro image_mono set_update_subset_insert)
  then show ?thesis using Some by (auto simp: bu_avs_add_def)
qed

lemma put_all_names:
  "fst ` set (avp (avs.put_all ps avs)) \<subseteq> fst ` set (avp avs) \<union> fst ` set ps"
proof (induction ps arbitrary: avs)
  case (Cons p ps)
  obtain n v where p: "p = (n, v)" by fastforce
  show ?case
    using Cons.IH[of "snd (bu_avs_add avs (Some n) (Some v))"] add_names[of avs n v]
    by (auto simp: p)
qed simp

lemma put_all_repeated:
  assumes "\<forall>p\<in>set ps. pair_ok p" "\<not> distinct (map fst ps)"
  shows "length (avp (avs.put_all ps (bu_avs_init k))) < length ps"
proof -
  have wf: "avs_wf (bu_avs_init k)" by (simp add: avs_wf_def bu_avs_init_def)
  let ?d = "avs.put_all ps (bu_avs_init k)"
  have inv: "avs_wf ?d"
    using assms(1) by (intro avs.inv_put_all wf) (auto simp: pair_ok_def)
  have "fst ` set (avp ?d) \<subseteq> fst ` set ps"
    using put_all_names[of ps "bu_avs_init k"] by (simp add: bu_avs_init_def)
  then have "card (fst ` set (avp ?d)) \<le> card (fst ` set ps)" by (intro card_mono) auto
  also have "\<dots> < length ps"
    using assms(2) card_distinct[of "map fst ps"] card_length[of "map fst ps"]
    by (metis image_set le_neq_implies_less length_map)
  finally show ?thesis
    using inv distinct_card[of "map fst (avp ?d)"] by (simp add: avs_wf_def)
qed

lemma export_pairs:
  assumes "avp avs = map (\<lambda>p. (fst p, Some (snd p))) ps" "ps \<noteq> []"
  shows "db5_export_attributes avs = concat (map pair_bytes ps) @ [0]"
  using assms by (simp add: db5_export_attributes_def pair_bytes_def[abs_def] str_bytes_def comp_def)

lemma export_length:
  assumes "avp avs = map (\<lambda>p. (fst p, Some (snd p))) ps" "ps \<noteq> []" "\<forall>p\<in>set ps. pair_ok p"
  shows "4 \<le> length (db5_export_attributes avs)"
proof -
  obtain p qs where ps: "ps = p # qs" using assms(2) by (cases ps) auto
  then have "fst p \<noteq> []" using assms(3) by (simp add: pair_ok_def)
  then have "1 \<le> length (fst p)" by (cases "fst p") auto
  then show ?thesis unfolding export_pairs[OF assms(1,2)] by (simp add: ps pair_bytes_def)
qed

section \<open>Properties\<close>

lemma attributes_read_back:
  assumes "avp avs = map (\<lambda>p. (fst p, Some (snd p))) ps" "ps \<noteq> []" "\<forall>p\<in>set ps. pair_ok p"
    and "distinct (map fst ps)"
  shows "\<exists>avs'. db5_import_attributes (db5_export_attributes avs) = Some (int (length ps), avs')
     \<and> avp avs' = avp avs \<and> avs_wf avs'"
proof -
  let ?d = "avs.put_all ps (bu_avs_init (length ps))"
  have d: "avp ?d = avp avs"
    using put_all_append[OF assms(4) _ assms(3)] by (simp add: bu_avs_init_def assms(1))
  have wf: "avs_wf ?d"
    using assms(3) by (intro avs.inv_put_all) (auto simp: pair_ok_def avs_wf_def bu_avs_init_def)
  then have "length (avp ?d) \<le> avs_max ?d" by (simp add: avs_wf_def)
  then have "db5_import_attributes (concat (map pair_bytes ps) @ [0]) = Some (int (length ps), ?d)"
    using export_length[OF assms(1-3)] unfolding export_pairs[OF assms(1,2)]
    by (simp add: db5_import_attributes_def count_attributes_pairs[OF assms(3)]
        add_attributes_pairs[OF assms(3)] d assms(1))
  then show ?thesis using d wf export_pairs[OF assms(1,2)] by auto
qed

text \<open>C23: an attribute set with distinct, non-empty names that is written by
  \<open>db5_export_attributes\<close> is read back by \<open>db5_import_attributes\<close> with the same
  attributes in the same order, and the import returns their number.\<close>

theorem attributes_roundtrip:
  assumes "avp avs = map (\<lambda>p. (fst p, Some (snd p))) ps" "ps \<noteq> []" "\<forall>p\<in>set ps. pair_ok p"
    and "distinct (map fst ps)"
  shows "\<exists>avs'. db5_import_attributes (db5_export_attributes avs) = Some (int (length ps), avs')
     \<and> avp avs' = avp avs \<and> avs_wf avs'"
  by (rule attributes_read_back[OF assms])

lemma attributes_roundtrip_witness:
  "\<exists>avs'. db5_import_attributes (db5_export_attributes
       \<lparr>avp = [(''region'', Some ''R''), (''los'', Some ''100'')], avs_max = 32\<rparr>) = Some (2, avs')"
proof -
  have "avp \<lparr>avp = [(''region'', Some ''R''), (''los'', Some ''100'')], avs_max = 32\<rparr>
      = map (\<lambda>p. (fst p, Some (snd p))) [(''region'', ''R''), (''los'', ''100'')]" by simp
  moreover have "\<forall>p\<in>set [(''region'', ''R''), (''los'', ''100'')]. pair_ok p"
    by (simp add: pair_ok_def no_nul_def)
  ultimately show ?thesis
    using attributes_roundtrip[of _ "[(''region'', ''R''), (''los'', ''100'')]"] by fastforce
qed

text \<open>A set in which a name occurs twice (\<open>bu_avs_add_nonunique\<close> makes such sets)
  is written without complaint, and reading it back ends in a failed assertion: the
  import merges the two and finds fewer attributes than it counted.\<close>

theorem repeated_attributes_bomb:
  assumes "avp avs = map (\<lambda>p. (fst p, Some (snd p))) ps" "ps \<noteq> []" "\<forall>p\<in>set ps. pair_ok p"
    and "\<not> distinct (map fst ps)"
  shows "db5_import_attributes (db5_export_attributes avs) = None"
  using put_all_repeated[OF assms(3,4), of "length ps"]
  unfolding export_pairs[OF assms(1,2)] db5_import_attributes_def
  by (simp add: count_attributes_pairs[OF assms(3)] add_attributes_pairs[OF assms(3)])

lemma repeated_attributes_bomb_witness:
  "db5_import_attributes (db5_export_attributes
     (bu_avs_add_nonunique (bu_avs_add_nonunique bu_avs_init_empty (Some ''a'') (Some ''1''))
        (Some ''a'') (Some ''2''))) = None"
proof -
  let ?avs = "bu_avs_add_nonunique (bu_avs_add_nonunique bu_avs_init_empty (Some ''a'') (Some ''1''))
        (Some ''a'') (Some ''2'')"
  have "avp ?avs = map (\<lambda>p. (fst p, Some (snd p))) [(''a'', ''1''), (''a'', ''2'')]"
    by (simp add: bu_avs_add_nonunique_def bu_avs_init_empty_def avs_append_def)
  then show ?thesis
    by (rule repeated_attributes_bomb) (simp_all add: pair_ok_def no_nul_def)
qed

text \<open>\<open>bu_avs_add\<close> keeps the set well formed and behaves as an update of a map:
  it returns 1 exactly when the name was there and 2 when it was not, the new value is
  found under the name, and every other name keeps its value.\<close>

theorem avs_add_updates:
  assumes "avs_wf avs" "n \<noteq> []"
  shows "avs_wf (snd (bu_avs_add avs (Some n) (Some v)))
     \<and> fst (bu_avs_add avs (Some n) (Some v)) = (if n \<in> fst ` set (avp avs) then 1 else 2)
     \<and> (\<forall>k. bu_avs_get (snd (bu_avs_add avs (Some n) (Some v))) (Some k)
           = (if k = n then Some v else bu_avs_get avs (Some k)))"
  using avs.inv_put[OF assms] avs.find_put[OF assms] assms(2) avs_for_absent[of "avp avs" n]
  by (auto simp: avs_find_def bu_avs_add_def split: option.splits)

lemma avs_add_updates_witness:
  "bu_avs_get (snd (bu_avs_add bu_avs_init_empty (Some ''a'') (Some ''1''))) (Some ''a'') = Some ''1''"
proof -
  have "avs_wf bu_avs_init_empty" by (simp add: avs_wf_def bu_avs_init_empty_def)
  from avs_add_updates[OF this, of "''a''" "''1''"] show ?thesis by simp
qed

text \<open>\<open>bu_avs_remove\<close> removes all attributes of the name and no other; on a set
  that is not empty it returns 0 whether or not there was one, although the header says -1
  is returned when the attribute is not found.\<close>

theorem avs_remove_all:
  assumes "avp avs \<noteq> []"
  shows "\<exists>avs'. bu_avs_remove avs (Some n) = (0, avs')
     \<and> mset (avp avs') = filter_mset (\<lambda>p. fst p \<noteq> n) (mset (avp avs))"
  using assms avs_remove_loop_spec[of "length (avp avs)" "avp avs" n]
  by (simp add: bu_avs_remove_def Suc_leI)

lemma avs_remove_all_witness:
  "fst (bu_avs_remove \<lparr>avp = [(''a'', None)], avs_max = 1\<rparr> (Some ''b'')) = 0"
  using avs_remove_all[of "\<lparr>avp = [(''a'', None)], avs_max = 1\<rparr>" "''b''"] by auto

end
