(* ===== verification/CsgTree.thy ===== *)
theory CsgTree
  imports BrlPrelude
begin

text \<open>
  Boolean (CSG) trees of librt: \<open>union tree\<close> of \<open>include/rt/tree.h\<close> with the
  operator codes of \<open>include/rt/op.h\<close>, and the operations of
  \<open>librt/db_tree.c\<close> that search, delete, multiply, walk, copy and count.

  A node is a value: \<open>OP_NOP\<close>, a leaf, a unary node (its \<open>tb_left\<close>; the
  \<open>tb_right\<close> of a unary node is the null pointer) or a binary node.  The
  routines that overwrite a node in place return the tree that is then at its
  address.  A node inside a tree is named by its path from the root.  The
  back pointer \<open>tr_regionp\<close> is copied along with a node and read by none of
  these routines; it is left out.  Matrices are values of a type \<open>'m\<close>.
  The meaning of a tree, \<open>inside\<close>, is the point-membership test that the
  operators are named for; leaves get their meaning from an environment.
\<close>

section \<open>Trees\<close>

datatype unop = OP_NOT | OP_GUARD | OP_XNOP

datatype binop = OP_UNION | OP_INTERSECT | OP_SUBTRACT | OP_XOR

datatype 'm leaf =
    OP_SOLID nat
  | OP_REGION nat
  | OP_NMG_TESS string nat
  | OP_DB_LEAF string "'m option"

datatype 'm tree =
    OP_NOP
  | Leaf "'m leaf"
  | Unary unop "'m tree"
  | Binary binop "'m tree" "'m tree"

datatype side = Lhs | Rhs

type_synonym path = "side list"

section \<open>Meaning\<close>

fun unop_holds :: "unop \<Rightarrow> bool \<Rightarrow> bool" where
  "unop_holds OP_NOT a = (\<not> a)"
| "unop_holds OP_GUARD a = (\<not> a)"
| "unop_holds OP_XNOP a = a"

fun binop_holds :: "binop \<Rightarrow> bool \<Rightarrow> bool \<Rightarrow> bool" where
  "binop_holds OP_UNION a b = (a \<or> b)"
| "binop_holds OP_INTERSECT a b = (a \<and> b)"
| "binop_holds OP_SUBTRACT a b = (a \<and> \<not> b)"
| "binop_holds OP_XOR a b = (a \<noteq> b)"

fun inside :: "('m leaf \<Rightarrow> bool) \<Rightarrow> 'm tree \<Rightarrow> bool" where
  "inside \<rho> OP_NOP = False"
| "inside \<rho> (Leaf l) = \<rho> l"
| "inside \<rho> (Unary u t) = unop_holds u (inside \<rho> t)"
| "inside \<rho> (Binary b l r) = binop_holds b (inside \<rho> l) (inside \<rho> r)"

fun leaves :: "'m tree \<Rightarrow> 'm leaf list" where
  "leaves OP_NOP = []"
| "leaves (Leaf l) = [l]"
| "leaves (Unary u t) = leaves t"
| "leaves (Binary b l r) = leaves l @ leaves r"

text \<open>Trees as a combination record holds them: binary operators over
  \<open>OP_DB_LEAF\<close> leaves.\<close>

fun comb_tree :: "'m tree \<Rightarrow> bool" where
  "comb_tree (Leaf (OP_DB_LEAF n m)) = True"
| "comb_tree (Binary b l r) = (comb_tree l \<and> comb_tree r)"
| "comb_tree _ = False"

fun leaf_name :: "'m leaf \<Rightarrow> string" where
  "leaf_name (OP_DB_LEAF n m) = n"
| "leaf_name (OP_NMG_TESS n r) = n"
| "leaf_name _ = []"

lemma comb_tree_induct [consumes 1, case_names leaf bin]:
  assumes "comb_tree t"
    and "\<And>n m. P (Leaf (OP_DB_LEAF n m))"
    and "\<And>b l r. comb_tree l \<Longrightarrow> P l \<Longrightarrow> comb_tree r \<Longrightarrow> P r \<Longrightarrow> P (Binary b l r)"
  shows "P t"
  using assms(1)
proof (induction t)
  case (Leaf x) then show ?case using assms(2) by (cases x) auto
next
  case (Binary b l r) then show ?case using assms(3) by simp
qed simp_all

lemma comb_tree_leaves: "comb_tree t \<Longrightarrow> l \<in> set (leaves t) \<Longrightarrow> \<exists>n m. l = OP_DB_LEAF n m"
  by (induction t rule: comb_tree.induct) auto

lemma inside_cong: "(\<And>l. l \<in> set (leaves t) \<Longrightarrow> \<rho> l = \<rho>' l) \<Longrightarrow> inside \<rho> t = inside \<rho>' t"
  by (induction t) auto

section \<open>Finding a named leaf\<close>

fun subtree_at :: "'m tree \<Rightarrow> path \<Rightarrow> 'm tree option" where
  "subtree_at t [] = Some t"
| "subtree_at (Binary b l r) (Lhs # p) = subtree_at l p"
| "subtree_at (Binary b l r) (Rhs # p) = subtree_at r p"
| "subtree_at _ _ = None"

fun update_at :: "'m tree \<Rightarrow> path \<Rightarrow> ('m tree \<Rightarrow> 'm tree option) \<Rightarrow> 'm tree option" where
  "update_at t [] f = f t"
| "update_at (Binary b l r) (Lhs # p) f = map_option (\<lambda>l'. Binary b l' r) (update_at l p f)"
| "update_at (Binary b l r) (Rhs # p) f = map_option (\<lambda>r'. Binary b l r') (update_at r p f)"
| "update_at _ _ f = None"

fun db_find_named_leaf :: "'m tree \<Rightarrow> string \<Rightarrow> path option option" where
  "db_find_named_leaf (Leaf (OP_DB_LEAF n m)) cp = Some (if cp = n then Some [] else None)"
| "db_find_named_leaf (Binary b l r) cp =
     do { ret \<leftarrow> db_find_named_leaf l cp;
          (case ret of
             Some p \<Rightarrow> Some (Some (Lhs # p))
           | None \<Rightarrow> map_option (map_option (Cons Rhs)) (db_find_named_leaf r cp)) }"
| "db_find_named_leaf _ cp = None"

fun named_db_leaf :: "'m tree \<Rightarrow> string \<Rightarrow> bool" where
  "named_db_leaf (Leaf (OP_DB_LEAF n m)) cp = (cp = n)"
| "named_db_leaf _ cp = False"

fun db_find_named_leafs_parent :: "'m tree \<Rightarrow> string \<Rightarrow> (side \<times> path) option option" where
  "db_find_named_leafs_parent (Leaf (OP_DB_LEAF n m)) cp = Some None"
| "db_find_named_leafs_parent (Binary b l r) cp =
     (if named_db_leaf l cp then Some (Some (Lhs, []))
      else if named_db_leaf r cp then Some (Some (Rhs, []))
      else do { ret \<leftarrow> db_find_named_leafs_parent l cp;
                (case ret of
                   Some (s, p) \<Rightarrow> Some (Some (s, Lhs # p))
                 | None \<Rightarrow> map_option (map_option (\<lambda>(s, p). (s, Rhs # p)))
                            (db_find_named_leafs_parent r cp)) })"
| "db_find_named_leafs_parent _ cp = None"

lemma named_db_leaf_iff: "named_db_leaf t cp \<longleftrightarrow> (\<exists>m. t = Leaf (OP_DB_LEAF cp m))"
  by (induction t cp rule: named_db_leaf.induct) auto

lemma db_find_named_leaf_total:
  "comb_tree t \<Longrightarrow> \<exists>r. db_find_named_leaf t cp = Some r"
  by (induction rule: comb_tree_induct) (auto split: option.splits)

lemma db_find_named_leaf_none:
  assumes "comb_tree t"
  shows "db_find_named_leaf t cp = Some None \<longleftrightarrow> cp \<notin> leaf_name ` set (leaves t)"
  using assms
proof (induction rule: comb_tree_induct)
  case (bin b l r)
  obtain x y where "db_find_named_leaf l cp = Some x" "db_find_named_leaf r cp = Some y"
    using bin db_find_named_leaf_total by metis
  with bin show ?case by (auto split: option.splits)
qed auto

lemma db_find_named_leaf_some:
  "db_find_named_leaf t cp = Some (Some p) \<Longrightarrow> \<exists>m. subtree_at t p = Some (Leaf (OP_DB_LEAF cp m))"
  by (induction t cp arbitrary: p rule: db_find_named_leaf.induct)
    (auto split: if_splits option.splits elim!: option_elims)

section \<open>Deleting a side and deleting named leaves\<close>

fun plain_leaf :: "'m tree \<Rightarrow> bool" where
  "plain_leaf OP_NOP = True"
| "plain_leaf (Leaf l) = True"
| "plain_leaf _ = False"

fun db_tree_del_lhs :: "'m tree \<Rightarrow> 'm tree option" where
  "db_tree_del_lhs (Binary b l r) = (if plain_leaf l then Some r else None)"
| "db_tree_del_lhs _ = None"

fun db_tree_del_rhs :: "'m tree \<Rightarrow> 'm tree option" where
  "db_tree_del_rhs (Binary b l r) = (if plain_leaf r then Some l else None)"
| "db_tree_del_rhs _ = None"

definition del_side :: "side \<Rightarrow> 'm tree \<Rightarrow> 'm tree option" where
  "del_side s = (case s of Lhs \<Rightarrow> db_tree_del_lhs | Rhs \<Rightarrow> db_tree_del_rhs)"

lemma size_update_at:
  assumes "update_at t p f = Some t'" and "\<And>u u'. f u = Some u' \<Longrightarrow> size u' < size u"
  shows "size t' < size t"
  using assms by (induction t p f arbitrary: t' rule: update_at.induct) auto

lemma size_del_lhs: "db_tree_del_lhs t = Some t' \<Longrightarrow> size t' < size t"
  by (cases t) (auto split: if_splits)

lemma size_del_rhs: "db_tree_del_rhs t = Some t' \<Longrightarrow> size t' < size t"
  by (cases t) (auto split: if_splits)

lemma size_del_side: "del_side s t = Some t' \<Longrightarrow> size t' < size t"
  by (cases s) (simp_all add: del_side_def size_del_lhs size_del_rhs)

text \<open>\<open>db_tree_del_dbleaf(&tp, cp, resp, nflag)\<close>: the result code and the tree
  that \<open>*tp\<close> points to afterwards (\<open>None\<close> is \<open>TREE_NULL\<close>).\<close>

function db_tree_del_dbleaf ::
  "'m tree option \<Rightarrow> string \<Rightarrow> bool \<Rightarrow> (int \<times> 'm tree option) option" where
  "db_tree_del_dbleaf None cp nflag = Some (-1, None)"
| "db_tree_del_dbleaf (Some t) cp nflag =
     (case db_find_named_leafs_parent t cp of
        None \<Rightarrow> None
      | Some None \<Rightarrow>
          (if named_db_leaf t cp
           then if nflag then Some (0, Some t) else Some (0, None)
           else Some (-2, Some t))
      | Some (Some (side, p)) \<Rightarrow>
          (if nflag then Some (0, Some t)
           else case update_at t p (del_side side) of
                  None \<Rightarrow> None
                | Some t' \<Rightarrow> map_option (\<lambda>(rc, tp). (0, tp))
                              (db_tree_del_dbleaf (Some t') cp nflag)))"
  by pat_completeness auto
termination
  by (relation "measure (\<lambda>(tp, _, _). case tp of None \<Rightarrow> 0 | Some t \<Rightarrow> size t)")
    (auto dest!: size_update_at intro: size_del_side)

text \<open>What the deletion is meant to compute, by recursion on the tree.\<close>

fun prune :: "string \<Rightarrow> 'm tree \<Rightarrow> 'm tree option" where
  "prune cp (Binary b l r) =
     (case (prune cp l, prune cp r) of
        (None, r') \<Rightarrow> r'
      | (l', None) \<Rightarrow> l'
      | (Some l', Some r') \<Rightarrow> Some (Binary b l' r'))"
| "prune cp t = (if named_db_leaf t cp then None else Some t)"

lemma prune_leaves:
  "comb_tree t \<Longrightarrow> (case prune cp t of None \<Rightarrow> [] | Some t' \<Rightarrow> leaves t')
     = filter (\<lambda>l. leaf_name l \<noteq> cp) (leaves t)"
  by (induction rule: comb_tree_induct) (auto split: option.splits)

lemma prune_absent: "cp \<notin> leaf_name ` set (leaves t) \<Longrightarrow> prune cp t = Some t"
  by (induction cp t rule: prune.induct) (auto simp: named_db_leaf_iff image_Un)

lemma find_parent_total: "comb_tree t \<Longrightarrow> \<exists>r. db_find_named_leafs_parent t cp = Some r"
  by (induction rule: comb_tree_induct) (auto split: option.splits)

lemma find_parent_none:
  "db_find_named_leafs_parent t cp = Some None \<Longrightarrow>
     named_db_leaf t cp \<or> cp \<notin> leaf_name ` set (leaves t)"
  by (induction t cp rule: db_find_named_leafs_parent.induct)
    (auto split: if_splits option.splits elim!: option_elims)

lemma find_parent_present:
  "db_find_named_leafs_parent t cp = Some (Some (s, p)) \<Longrightarrow> cp \<in> leaf_name ` set (leaves t)"
proof (induction t arbitrary: s p)
  case (Leaf x) then show ?case by (cases x) auto
next
  case (Binary b l r)
  consider (here) "named_db_leaf l cp \<or> named_db_leaf r cp"
    | (left) s' p' where "db_find_named_leafs_parent l cp = Some (Some (s', p'))"
    | (right) s' p' where "db_find_named_leafs_parent r cp = Some (Some (s', p'))"
    using Binary.prems by (auto split: if_splits option.splits elim!: option_elims)
  then show ?case
    using Binary.IH by cases (auto simp: named_db_leaf_iff image_Un)
qed simp_all

lemma find_parent_step:
  assumes "db_find_named_leafs_parent t cp = Some (Some (s, p))" "comb_tree t"
  shows "\<exists>t'. update_at t p (del_side s) = Some t' \<and> comb_tree t' \<and> prune cp t' = prune cp t"
  using assms
proof (induction t cp arbitrary: s p rule: db_find_named_leafs_parent.induct)
  case (2 b l r cp)
  consider (l) "named_db_leaf l cp" | (r) "\<not> named_db_leaf l cp" "named_db_leaf r cp"
    | (below) "\<not> named_db_leaf l cp" "\<not> named_db_leaf r cp" by blast
  then show ?case
  proof cases
    case l then show ?thesis using "2.prems"
      by (auto simp: named_db_leaf_iff del_side_def)
  next
    case r then show ?thesis using "2.prems"
      by (auto simp: named_db_leaf_iff del_side_def split: option.splits)
  next
    case below
    then show ?thesis using 2
      by (fastforce split: option.splits prod.splits elim!: option_elims)
  qed
qed auto

lemma db_tree_del_dbleaf_prune:
  "comb_tree t \<Longrightarrow> db_tree_del_dbleaf (Some t) cp False =
     Some (if cp \<in> leaf_name ` set (leaves t) then 0 else -2, prune cp t)"
proof (induction "size t" arbitrary: t rule: less_induct)
  case less
  obtain ret where ret: "db_find_named_leafs_parent t cp = Some ret"
    using find_parent_total less.prems by blast
  show ?case
  proof (cases ret)
    case None
    then show ?thesis using ret find_parent_none[of t cp] prune_absent[of cp t]
      by (auto simp: named_db_leaf_iff)
  next
    case (Some sp)
    obtain s p where sp: "sp = (s, p)" by (cases sp)
    obtain t' where t': "update_at t p (del_side s) = Some t'" "comb_tree t'"
      "prune cp t' = prune cp t"
      using find_parent_step ret Some sp less.prems by blast
    have "size t' < size t"
      using size_update_at[OF t'(1)] size_del_side by blast
    then show ?thesis
      using less.hyps[of t'] t' ret Some sp find_parent_present[of t cp s p]
      by simp
  qed
qed

section \<open>Multiplying, walking and copying\<close>

fun mul_leaf :: "('m \<Rightarrow> 'm \<Rightarrow> 'm) \<Rightarrow> 'm \<Rightarrow> 'm leaf \<Rightarrow> 'm leaf" where
  "mul_leaf mmul mat (OP_DB_LEAF n None) = OP_DB_LEAF n (Some mat)"
| "mul_leaf mmul mat (OP_DB_LEAF n (Some m)) = OP_DB_LEAF n (Some (mmul mat m))"
| "mul_leaf mmul mat l = l"

fun db_tree_mul_dbleaf :: "('m \<Rightarrow> 'm \<Rightarrow> 'm) \<Rightarrow> 'm tree \<Rightarrow> 'm \<Rightarrow> 'm tree option" where
  "db_tree_mul_dbleaf mmul (Leaf (OP_DB_LEAF n m)) mat = Some (Leaf (mul_leaf mmul mat (OP_DB_LEAF n m)))"
| "db_tree_mul_dbleaf mmul (Binary b l r) mat =
     do { l' \<leftarrow> db_tree_mul_dbleaf mmul l mat;
          r' \<leftarrow> db_tree_mul_dbleaf mmul r mat;
          Some (Binary b l' r') }"
| "db_tree_mul_dbleaf mmul _ mat = None"

text \<open>The callback of \<open>db_tree_funcleaf\<close> gets the leaf node itself, so it may
  rewrite it; the user pointers are its state.\<close>

fun db_tree_funcleaf ::
  "('m leaf \<Rightarrow> 's \<Rightarrow> 'm tree \<times> 's) \<Rightarrow> 'm tree \<Rightarrow> 's \<Rightarrow> ('m tree \<times> 's) option" where
  "db_tree_funcleaf f (Leaf (OP_DB_LEAF n m)) s = Some (f (OP_DB_LEAF n m) s)"
| "db_tree_funcleaf f (Binary b l r) s =
     do { (l', s1) \<leftarrow> db_tree_funcleaf f l s;
          (r', s2) \<leftarrow> db_tree_funcleaf f r s1;
          Some (Binary b l' r', s2) }"
| "db_tree_funcleaf f _ s = None"

fun db_dup_subtree :: "'m tree \<Rightarrow> 'm tree" where
  "db_dup_subtree OP_NOP = OP_NOP"
| "db_dup_subtree (Leaf l) = Leaf l"
| "db_dup_subtree (Unary u t) = Unary u (db_dup_subtree t)"
| "db_dup_subtree (Binary b l r) = Binary b (db_dup_subtree l) (db_dup_subtree r)"

lemma db_dup_subtree_id [simp]: "db_dup_subtree t = t"
  by (induction t) simp_all

lemma db_tree_mul_dbleaf_leaves:
  "comb_tree t \<Longrightarrow> \<exists>t'. db_tree_mul_dbleaf mmul t mat = Some t' \<and> comb_tree t'
     \<and> leaves t' = map (mul_leaf mmul mat) (leaves t)"
proof (induction rule: comb_tree_induct)
  case (leaf n m) then show ?case by (cases m) auto
qed auto

lemma inside_mul_dbleaf:
  "db_tree_mul_dbleaf mmul t mat = Some t' \<Longrightarrow>
     inside \<rho> t' = inside (\<lambda>l. \<rho> (mul_leaf mmul mat l)) t"
  by (induction mmul t mat arbitrary: t' rule: db_tree_mul_dbleaf.induct)
    (auto elim!: option_elims)

lemma db_tree_funcleaf_fold:
  assumes "comb_tree t" and "\<And>l s. fst (f l s) = Leaf l"
  shows "db_tree_funcleaf f t s = Some (t, fold (\<lambda>l s. snd (f l s)) (leaves t) s)"
  using assms(1)
proof (induction arbitrary: s rule: comb_tree_induct)
  case (leaf n m) then show ?case by (simp add: prod_eq_iff assms(2))
qed simp

section \<open>Counting\<close>

text \<open>\<open>OP_NMG_TESS\<close> is a bad operator for the three counting routines.\<close>

fun db_count_tree_nodes :: "'m tree \<Rightarrow> int \<Rightarrow> int option" where
  "db_count_tree_nodes (Leaf (OP_NMG_TESS n r)) count = None"
| "db_count_tree_nodes OP_NOP count = Some (count + 1)"
| "db_count_tree_nodes (Leaf _) count = Some (count + 1)"
| "db_count_tree_nodes (Binary b l r) count =
     do { count \<leftarrow> db_count_tree_nodes l count;
          count \<leftarrow> db_count_tree_nodes r count;
          Some (count + 1) }"
| "db_count_tree_nodes (Unary u t) count =
     do { count \<leftarrow> db_count_tree_nodes t count;
          Some (count + 1) }"

fun db_is_tree_all_unions :: "'m tree \<Rightarrow> bool option" where
  "db_is_tree_all_unions (Leaf (OP_NMG_TESS n r)) = None"
| "db_is_tree_all_unions OP_NOP = Some True"
| "db_is_tree_all_unions (Leaf _) = Some True"
| "db_is_tree_all_unions (Binary OP_UNION l r) =
     do { u \<leftarrow> db_is_tree_all_unions l;
          (if \<not> u then Some False else db_is_tree_all_unions r) }"
| "db_is_tree_all_unions (Binary b l r) = Some False"
| "db_is_tree_all_unions (Unary u t) = Some False"

fun db_count_subtree_regions :: "'m tree \<Rightarrow> nat option" where
  "db_count_subtree_regions (Leaf (OP_NMG_TESS n r)) = None"
| "db_count_subtree_regions (Leaf _) = Some 1"
| "db_count_subtree_regions (Binary OP_UNION l r) =
     do { cnt \<leftarrow> db_count_subtree_regions l;
          c \<leftarrow> db_count_subtree_regions r;
          Some (cnt + c) }"
| "db_count_subtree_regions (Binary b l r) = Some 1"
| "db_count_subtree_regions (Unary u t) = Some 1"
| "db_count_subtree_regions OP_NOP = Some 1"

text \<open>\<open>db_tally_subtree_regions\<close>: the trees moved into \<open>reg_trees\<close> so far are
  the list, \<open>cur\<close> is its length.  A tree that is moved leaves an \<open>OP_NOP\<close>
  at its place.\<close>

fun db_tally_subtree_regions ::
  "'m tree \<Rightarrow> 'm tree list \<Rightarrow> nat \<Rightarrow> ('m tree \<times> 'm tree list) option" where
  "db_tally_subtree_regions tp reg_trees lim =
     (if length reg_trees \<ge> lim then None
      else case tp of
             OP_NOP \<Rightarrow> Some (OP_NOP, reg_trees)
           | Leaf (OP_NMG_TESS n r) \<Rightarrow> None
           | Leaf l \<Rightarrow> Some (OP_NOP, reg_trees @ [Leaf l])
           | Binary OP_UNION l r \<Rightarrow>
               do { (l', reg_trees) \<leftarrow> db_tally_subtree_regions l reg_trees lim;
                    (r', reg_trees) \<leftarrow> db_tally_subtree_regions r reg_trees lim;
                    Some (Binary OP_UNION l' r', reg_trees) }
           | Binary b l r \<Rightarrow> Some (OP_NOP, reg_trees @ [Binary b l r])
           | Unary u t \<Rightarrow> Some (OP_NOP, reg_trees @ [Unary u t]))"

declare db_tally_subtree_regions.simps [simp del]

lemma db_count_tree_nodes_add:
  "db_count_tree_nodes t count = Some n \<Longrightarrow> db_count_tree_nodes t (count + k) = Some (n + k)"
  by (induction t count arbitrary: n rule: db_count_tree_nodes.induct)
    (fastforce elim!: option_elims simp: algebra_simps)+

fun region_tops :: "'m tree \<Rightarrow> 'm tree list" where
  "region_tops OP_NOP = []"
| "region_tops (Binary OP_UNION l r) = region_tops l @ region_tops r"
| "region_tops t = [t]"

lemma inside_region_tops: "inside \<rho> t \<longleftrightarrow> (\<exists>u\<in>set (region_tops t). inside \<rho> u)"
  by (induction t rule: region_tops.induct) auto

lemma db_count_subtree_regions_pos: "db_count_subtree_regions t = Some n \<Longrightarrow> 0 < n"
  by (induction t arbitrary: n rule: db_count_subtree_regions.induct) (auto elim!: option_elims)

lemma db_count_subtree_regions_bound:
  "db_count_subtree_regions t = Some n \<Longrightarrow> length (region_tops t) \<le> n"
  by (induction t arbitrary: n rule: db_count_subtree_regions.induct)
    (fastforce elim!: option_elims)+

lemma db_tally_subtree_regions_tops:
  "db_count_subtree_regions t = Some n \<Longrightarrow> length regs + n \<le> lim \<Longrightarrow>
     \<exists>t'. db_tally_subtree_regions t regs lim = Some (t', regs @ region_tops t)
        \<and> region_tops t' = []"
proof (induction t arbitrary: n regs
    rule: region_tops.induct [case_names nop union leaf unary intersect subtract xor])
  case (union l r)
  from union.prems(1) obtain nl nr where
    n: "db_count_subtree_regions l = Some nl" "db_count_subtree_regions r = Some nr" "n = nl + nr"
    by (auto elim!: option_elims)
  obtain l' where l': "db_tally_subtree_regions l regs lim = Some (l', regs @ region_tops l)"
    "region_tops l' = []"
    using union.IH(1)[OF n(1), of regs] union.prems(2) n(3) by auto
  obtain r' where r': "db_tally_subtree_regions r (regs @ region_tops l) lim
      = Some (r', (regs @ region_tops l) @ region_tops r)" "region_tops r' = []"
    using union.IH(2)[OF n(2), of "regs @ region_tops l"] union.prems(2) n
      db_count_subtree_regions_bound[OF n(1)] by auto
  show ?case
    using l' r' union.prems(2) n db_count_subtree_regions_pos[OF n(1)]
    by (subst db_tally_subtree_regions.simps) auto
next
  case (leaf v)
  then show ?case
    by (cases v) (auto simp: db_tally_subtree_regions.simps)
qed (auto simp: db_tally_subtree_regions.simps)

lemma db_is_tree_all_unions_tops:
  assumes "db_is_tree_all_unions t = Some u"
  shows "u \<longleftrightarrow> (\<forall>s\<in>set (region_tops t). \<exists>l. s = Leaf l)"
  using assms
proof (induction t arbitrary: u
    rule: region_tops.induct [case_names nop union leaf unary intersect subtract xor])
  case (union l r)
  from union.prems obtain a where "db_is_tree_all_unions l = Some a"
    "if a then db_is_tree_all_unions r = Some u else \<not> u"
    by (auto elim!: option_elims split: if_splits)
  with union.IH(1)[of a] union.IH(2)[of u] show ?case by (cases a) auto
next
  case (leaf v)
  then show ?case by (cases v) auto
qed auto

section \<open>Properties\<close>

text \<open>C19: on the tree of a combination, \<open>db_tree_del_dbleaf\<close> ends, never bombs, and
  removes every leaf of the given name, keeping the others in order; it returns 0
  if there was one and -2 if there was none (-1 is the code for a null tree).  The comment in
  \<open>rt/tree.h\<close> speaks of one leaf and of exactly two nodes, and of other codes; see
  \<open>del_dbleaf_all_occurrences\<close> for the difference.\<close>

theorem del_dbleaf_removes:
  assumes "comb_tree t"
  shows "\<exists>tp. db_tree_del_dbleaf (Some t) cp False
       = Some (if cp \<in> leaf_name ` set (leaves t) then 0 else -2, tp)
     \<and> (case tp of None \<Rightarrow> [] | Some t' \<Rightarrow> leaves t') = filter (\<lambda>l. leaf_name l \<noteq> cp) (leaves t)
     \<and> db_tree_del_dbleaf None cp False = Some (-1, None)"
  using db_tree_del_dbleaf_prune[OF assms] prune_leaves[OF assms] by auto

lemma del_dbleaf_removes_witness:
  "\<exists>tp. db_tree_del_dbleaf (Some (Binary OP_SUBTRACT (Leaf (OP_DB_LEAF ''a'' (None :: nat option)))
       (Leaf (OP_DB_LEAF ''b'' None)))) ''a'' False = Some (0, tp)"
proof -
  have "comb_tree (Binary OP_SUBTRACT (Leaf (OP_DB_LEAF ''a'' (None :: nat option)))
       (Leaf (OP_DB_LEAF ''b'' None)))" by simp
  from del_dbleaf_removes[OF this, of "''a''"] show ?thesis by auto
qed

text \<open>Four of the five nodes of \<open>a u (a u b)\<close> are removed.\<close>

theorem del_dbleaf_all_occurrences:
  "db_tree_del_dbleaf (Some (Binary OP_UNION (Leaf (OP_DB_LEAF ''a'' None))
      (Binary OP_UNION (Leaf (OP_DB_LEAF ''a'' None)) (Leaf (OP_DB_LEAF ''b'' None))))) ''a'' False
   = Some (0, Some (Leaf (OP_DB_LEAF ''b'' (None :: nat option))))"
  by code_simp

text \<open>With an array as long as \<open>db_count_subtree_regions\<close> says,
  \<open>db_tally_subtree_regions\<close> never runs into its overflow bomb: it appends the region
  tops of the tree in order, leaves none in the tree, and the trees it collected together
  contain the points of the original.\<close>

theorem tally_fits_count:
  assumes "db_count_subtree_regions t = Some n" "length regs + n \<le> lim"
  shows "\<exists>t' new. db_tally_subtree_regions t regs lim = Some (t', regs @ new)
     \<and> length new \<le> n \<and> region_tops t' = []
     \<and> (\<forall>\<rho>. inside \<rho> t \<longleftrightarrow> (\<exists>u\<in>set new. inside \<rho> u))"
  using db_tally_subtree_regions_tops[OF assms] db_count_subtree_regions_bound[OF assms(1)]
    inside_region_tops by blast

lemma tally_fits_count_witness:
  "\<exists>t' new. db_tally_subtree_regions (Binary OP_UNION (Leaf (OP_SOLID 1 :: nat leaf))
       (Binary OP_SUBTRACT (Leaf (OP_SOLID 2)) (Leaf (OP_SOLID 3)))) [] 2 = Some (t', new)"
proof -
  have "db_count_subtree_regions (Binary OP_UNION (Leaf (OP_SOLID 1 :: nat leaf))
       (Binary OP_SUBTRACT (Leaf (OP_SOLID 2)) (Leaf (OP_SOLID 3)))) = Some 2" by simp
  from tally_fits_count[OF this, of "[]" 2] show ?thesis by auto
qed

end
