(* ===== verification/CsgRewrite.thy ===== *)
theory CsgRewrite
  imports CsgTree
begin

text \<open>
  The rewriting routines on boolean trees: \<open>db_left_hvy_node\<close> and
  \<open>db_non_union_push\<close> of \<open>librt/db_tree.c\<close>, \<open>rt_tree_elim_nops\<close> and
  \<open>rt_optim_tree\<close> of \<open>librt/tree.c\<close>.  Each is shown to end, to keep the
  meaning of the tree and to reach the normal form it is there for.
\<close>

section \<open>What the rewrites promise\<close>

text \<open>
  The interface the callers of the rewrites rely on: on the trees of a domain
  \<open>dom\<close> a rewrite gives a tree of the domain, in the normal form \<open>nf\<close>, with
  the same meaning.
\<close>

locale tree_rewrite =
  fixes rewrite :: "'m tree \<Rightarrow> 'm tree option"
    and dom nf :: "'m tree \<Rightarrow> bool"
  assumes total: "dom t \<Longrightarrow> \<exists>t'. rewrite t = Some t'"
    and closed: "dom t \<Longrightarrow> rewrite t = Some t' \<Longrightarrow> dom t'"
    and normal: "dom t \<Longrightarrow> rewrite t = Some t' \<Longrightarrow> nf t'"
    and same_meaning: "dom t \<Longrightarrow> rewrite t = Some t' \<Longrightarrow> inside \<rho> t' = inside \<rho> t"
begin

lemma rewrites_to:
  assumes "dom t"
  obtains t' where "rewrite t = Some t'" "dom t'" "nf t'" "\<And>\<rho>. inside \<rho> t' = inside \<rho> t"
  using assms total closed normal same_meaning by metis

lemma rewrite_again:
  assumes "dom t"
  shows "\<exists>t' t''. rewrite t = Some t' \<and> rewrite t' = Some t'' \<and> nf t''
    \<and> (\<forall>\<rho>. inside \<rho> t'' = inside \<rho> t)"
proof -
  obtain t' where t': "rewrite t = Some t'" "dom t'" "\<And>\<rho>. inside \<rho> t' = inside \<rho> t"
    using assms rewrites_to by blast
  obtain t'' where t'': "rewrite t' = Some t''" "nf t''" "\<And>\<rho>. inside \<rho> t'' = inside \<rho> t'"
    using t'(2) rewrites_to by blast
  with t' show ?thesis by auto
qed

text \<open>The regions of the rewritten tree are together the original.\<close>

lemma regions_together:
  assumes "dom t" "rewrite t = Some t'"
  shows "inside \<rho> t \<longleftrightarrow> (\<exists>u\<in>set (region_tops t'). inside \<rho> u)"
  using same_meaning[OF assms, of \<rho>] inside_region_tops by blast

end

section \<open>\<open>db_left_hvy_node\<close>\<close>

fun is_union :: "'m tree \<Rightarrow> bool" where
  "is_union (Binary OP_UNION l r) = True"
| "is_union _ = False"

lemma is_union_iff: "is_union t \<longleftrightarrow> (\<exists>l r. t = Binary OP_UNION l r)"
  by (induction t rule: is_union.induct) auto

function (sequential) db_left_hvy_node :: "'m tree \<Rightarrow> 'm tree" where
  "db_left_hvy_node (Binary OP_UNION lhs (Binary OP_UNION rl rr)) =
     db_left_hvy_node (Binary OP_UNION (Binary OP_UNION lhs rl) rr)"
| "db_left_hvy_node t = t"
  by pat_completeness auto
termination
  by (relation "measure (\<lambda>t. case t of Binary b l r \<Rightarrow> size r | _ \<Rightarrow> 0)") auto

definition right_not_union :: "'m tree \<Rightarrow> bool" where
  "right_not_union t = (case t of Binary b l r \<Rightarrow> b = OP_UNION \<longrightarrow> \<not> is_union r | _ \<Rightarrow> True)"

lemma inside_left_hvy [simp]: "inside \<rho> (db_left_hvy_node t) = inside \<rho> t"
  by (induction t rule: db_left_hvy_node.induct) auto

lemma leaves_left_hvy [simp]: "leaves (db_left_hvy_node t) = leaves t"
  by (induction t rule: db_left_hvy_node.induct) auto

lemma right_not_union_left_hvy [simp]: "right_not_union (db_left_hvy_node t)"
  by (induction t rule: db_left_hvy_node.induct) (auto simp: right_not_union_def)

lemma is_union_left_hvy [simp]: "is_union (db_left_hvy_node t) = is_union t"
  by (induction t rule: db_left_hvy_node.induct) auto

lemma left_hvy_not_union [simp]: "\<not> is_union t \<Longrightarrow> db_left_hvy_node t = t"
  by (induction t rule: db_left_hvy_node.induct) auto

section \<open>\<open>db_non_union_push\<close>\<close>

text \<open>The weight that makes each distribution step decrease.\<close>

fun weight :: "'m tree \<Rightarrow> nat" where
  "weight OP_NOP = 2"
| "weight (Leaf l) = 2"
| "weight (Unary u t) = Suc (weight t)"
| "weight (Binary OP_UNION l r) = weight l + weight r + 1"
| "weight (Binary OP_XOR l r) = weight l + weight r + 1"
| "weight (Binary OP_INTERSECT l r) = weight l * weight r"
| "weight (Binary OP_SUBTRACT l r) = weight l * 2 ^ weight r"

lemma weight_ge2: "2 \<le> weight t"
proof (induction t rule: weight.induct)
  case (6 l r)
  then show ?case using mult_le_mono[of 2 "weight l" 2 "weight r"] by simp
next
  case (7 l r)
  then show ?case using mult_le_mono[of 2 "weight l" 1 "2 ^ weight r"] by simp
qed auto

lemma weight_left_hvy [simp]: "weight (db_left_hvy_node t) = weight t"
  by (induction t rule: db_left_hvy_node.induct) auto

text \<open>
  The nodes of a binary operator are pushed first; what is then done with the
  node itself depends on the pushed children.  The step either ends
  (\<open>Done\<close>), starts over on a tree with one \<open>OP_NOP\<close> less (\<open>Again\<close>), or has
  moved a union towards the root so that the two children must be pushed again
  (\<open>Repush\<close>); \<open>None\<close> is the \<open>bu_bomb\<close> of \<open>db_tree_del_rhs\<close> on a node whose
  right side is no leaf.
\<close>

datatype 'm push_step = Done "'m tree" | Again "'m tree" | Repush binop "'m tree" "'m tree"

definition push_node :: "binop \<Rightarrow> 'm tree \<Rightarrow> 'm tree \<Rightarrow> 'm push_step option" where
  "push_node op l r =
     (if (op = OP_INTERSECT \<or> op = OP_SUBTRACT) \<and> is_union l then
        (case l of
           Binary u A B \<Rightarrow>
             if A = OP_NOP \<and> B = OP_NOP then Some (Done OP_NOP)
             else if A = OP_NOP then
               map_option (\<lambda>l'. Again (Binary op l' r)) (db_tree_del_lhs l)
             else if B = OP_NOP then
               map_option (\<lambda>l'. Again (Binary op l' r)) (db_tree_del_rhs l)
             else Some (Repush OP_UNION (Binary op A (db_dup_subtree r)) (Binary op B r))
         | _ \<Rightarrow> None)
      else if op = OP_INTERSECT \<and> is_union r then
        (case r of
           Binary u A B \<Rightarrow>
             if A = OP_NOP \<and> B = OP_NOP then Some (Done OP_NOP)
             else if A = OP_NOP then
               map_option (\<lambda>r'. Again (Binary op l r')) (db_tree_del_lhs r)
             else if B = OP_NOP then
               map_option (\<lambda>r'. Again (Binary op l r')) (db_tree_del_rhs r)
             else Some (Repush OP_UNION (Binary OP_INTERSECT l A)
                                        (Binary OP_INTERSECT (db_dup_subtree l) B))
         | _ \<Rightarrow> None)
      else if op = OP_SUBTRACT \<and> is_union r then
        (case r of
           Binary u A B \<Rightarrow>
             if l = OP_NOP then Some (Done OP_NOP)
             else if A = OP_NOP \<and> B = OP_NOP then
               map_option Again (db_tree_del_rhs (Binary op l r))
             else if A = OP_NOP then
               map_option (\<lambda>r'. Again (Binary op l r')) (db_tree_del_lhs r)
             else if B = OP_NOP then
               map_option (\<lambda>r'. Again (Binary op l r')) (db_tree_del_rhs r)
             else Some (Repush OP_SUBTRACT (Binary OP_SUBTRACT l A) B)
         | _ \<Rightarrow> None)
      else Some (Done (Binary op l r)))"

lemma push_node_inside:
  assumes "push_node op l r = Some st"
  shows "inside \<rho> (case st of Done t \<Rightarrow> t | Again t \<Rightarrow> t | Repush op' a b \<Rightarrow> Binary op' a b)
       = inside \<rho> (Binary op l r)"
  using assms
  by (auto simp: push_node_def is_union_iff split: if_splits)

lemma distrib_weight:
  fixes a b c :: nat
  assumes "2 \<le> c"
  shows "a * c + b * c + 1 < (a + b + 1) * c" "c * a + c * b + 1 < c * (a + b + 1)"
  using assms by (simp_all add: algebra_simps)

lemma two_le_power: "2 \<le> n \<Longrightarrow> 2 \<le> (2::nat) ^ n"
  by (cases n) auto

lemma push_node_weight:
  assumes "push_node op l r = Some st"
  shows "case st of
           Done t \<Rightarrow> weight t \<le> weight (Binary op l r)
         | Again t \<Rightarrow> weight t < weight (Binary op l r)
         | Repush op' a b \<Rightarrow> weight (Binary op' a b) < weight (Binary op l r)"
proof -
  consider (left) A B where "op = OP_INTERSECT \<or> op = OP_SUBTRACT" "l = Binary OP_UNION A B"
    | (int) A B where "op = OP_INTERSECT" "\<not> is_union l" "r = Binary OP_UNION A B"
    | (sub) A B where "op = OP_SUBTRACT" "\<not> is_union l" "r = Binary OP_UNION A B"
    | (other) "st = Done (Binary op l r)"
    using assms by (auto simp: push_node_def is_union_iff split: if_splits)
  then show ?thesis
  proof cases
    case left
    define c where "c = (if op = OP_INTERSECT then weight r else 2 ^ weight r)"
    have c: "2 \<le> c" using weight_ge2[of r] by (simp add: c_def two_le_power)
    have w: "weight (Binary op t r) = weight t * c" for t using left(1) by (auto simp: c_def)
    consider "st = Done OP_NOP" | "st = Again (Binary op B r)" | "st = Again (Binary op A r)"
      | "st = Repush OP_UNION (Binary op A r) (Binary op B r)"
      using assms left by (auto simp: push_node_def split: if_splits)
    moreover have "0 < c" "2 \<le> (weight A + weight B + 1) * c"
      using c weight_ge2[of A] mult_le_mono[of 2 "weight A + weight B + 1" 1 c] by auto
    ultimately show ?thesis
      using distrib_weight(1)[OF c, of "weight A" "weight B"]
      by cases (simp_all add: w left(2))
  next
    case int
    have c: "2 \<le> weight l" by (rule weight_ge2)
    then show ?thesis
      using assms int distrib_weight(2)[OF c, of "weight A" "weight B"]
        mult_le_mono[of 1 "weight l" 2 "weight A + weight B + 1"] weight_ge2[of A]
      by (auto simp: push_node_def split: if_splits)
  next
    case sub
    have c: "0 < weight l" using weight_ge2[of l] by simp
    then show ?thesis
      using assms sub by (auto simp: push_node_def power_add split: if_splits)
  qed simp
qed

lemma weight_children:
  "weight l < weight (Binary op l r)" "weight r < weight (Binary op l r)"
proof -
  have l: "2 \<le> weight l" and r: "2 \<le> weight r" by (rule weight_ge2)+
  have p: "2 \<le> (2::nat) ^ weight r" using r by (rule two_le_power)
  have q: "weight r < 2 ^ weight r" by (rule less_exp)
  show "weight l < weight (Binary op l r)"
    using l r p by (cases op) auto
  have "(1::nat) * 2 ^ weight r \<le> weight l * 2 ^ weight r"
    using l by (intro mult_le_mono1) simp
  with q have "weight r < weight l * 2 ^ weight r" unfolding mult_1 by (rule less_le_trans)
  then show "weight r < weight (Binary op l r)"
    using l r by (cases op) auto
qed

function (sequential) db_non_union_push :: "'m tree \<Rightarrow> 'm tree option" where
  "db_non_union_push OP_NOP = Some OP_NOP"
| "db_non_union_push (Leaf (OP_NMG_TESS n r)) = None"
| "db_non_union_push (Leaf l) = Some (Leaf l)"
| "db_non_union_push (Unary u t) = None"
| "db_non_union_push (Binary op l r) =
     do { l' \<leftarrow> db_non_union_push l;
          r' \<leftarrow> db_non_union_push r;
          st \<leftarrow> push_node op l' r';
          (case st of
             Done t \<Rightarrow> Some (db_left_hvy_node t)
           | Again t \<Rightarrow> map_option db_left_hvy_node (db_non_union_push t)
           | Repush op' a b \<Rightarrow>
               do { a' \<leftarrow> db_non_union_push a;
                    b' \<leftarrow> db_non_union_push b;
                    Some (db_left_hvy_node (Binary op' a' b')) }) }"
  by pat_completeness auto

lemma weight_mono:
  assumes "weight l' \<le> weight l" "weight r' \<le> weight r"
  shows "weight (Binary op l' r') \<le> weight (Binary op l r)"
  using assms by (cases op) (auto intro: mult_le_mono add_mono power_increasing)

lemma db_non_union_push_weight:
  "db_non_union_push_dom t \<Longrightarrow> db_non_union_push t = Some t' \<Longrightarrow> weight t' \<le> weight t"
proof (induction t arbitrary: t' rule: db_non_union_push.pinduct)
  case (5 op l r)
  from "5.prems" obtain l' r' st where
    lr: "db_non_union_push l = Some l'" "db_non_union_push r = Some r'"
    and st: "push_node op l' r' = Some st"
    by (auto simp: db_non_union_push.psimps(7)[OF "5.hyps"] elim!: option_elims)
  have w: "weight (Binary op l' r') \<le> weight (Binary op l r)"
    using "5.IH"(1,2) lr by (intro weight_mono) auto
  note n = push_node_weight[OF st]
  show ?case
  proof (cases st)
    case (Done t)
    then show ?thesis using "5.prems" lr st n w
      by (auto simp: db_non_union_push.psimps(7)[OF "5.hyps"])
  next
    case (Again t)
    obtain u where "db_non_union_push t = Some u" "t' = db_left_hvy_node u"
      using "5.prems" lr st Again
      by (auto simp: db_non_union_push.psimps(7)[OF "5.hyps"])
    then show ?thesis using "5.IH"(3)[OF lr st Again] n w Again by fastforce
  next
    case (Repush op' a b)
    obtain a' b' where ab: "db_non_union_push a = Some a'" "db_non_union_push b = Some b'"
      "t' = db_left_hvy_node (Binary op' a' b')"
      using "5.prems" lr st Repush
      by (auto simp: db_non_union_push.psimps(7)[OF "5.hyps"] elim!: option_elims)
    have "weight (Binary op' a' b') \<le> weight (Binary op' a b)"
      using "5.IH"(4)[OF lr st Repush ab(1)] "5.IH"(5)[OF lr st Repush ab(1,2)]
      by (intro weight_mono) auto
    then show ?thesis using ab(3) n w Repush by simp
  qed
qed (auto simp: db_non_union_push.psimps)


termination db_non_union_push
proof (relation "measure weight", goal_cases)
  case 1 show ?case by simp
next
  case (2 op l r)
  show ?case by (simp add: weight_children del: weight.simps)
next
  case (3 op l r l')
  show ?case by (simp add: weight_children del: weight.simps)
next
  case (4 op l r l' r' st t)
  then show ?case
    using push_node_weight[of op l' r' st] db_non_union_push_weight[of l l']
      db_non_union_push_weight[of r r'] weight_mono[of l' l r' r op] by simp
next
  case (5 op l r l' r' st op' a b)
  then show ?case
    using push_node_weight[of op l' r' st] db_non_union_push_weight[of l l']
      db_non_union_push_weight[of r r'] weight_mono[of l' l r' r op]
      weight_children(1)[of a op' b] by simp
next
  case (6 op l r l' r' st op' a b a')
  then show ?case
    using push_node_weight[of op l' r' st] db_non_union_push_weight[of l l']
      db_non_union_push_weight[of r r'] weight_mono[of l' l r' r op]
      weight_children(2)[of b op' a] by simp
qed

lemma push_binaryE:
  assumes "db_non_union_push (Binary op l r) = Some t'"
  obtains l' r' st where "db_non_union_push l = Some l'" "db_non_union_push r = Some r'"
    "push_node op l' r' = Some st"
    "case st of
       Done t \<Rightarrow> t' = db_left_hvy_node t
     | Again t \<Rightarrow> \<exists>u. db_non_union_push t = Some u \<and> t' = db_left_hvy_node u
     | Repush op' a b \<Rightarrow> \<exists>a' b'. db_non_union_push a = Some a' \<and> db_non_union_push b = Some b'
         \<and> t' = db_left_hvy_node (Binary op' a' b')"
  using assms by (auto elim!: option_elims split: push_step.splits)

lemma db_non_union_push_inside:
  "db_non_union_push t = Some t' \<Longrightarrow> inside \<rho> t' = inside \<rho> t"
proof (induction t arbitrary: t' rule: db_non_union_push.induct)
  case (5 op l r)
  obtain l' r' st where lr: "db_non_union_push l = Some l'" "db_non_union_push r = Some r'"
    and st: "push_node op l' r' = Some st"
    and t': "case st of
       Done t \<Rightarrow> t' = db_left_hvy_node t
     | Again t \<Rightarrow> \<exists>u. db_non_union_push t = Some u \<and> t' = db_left_hvy_node u
     | Repush op' a b \<Rightarrow> \<exists>a' b'. db_non_union_push a = Some a' \<and> db_non_union_push b = Some b'
         \<and> t' = db_left_hvy_node (Binary op' a' b')"
    using "5.prems" by (rule push_binaryE)
  note IH = "5.IH"(1)[OF lr(1)] "5.IH"(2)[OF lr]
  note step = push_node_inside[OF st, of \<rho>]
  show ?case
  proof (cases st)
    case (Done t) then show ?thesis using t' step IH by simp
  next
    case (Again t)
    then show ?thesis using t' step IH "5.IH"(3)[OF lr st Again] by auto
  next
    case (Repush op' a b)
    then obtain a' b' where ab: "db_non_union_push a = Some a'" "db_non_union_push b = Some b'"
      "t' = db_left_hvy_node (Binary op' a' b')" using t' by auto
    then show ?thesis
      using step IH "5.IH"(4)[OF lr st Repush ab(1)] "5.IH"(5)[OF lr st Repush ab(1,2)] Repush
      by simp
  qed
qed auto


text \<open>Trees over solids, regions and database leaves: no \<open>OP_NOP\<close>, no unary
  operator, no \<open>OP_NMG_TESS\<close>.\<close>

fun csg_tree :: "'m tree \<Rightarrow> bool" where
  "csg_tree OP_NOP = False"
| "csg_tree (Leaf (OP_NMG_TESS n r)) = False"
| "csg_tree (Leaf l) = True"
| "csg_tree (Unary u t) = False"
| "csg_tree (Binary b l r) = (csg_tree l \<and> csg_tree r)"

lemma csg_tree_left_hvy [simp]: "csg_tree (db_left_hvy_node t) = csg_tree t"
  by (induction t rule: db_left_hvy_node.induct) auto

lemma push_node_csg:
  assumes "csg_tree l" "csg_tree r"
  shows "\<exists>st. push_node op l r = Some st \<and>
    (case st of Done t \<Rightarrow> csg_tree t | Again t \<Rightarrow> csg_tree t | Repush op' a b \<Rightarrow> csg_tree a \<and> csg_tree b)"
  using assms by (auto simp: push_node_def is_union_iff)

lemma db_non_union_push_csg:
  "csg_tree t \<Longrightarrow> \<exists>t'. db_non_union_push t = Some t' \<and> csg_tree t'"
proof (induction t rule: db_non_union_push.induct)
  case (5 op l r)
  obtain l' r' where lr: "db_non_union_push l = Some l'" "db_non_union_push r = Some r'"
    and c: "csg_tree l'" "csg_tree r'"
    using "5.IH"(1,2) "5.prems" by auto
  obtain st where st: "push_node op l' r' = Some st"
    and cst: "case st of Done t \<Rightarrow> csg_tree t | Again t \<Rightarrow> csg_tree t
      | Repush op' a b \<Rightarrow> csg_tree a \<and> csg_tree b"
    using push_node_csg[OF c] by blast
  show ?case
  proof (cases st)
    case (Again t)
    then show ?thesis using "5.IH"(3)[OF lr st Again] lr st cst by auto
  next
    case (Repush op' a b)
    then obtain a' where a': "db_non_union_push a = Some a'" "csg_tree a'"
      using "5.IH"(4)[OF lr st Repush] cst by auto
    then show ?thesis using "5.IH"(5)[OF lr st Repush a'(1)] lr st cst Repush by auto
  qed (use lr st cst in auto)
qed auto

text \<open>The normal form: no union directly below an intersection or a subtraction.\<close>

fun unions_on_top :: "'m tree \<Rightarrow> bool" where
  "unions_on_top (Binary b l r) =
     (unions_on_top l \<and> unions_on_top r \<and>
      (b = OP_INTERSECT \<or> b = OP_SUBTRACT \<longrightarrow> \<not> is_union l \<and> \<not> is_union r))"
| "unions_on_top _ = True"

lemma unions_on_top_left_hvy [simp]: "unions_on_top (db_left_hvy_node t) = unions_on_top t"
  by (induction t rule: db_left_hvy_node.induct) auto

text \<open>Trees whose root the routine does not turn into a union.\<close>

definition keeps_root :: "'m tree \<Rightarrow> bool" where
  "keeps_root t \<longleftrightarrow> \<not> is_union t \<and>
     (unions_on_top t \<or>
      (\<exists>c a. t = Binary OP_SUBTRACT c a \<and> unions_on_top c \<and> \<not> is_union c))"

lemma keeps_rootI: "unions_on_top t \<Longrightarrow> \<not> is_union t \<Longrightarrow> keeps_root t"
  by (simp add: keeps_root_def)

lemma keeps_root_subtract:
  "unions_on_top c \<Longrightarrow> \<not> is_union c \<Longrightarrow> keeps_root (Binary OP_SUBTRACT c a)"
  by (simp add: keeps_root_def)

lemma push_node_cases:
  assumes "push_node op l r = Some st"
  obtains (nothing) "st = Done OP_NOP"
    | (stay) "st = Done (Binary op l r)" "\<not> (op \<in> {OP_INTERSECT, OP_SUBTRACT} \<and> (is_union l \<or> is_union r))"
    | (again) l' r' where "st = Again (Binary op l' r')" "op \<in> {OP_INTERSECT, OP_SUBTRACT}"
        "is_union l \<or> op = OP_INTERSECT \<and> is_union r \<or> op = OP_SUBTRACT \<and> l' = l"
    | (union) a b where "st = Repush OP_UNION a b" "op \<in> {OP_INTERSECT, OP_SUBTRACT}"
        "is_union l \<or> op = OP_INTERSECT \<and> is_union r"
    | (split) A B where "st = Repush OP_SUBTRACT (Binary OP_SUBTRACT l A) B" "op = OP_SUBTRACT"
        "\<not> is_union l" "r = Binary OP_UNION A B"
  using assms by (auto simp: push_node_def is_union_iff split: if_splits)

lemma db_non_union_push_nf_aux:
  "db_non_union_push t = Some t' \<Longrightarrow>
     unions_on_top t' \<and> right_not_union t' \<and> (keeps_root t \<longrightarrow> \<not> is_union t')"
proof (induction t arbitrary: t' rule: db_non_union_push.induct)
  case (5 op l r)
  obtain l' r' st where lr: "db_non_union_push l = Some l'" "db_non_union_push r = Some r'"
    and st: "push_node op l' r' = Some st"
    and t': "case st of
       Done t \<Rightarrow> t' = db_left_hvy_node t
     | Again t \<Rightarrow> \<exists>u. db_non_union_push t = Some u \<and> t' = db_left_hvy_node u
     | Repush op' a b \<Rightarrow> \<exists>a' b'. db_non_union_push a = Some a' \<and> db_non_union_push b = Some b'
         \<and> t' = db_left_hvy_node (Binary op' a' b')"
    using "5.prems" by (rule push_binaryE)
  note L = "5.IH"(1)[OF lr(1)] and R = "5.IH"(2)[OF lr]
  have kl: "\<not> is_union l'" if "keeps_root (Binary op l r)" "op \<noteq> OP_XOR"
    using L that by (cases op) (auto simp: keeps_root_def)
  have kr: "\<not> is_union r'" if "keeps_root (Binary op l r)" "op = OP_INTERSECT"
    using R that by (auto simp: keeps_root_def)
  show ?case using st
  proof (cases rule: push_node_cases)
    case nothing then show ?thesis using t' by (simp add: right_not_union_def)
  next
    case stay
    then have "\<not> is_union (Binary op l r) \<Longrightarrow> \<not> is_union (Binary op l' r')" by (cases op) auto
    then show ?thesis using stay t' L R by (auto simp: keeps_root_def)
  next
    case (again x y)
    then obtain u where u: "db_non_union_push (Binary op x y) = Some u" "t' = db_left_hvy_node u"
      using t' by auto
    note U = "5.IH"(3)[OF lr st again(1) u(1)]
    have "keeps_root (Binary op x y)" if k: "keeps_root (Binary op l r)"
      using again(2,3) kl[OF k] kr[OF k] L k
      by (auto simp: keeps_root_def)
    then show ?thesis using U u(2) by auto
  next
    case (union a b)
    then obtain a' b' where ab: "db_non_union_push a = Some a'" "db_non_union_push b = Some b'"
      "t' = db_left_hvy_node (Binary OP_UNION a' b')" using t' by auto
    have "unions_on_top a'" "unions_on_top b'"
      using "5.IH"(4)[OF lr st union(1) ab(1)] "5.IH"(5)[OF lr st union(1) ab(1,2)] by auto
    moreover have "\<not> keeps_root (Binary op l r)"
      using union(2,3) kl kr by auto
    ultimately show ?thesis using ab(3) by simp
  next
    case (split A B)
    then obtain a' b' where ab: "db_non_union_push (Binary OP_SUBTRACT l' A) = Some a'"
      "db_non_union_push B = Some b'" "t' = db_left_hvy_node (Binary OP_SUBTRACT a' b')"
      using t' by auto
    have "\<not> is_union a'" "unions_on_top a'"
      using "5.IH"(4)[OF lr st split(1) ab(1)] keeps_root_subtract[of l' A] L split by auto
    moreover have "\<not> is_union b'" "unions_on_top b'"
      using "5.IH"(5)[OF lr st split(1) ab(1,2)] keeps_rootI[of B] R split
      by (auto simp: right_not_union_def)
    ultimately show ?thesis using ab(3) by (simp add: right_not_union_def)
  qed
qed (auto simp: right_not_union_def)


interpretation non_union_push:
  tree_rewrite db_non_union_push csg_tree "\<lambda>t. unions_on_top t \<and> right_not_union t"
proof unfold_locales
  fix t t' :: "'a tree" and \<rho>
  show "csg_tree t \<Longrightarrow> \<exists>t'. db_non_union_push t = Some t'"
    using db_non_union_push_csg by blast
  show "csg_tree t \<Longrightarrow> db_non_union_push t = Some t' \<Longrightarrow> csg_tree t'"
    using db_non_union_push_csg by fastforce
  show "db_non_union_push t = Some t' \<Longrightarrow> unions_on_top t' \<and> right_not_union t'"
    using db_non_union_push_nf_aux by blast
  show "db_non_union_push t = Some t' \<Longrightarrow> inside \<rho> t' = inside \<rho> t"
    by (rule db_non_union_push_inside)
qed

text \<open>Without an exclusive or the normal form has its unions above all other operators.\<close>

fun xor_free :: "'m tree \<Rightarrow> bool" where
  "xor_free (Unary u t) = xor_free t"
| "xor_free (Binary b l r) = (b \<noteq> OP_XOR \<and> xor_free l \<and> xor_free r)"
| "xor_free t = True"

fun union_free :: "'m tree \<Rightarrow> bool" where
  "union_free (Unary u t) = union_free t"
| "union_free (Binary b l r) = (b \<noteq> OP_UNION \<and> union_free l \<and> union_free r)"
| "union_free t = True"

lemma xor_free_left_hvy [simp]: "xor_free (db_left_hvy_node t) = xor_free t"
  by (induction t rule: db_left_hvy_node.induct) auto

lemma push_node_xor_free:
  assumes "op \<noteq> OP_XOR" "xor_free l" "xor_free r" "push_node op l r = Some st"
  shows "case st of Done t \<Rightarrow> xor_free t | Again t \<Rightarrow> xor_free t
    | Repush op' a b \<Rightarrow> op' \<noteq> OP_XOR \<and> xor_free a \<and> xor_free b"
  using assms by (auto simp: push_node_def is_union_iff split: if_splits tree.splits elim!: option_elims)

lemma db_non_union_push_xor_free:
  "db_non_union_push t = Some t' \<Longrightarrow> xor_free t \<Longrightarrow> xor_free t'"
proof (induction t arbitrary: t' rule: db_non_union_push.induct)
  case (5 op l r)
  from "5.prems"(1) obtain l' r' st where
    lr: "db_non_union_push l = Some l'" "db_non_union_push r = Some r'" and st: "push_node op l' r' = Some st"
    and t': "case st of
       Done t \<Rightarrow> t' = db_left_hvy_node t
     | Again t \<Rightarrow> \<exists>u. db_non_union_push t = Some u \<and> t' = db_left_hvy_node u
     | Repush op' a b \<Rightarrow> \<exists>a' b'. db_non_union_push a = Some a' \<and> db_non_union_push b = Some b'
         \<and> t' = db_left_hvy_node (Binary op' a' b')" by (rule push_binaryE)
  have "op \<noteq> OP_XOR" "xor_free l'" "xor_free r'" using "5.IH"(1,2) "5.prems"(2) lr by auto
  note x = push_node_xor_free[OF this st]
  show ?case
  proof (cases st)
    case (Again t)
    then show ?thesis using t' x "5.IH"(3)[OF lr st Again] by auto
  next
    case (Repush op' a b)
    then obtain a' b' where ab: "db_non_union_push a = Some a'" "db_non_union_push b = Some b'"
      "t' = db_left_hvy_node (Binary op' a' b')" using t' by auto
    then show ?thesis using x "5.IH"(4)[OF lr st Repush ab(1)] "5.IH"(5)[OF lr st Repush ab(1,2)] Repush by auto
  qed (use t' x in auto)
qed auto

lemma union_free_below: "csg_tree t \<Longrightarrow> unions_on_top t \<Longrightarrow> xor_free t \<Longrightarrow> \<not> is_union t \<Longrightarrow> union_free t"
proof (induction t)
  case (Binary b l r)
  then show ?case by (cases b) auto
qed auto

lemma unions_only_on_top:
  "csg_tree t \<Longrightarrow> unions_on_top t \<Longrightarrow> xor_free t \<Longrightarrow> u \<in> set (region_tops t) \<Longrightarrow> union_free u"
proof (induction t rule: region_tops.induct [case_names nop union leaf unary intersect subtract xor])
  case (intersect l r)
  then show ?case using union_free_below[of "Binary OP_INTERSECT l r"] by simp
next
  case (subtract l r)
  then show ?case using union_free_below[of "Binary OP_SUBTRACT l r"] by simp
qed auto

section \<open>\<open>rt_tree_elim_nops\<close>\<close>

text \<open>The result code (0: keep the node, -1: the caller removes it) and the tree
  then at the node.  \<open>goto top\<close> runs the routine again on the side that was
  copied into the node.  Leaves other than solids are unknown operators here.\<close>

function (sequential) rt_tree_elim_nops :: "'m tree \<Rightarrow> int \<times> 'm tree" where
  "rt_tree_elim_nops (Leaf (OP_SOLID s)) = (0, Leaf (OP_SOLID s))"
| "rt_tree_elim_nops (Leaf l) = (-1, Leaf l)"
| "rt_tree_elim_nops (Binary OP_INTERSECT l r) =
     (let (rl, l') = rt_tree_elim_nops l in
      if rl < 0 then (-1, OP_NOP)
      else let (rr, r') = rt_tree_elim_nops r in
           if rr < 0 then (-1, OP_NOP) else (0, Binary OP_INTERSECT l' r'))"
| "rt_tree_elim_nops (Binary OP_SUBTRACT l r) =
     (let (rl, l') = rt_tree_elim_nops l in
      if rl < 0 then (-1, OP_NOP)
      else let (rr, r') = rt_tree_elim_nops r in
           if rr < 0 then rt_tree_elim_nops l' else (0, Binary OP_SUBTRACT l' r'))"
| "rt_tree_elim_nops (Binary op l r) =
     (let (rl, l') = rt_tree_elim_nops l in
      if rl < 0 then rt_tree_elim_nops r
      else let (rr, r') = rt_tree_elim_nops r in
           if rr < 0 then rt_tree_elim_nops l' else (0, Binary op l' r'))"
| "rt_tree_elim_nops (Unary u t) =
     (let (rl, t') = rt_tree_elim_nops t in
      if rl < 0 then (-1, OP_NOP) else (0, Unary u t'))"
| "rt_tree_elim_nops OP_NOP = (-1, OP_NOP)"
  by pat_completeness auto

lemma rt_tree_elim_nops_size:
  "rt_tree_elim_nops_dom t \<Longrightarrow> size (snd (rt_tree_elim_nops t)) \<le> size t"
proof (induction rule: rt_tree_elim_nops.pinduct)
qed (fastforce simp: rt_tree_elim_nops.psimps Let_def split: prod.splits)+

lemma rt_tree_elim_nops_smaller:
  "(rc, t') = rt_tree_elim_nops t \<Longrightarrow> rt_tree_elim_nops_dom t \<Longrightarrow> size t' < Suc (size t + k)"
  using rt_tree_elim_nops_size[of t] by (cases "rt_tree_elim_nops t") auto

termination rt_tree_elim_nops
  by (relation "measure size") (auto intro: rt_tree_elim_nops_smaller)


text \<open>Trees as the prep step sees them: solids, \<open>OP_NOP\<close> where a solid was dead,
  and no complement.\<close>

fun solid_tree :: "'m tree \<Rightarrow> bool" where
  "solid_tree OP_NOP = True"
| "solid_tree (Leaf (OP_SOLID s)) = True"
| "solid_tree (Leaf l) = False"
| "solid_tree (Unary u t) = (u = OP_XNOP \<and> solid_tree t)"
| "solid_tree (Binary b l r) = (solid_tree l \<and> solid_tree r)"

fun nop_free :: "'m tree \<Rightarrow> bool" where
  "nop_free OP_NOP = False"
| "nop_free (Leaf l) = True"
| "nop_free (Unary u t) = nop_free t"
| "nop_free (Binary b l r) = (nop_free l \<and> nop_free r)"

definition elim_result :: "'m tree \<Rightarrow> int \<times> 'm tree \<Rightarrow> bool" where
  "elim_result t res \<longleftrightarrow>
     (fst res = 0 \<and> solid_tree (snd res) \<and> nop_free (snd res)
        \<and> (\<forall>\<rho>. inside \<rho> (snd res) = inside \<rho> t))
     \<or> (fst res = -1 \<and> (\<forall>\<rho>. \<not> inside \<rho> t))"

lemma rt_tree_elim_nops_result: "solid_tree t \<Longrightarrow> elim_result t (rt_tree_elim_nops t)"
proof (induction t rule: rt_tree_elim_nops.induct
    [case_names solid region nmg db_leaf intersect subtract union xor unary nop])
  case (intersect l r)
  then show ?case by (auto simp: elim_result_def Let_def split: prod.splits)
next
  case (subtract l r)
  obtain rl l' rr r' where [simp]: "rt_tree_elim_nops l = (rl, l')" "rt_tree_elim_nops r = (rr, r')"
    by fastforce
  show ?case
    using subtract by (cases "rl < 0"; cases "rr < 0") (auto simp: elim_result_def)
next
  case (union l r)
  obtain rl l' rr r' where [simp]: "rt_tree_elim_nops l = (rl, l')" "rt_tree_elim_nops r = (rr, r')"
    by fastforce
  show ?case
    using union by (cases "rl < 0"; cases "rr < 0") (auto simp: elim_result_def)
next
  case (xor l r)
  obtain rl l' rr r' where [simp]: "rt_tree_elim_nops l = (rl, l')" "rt_tree_elim_nops r = (rr, r')"
    by fastforce
  show ?case
    using xor by (cases "rl < 0"; cases "rr < 0") (auto simp: elim_result_def)
next
  case (unary u t)
  obtain rl t' where [simp]: "rt_tree_elim_nops t = (rl, t')" by fastforce
  show ?case using unary by (cases "rl < 0") (auto simp: elim_result_def)
qed (auto simp: elim_result_def)

section \<open>\<open>rt_optim_tree\<close>\<close>

text \<open>The inner loop at a subtraction: \<open>X - A - B\<close> becomes \<open>X - (A \<union> B)\<close>.\<close>

function (sequential) optim_subtract :: "'m tree \<Rightarrow> 'm tree" where
  "optim_subtract (Binary OP_SUBTRACT (Binary OP_SUBTRACT x a) b) =
     optim_subtract (Binary OP_SUBTRACT x (Binary OP_UNION a b))"
| "optim_subtract t = t"
  by pat_completeness auto
termination
  by (relation "measure (\<lambda>t. case t of Binary b l r \<Rightarrow> size l | _ \<Rightarrow> 0)") auto

text \<open>The outer loop pops the address of a node, rewrites it, and pushes the
  right child and then the left child; it ends when the stack is down to the
  \<open>TREE_NULL\<close> that was pushed first.  Node addresses are paths from the root;
  the stack is grown when it is full, so it has no bound here.\<close>

fun put_at :: "'m tree \<Rightarrow> path \<Rightarrow> 'm tree \<Rightarrow> 'm tree" where
  "put_at t [] u = u"
| "put_at (Binary b l r) (Lhs # p) u = Binary b (put_at l p u) r"
| "put_at (Binary b l r) (Rhs # p) u = Binary b l (put_at r p u)"
| "put_at t p u = t"

fun rt_optim_loop :: "nat \<Rightarrow> path list \<Rightarrow> 'm tree \<Rightarrow> 'm tree option" where
  "rt_optim_loop fuel [] root = Some root"
| "rt_optim_loop 0 (p # stack) root = None"
| "rt_optim_loop (Suc fuel) (p # stack) root =
     (case subtree_at root p of
        None \<Rightarrow> None
      | Some (Binary OP_SUBTRACT l r) \<Rightarrow>
          rt_optim_loop fuel ((p @ [Lhs]) # (p @ [Rhs]) # stack)
            (put_at root p (optim_subtract (Binary OP_SUBTRACT l r)))
      | Some (Binary b l r) \<Rightarrow>
          rt_optim_loop fuel ((p @ [Lhs]) # (p @ [Rhs]) # stack) root
      | Some t \<Rightarrow> rt_optim_loop fuel stack root)"

fun node_count :: "'m tree \<Rightarrow> nat" where
  "node_count (Binary b l r) = Suc (node_count l + node_count r)"
| "node_count t = 1"

definition rt_optim_tree :: "'m tree \<Rightarrow> 'm tree option" where
  "rt_optim_tree tp = rt_optim_loop (node_count tp) [[]] tp"

text \<open>The same by recursion on the tree.\<close>

lemma node_count_optim_subtract [simp]: "node_count (optim_subtract t) = node_count t"
  by (induction t rule: optim_subtract.induct) auto

lemma optim_subtract_shape:
  "\<exists>l' r'. optim_subtract (Binary OP_SUBTRACT l r) = Binary OP_SUBTRACT l' r'
     \<and> (\<forall>x a. l' \<noteq> Binary OP_SUBTRACT x a)
     \<and> node_count l' + node_count r' = node_count l + node_count r"
proof (induction "Binary OP_SUBTRACT l r" arbitrary: l r rule: optim_subtract.induct)
  case (1 x a b) then show ?case by force
qed auto

lemma inside_optim_subtract [simp]: "inside \<rho> (optim_subtract t) = inside \<rho> t"
  by (induction t rule: optim_subtract.induct) auto

fun left_of :: "'m tree \<Rightarrow> 'm tree" where
  "left_of (Binary b l r) = l" | "left_of t = t"

fun right_of :: "'m tree \<Rightarrow> 'm tree" where
  "right_of (Binary b l r) = r" | "right_of t = t"

lemma optim_subtract_eq:
  "optim_subtract (Binary OP_SUBTRACT l r) = Binary OP_SUBTRACT
     (left_of (optim_subtract (Binary OP_SUBTRACT l r)))
     (right_of (optim_subtract (Binary OP_SUBTRACT l r)))"
  using optim_subtract_shape[of l r] by auto

lemma optim_subtract_children:
  "node_count (left_of (optim_subtract (Binary OP_SUBTRACT l r)))
     + node_count (right_of (optim_subtract (Binary OP_SUBTRACT l r)))
     = node_count l + node_count r"
  using optim_subtract_shape[of l r] by auto

lemma node_count_pos: "0 < node_count t"
  by (cases t) auto

function (sequential) optim_rec :: "'m tree \<Rightarrow> 'm tree" where
  "optim_rec (Binary OP_SUBTRACT l r) =
     (let t = optim_subtract (Binary OP_SUBTRACT l r)
      in Binary OP_SUBTRACT (optim_rec (left_of t)) (optim_rec (right_of t)))"
| "optim_rec (Binary b l r) = Binary b (optim_rec l) (optim_rec r)"
| "optim_rec t = t"
  by pat_completeness auto
termination
proof (relation "measure node_count", goal_cases)
  case (2 l r x)
  then show ?case using optim_subtract_children[of l r]
      node_count_pos[of "right_of (optim_subtract (Binary OP_SUBTRACT l r))"] by simp
next
  case (3 l r x)
  then show ?case using optim_subtract_children[of l r]
      node_count_pos[of "left_of (optim_subtract (Binary OP_SUBTRACT l r))"] by simp
qed auto

lemma subtree_at_append: "subtree_at t (p @ q) = Option.bind (subtree_at t p) (\<lambda>u. subtree_at u q)"
  by (induction t p rule: subtree_at.induct) auto

lemma put_at_put_at:
  "subtree_at t p = Some u \<Longrightarrow> put_at (put_at t p v) (p @ q) w = put_at t p (put_at v q w)"
  by (induction t p arbitrary: u rule: subtree_at.induct) auto

lemma subtree_at_put_at: "subtree_at t p = Some u \<Longrightarrow> subtree_at (put_at t p v) p = Some v"
  by (induction t p arbitrary: u rule: subtree_at.induct) auto

lemma put_at_same: "subtree_at t p = Some u \<Longrightarrow> put_at t p u = t"
  by (induction t p arbitrary: u rule: subtree_at.induct) auto

lemma rt_optim_loop_binary:
  assumes root: "subtree_at root p = Some u"
    and IHl: "\<And>root p n stack. subtree_at root p = Some l \<Longrightarrow>
      rt_optim_loop (node_count l + n) (p # stack) root
        = rt_optim_loop n stack (put_at root p (optim_rec l))"
    and IHr: "\<And>root p n stack. subtree_at root p = Some r \<Longrightarrow>
      rt_optim_loop (node_count r + n) (p # stack) root
        = rt_optim_loop n stack (put_at root p (optim_rec r))"
  shows "rt_optim_loop (node_count l + (node_count r + n)) ((p @ [Lhs]) # (p @ [Rhs]) # stack)
           (put_at root p (Binary b l r))
       = rt_optim_loop n stack (put_at root p (Binary b (optim_rec l) (optim_rec r)))"
proof -
  let ?r1 = "put_at root p (Binary b l r)"
  have l: "subtree_at ?r1 (p @ [Lhs]) = Some l"
    by (simp add: subtree_at_append subtree_at_put_at[OF root])
  let ?r2 = "put_at ?r1 (p @ [Lhs]) (optim_rec l)"
  have r2: "?r2 = put_at root p (Binary b (optim_rec l) r)"
    by (simp add: put_at_put_at[OF root])
  have r: "subtree_at ?r2 (p @ [Rhs]) = Some r"
    by (simp add: r2 subtree_at_append subtree_at_put_at[OF root])
  show ?thesis
    by (simp add: IHl[OF l] IHr[OF r]) (simp add: r2 put_at_put_at[OF root])
qed

lemma rt_optim_loop_rec:
  "subtree_at root p = Some u \<Longrightarrow>
     rt_optim_loop (node_count u + n) (p # stack) root
       = rt_optim_loop n stack (put_at root p (optim_rec u))"
proof (induction u arbitrary: root p n stack
    rule: optim_rec.induct [case_names subtract union intersect xor nop leaf unary])
  case (subtract l r)
  let ?t = "optim_subtract (Binary OP_SUBTRACT l r)"
  have "node_count l + node_count r + n = node_count (left_of ?t) + (node_count (right_of ?t) + n)"
    using optim_subtract_children[of l r] by simp
  moreover note rt_optim_loop_binary[OF subtract.prems subtract.IH(1)[OF refl] subtract.IH(2)[OF refl],
      of n stack OP_SUBTRACT]
  ultimately show ?case
    using subtract.prems optim_subtract_eq[of l r] by (simp add: Let_def add.assoc)
next
  case (union l r)
  from rt_optim_loop_binary[OF union.prems union.IH, of n stack OP_UNION] union.prems
  show ?case by (simp add: put_at_same add.assoc)
next
  case (intersect l r)
  from rt_optim_loop_binary[OF intersect.prems intersect.IH, of n stack OP_INTERSECT] intersect.prems
  show ?case by (simp add: put_at_same add.assoc)
next
  case (xor l r)
  from rt_optim_loop_binary[OF xor.prems xor.IH, of n stack OP_XOR] xor.prems
  show ?case by (simp add: put_at_same add.assoc)
qed (auto simp: put_at_same)

lemma rt_optim_tree_rec: "rt_optim_tree t = Some (optim_rec t)"
  using rt_optim_loop_rec[of t "[]" t 0 "[]"] by (simp add: rt_optim_tree_def)

fun subtract_nf :: "'m tree \<Rightarrow> bool" where
  "subtract_nf (Binary b l r) =
     ((b = OP_SUBTRACT \<longrightarrow> (\<forall>x a. l \<noteq> Binary OP_SUBTRACT x a)) \<and> subtract_nf l \<and> subtract_nf r)"
| "subtract_nf t = True"

lemma optim_rec_root: "optim_rec t = Binary OP_SUBTRACT x a \<Longrightarrow> \<exists>y b. t = Binary OP_SUBTRACT y b"
  by (cases t rule: optim_rec.cases) (auto simp: Let_def)

lemma inside_optim_rec: "inside \<rho> (optim_rec t) = inside \<rho> t"
proof (induction t rule: optim_rec.induct)
  case (1 l r)
  obtain l' r' where s: "optim_subtract (Binary OP_SUBTRACT l r) = Binary OP_SUBTRACT l' r'"
    using optim_subtract_shape[of l r] by blast
  have "inside \<rho> (Binary OP_SUBTRACT l' r') = inside \<rho> (Binary OP_SUBTRACT l r)"
    unfolding s[symmetric] by (rule inside_optim_subtract)
  with 1 s show ?case by simp
qed auto

lemma subtract_nf_optim_rec: "subtract_nf (optim_rec t)"
proof (induction t rule: optim_rec.induct)
  case (1 l r)
  obtain l' r' where s: "optim_subtract (Binary OP_SUBTRACT l r) = Binary OP_SUBTRACT l' r'"
    "\<forall>x a. l' \<noteq> Binary OP_SUBTRACT x a"
    using optim_subtract_shape[of l r] by blast
  have "optim_rec l' \<noteq> Binary OP_SUBTRACT x a" for x a
    using optim_rec_root s(2) by blast
  with 1 s(1) show ?case by simp
qed auto

interpretation optim_tree: tree_rewrite rt_optim_tree "\<lambda>t. True" subtract_nf
  by unfold_locales (auto simp: rt_optim_tree_rec inside_optim_rec subtract_nf_optim_rec)


section \<open>Properties\<close>

text \<open>C15: on a tree of solids, regions and database leaves under binary operators,
  \<open>db_non_union_push\<close> ends without bombing, the tree it leaves contains the same points,
  no union is left directly below an intersection or a subtraction, and the right child
  of the root is no union when the root is one.  If the tree has no exclusive or, all
  unions are then at the top: the regions under them are free of unions.\<close>

theorem non_union_push_correct:
  assumes "csg_tree t"
  shows "\<exists>t'. db_non_union_push t = Some t' \<and> csg_tree t'
     \<and> unions_on_top t' \<and> right_not_union t' \<and> (\<forall>\<rho>. inside \<rho> t' = inside \<rho> t)
     \<and> (xor_free t \<longrightarrow> (\<forall>u\<in>set (region_tops t'). union_free u))"
proof -
  obtain t' where t': "db_non_union_push t = Some t'" "csg_tree t'" "unions_on_top t'" "right_not_union t'"
    "\<forall>\<rho>. inside \<rho> t' = inside \<rho> t"
    using non_union_push.rewrites_to[OF assms] by metis
  moreover have "\<forall>u\<in>set (region_tops t'). union_free u" if "xor_free t"
    using unions_only_on_top[OF t'(2,3) db_non_union_push_xor_free[OF t'(1) that]] by blast
  ultimately show ?thesis by blast
qed

lemma non_union_push_correct_witness:
  "\<exists>t'. db_non_union_push (Binary OP_SUBTRACT (Binary OP_UNION (Leaf (OP_SOLID 1 :: nat leaf))
      (Leaf (OP_SOLID 2))) (Leaf (OP_SOLID 3))) = Some t' \<and> unions_on_top t'"
proof -
  have "csg_tree (Binary OP_SUBTRACT (Binary OP_UNION (Leaf (OP_SOLID 1 :: nat leaf))
      (Leaf (OP_SOLID 2))) (Leaf (OP_SOLID 3)))" by simp
  from non_union_push_correct[OF this] show ?thesis by blast
qed

text \<open>A union below an exclusive or stays where it is, although \<open>rt/tree.h\<close> says that the top of the
  tree is then nothing but unions.\<close>

theorem xor_keeps_union:
  "let t = Binary OP_XOR (Leaf (OP_SOLID a)) (Binary OP_UNION (Leaf (OP_SOLID b)) (Leaf (OP_SOLID c)))
   in db_non_union_push t = Some t \<and> region_tops t = [t] \<and> \<not> union_free t"
  by (simp add: Let_def push_node_def)

text \<open>\<open>db_non_union_push\<close> bombs on \<open>C - (NOP u NOP)\<close>: it asks
  \<open>db_tree_del_rhs\<close> to drop the right side of the subtraction, which is a union and no
  leaf.\<close>

theorem non_union_push_bombs:
  "db_non_union_push (Binary OP_SUBTRACT (Leaf (OP_SOLID s)) (Binary OP_UNION OP_NOP OP_NOP))
     = None"
  by (simp add: push_node_def)

text \<open>The trees that \<open>db_non_union_push\<close> leaves can be counted and tallied region
  by region: the region tops of the result together contain the points of the tree it was
  given.\<close>

theorem non_union_push_regions:
  assumes "csg_tree t" "db_non_union_push t = Some t'"
  shows "inside \<rho> t \<longleftrightarrow> (\<exists>u\<in>set (region_tops t'). inside \<rho> u)"
  by (rule non_union_push.regions_together[OF assms])

lemma non_union_push_regions_witness:
  "\<exists>t'. db_non_union_push (Leaf (OP_SOLID 1 :: nat leaf)) = Some t'
     \<and> (inside (\<lambda>_. True) (Leaf (OP_SOLID 1 :: nat leaf))
         \<longleftrightarrow> (\<exists>u\<in>set (region_tops t'). inside (\<lambda>_. True) u))"
proof -
  have "csg_tree (Leaf (OP_SOLID 1 :: nat leaf))"
    "db_non_union_push (Leaf (OP_SOLID 1 :: nat leaf)) = Some (Leaf (OP_SOLID 1))" by simp_all
  from non_union_push_regions[OF this] this(2) show ?thesis by blast
qed

text \<open>C20: on a tree of solids in which dead solids are \<open>OP_NOP\<close>,
  \<open>rt_tree_elim_nops\<close> ends; if it returns 0 the tree has no \<open>OP_NOP\<close> left and contains
  the same points, and if it returns -1 the tree contained no point.\<close>

theorem elim_nops_correct:
  assumes "solid_tree t"
  shows "(\<exists>t'. rt_tree_elim_nops t = (0, t') \<and> nop_free t' \<and> (\<forall>\<rho>. inside \<rho> t' = inside \<rho> t))
     \<or> (\<exists>t'. rt_tree_elim_nops t = (-1, t') \<and> (\<forall>\<rho>. \<not> inside \<rho> t))"
  using rt_tree_elim_nops_result[OF assms]
  by (cases "rt_tree_elim_nops t") (auto simp: elim_result_def)

lemma elim_nops_correct_witness:
  "\<exists>rc t'. rt_tree_elim_nops (Binary OP_SUBTRACT (Leaf (OP_SOLID 1 :: nat leaf)) OP_NOP) = (rc, t')
     \<and> rc \<in> {0, -1}"
proof -
  have "solid_tree (Binary OP_SUBTRACT (Leaf (OP_SOLID 1 :: nat leaf)) OP_NOP)" by simp
  from elim_nops_correct[OF this] show ?thesis by auto
qed

text \<open>C21: \<open>rt_optim_tree\<close> ends, having visited each node once; the tree it leaves
  contains the same points and no subtraction is the left operand of a subtraction.\<close>

theorem optim_tree_correct:
  "\<exists>t'. rt_optim_tree t = Some t' \<and> subtract_nf t' \<and> (\<forall>\<rho>. inside \<rho> t' = inside \<rho> t)"
  using optim_tree.rewrites_to[OF TrueI, of t] by metis

end
