(* ===== verification/CsgComb.thy ===== *)
theory CsgComb
  imports CsgRewrite Db5Codec
begin

unbundle bit_operations_syntax

text \<open>
  The on-disk form of a combination's boolean tree (\<open>librt/comb/comb.c\<close>):
  \<open>db_tree_counter\<close>, \<open>rt_comb_v5_serialize\<close>, and the tree part of
  \<open>rt_comb_export5\<close> and \<open>rt_comb_import5\<close>.

  A matrix is its 128-byte memory image (\<open>mat\<close>).  The two floating-point
  routines of libbn that are called on it are arguments: \<open>isid\<close> is
  \<open>bn_mat_is_identity\<close> and \<open>mmul\<close> is \<open>bn_mat_mul\<close>.  The counters of
  \<open>db_tree_counter_state\<close> count objects in memory and are natural numbers; they
  become \<open>size_t\<close> where they are encoded.  \<open>None\<close> is \<open>bu_bomb\<close>, a failed
  \<open>BU_ASSERT\<close>, or an access outside an array.
\<close>

type_synonym mat = "byte list"

definition ELEMENTS_PER_MAT :: nat where "ELEMENTS_PER_MAT = 16"
definition SIZEOF_NETWORK_DOUBLE :: nat where "SIZEOF_NETWORK_DOUBLE = 8"

section \<open>Counting\<close>

record db_tree_counter_state =
  n_mat :: nat
  n_leaf :: nat
  n_oper :: nat
  leafbytes :: nat
  non_union_seen :: bool

definition stored_mat :: "(mat \<Rightarrow> bool) \<Rightarrow> mat option \<Rightarrow> mat option" where
  "stored_mat isid m = (case m of None \<Rightarrow> None | Some x \<Rightarrow> if isid x then None else Some x)"

fun db_tree_counter ::
  "(mat \<Rightarrow> bool) \<Rightarrow> mat tree \<Rightarrow> db_tree_counter_state \<Rightarrow> (nat \<times> db_tree_counter_state) option"
where
  "db_tree_counter isid (Leaf (OP_DB_LEAF name m)) tcs =
     Some (1, tcs\<lparr>n_leaf := n_leaf tcs + 1,
                  n_mat := n_mat tcs + (if stored_mat isid m \<noteq> None then 1 else 0),
                  leafbytes := leafbytes tcs + (length name + 1 + 8)\<rparr>)"
| "db_tree_counter isid (Unary OP_NOT t) tcs =
     map_option (\<lambda>(d, tcs). (1 + d, tcs))
       (db_tree_counter isid t (tcs\<lparr>n_oper := n_oper tcs + 1, non_union_seen := True\<rparr>))"
| "db_tree_counter isid (Binary OP_UNION l r) tcs =
     do { (ldepth, tcs) \<leftarrow> db_tree_counter isid l (tcs\<lparr>n_oper := n_oper tcs + 1\<rparr>);
          (rdepth, tcs) \<leftarrow> db_tree_counter isid r tcs;
          Some (if ldepth > rdepth then ldepth else rdepth, tcs) }"
| "db_tree_counter isid (Binary op l r) tcs =
     do { (ldepth, tcs) \<leftarrow> db_tree_counter isid l
            (tcs\<lparr>n_oper := n_oper tcs + 1, non_union_seen := True\<rparr>);
          (rdepth, tcs) \<leftarrow> db_tree_counter isid r tcs;
          Some (if ldepth > rdepth then ldepth else rdepth, tcs) }"
| "db_tree_counter isid _ tcs = None"

section \<open>Serializing\<close>

definition DB5COMB_TOKEN_LEAF :: byte where "DB5COMB_TOKEN_LEAF = 1"
definition DB5COMB_TOKEN_UNION :: byte where "DB5COMB_TOKEN_UNION = 2"
definition DB5COMB_TOKEN_INTERSECT :: byte where "DB5COMB_TOKEN_INTERSECT = 3"
definition DB5COMB_TOKEN_SUBTRACT :: byte where "DB5COMB_TOKEN_SUBTRACT = 4"
definition DB5COMB_TOKEN_XOR :: byte where "DB5COMB_TOKEN_XOR = 5"
definition DB5COMB_TOKEN_NOT :: byte where "DB5COMB_TOKEN_NOT = 6"

lemmas token_defs = DB5COMB_TOKEN_LEAF_def DB5COMB_TOKEN_UNION_def DB5COMB_TOKEN_INTERSECT_def
  DB5COMB_TOKEN_SUBTRACT_def DB5COMB_TOKEN_XOR_def DB5COMB_TOKEN_NOT_def

fun binop_token :: "binop \<Rightarrow> byte" where
  "binop_token OP_UNION = DB5COMB_TOKEN_UNION"
| "binop_token OP_INTERSECT = DB5COMB_TOKEN_INTERSECT"
| "binop_token OP_SUBTRACT = DB5COMB_TOKEN_SUBTRACT"
| "binop_token OP_XOR = DB5COMB_TOKEN_XOR"

text \<open>The three output pointers are the bytes written through them so far;
  \<open>exprp\<close> is null when no expression is wanted.\<close>

record rt_comb_v5_serialize_state =
  mat_num :: nat
  nmat :: nat
  matp :: "byte list"
  leafp :: "byte list"
  exprp :: "byte list option"
  wid :: nat

definition put_token :: "byte \<Rightarrow> rt_comb_v5_serialize_state \<Rightarrow> rt_comb_v5_serialize_state" where
  "put_token tok ss = ss\<lparr>exprp := map_option (\<lambda>e. e @ [tok]) (exprp ss)\<rparr>"

definition serialize_leaf ::
  "bu_endian_t \<Rightarrow> (mat \<Rightarrow> bool) \<Rightarrow> string \<Rightarrow> mat option \<Rightarrow> rt_comb_v5_serialize_state
     \<Rightarrow> rt_comb_v5_serialize_state option" where
  "serialize_leaf order isid name m ss =
     (let ss = ss\<lparr>leafp := leafp ss @ bytes_of name @ [0]\<rparr> in
      case stored_mat isid m of
        None \<Rightarrow>
          do { bs \<leftarrow> db5_encode_length (- 1) (wid ss);
               Some (put_token DB5COMB_TOKEN_LEAF (ss\<lparr>leafp := leafp ss @ bs\<rparr>)) }
      | Some x \<Rightarrow>
          (let mi = mat_num ss; ss = ss\<lparr>mat_num := mi + 1\<rparr> in
           if \<not> mi < nmat ss then None
           else do { bs \<leftarrow> db5_encode_length (of_nat mi) (wid ss);
                     ms \<leftarrow> bu_cv_htond order x ELEMENTS_PER_MAT;
                     Some (put_token DB5COMB_TOKEN_LEAF
                       (ss\<lparr>leafp := leafp ss @ bs, matp := matp ss @ ms\<rparr>)) }))"

fun rt_comb_v5_serialize ::
  "bu_endian_t \<Rightarrow> (mat \<Rightarrow> bool) \<Rightarrow> mat tree \<Rightarrow> rt_comb_v5_serialize_state
     \<Rightarrow> rt_comb_v5_serialize_state option" where
  "rt_comb_v5_serialize order isid (Leaf (OP_DB_LEAF name m)) ss =
     serialize_leaf order isid name m ss"
| "rt_comb_v5_serialize order isid (Unary OP_NOT t) ss =
     map_option (put_token DB5COMB_TOKEN_NOT) (rt_comb_v5_serialize order isid t ss)"
| "rt_comb_v5_serialize order isid (Binary op l r) ss =
     do { ss \<leftarrow> rt_comb_v5_serialize order isid l ss;
          ss \<leftarrow> rt_comb_v5_serialize order isid r ss;
          Some (put_token (binop_token op) ss) }"
| "rt_comb_v5_serialize order isid _ ss = None"

section \<open>Exporting the tree\<close>

definition comb_header :: "nat \<Rightarrow> nat list \<Rightarrow> byte list option" where
  "comb_header w lens =
     foldl (\<lambda>cp v. do { bs \<leftarrow> cp; b \<leftarrow> db5_encode_length (of_nat v) w; Some (bs @ b) })
       (Some [of_nat w]) lens"

definition rt_comb_export5 ::
  "bu_endian_t \<Rightarrow> (mat \<Rightarrow> bool) \<Rightarrow> mat tree option \<Rightarrow> byte list option" where
  "rt_comb_export5 order isid ctree =
     do { (max_stack_depth, tcs) \<leftarrow>
            (case ctree of
               None \<Rightarrow> Some (0, \<lparr>n_mat = 0, n_leaf = 0, n_oper = 0, leafbytes = 0,
                                non_union_seen = False\<rparr>)
             | Some t \<Rightarrow> db_tree_counter isid t
                 \<lparr>n_mat = 0, n_leaf = 0, n_oper = 0, leafbytes = 0, non_union_seen = False\<rparr>);
          let rpn_len = (if non_union_seen tcs then n_leaf tcs + n_oper tcs else 0);
          let w = db5_select_length_encoding
                    (of_nat (n_mat tcs) OR of_nat (n_leaf tcs) OR of_nat (leafbytes tcs) OR
                     of_nat rpn_len OR of_nat max_stack_depth);
          let lbytes = leafbytes tcs - n_leaf tcs * (8 - ENCODE_LEN w);
          hdr \<leftarrow> comb_header w [n_mat tcs, n_leaf tcs, lbytes, rpn_len, max_stack_depth];
          let ss = \<lparr>mat_num = 0, nmat = n_mat tcs, matp = [], leafp = [],
                    exprp = (if rpn_len \<noteq> 0 then Some [] else None), wid = w\<rparr>;
          ss \<leftarrow> (case ctree of None \<Rightarrow> Some ss | Some t \<Rightarrow> rt_comb_v5_serialize order isid t ss);
          (let expr = (case exprp ss of None \<Rightarrow> [] | Some e \<Rightarrow> e) in
           if mat_num ss = n_mat tcs
              \<and> length (matp ss) = n_mat tcs * (ELEMENTS_PER_MAT * SIZEOF_NETWORK_DOUBLE)
              \<and> length (leafp ss) = lbytes
              \<and> length expr \<le> rpn_len
           then Some (hdr @ matp ss @ leafp ss @ expr @ replicate (rpn_len - length expr) 0)
           else None) }"

section \<open>Importing the tree\<close>

definition MAX_V5_STACK :: nat where "MAX_V5_STACK = 8000"

text \<open>One leaf at offset \<open>off\<close> of the buffer; \<open>neg\<close> is the test for "no matrix"
  (\<open>mi == (size_t)-1\<close> in the all-union loop, \<open>(ssize_t)mi < 0\<close> in the other).\<close>

definition import_mat ::
  "(mat \<Rightarrow> bool) \<Rightarrow> (mat \<Rightarrow> mat \<Rightarrow> mat) \<Rightarrow> mat option \<Rightarrow> mat option \<Rightarrow> mat option" where
  "import_mat isid mmul arg disk =
     (case disk of
        None \<Rightarrow> stored_mat isid arg
      | Some d \<Rightarrow>
          (case stored_mat isid arg of
             None \<Rightarrow> Some d
           | Some x \<Rightarrow> if isid (mmul x d) then None else Some (mmul x d)))"

definition import_leaf ::
  "(size_t \<Rightarrow> bool) \<Rightarrow> bu_endian_t \<Rightarrow> (mat \<Rightarrow> bool) \<Rightarrow> (mat \<Rightarrow> mat \<Rightarrow> mat) \<Rightarrow> mat option \<Rightarrow> byte list
     \<Rightarrow> nat \<Rightarrow> size_t \<Rightarrow> nat \<Rightarrow> nat \<Rightarrow> (mat leaf \<times> nat) option" where
  "import_leaf neg order isid mmul arg buf mbase nm w off =
     do { name \<leftarrow> c_string (drop off buf);
          let off = off + length name + 1;
          (mi, used) \<leftarrow> db5_decode_signed (drop off buf) w;
          let off = off + used;
          if neg mi then Some (OP_DB_LEAF (string_of name) (import_mat isid mmul arg None), off)
          else if \<not> mi < nm then None
          else do { d \<leftarrow> bu_cv_ntohd order (drop (mbase + unat (mi * 16 * 8)) buf) ELEMENTS_PER_MAT;
                    Some (OP_DB_LEAF (string_of name) (import_mat isid mmul arg (Some d)), off) } }"

fun import_leaves :: "(nat \<Rightarrow> (mat leaf \<times> nat) option) \<Rightarrow> nat \<Rightarrow> nat \<Rightarrow> (mat leaf list \<times> nat) option"
where
  "import_leaves rd 0 off = Some ([], off)"
| "import_leaves rd (Suc n) off =
     do { (l, off) \<leftarrow> rd off;
          (ls, off) \<leftarrow> import_leaves rd n off;
          Some (l # ls, off) }"

fun union_pairs :: "'m tree list \<Rightarrow> 'm tree list" where
  "union_pairs (t1 # t2 # ts) = Binary OP_UNION t1 t2 # union_pairs ts"
| "union_pairs ts = ts"

lemma length_union_pairs [simp]: "length (union_pairs ts) = (length ts + 1) div 2"
  by (induction ts rule: union_pairs.induct) auto

function balance_unions :: "'m tree list \<Rightarrow> 'm tree option" where
  "balance_unions tbl1 =
     (let tbl2 = union_pairs tbl1 in
      if length tbl2 = 0 then None
      else if length tbl2 = 1 then Some (hd tbl2)
      else balance_unions tbl2)"
  by pat_completeness auto
termination by (relation "measure length") auto

declare balance_unions.simps [simp del]

text \<open>The \<open>rpn_len\<close> tokens are read one by one from \<open>exprp\<close> on.  The evaluation stack is an array of \<open>MAX_V5_STACK\<close> entries; a push beyond it
  and a pop below it are not guarded.\<close>

fun rpn_loop ::
  "(nat \<Rightarrow> (mat leaf \<times> nat) option) \<Rightarrow> nat \<Rightarrow> byte list \<Rightarrow> nat \<Rightarrow> mat tree list
     \<Rightarrow> (nat \<times> mat tree list) option option" where
  "rpn_loop rd 0 expr off stack = Some (Some (off, stack))"
| "rpn_loop rd (Suc n) [] off stack = None"
| "rpn_loop rd (Suc n) (tok # expr) off stack =
     (let push = (\<lambda>tp off st. if length st < MAX_V5_STACK then rpn_loop rd n expr off (tp # st) else None)
      in if tok = DB5COMB_TOKEN_LEAF then
           (case rd off of None \<Rightarrow> None | Some (l, off) \<Rightarrow> push (Leaf l) off stack)
         else if tok = DB5COMB_TOKEN_UNION \<or> tok = DB5COMB_TOKEN_INTERSECT
              \<or> tok = DB5COMB_TOKEN_SUBTRACT \<or> tok = DB5COMB_TOKEN_XOR then
           (case stack of
              r # l # st \<Rightarrow>
                push (Binary (if tok = DB5COMB_TOKEN_UNION then OP_UNION
                              else if tok = DB5COMB_TOKEN_INTERSECT then OP_INTERSECT
                              else if tok = DB5COMB_TOKEN_SUBTRACT then OP_SUBTRACT
                              else OP_XOR) l r) off st
            | _ \<Rightarrow> None)
         else if tok = DB5COMB_TOKEN_NOT then
           (case stack of t # st \<Rightarrow> push (Unary OP_NOT t) off st | _ \<Rightarrow> None)
         else Some None)"

text \<open>\<open>Some None\<close> is the return of -1.  Otherwise the result is \<open>comb->tree\<close>.\<close>

definition rt_comb_import5 ::
  "bu_endian_t \<Rightarrow> (mat \<Rightarrow> bool) \<Rightarrow> (mat \<Rightarrow> mat \<Rightarrow> mat) \<Rightarrow> mat option \<Rightarrow> byte list
     \<Rightarrow> mat tree option option option" where
  "rt_comb_import5 order isid mmul arg buf =
     do { w \<leftarrow> (case buf of [] \<Rightarrow> None | b # _ \<Rightarrow> Some (unat b));
          (nm, u1) \<leftarrow> db5_decode_length (drop 1 buf) w;
          (nleaf, u2) \<leftarrow> db5_decode_length (drop (1 + u1) buf) w;
          (lbytes, u3) \<leftarrow> db5_decode_length (drop (1 + u1 + u2) buf) w;
          (rpn_len, u4) \<leftarrow> db5_decode_length (drop (1 + u1 + u2 + u3) buf) w;
          (depth, u5) \<leftarrow> db5_decode_length (drop (1 + u1 + u2 + u3 + u4) buf) w;
          let mbase = 1 + u1 + u2 + u3 + u4 + u5;
          let lbase = mbase + unat (nm * 128);
          let lend = lbase + unat lbytes;
          if rpn_len = 0 then
            do { (ls, off) \<leftarrow> import_leaves
                   (import_leaf (\<lambda>mi. mi = - 1) order isid mmul arg buf mbase nm w)
                   (if sint (nleaf - 1) < 0 then 0 else unat nleaf) lbase;
                 if off = lend then Some (Some (balance_unions (map Leaf ls))) else None }
          else if unat depth > MAX_V5_STACK then Some None
          else
            do { r \<leftarrow> rpn_loop
                   (import_leaf (\<lambda>mi. sint mi < 0) order isid mmul arg buf mbase nm w)
                   (unat rpn_len) (drop lend buf) lbase [];
                 (case r of
                    None \<Rightarrow> Some None
                  | Some (off, stack) \<Rightarrow>
                      (case stack of
                         [t] \<Rightarrow> if off = lend then Some (Some (Some t)) else None
                       | _ \<Rightarrow> None)) } }"

end
