(* ===== verification/CombAttr.thy ===== *)
theory CombAttr
  imports CStrings AttrSet CsgComb
begin

text \<open>
  The standard attributes (\<open>librt/db5_attr.c\<close>) and how a combination keeps its other fields in
  them (\<open>librt/comb/comb.c\<close>): the table of names and aliases, \<open>db5_standardize_avs\<close>, and the
  attribute parts of \<open>rt_comb_export5\<close> and \<open>rt_comb_import5\<close>, with \<open>db5_sync_comb_to_attr\<close>.
  The tree parts are in \<open>CsgComb\<close>.
\<close>

section \<open>Standard attributes\<close>

definition ATTR_REGION :: nat where "ATTR_REGION = 0"
definition ATTR_REGION_ID :: nat where "ATTR_REGION_ID = 1"
definition ATTR_MATERIAL_ID :: nat where "ATTR_MATERIAL_ID = 2"
definition ATTR_AIR :: nat where "ATTR_AIR = 3"
definition ATTR_LOS :: nat where "ATTR_LOS = 4"
definition ATTR_COLOR :: nat where "ATTR_COLOR = 5"
definition ATTR_SHADER :: nat where "ATTR_SHADER = 6"
definition ATTR_INHERIT :: nat where "ATTR_INHERIT = 7"
definition ATTR_TIMESTAMP :: nat where "ATTR_TIMESTAMP = 8"
definition ATTR_NULL :: nat where "ATTR_NULL = 9"

lemmas attr_defs = ATTR_REGION_def ATTR_REGION_ID_def ATTR_MATERIAL_ID_def ATTR_AIR_def ATTR_LOS_def
  ATTR_COLOR_def ATTR_SHADER_def ATTR_INHERIT_def ATTR_TIMESTAMP_def ATTR_NULL_def

text \<open>Name and aliases; the type is the index, and the entry of \<open>ATTR_NULL\<close> ends the table.\<close>

definition db5_attr_std :: "(string \<times> string) list" where
  "db5_attr_std =
     [(''region'', ''''), (''region_id'', ''id''), (''material_id'', ''giftmater,mat''),
      (''aircode'', ''air''), (''los'', ''''), (''color'', ''rgb''), (''shader'', ''oshader''),
      (''inherit'', ''''), (''mtime'', ''timestamp,time_stamp,modtime,mod_time,mtime'')]"

definition db5_standard_attribute :: "nat \<Rightarrow> string option" where
  "db5_standard_attribute idx = (if idx \<ge> ATTR_NULL then None else Some (fst (db5_attr_std ! idx)))"

definition db5_is_standard_attribute :: "string option \<Rightarrow> int" where
  "db5_is_standard_attribute attr_want =
     (case attr_want of
        None \<Rightarrow> 0
      | Some w \<Rightarrow> if list_ex (\<lambda>i. BU_STR_EQUIV (Some w) (db5_standard_attribute i)) [0..<ATTR_NULL] then 1 else 0)"

text \<open>The walk through the aliases, which are separated by commas; the search for the next
  comma starts at the second character.\<close>

function alias_match :: "string \<Rightarrow> string \<Rightarrow> bool" where
  "alias_match attr curr_pos =
     (case curr_pos of
        [] \<Rightarrow> False
      | c # t \<Rightarrow>
          let al = c # takeWhile (\<lambda>c. c \<noteq> CHR '','') t; next_pos = dropWhile (\<lambda>c. c \<noteq> CHR '','') t
          in BU_STR_EQUIV (Some attr) (Some al) \<or> (next_pos \<noteq> [] \<and> alias_match attr (drop 1 next_pos)))"
  by pat_completeness auto
termination
proof (relation "measure (\<lambda>(a, s). length s)", simp)
  fix attr curr_pos :: string and c t al next_pos
  assume "curr_pos = c # t" "next_pos = dropWhile (\<lambda>c. c \<noteq> CHR '','') t"
  moreover have "length (dropWhile (\<lambda>c. c \<noteq> CHR '','') t) \<le> length t" by (rule length_dropWhile_le)
  ultimately show "((attr, drop 1 next_pos), attr, curr_pos) \<in> measure (\<lambda>(a, s). length s)" by simp
qed

declare alias_match.simps [simp del]

fun find_attr :: "string \<Rightarrow> nat \<Rightarrow> (string \<times> string) list \<Rightarrow> nat" where
  "find_attr attr curr_attr [] = ATTR_NULL"
| "find_attr attr curr_attr ((name, aliases) # tbl) =
     (if BU_STR_EQUIV (Some attr) (Some name) \<or> alias_match attr aliases then curr_attr
      else find_attr attr (curr_attr + 1) tbl)"

definition db5_standardize_attribute :: "string option \<Rightarrow> nat" where
  "db5_standardize_attribute attr =
     (case attr of None \<Rightarrow> ATTR_NULL | Some a \<Rightarrow> find_attr a 0 db5_attr_std)"

definition boolean_attribute :: "nat \<Rightarrow> bool" where
  "boolean_attribute attr \<longleftrightarrow> attr = ATTR_REGION \<or> attr = ATTR_INHERIT"

definition attr_add :: "bu_avs \<Rightarrow> nat \<Rightarrow> string option \<Rightarrow> string option \<Rightarrow> bu_avs" where
  "attr_add newavs attr_type stdattr value =
     (if boolean_attribute attr_type
      then if bu_str_true value \<noteq> 0
           then snd (bu_avs_add newavs stdattr (Some (if attr_type = ATTR_REGION then ''R'' else ''1'')))
           else snd (bu_avs_remove newavs stdattr)
      else snd (bu_avs_add newavs stdattr value))"

text \<open>The bodies of the two passes.\<close>

definition standard_pass :: "avpair \<Rightarrow> bu_avs \<Rightarrow> bu_avs" where
  "standard_pass p newavs =
     (let attr_type = db5_standardize_attribute (Some (fst p)); stdattr = db5_standard_attribute attr_type
      in if attr_type \<noteq> ATTR_NULL \<and> BU_STR_EQUAL stdattr (Some (fst p))
         then attr_add newavs attr_type stdattr (snd p) else newavs)"

definition conflict_pass :: "avpair \<Rightarrow> bu_avs \<times> nat \<Rightarrow> bu_avs \<times> nat" where
  "conflict_pass p s =
     (let (newavs, conflict) = s; attr_type = db5_standardize_attribute (Some (fst p));
          stdattr = db5_standard_attribute attr_type; added = bu_avs_get newavs stdattr
      in if attr_type \<noteq> ATTR_NULL \<and> added = None then (attr_add newavs attr_type stdattr (snd p), conflict)
         else if attr_type \<noteq> ATTR_NULL \<and> BU_STR_EQUAL added (snd p) then (newavs, conflict)
         else if attr_type \<noteq> ATTR_NULL \<and> \<not> BU_STR_EQUAL added (snd p)
         then (attr_add newavs attr_type (Some (fst p)) (snd p), conflict + 1)
         else (attr_add newavs attr_type (Some (fst p)) (snd p), conflict))"

definition db5_standardize_avs :: "bu_avs \<Rightarrow> nat \<times> bu_avs" where
  "db5_standardize_avs avs =
     (if length (avp avs) = 0 then (0, avs)
      else let newavs = fold standard_pass (avp avs) bu_avs_init_empty;
               (newavs, conflict) = fold conflict_pass (avp avs) (newavs, 0)
           in (conflict, bu_avs_merge (bu_avs_free avs) newavs))"

section \<open>A combination and its attributes\<close>

text \<open>\<open>struct rt_comb_internal\<close>; the temperature is kept by neither routine and left out.\<close>

record rt_comb_internal =
  ctree :: "mat tree option"
  region_flag :: byte
  is_fastgen :: byte
  region_id :: "64 word"
  aircode :: "64 word"
  GIFTmater :: "64 word"
  los :: "64 word"
  rgb_valid :: byte
  rgb :: "byte \<times> byte \<times> byte"
  shader :: string
  material :: string
  inherit_flag :: byte

definition REGION_NON_FASTGEN :: byte where "REGION_NON_FASTGEN = 0"
definition REGION_FASTGEN_PLATE :: byte where "REGION_FASTGEN_PLATE = 1"
definition REGION_FASTGEN_VOLUME :: byte where "REGION_FASTGEN_VOLUME = 2"

lemmas fastgen_defs = REGION_NON_FASTGEN_def REGION_FASTGEN_PLATE_def REGION_FASTGEN_VOLUME_def

definition RT_COMB_INTERNAL_INIT :: rt_comb_internal where
  "RT_COMB_INTERNAL_INIT =
     \<lparr>ctree = None, region_flag = 0, is_fastgen = REGION_NON_FASTGEN, region_id = 0, aircode = 0,
      GIFTmater = 0, los = 0, rgb_valid = 0, rgb = (0, 0, 0), shader = [], material = [], inherit_flag = 0\<rparr>"

definition add_or_remove :: "bool \<Rightarrow> string \<Rightarrow> string \<Rightarrow> bu_avs \<Rightarrow> bu_avs" where
  "add_or_remove b name value avsp =
     (if b then snd (bu_avs_add avsp (Some name) (Some value)) else snd (bu_avs_remove avsp (Some name)))"

text \<open>The argument is \<open>ip->idb_avs\<close>, \<open>None\<close> without its magic number.\<close>

definition comb_export_attributes :: "rt_comb_internal \<Rightarrow> bu_avs option \<Rightarrow> bu_avs" where
  "comb_export_attributes comb idb_avs =
     (let avsp = (case idb_avs of None \<Rightarrow> bu_avs_init 32 | Some a \<Rightarrow> a);
          avsp = add_or_remove (region_flag comb \<noteq> 0) ''region''
                   (if is_fastgen comb = REGION_FASTGEN_PLATE then ''P''
                    else if is_fastgen comb = REGION_FASTGEN_VOLUME then ''V'' else ''R'') avsp;
          avsp = add_or_remove (inherit_flag comb \<noteq> 0) ''inherit'' ''1'' avsp;
          avsp = add_or_remove (rgb_valid comb \<noteq> 0) ''rgb'' (print_rgb (rgb comb)) avsp;
          avsp = add_or_remove (length (shader comb) > 0) ''oshader'' (shader comb) avsp;
          avsp = add_or_remove (length (shader comb) > 0) ''shader'' (shader comb) avsp;
          avsp = add_or_remove (region_id comb \<noteq> 0) ''region_id'' (print_long (sint (region_id comb))) avsp;
          avsp = add_or_remove (aircode comb \<noteq> 0) ''aircode'' (print_long (sint (aircode comb))) avsp;
          avsp = add_or_remove (GIFTmater comb \<noteq> 0) ''material_id'' (print_long (sint (GIFTmater comb))) avsp
      in add_or_remove (los comb \<noteq> 0) ''los'' (print_long (sint (los comb))) avsp)"

text \<open>\<open>fld\<close> sets a field from the attribute of a type, if it is there.\<close>

definition get_attr :: "bu_avs \<Rightarrow> nat \<Rightarrow> (string \<Rightarrow> rt_comb_internal \<Rightarrow> rt_comb_internal)
    \<Rightarrow> rt_comb_internal \<Rightarrow> rt_comb_internal" where
  "get_attr avs t fld comb =
     (case bu_avs_get avs (db5_standard_attribute t) of None \<Rightarrow> comb | Some ap \<Rightarrow> fld ap comb)"

definition comb_import_attributes :: "bu_avs option \<Rightarrow> rt_comb_internal \<Rightarrow> rt_comb_internal" where
  "comb_import_attributes idb_avs comb =
     (case idb_avs of
        None \<Rightarrow> comb
      | Some avs \<Rightarrow>
          let comb = comb\<lparr>rgb_valid := 0\<rparr>;
              comb = get_attr avs ATTR_COLOR (\<lambda>ap comb. case sscanf_rgb ap of
                         Some (r, g, b) \<Rightarrow> comb\<lparr>rgb := (ucast r, ucast g, ucast b), rgb_valid := 1\<rparr>
                       | None \<Rightarrow> comb) comb;
              comb = get_attr avs ATTR_INHERIT (\<lambda>ap comb. comb\<lparr>inherit_flag := ucast (atoi ap)\<rparr>) comb;
              comb = get_attr avs ATTR_REGION (\<lambda>ap comb.
                let comb = comb\<lparr>region_flag := 1\<rparr>;
                    comb = (case ap of
                        [] \<Rightarrow> comb
                      | c # _ \<Rightarrow> if c = CHR ''V'' \<or> c = CHR ''2'' then comb\<lparr>is_fastgen := REGION_FASTGEN_VOLUME\<rparr>
                                else if c = CHR ''P'' \<or> c = CHR ''1'' then comb\<lparr>is_fastgen := REGION_FASTGEN_PLATE\<rparr>
                                else if c = CHR ''R'' \<or> c = CHR ''0'' then comb\<lparr>is_fastgen := REGION_NON_FASTGEN\<rparr>
                                else comb);
                    comb = get_attr avs ATTR_REGION_ID (\<lambda>ap comb. comb\<lparr>region_id := atol ap\<rparr>) comb;
                    comb = get_attr avs ATTR_AIR (\<lambda>ap comb. comb\<lparr>aircode := atol ap\<rparr>) comb;
                    comb = get_attr avs ATTR_MATERIAL_ID (\<lambda>ap comb. comb\<lparr>GIFTmater := atol ap\<rparr>) comb
                in get_attr avs ATTR_LOS (\<lambda>ap comb. comb\<lparr>los := atol ap\<rparr>) comb) comb
          in get_attr avs ATTR_SHADER (\<lambda>ap comb. comb\<lparr>shader := shader comb @ ap\<rparr>) comb)"

text \<open>The test of \<open>newval\<close>, which holds a number here, against \<open>(null)\<close> always holds and is left out.\<close>

definition db5_sync_comb_to_attr :: "bu_avs \<Rightarrow> rt_comb_internal \<Rightarrow> bu_avs" where
  "db5_sync_comb_to_attr avs comb =
     (let std = (\<lambda>t. the (db5_standard_attribute t));
          avs = add_or_remove (region_flag comb \<noteq> 0) (std ATTR_REGION) ''R'' avs;
          avs = add_or_remove (region_flag comb \<noteq> 0) (std ATTR_REGION_ID) (print_long (sint (region_id comb))) avs;
          avs = add_or_remove (GIFTmater comb \<noteq> 0) (std ATTR_MATERIAL_ID) (print_long (sint (GIFTmater comb))) avs;
          avs = add_or_remove (aircode comb \<noteq> 0) (std ATTR_AIR) (print_long (sint (aircode comb))) avs;
          avs = add_or_remove (los comb \<noteq> 0) (std ATTR_LOS) (print_long (sint (los comb))) avs;
          avs = add_or_remove (rgb_valid comb \<noteq> 0) (std ATTR_COLOR) (print_rgb (rgb comb)) avs;
          avs = add_or_remove (length (shader comb) \<noteq> 0) (std ATTR_SHADER) (shader comb) avs
      in add_or_remove (inherit_flag comb \<noteq> 0) (std ATTR_INHERIT) (print_long (sint (inherit_flag comb))) avs)"

end
