(* ===== verification/CombAttrProof.thy ===== *)
theory CombAttrProof
  imports CombAttr
begin

text \<open>
  What \<open>db5_standardize_avs\<close> does to the attributes of a set, and what of a combination's
  fields survives the way into its attributes and back.
\<close>

section \<open>Sets whose attributes all have a value\<close>

definition avs_full :: "bu_avs \<Rightarrow> bool" where
  "avs_full avs \<longleftrightarrow> avs_wf avs \<and> (\<forall>p\<in>set (avp avs). snd p \<noteq> None)"

lemma avs_find_iff:
  assumes "avs_full avs"
  shows "avs_find avs n = Some v \<longleftrightarrow> (n, Some v) \<in> set (avp avs)"
proof -
  have "distinct (map fst (rev (avp avs)))" using assms by (simp add: avs_full_def avs_wf_def flip: rev_map)
  then have "map_of (rev (avp avs)) n = Some x \<longleftrightarrow> (n, x) \<in> set (avp avs)" for x
    by (simp add: map_of_eq_Some_iff)
  then show ?thesis by (simp add: avs_find_map_of bind_eq_Some_conv)
qed

lemma avs_find_None:
  assumes "avs_full avs"
  shows "avs_find avs n = None \<longleftrightarrow> n \<notin> fst ` set (avp avs)"
proof -
  have "avs_find avs n \<noteq> None \<longleftrightarrow> (\<exists>v. (n, Some v) \<in> set (avp avs))" using avs_find_iff[OF assms] by auto
  also have "\<dots> \<longleftrightarrow> n \<in> fst ` set (avp avs)" using assms by (force simp: avs_full_def)
  finally show ?thesis by blast
qed

lemma avs_find_eqI:
  assumes "avs_full a" "\<And>n v. (n, Some v) \<in> set (avp a) \<longleftrightarrow> f n = Some v"
  shows "avs_find a n = f n"
proof (cases "f n")
  case None
  then have "avs_find a n \<noteq> Some v" for v using avs_find_iff[OF assms(1), of n v] assms(2)[of n v] by simp
  then show ?thesis using None by (metis option.exhaust)
next
  case (Some v)
  then show ?thesis using avs_find_iff[OF assms(1), of n v] assms(2)[of n v] by simp
qed

lemma full_init: "avs_full bu_avs_init_empty" "avs_full (bu_avs_init k)"
  by (simp_all add: avs_full_def avs_wf_def bu_avs_init_empty_def bu_avs_init_def)

lemma find_init: "avs_find bu_avs_init_empty n = None" "avs_find (bu_avs_init k) n = None"
  by (simp_all add: avs_find_def bu_avs_get_def bu_avs_init_empty_def bu_avs_init_def)

lemma full_add:
  assumes "avs_full avs" shows "avs_full (snd (bu_avs_add avs name (Some v)))"
proof -
  have "set (avp (snd (bu_avs_add avs name (Some v)))) \<subseteq> insert (the name, Some v) (set (avp avs))"
  proof (cases name)
    case (Some n)
    have "set ((avp avs)[i := (n, Some v)]) \<subseteq> insert (n, Some v) (set (avp avs))" for i
      by (rule set_update_subset_insert)
    then show ?thesis using Some
      by (cases "avs_for (avp avs) n (length (avp avs))") (simp_all add: bu_avs_add_def avs_append_def subset_insertI)
  qed (auto simp: bu_avs_add_def)
  then have sub: "p = (the name, Some v) \<or> p \<in> set (avp avs)"
    if "p \<in> set (avp (snd (bu_avs_add avs name (Some v))))" for p using that by blast
  have old: "\<And>p. p \<in> set (avp avs) \<Longrightarrow> snd p \<noteq> None" using assms unfolding avs_full_def by blast
  have "\<forall>p\<in>set (avp (snd (bu_avs_add avs name (Some v)))). snd p \<noteq> None"
  proof
    fix p
    assume "p \<in> set (avp (snd (bu_avs_add avs name (Some v))))"
    from sub[OF this] show "snd p \<noteq> None"
    proof
      assume "p \<in> set (avp avs)"
      then show ?thesis by (rule old)
    qed simp
  qed
  then show ?thesis using assms wf_bu_avs_add unfolding avs_full_def by blast
qed

lemma avp_remove:
  "mset (avp (snd (bu_avs_remove avs (Some n)))) = filter_mset (\<lambda>p. fst p \<noteq> n) (mset (avp avs))"
  using avs_remove_loop_spec[of "length (avp avs)" "avp avs" n]
  by (auto simp: bu_avs_remove_def)

lemma full_remove:
  assumes "avs_full avs" shows "avs_full (snd (bu_avs_remove avs (Some n)))"
proof -
  let ?a = "snd (bu_avs_remove avs (Some n))"
  note m = avp_remove[of avs n]
  have s: "set (avp ?a) \<subseteq> set (avp avs)" using arg_cong[OF m, of set_mset] by auto
  have l: "length (avp ?a) \<le> length (avp avs)"
    using arg_cong[OF m, of size] size_filter_mset_lesseq[of "\<lambda>p. fst p \<noteq> n" "mset (avp avs)"] by simp
  have "mset (map fst (avp ?a)) = mset (map fst (filter (\<lambda>p. fst p \<noteq> n) (avp avs)))" by (simp add: m)
  moreover have "distinct (map fst (filter (\<lambda>p. fst p \<noteq> n) (avp avs)))"
    using assms by (auto simp: avs_full_def avs_wf_def intro: distinct_map_filter)
  ultimately have "distinct (map fst (avp ?a))" using mset_eq_imp_distinct_iff by blast
  moreover have "avs_max ?a = avs_max avs" by (simp add: bu_avs_remove_def)
  ultimately show ?thesis using assms s l by (auto simp: avs_full_def avs_wf_def)
qed

lemma find_remove:
  assumes "avs_full avs"
  shows "avs_find (snd (bu_avs_remove avs (Some n))) k = (if k = n then None else avs_find avs k)"
proof (rule avs_find_eqI[OF full_remove[OF assms]])
  fix m v
  show "(m, Some v) \<in> set (avp (snd (bu_avs_remove avs (Some n))))
      \<longleftrightarrow> (if m = n then None else avs_find avs m) = Some v"
    using arg_cong[OF avp_remove[of avs n], of set_mset] avs_find_iff[OF assms] by auto
qed

lemma add_or_remove:
  assumes "avs_full avs" "n \<noteq> []"
  shows "avs_full (add_or_remove b n v avs)"
    "avs_find (add_or_remove b n v avs) k = (if k = n then (if b then Some v else None) else avs_find avs k)"
  using assms full_add full_remove by (auto simp: add_or_remove_def avs_find_add find_remove)

section \<open>Standardizing\<close>

definition std_name :: "nat \<Rightarrow> string" where
  "std_name t = the (db5_standard_attribute t)"

lemma std_table:
  assumes "t < ATTR_NULL"
  shows "db5_standardize_attribute (Some (std_name t)) = t" "std_name t \<noteq> []"
    "db5_standard_attribute t = Some (std_name t)"
proof -
  have allt: "list_all (\<lambda>t. db5_standardize_attribute (Some (std_name t)) = t \<and> std_name t \<noteq> []
      \<and> db5_standard_attribute t = Some (std_name t)) [0..<ATTR_NULL]"
    by code_simp
  have "t \<in> set [0..<ATTR_NULL]" using assms by simp
  with allt show "db5_standardize_attribute (Some (std_name t)) = t" "std_name t \<noteq> []"
    "db5_standard_attribute t = Some (std_name t)"
    unfolding list_all_iff by blast+
qed

lemma std_null: "db5_standard_attribute ATTR_NULL = None"
  by (simp add: db5_standard_attribute_def)

lemma find_attr_bound: "find_attr a k tbl \<le> max ATTR_NULL (k + length tbl - 1)"
  by (induction a k tbl rule: find_attr.induct) (auto simp: max_def split: if_splits)

lemma standardize_bound: "db5_standardize_attribute a \<le> ATTR_NULL"
proof (cases a)
  case (Some n)
  then show ?thesis using find_attr_bound[of n 0 db5_attr_std]
    by (simp add: db5_standardize_attribute_def db5_attr_std_def ATTR_NULL_def)
qed (simp add: db5_standardize_attribute_def)

text \<open>The value an attribute of a type gets: a true or absent mark for the Boolean ones.\<close>

definition norm_value :: "nat \<Rightarrow> string \<Rightarrow> string option" where
  "norm_value t v =
     (if boolean_attribute t
      then if bu_str_true (Some v) \<noteq> 0 then Some (if t = ATTR_REGION then ''R'' else ''1'') else None
      else Some v)"

lemma attr_add:
  assumes "avs_full avs" "n \<noteq> []"
  shows "avs_full (attr_add avs t (Some n) (Some v))"
    "avs_find (attr_add avs t (Some n) (Some v)) k = (if k = n then norm_value t v else avs_find avs k)"
  using assms full_add full_remove by (auto simp: attr_add_def norm_value_def avs_find_add find_remove)

lemma standard_pass:
  assumes "avs_full avs" "n \<noteq> []" "t < ATTR_NULL"
  shows "avs_full (standard_pass (n, Some v) avs)"
    "avs_find (standard_pass (n, Some v) avs) (std_name t)
      = (if n = std_name t then norm_value t v else avs_find avs (std_name t))"
    "db5_standardize_attribute (Some k) = ATTR_NULL \<Longrightarrow>
       avs_find (standard_pass (n, Some v) avs) k = avs_find avs k"
proof -
  let ?t = "db5_standardize_attribute (Some n)"
  have eq: "BU_STR_EQUAL (db5_standard_attribute ?t) (Some n) \<longleftrightarrow> n = std_name ?t" if "?t \<noteq> ATTR_NULL"
    using std_table(3)[of ?t] standardize_bound[of "Some n"] that by (auto simp: BU_STR_EQUAL_def or_empty_def)
  have p: "standard_pass (n, Some v) avs
      = (if ?t \<noteq> ATTR_NULL \<and> n = std_name ?t then attr_add avs ?t (Some n) (Some v) else avs)"
    using eq std_table(3)[of ?t] standardize_bound[of "Some n"] by (auto simp: standard_pass_def Let_def)
  show "avs_full (standard_pass (n, Some v) avs)" using attr_add(1)[OF assms(1,2)] assms(1) by (simp add: p)
  have "n = std_name t \<Longrightarrow> ?t = t" using std_table(1)[OF assms(3)] by simp
  then show "avs_find (standard_pass (n, Some v) avs) (std_name t)
      = (if n = std_name t then norm_value t v else avs_find avs (std_name t))"
    using attr_add(2)[OF assms(1,2)] assms(3) by (auto simp: p)
  assume "db5_standardize_attribute (Some k) = ATTR_NULL"
  then show "avs_find (standard_pass (n, Some v) avs) k = avs_find avs k"
    using attr_add(2)[OF assms(1,2)] by (auto simp: p)
qed

text \<open>Lists of attributes as a set holds them.\<close>

definition pairs_full :: "avpair list \<Rightarrow> bool" where
  "pairs_full ps \<longleftrightarrow> distinct (map fst ps) \<and> (\<forall>p\<in>set ps. fst p \<noteq> [] \<and> snd p \<noteq> None)"

lemma pairs_full_Cons:
  assumes "pairs_full (p # ps)"
  obtains n v where "p = (n, Some v)" "n \<noteq> []" "n \<notin> fst ` set ps" "pairs_full ps"
  using assms by (cases p) (auto simp: pairs_full_def)

lemma pairs_full_avp: "avs_full avs \<Longrightarrow> pairs_full (avp avs)"
  by (simp add: avs_full_def avs_wf_def pairs_full_def)

lemma standard_passes:
  "pairs_full ps \<Longrightarrow> avs_full avs \<Longrightarrow> t < ATTR_NULL \<Longrightarrow>
     avs_full (fold standard_pass ps avs)
     \<and> avs_find (fold standard_pass ps avs) (std_name t)
       = (case map_of ps (std_name t) of Some (Some v) \<Rightarrow> norm_value t v | _ \<Rightarrow> avs_find avs (std_name t))
     \<and> (db5_standardize_attribute (Some k) = ATTR_NULL \<longrightarrow> avs_find (fold standard_pass ps avs) k = avs_find avs k)"
proof (induction ps arbitrary: avs)
  case (Cons p ps)
  obtain n v where p: "p = (n, Some v)" "n \<noteq> []" "n \<notin> fst ` set ps" "pairs_full ps"
    using pairs_full_Cons[OF Cons.prems(1)] .
  note s = standard_pass[OF Cons.prems(2) p(2) Cons.prems(3), where v = v]
  have "n = std_name t \<Longrightarrow> map_of ps (std_name t) = None" using p(3) by (simp add: map_of_eq_None_iff)
  then show ?case using Cons.IH[OF p(4) s(1) Cons.prems(3)] s(2) s(3)[of k] p(1)
    by (auto split: option.splits)
qed simp

lemma conflict_pass:
  assumes "avs_full avs" "n \<noteq> []" "t < ATTR_NULL"
  shows "avs_full (fst (conflict_pass (n, Some v) (avs, c)))"
    "avs_find (fst (conflict_pass (n, Some v) (avs, c))) (std_name t)
      = (if db5_standardize_attribute (Some n) \<noteq> t then avs_find avs (std_name t)
         else case avs_find avs (std_name t) of
                None \<Rightarrow> norm_value t v
              | Some w \<Rightarrow> if n = std_name t \<and> w \<noteq> v then norm_value t v else Some w)"
    "db5_standardize_attribute (Some k) = ATTR_NULL \<Longrightarrow>
       avs_find (fst (conflict_pass (n, Some v) (avs, c))) k = (if k = n then Some v else avs_find avs k)"
proof -
  let ?t = "db5_standardize_attribute (Some n)" and ?r = "fst (conflict_pass (n, Some v) (avs, c))"
  have null: "?r = attr_add avs ATTR_NULL (Some n) (Some v)" if "?t = ATTR_NULL"
    using that by (simp add: conflict_pass_def Let_def)
  have typed: "?r = (case avs_find avs (std_name ?t) of
        None \<Rightarrow> attr_add avs ?t (Some (std_name ?t)) (Some v)
      | Some w \<Rightarrow> if w = v then avs else attr_add avs ?t (Some n) (Some v))" if "?t \<noteq> ATTR_NULL"
    using that std_table(3)[of ?t] standardize_bound[of "Some n"]
    by (auto simp: conflict_pass_def Let_def avs_find_def BU_STR_EQUAL_def or_empty_def split: option.splits)
  have ne: "?t \<noteq> ATTR_NULL \<Longrightarrow> std_name ?t \<noteq> []"
    using std_table(2)[of ?t] standardize_bound[of "Some n"] by simp
  show "avs_full ?r"
    using null typed attr_add(1)[OF assms(1)] assms(1,2) ne by (cases "?t = ATTR_NULL") (auto split: option.splits)
  have st: "db5_standardize_attribute (Some (std_name t)) = t" using std_table(1)[OF assms(3)] .
  have other: "std_name ?t \<noteq> std_name t" if "?t \<noteq> t" "?t \<noteq> ATTR_NULL"
    using that st std_table(1)[of ?t] standardize_bound[of "Some n"] by (metis le_neq_implies_less)
  show "avs_find ?r (std_name t)
      = (if ?t \<noteq> t then avs_find avs (std_name t)
         else case avs_find avs (std_name t) of
                None \<Rightarrow> norm_value t v
              | Some w \<Rightarrow> if n = std_name t \<and> w \<noteq> v then norm_value t v else Some w)"
  proof (cases "?t = ATTR_NULL")
    case True
    then have "n \<noteq> std_name t" using st assms(3) by auto
    then show ?thesis using null[OF True] attr_add(2)[OF assms(1,2)] True assms(3) by simp
  next
    case False
    show ?thesis
    proof (cases "?t = t")
      case True
      then show ?thesis using typed[OF False] attr_add(2)[OF assms(1)] assms(2) ne[OF False]
        by (auto split: option.splits)
    next
      case other': False
      have "n \<noteq> std_name t" using st other' by auto
      then show ?thesis using typed[OF False] attr_add(2)[OF assms(1)] assms(2) ne[OF False] other[OF other' False] other'
        by (auto split: option.splits)
    qed
  qed
  assume k: "db5_standardize_attribute (Some k) = ATTR_NULL"
  show "avs_find ?r k = (if k = n then Some v else avs_find avs k)"
  proof (cases "?t = ATTR_NULL")
    case True
    then show ?thesis using null[OF True] attr_add(2)[OF assms(1,2)]
      by (simp add: norm_value_def boolean_attribute_def attr_defs)
  next
    case False
    have "k \<noteq> n" using k False by auto
    moreover have "k \<noteq> std_name ?t" using k False std_table(1)[of ?t] standardize_bound[of "Some n"] by auto
    ultimately show ?thesis using typed[OF False] attr_add(2)[OF assms(1)] assms(2) ne[OF False]
      by (auto split: option.splits)
  qed
qed

text \<open>The value the first attribute of a type has.\<close>

fun first_of_type :: "nat \<Rightarrow> avpair list \<Rightarrow> string option" where
  "first_of_type t [] = None"
| "first_of_type t (p # ps) =
     (if db5_standardize_attribute (Some (fst p)) = t then snd p else first_of_type t ps)"

lemma conflict_passes_full:
  "pairs_full ps \<Longrightarrow> avs_full (fst s) \<Longrightarrow> avs_full (fst (fold conflict_pass ps s))"
proof (induction ps arbitrary: s)
  case (Cons p ps)
  obtain n v where p: "p = (n, Some v)" "n \<noteq> []" "pairs_full ps" using pairs_full_Cons[OF Cons.prems(1)] by metis
  then have "avs_full (fst (conflict_pass p s))"
    using conflict_pass(1)[OF Cons.prems(2) p(2), where t = 0 and v = v and c = "snd s"] by (simp add: ATTR_NULL_def)
  then show ?case using Cons.IH[OF p(3)] by simp
qed simp

lemma conflict_passes_keep:
  "pairs_full ps \<Longrightarrow> avs_full (fst s) \<Longrightarrow> t < ATTR_NULL \<Longrightarrow>
     avs_find (fst s) (std_name t) = Some w \<Longrightarrow>
     (\<And>v. (std_name t, Some v) \<in> set ps \<Longrightarrow> norm_value t v = Some w) \<Longrightarrow>
     avs_find (fst (fold conflict_pass ps s)) (std_name t) = Some w"
proof (induction ps arbitrary: s)
  case (Cons p ps)
  obtain n v where p: "p = (n, Some v)" "n \<noteq> []" "pairs_full ps" using pairs_full_Cons[OF Cons.prems(1)] by metis
  obtain a c where s: "s = (a, c)" by fastforce
  note cp = conflict_pass[OF _ p(2) Cons.prems(3), where avs = a and v = v and c = c]
  have "avs_full (fst (conflict_pass p s))" using cp(1) Cons.prems(2) by (simp add: p(1) s)
  moreover have "avs_find (fst (conflict_pass p s)) (std_name t) = Some w"
    using cp(2) Cons.prems(2,4) Cons.prems(5)[of v] by (auto simp: p(1) s)
  ultimately show ?case using Cons.IH[OF p(3)] Cons.prems(3,5) by simp
qed simp

lemma conflict_passes_first:
  "pairs_full ps \<Longrightarrow> avs_full (fst s) \<Longrightarrow> t < ATTR_NULL \<Longrightarrow> \<not> boolean_attribute t \<Longrightarrow>
     avs_find (fst s) (std_name t) = None \<Longrightarrow> std_name t \<notin> fst ` set ps \<Longrightarrow>
     avs_find (fst (fold conflict_pass ps s)) (std_name t) = first_of_type t ps"
proof (induction ps arbitrary: s)
  case (Cons p ps)
  obtain n v where p: "p = (n, Some v)" "n \<noteq> []" "pairs_full ps" using pairs_full_Cons[OF Cons.prems(1)] by metis
  obtain a c where s: "s = (a, c)" by fastforce
  note cp = conflict_pass[OF _ p(2) Cons.prems(3), where avs = a and v = v and c = c]
  have f: "avs_full (fst (conflict_pass p s))" using cp(1) Cons.prems(2) by (simp add: p(1) s)
  have ns: "std_name t \<notin> fst ` set ps" using Cons.prems(6) by simp
  show ?case
  proof (cases "db5_standardize_attribute (Some n) = t")
    case True
    then have "avs_find (fst (conflict_pass p s)) (std_name t) = Some v"
      using cp(2) Cons.prems(2,4,5) by (simp add: p(1) s norm_value_def)
    then have "avs_find (fst (fold conflict_pass ps (conflict_pass p s))) (std_name t) = Some v"
      using conflict_passes_keep[OF p(3) f Cons.prems(3)] ns by force
    then show ?thesis using True by (simp add: p(1))
  next
    case False
    then have "avs_find (fst (conflict_pass p s)) (std_name t) = None"
      using cp(2) Cons.prems(2,5) by (simp add: p(1) s)
    then show ?thesis using Cons.IH[OF p(3) f Cons.prems(3,4) _ ns] False by (simp add: p(1))
  qed
qed simp

lemma conflict_passes_none:
  "pairs_full ps \<Longrightarrow> avs_full (fst s) \<Longrightarrow> t < ATTR_NULL \<Longrightarrow> avs_find (fst s) (std_name t) = None \<Longrightarrow>
     (\<And>n v. (n, Some v) \<in> set ps \<Longrightarrow> db5_standardize_attribute (Some n) = t \<Longrightarrow> norm_value t v = None) \<Longrightarrow>
     avs_find (fst (fold conflict_pass ps s)) (std_name t) = None"
proof (induction ps arbitrary: s)
  case (Cons p ps)
  obtain n v where p: "p = (n, Some v)" "n \<noteq> []" "pairs_full ps" using pairs_full_Cons[OF Cons.prems(1)] by metis
  obtain a c where s: "s = (a, c)" by fastforce
  note cp = conflict_pass[OF _ p(2) Cons.prems(3), where avs = a and v = v and c = c]
  have "avs_full (fst (conflict_pass p s))" using cp(1) Cons.prems(2) by (simp add: p(1) s)
  moreover have "avs_find (fst (conflict_pass p s)) (std_name t) = None"
    using cp(2) Cons.prems(2,4) Cons.prems(5)[of n v] by (auto simp: p(1) s)
  moreover have "\<And>n v. (n, Some v) \<in> set ps \<Longrightarrow> db5_standardize_attribute (Some n) = t \<Longrightarrow> norm_value t v = None"
    by (rule Cons.prems(5)[OF list.set_intros(2)])
  ultimately show ?case using Cons.IH[OF p(3) _ Cons.prems(3)] by simp
qed simp

lemma conflict_passes_other:
  "pairs_full ps \<Longrightarrow> avs_full (fst s) \<Longrightarrow> db5_standardize_attribute (Some k) = ATTR_NULL \<Longrightarrow>
     avs_find (fst (fold conflict_pass ps s)) k
     = (case map_of ps k of Some (Some v) \<Rightarrow> Some v | _ \<Rightarrow> avs_find (fst s) k)"
proof (induction ps arbitrary: s)
  case (Cons p ps)
  obtain n v where p: "p = (n, Some v)" "n \<noteq> []" "n \<notin> fst ` set ps" "pairs_full ps"
    using pairs_full_Cons[OF Cons.prems(1)] .
  obtain a c where s: "s = (a, c)" by fastforce
  note cp = conflict_pass[OF _ p(2), where avs = a and t = 0 and v = v and c = c]
  have f: "avs_full (fst (conflict_pass p s))" using cp(1) Cons.prems(2) by (simp add: p(1) s ATTR_NULL_def)
  have k: "avs_find (fst (conflict_pass p s)) k = (if k = n then Some v else avs_find a k)"
    using cp(3)[where k = k] Cons.prems(2,3) by (simp add: p(1) s ATTR_NULL_def)
  have "k = n \<Longrightarrow> map_of ps k = None" using p(3) by (simp add: map_of_eq_None_iff)
  then show ?case using Cons.IH[OF p(4) f Cons.prems(3)] k by (auto simp: p(1) s split: option.splits)
qed simp

lemma merge_find:
  assumes "avs_full d" "avs_full src"
  shows "i \<le> length (avp src) \<Longrightarrow> avs_full (avs_merge_loop (avp src) i d)
    \<and> avs_find (avs_merge_loop (avp src) i d) k
      = (case map_of (take i (avp src)) k of Some (Some v) \<Rightarrow> Some v | _ \<Rightarrow> avs_find d k)"
  using assms(1)
proof (induction i arbitrary: d)
  case (Suc i)
  obtain n v where p: "avp src ! i = (n, Some v)" "n \<noteq> []"
    using assms(2) Suc.prems(1) nth_mem[of i "avp src"]
    by (cases "avp src ! i") (fastforce simp: avs_full_def avs_wf_def)
  let ?d = "snd (bu_avs_add d (Some n) (Some v))"
  have "take (Suc i) (avp src) = take i (avp src) @ [(n, Some v)]" using Suc.prems(1) p(1) by (simp add: take_Suc_snoc)
  moreover have "avs_find ?d k = (if k = n then Some v else avs_find d k)" using p(2) by (rule avs_find_add)
  moreover have "map_of (take i (avp src)) k \<noteq> Some None" for k
    using assms(2) by (auto simp: avs_full_def dest!: map_of_SomeD in_set_takeD)
  moreover have "avs_full ?d" using full_add[OF Suc.prems(2)] .
  ultimately show ?case using Suc.IH[of ?d] Suc.prems(1) p(1)
    by (auto simp: map_add_def split: option.splits)
qed simp

lemma full_map_of:
  assumes "avs_full avs"
  shows "(case map_of (avp avs) k of Some (Some v) \<Rightarrow> Some v | _ \<Rightarrow> None) = avs_find avs k"
proof -
  have "map_of (avp avs) k = Some x \<longleftrightarrow> (k, x) \<in> set (avp avs)" for x
    using assms by (simp add: avs_full_def avs_wf_def map_of_eq_Some_iff)
  moreover have "(k, None) \<notin> set (avp avs)" using assms by (force simp: avs_full_def)
  ultimately show ?thesis using avs_find_iff[OF assms, of k]
    by (auto split: option.splits intro: sym) (metis option.exhaust)
qed

lemma standardize_result:
  assumes "avs_full avs"
  shows "avs_full (snd (db5_standardize_avs avs))"
    "avs_find (snd (db5_standardize_avs avs)) k
      = avs_find (fst (fold conflict_pass (avp avs) (fold standard_pass (avp avs) bu_avs_init_empty, 0))) k"
proof -
  let ?new = "fold standard_pass (avp avs) bu_avs_init_empty"
  let ?r = "fold conflict_pass (avp avs) (?new, 0)"
  have new: "avs_full ?new"
    using standard_passes[OF pairs_full_avp[OF assms] full_init(1), of 0] by (simp add: ATTR_NULL_def)
  have r: "avs_full (fst ?r)" using conflict_passes_full[OF pairs_full_avp[OF assms], of "(?new, 0)"] new by simp
  have d: "avs_full (bu_avs_free avs)" "avs_find (bu_avs_free avs) k = None" if "avp avs \<noteq> []"
  proof -
    have "0 < avs_max avs" using that assms by (cases "avp avs") (auto simp: avs_full_def avs_wf_def)
    then have "bu_avs_free avs = bu_avs_init_empty" by (simp add: bu_avs_free_def bu_avs_init_empty_def)
    then show "avs_full (bu_avs_free avs)" "avs_find (bu_avs_free avs) k = None"
      by (simp_all add: full_init find_init)
  qed
  have "avs_full (snd (db5_standardize_avs avs)) \<and> avs_find (snd (db5_standardize_avs avs)) k = avs_find (fst ?r) k"
  proof (cases "avp avs = []")
    case True
    then have "avs_find avs k = None" by (simp add: avs_find_def bu_avs_get_def)
    then show ?thesis using True assms find_init by (simp add: db5_standardize_avs_def)
  next
    case False
    have e: "snd (db5_standardize_avs avs) = bu_avs_merge (bu_avs_free avs) (fst ?r)"
      using False by (simp add: db5_standardize_avs_def case_prod_unfold Let_def)
    show ?thesis
      unfolding e bu_avs_merge_def
      using merge_find[OF d(1)[OF False] r order_refl, of k] full_map_of[OF r, of k] d(2)[OF False]
      by (auto split: option.splits)
  qed
  then show "avs_full (snd (db5_standardize_avs avs))"
    "avs_find (snd (db5_standardize_avs avs)) k = avs_find (fst ?r) k" by simp_all
qed

text \<open>What is found under a standard name: its own value, or else that of the first alias;
  the Boolean ones have no aliases (but names that differ in case).\<close>

definition std_lookup :: "bu_avs \<Rightarrow> nat \<Rightarrow> string option" where
  "std_lookup avs t =
     (case avs_find avs (std_name t) of Some v \<Rightarrow> norm_value t v | None \<Rightarrow> first_of_type t (avp avs))"

definition own_names :: "bu_avs \<Rightarrow> nat \<Rightarrow> bool" where
  "own_names avs t \<longleftrightarrow> (\<forall>p\<in>set (avp avs). db5_standardize_attribute (Some (fst p)) = t \<longrightarrow> fst p = std_name t)"

lemma first_of_type_None: "\<forall>p\<in>set ps. db5_standardize_attribute (Some (fst p)) \<noteq> t \<Longrightarrow> first_of_type t ps = None"
  by (induction ps) auto

lemma standardize_find:
  assumes "avs_full avs" "t < ATTR_NULL" "boolean_attribute t \<Longrightarrow> own_names avs t"
  shows "avs_find (snd (db5_standardize_avs avs)) (std_name t) = std_lookup avs t"
proof -
  let ?ps = "avp avs"
  let ?new = "fold standard_pass ?ps bu_avs_init_empty"
  note pf = pairs_full_avp[OF assms(1)]
  note sp = standard_passes[OF pf full_init(1) assms(2)]
  have new: "avs_full ?new" and
    fnew: "avs_find ?new (std_name t) = (case avs_find avs (std_name t) of Some v \<Rightarrow> norm_value t v | None \<Rightarrow> None)"
    using sp full_map_of[OF assms(1), of "std_name t"]
    by (auto simp: find_init split: option.splits)
  let ?r = "fst (fold conflict_pass ?ps (?new, 0))"
  have "avs_find ?r (std_name t) = std_lookup avs t"
  proof (cases "avs_find avs (std_name t)")
    case (Some v)
    then have mem: "(std_name t, Some v) \<in> set ?ps" using avs_find_iff[OF assms(1)] by simp
    have only: "w = v" if "(std_name t, Some w) \<in> set ?ps" for w
      using that Some avs_find_iff[OF assms(1), of "std_name t" w] by simp
    show ?thesis
    proof (cases "norm_value t v")
      case (Some w)
      then show ?thesis
        using conflict_passes_keep[OF pf _ assms(2), of "(?new, 0)" w] new fnew \<open>avs_find avs (std_name t) = Some v\<close> only
        by (auto simp: std_lookup_def)
    next
      case None
      then have "boolean_attribute t" by (auto simp: norm_value_def split: if_splits)
      then have "norm_value t w = None" if "(n, Some w) \<in> set ?ps" "db5_standardize_attribute (Some n) = t" for n w
        using that assms(3) only None by (fastforce simp: own_names_def)
      then show ?thesis
        using conflict_passes_none[OF pf _ assms(2), of "(?new, 0)"] new fnew Some None
        by (simp add: std_lookup_def)
    qed
  next
    case None
    then have ns: "std_name t \<notin> fst ` set ?ps" using avs_find_None[OF assms(1)] by simp
    show ?thesis
    proof (cases "boolean_attribute t")
      case True
      then have "\<forall>p\<in>set ?ps. db5_standardize_attribute (Some (fst p)) \<noteq> t"
        using assms(3) ns by (force simp: own_names_def)
      moreover from this have "avs_find ?r (std_name t) = None"
        using conflict_passes_none[OF pf _ assms(2), of "(?new, 0)"] new fnew None by force
      ultimately show ?thesis using None first_of_type_None by (simp add: std_lookup_def)
    next
      case False
      then show ?thesis
        using conflict_passes_first[OF pf _ assms(2) False _ ns, of "(?new, 0)"] new fnew None
        by (simp add: std_lookup_def)
    qed
  qed
  then show ?thesis using standardize_result(2)[OF assms(1)] by simp
qed

lemma standardize_find_other:
  assumes "avs_full avs" "db5_standardize_attribute (Some k) = ATTR_NULL"
  shows "avs_find (snd (db5_standardize_avs avs)) k = avs_find avs k"
proof -
  let ?new = "fold standard_pass (avp avs) bu_avs_init_empty"
  have "avs_full ?new \<and> avs_find ?new k = None"
    using standard_passes[OF pairs_full_avp[OF assms(1)] full_init(1), of 0 k] assms(2) by (simp add: ATTR_NULL_def find_init)
  then show ?thesis
    using standardize_result(2)[OF assms(1), of k] full_map_of[OF assms(1), of k]
      conflict_passes_other[OF pairs_full_avp[OF assms(1)] _ assms(2), of "(?new, 0)"]
    by (auto split: option.splits)
qed

section \<open>The fields of a combination\<close>

lemma std_names [simp]:
  "std_name ATTR_REGION = ''region''" "std_name ATTR_REGION_ID = ''region_id''"
  "std_name ATTR_MATERIAL_ID = ''material_id''" "std_name ATTR_AIR = ''aircode''" "std_name ATTR_LOS = ''los''"
  "std_name ATTR_COLOR = ''color''" "std_name ATTR_SHADER = ''shader''" "std_name ATTR_INHERIT = ''inherit''"
  by (code_simp+)

lemma export_find:
  assumes "avs_full a"
  shows "avs_full (comb_export_attributes c (Some a))"
    "avs_find (comb_export_attributes c (Some a)) k =
      (if k = ''region'' then if region_flag c \<noteq> 0
         then Some (if is_fastgen c = REGION_FASTGEN_PLATE then ''P''
                    else if is_fastgen c = REGION_FASTGEN_VOLUME then ''V'' else ''R'') else None
       else if k = ''inherit'' then if inherit_flag c \<noteq> 0 then Some ''1'' else None
       else if k = ''rgb'' then if rgb_valid c \<noteq> 0 then Some (print_rgb (rgb c)) else None
       else if k = ''oshader'' \<or> k = ''shader'' then if shader c \<noteq> [] then Some (shader c) else None
       else if k = ''region_id'' then if region_id c \<noteq> 0 then Some (print_long (sint (region_id c))) else None
       else if k = ''aircode'' then if aircode c \<noteq> 0 then Some (print_long (sint (aircode c))) else None
       else if k = ''material_id'' then if GIFTmater c \<noteq> 0 then Some (print_long (sint (GIFTmater c))) else None
       else if k = ''los'' then if los c \<noteq> 0 then Some (print_long (sint (los c))) else None
       else avs_find a k)"
  using assms by (simp_all add: comb_export_attributes_def add_or_remove Let_def)

lemma first_of_type_find:
  assumes "avs_full a" "db5_standardize_attribute (Some n) = t"
    and "\<And>m. m \<in> fst ` set (avp a) \<Longrightarrow> db5_standardize_attribute (Some m) = t \<Longrightarrow> m = n"
  shows "first_of_type t (avp a) = avs_find a n"
proof (cases "avs_find a n")
  case None
  then have "n \<notin> fst ` set (avp a)" using avs_find_None[OF assms(1)] by simp
  then have "\<forall>p\<in>set (avp a). db5_standardize_attribute (Some (fst p)) \<noteq> t" using assms(3) by force
  then show ?thesis using None first_of_type_None by simp
next
  case (Some v)
  then have mem: "(n, Some v) \<in> set (avp a)" using avs_find_iff[OF assms(1)] by simp
  have only: "p = (n, Some v)" if "p \<in> set (avp a)" "db5_standardize_attribute (Some (fst p)) = t" for p
  proof -
    have "fst p = n" using assms(3)[of "fst p"] that by simp
    moreover have "distinct (map fst (avp a))" using assms(1) by (simp add: avs_full_def avs_wf_def)
    ultimately show ?thesis using that(1) mem by (metis eq_key_imp_eq_value prod.collapse)
  qed
  have "first_of_type t ps = Some v" if "(n, Some v) \<in> set ps" "set ps \<subseteq> set (avp a)" for ps
    using that
  proof (induction ps)
    case (Cons p ps)
    then show ?case using only[of p] assms(2) by auto
  qed simp
  then show ?thesis using mem Some by simp
qed

text \<open>The names a combination uses, and their types.\<close>

lemma name_type_region: "db5_standardize_attribute (Some ''region'') = ATTR_REGION"
  by code_simp

lemma name_type_inherit: "db5_standardize_attribute (Some ''inherit'') = ATTR_INHERIT"
  by code_simp

lemma name_type_rgb: "db5_standardize_attribute (Some ''rgb'') = ATTR_COLOR"
  by code_simp

lemma name_type_oshader: "db5_standardize_attribute (Some ''oshader'') = ATTR_SHADER"
  by code_simp

lemma name_type_shader: "db5_standardize_attribute (Some ''shader'') = ATTR_SHADER"
  by code_simp

lemma name_type_region_id: "db5_standardize_attribute (Some ''region_id'') = ATTR_REGION_ID"
  by code_simp

lemma name_type_aircode: "db5_standardize_attribute (Some ''aircode'') = ATTR_AIR"
  by code_simp

lemma name_type_material_id: "db5_standardize_attribute (Some ''material_id'') = ATTR_MATERIAL_ID"
  by code_simp

lemma name_type_los: "db5_standardize_attribute (Some ''los'') = ATTR_LOS"
  by code_simp

lemmas name_types [simp] = name_type_region name_type_inherit name_type_rgb name_type_oshader name_type_shader
  name_type_region_id name_type_aircode name_type_material_id name_type_los

definition comb_names :: "string list" where
  "comb_names = [''region'', ''inherit'', ''rgb'', ''oshader'', ''shader'', ''region_id'', ''aircode'',
     ''material_id'', ''los'']"

lemma comb_kinds:
  "list_all (\<lambda>m. m = std_name (db5_standardize_attribute (Some m))
      \<or> m = ''rgb'' \<and> db5_standardize_attribute (Some m) = ATTR_COLOR
      \<or> m = ''oshader'' \<and> db5_standardize_attribute (Some m) = ATTR_SHADER) comb_names"
  by (simp add: comb_names_def std_names)

lemma get_attr_find:
  "get_attr avs t fld comb
    = (if t < ATTR_NULL then case avs_find avs (std_name t) of None \<Rightarrow> comb | Some ap \<Rightarrow> fld ap comb else comb)"
  using std_table(3)[of t]
  by (simp add: get_attr_def avs_find_def db5_standard_attribute_def bu_avs_get_def)

text \<open>A part of the combination that a field leaves alone.\<close>

lemma get_attr_keeps: "(\<And>ap c. P (fld ap c) = P c) \<Longrightarrow> P (get_attr avs t fld comb) = P comb"
  by (simp add: get_attr_def split: option.split)

lemma attr_neq:
  "ATTR_REGION \<noteq> ATTR_COLOR" "ATTR_REGION \<noteq> ATTR_SHADER" "ATTR_INHERIT \<noteq> ATTR_COLOR" "ATTR_INHERIT \<noteq> ATTR_SHADER"
  "ATTR_COLOR \<noteq> ATTR_SHADER" "ATTR_SHADER \<noteq> ATTR_COLOR"
  "ATTR_REGION_ID \<noteq> ATTR_COLOR" "ATTR_REGION_ID \<noteq> ATTR_SHADER" "ATTR_AIR \<noteq> ATTR_COLOR" "ATTR_AIR \<noteq> ATTR_SHADER"
  "ATTR_MATERIAL_ID \<noteq> ATTR_COLOR" "ATTR_MATERIAL_ID \<noteq> ATTR_SHADER" "ATTR_LOS \<noteq> ATTR_COLOR" "ATTR_LOS \<noteq> ATTR_SHADER"
  "ATTR_INHERIT \<noteq> ATTR_REGION"
  by (simp_all add: attr_defs)

lemma attr_null: "ATTR_COLOR < ATTR_NULL" "ATTR_INHERIT < ATTR_NULL" "ATTR_REGION < ATTR_NULL"
  "ATTR_REGION_ID < ATTR_NULL" "ATTR_AIR < ATTR_NULL" "ATTR_MATERIAL_ID < ATTR_NULL" "ATTR_LOS < ATTR_NULL"
  "ATTR_SHADER < ATTR_NULL"
  by (simp_all add: attr_defs)

lemma true_marks: "bu_str_true (Some ''P'') \<noteq> 0" "bu_str_true (Some ''V'') \<noteq> 0" "bu_str_true (Some ''R'') \<noteq> 0"
  "bu_str_true (Some ''1'') \<noteq> 0"
  by code_simp+

text \<open>After reading back, each standard name has what the combination has.\<close>

lemma fresh_export_find:
  assumes "avs_full A" "\<And>k. avs_find A k = avs_find (comb_export_attributes c None) k"
  defines "S \<equiv> snd (db5_standardize_avs A)"
  shows "avs_find S ''region'' = (if region_flag c \<noteq> 0 then Some ''R'' else None)"
    "avs_find S ''inherit'' = (if inherit_flag c \<noteq> 0 then Some ''1'' else None)"
    "avs_find S ''color'' = (if rgb_valid c \<noteq> 0 then Some (print_rgb (rgb c)) else None)"
    "avs_find S ''shader'' = (if shader c \<noteq> [] then Some (shader c) else None)"
    "avs_find S ''region_id'' = (if region_id c \<noteq> 0 then Some (print_long (sint (region_id c))) else None)"
    "avs_find S ''aircode'' = (if aircode c \<noteq> 0 then Some (print_long (sint (aircode c))) else None)"
    "avs_find S ''material_id'' = (if GIFTmater c \<noteq> 0 then Some (print_long (sint (GIFTmater c))) else None)"
    "avs_find S ''los'' = (if los c \<noteq> 0 then Some (print_long (sint (los c))) else None)"
proof -
  have e: "comb_export_attributes c None = comb_export_attributes c (Some (bu_avs_init 32))"
    by (simp add: comb_export_attributes_def)
  note f = assms(2)[unfolded e export_find(2)[OF full_init(2)] find_init]
  have names: "m \<in> set comb_names" if "m \<in> fst ` set (avp A)" for m
  proof -
    have "avs_find A m \<noteq> None" using that avs_find_None[OF assms(1)] by simp
    then show ?thesis unfolding f by (auto simp: comb_names_def split: if_splits)
  qed
  have kinds: "m = std_name t \<or> m = ''rgb'' \<and> t = ATTR_COLOR \<or> m = ''oshader'' \<and> t = ATTR_SHADER"
    if "m \<in> set comb_names" "db5_standardize_attribute (Some m) = t" for m t
    using bspec[OF comb_kinds[unfolded list_all_iff] that(1)] that(2) by blast
  have own: "own_names A ATTR_REGION" "own_names A ATTR_INHERIT"
    using kinds[OF names] attr_neq unfolding own_names_def by blast+
  have first: "first_of_type t (avp A) = avs_find A (std_name t)"
    if "t < ATTR_NULL" "t \<noteq> ATTR_COLOR" "t \<noteq> ATTR_SHADER" for t
  proof (rule first_of_type_find[OF assms(1) std_table(1)[OF that(1)]])
    fix m
    assume "m \<in> fst ` set (avp A)" "db5_standardize_attribute (Some m) = t"
    then show "m = std_name t" using kinds[OF names] that(2,3) by blast
  qed
  have firstc: "first_of_type ATTR_COLOR (avp A) = avs_find A ''rgb''"
  proof (rule first_of_type_find[OF assms(1) name_types(3)])
    fix m
    assume m: "m \<in> fst ` set (avp A)" "db5_standardize_attribute (Some m) = ATTR_COLOR"
    have "m \<noteq> ''color''" using names[OF m(1)] unfolding comb_names_def by force
    then show "m = ''rgb''" using kinds[OF names[OF m(1)] m(2)] attr_neq unfolding std_names by blast
  qed
  have sh: "first_of_type ATTR_SHADER (avp A) = None" if "avs_find A ''shader'' = None"
  proof (rule first_of_type_None, rule ballI, rule notI)
    fix p
    assume p: "p \<in> set (avp A)" "db5_standardize_attribute (Some (fst p)) = ATTR_SHADER"
    then have "fst p \<in> {''shader'', ''oshader''}"
      using kinds[of "fst p", OF names p(2)] p(1) attr_neq unfolding std_names by blast
    moreover have "fst p \<in> fst ` set (avp A)" using p(1) by simp
    then have "avs_find A (fst p) \<noteq> None" using avs_find_None[OF assms(1)] by blast
    moreover have "avs_find A ''oshader'' = None" using that by (simp add: f split: if_splits)
    ultimately show False using that by auto
  qed
  note sf = standardize_find[OF assms(1), folded S_def, unfolded std_lookup_def]
  have "\<not> boolean_attribute t" if "t \<in> {ATTR_COLOR, ATTR_SHADER, ATTR_REGION_ID, ATTR_AIR, ATTR_MATERIAL_ID, ATTR_LOS}" for t
    using that by (auto simp: boolean_attribute_def attr_defs)
  then have nv: "norm_value t v = Some v"
    if "t \<in> {ATTR_COLOR, ATTR_SHADER, ATTR_REGION_ID, ATTR_AIR, ATTR_MATERIAL_ID, ATTR_LOS}" for t v
    using that by (simp add: norm_value_def)
  have fb: "first_of_type t (avp A) = None" if "own_names A t" "avs_find A (std_name t) = None" for t
  proof -
    have "std_name t \<notin> fst ` set (avp A)" using that(2) avs_find_None[OF assms(1)] by simp
    then show ?thesis using that(1) by (intro first_of_type_None) (force simp: own_names_def)
  qed
  show "avs_find S ''region'' = (if region_flag c \<noteq> 0 then Some ''R'' else None)"
    using sf[OF attr_null(3) own(1)] fb[OF own(1)] true_marks
    by (auto simp: f norm_value_def boolean_attribute_def split: if_splits)
  show "avs_find S ''inherit'' = (if inherit_flag c \<noteq> 0 then Some ''1'' else None)"
    using sf[OF attr_null(2) own(2)] fb[OF own(2)] true_marks
      attr_neq(15) by (auto simp: f norm_value_def boolean_attribute_def split: if_splits)
  have nb: "boolean_attribute t \<Longrightarrow> own_names A t"
    if "t \<in> {ATTR_COLOR, ATTR_SHADER, ATTR_REGION_ID, ATTR_AIR, ATTR_MATERIAL_ID, ATTR_LOS}" for t
    using that by (auto simp: boolean_attribute_def attr_defs)
  show "avs_find S ''color'' = (if rgb_valid c \<noteq> 0 then Some (print_rgb (rgb c)) else None)"
    using sf[OF attr_null(1) nb] firstc nv[of ATTR_COLOR] attr_null attr_neq by (simp add: f)
  show "avs_find S ''shader'' = (if shader c \<noteq> [] then Some (shader c) else None)"
    using sf[OF attr_null(8) nb] sh nv[of ATTR_SHADER] attr_null attr_neq by (simp add: f)
  show "avs_find S ''region_id'' = (if region_id c \<noteq> 0 then Some (print_long (sint (region_id c))) else None)"
    using sf[OF attr_null(4) nb] first[of ATTR_REGION_ID] nv[of ATTR_REGION_ID] attr_null attr_neq by (simp add: f)
  show "avs_find S ''aircode'' = (if aircode c \<noteq> 0 then Some (print_long (sint (aircode c))) else None)"
    using sf[OF attr_null(5) nb] first[of ATTR_AIR] nv[of ATTR_AIR] attr_null attr_neq by (simp add: f)
  show "avs_find S ''material_id'' = (if GIFTmater c \<noteq> 0 then Some (print_long (sint (GIFTmater c))) else None)"
    using sf[OF attr_null(6) nb] first[of ATTR_MATERIAL_ID] nv[of ATTR_MATERIAL_ID] attr_null attr_neq by (simp add: f)
  show "avs_find S ''los'' = (if los c \<noteq> 0 then Some (print_long (sint (los c))) else None)"
    using sf[OF attr_null(7) nb] first[of ATTR_LOS] nv[of ATTR_LOS] attr_null attr_neq by (simp add: f)
qed

lemma same_avp: "avp a = avp b \<Longrightarrow> avs_find a k = avs_find b k"
  unfolding avs_find_def bu_avs_get_def by (simp only:)

lemma export_full: "avs_full (comb_export_attributes c None)"
proof -
  have "comb_export_attributes c None = comb_export_attributes c (Some (bu_avs_init 32))"
    by (simp add: comb_export_attributes_def)
  then show ?thesis using export_find(1)[OF full_init(2)] by simp
qed

lemma fastgen_marks: "atoi ''1'' = 1"
  by code_simp

text \<open>What the import makes of a set in which the standard names have been settled.\<close>

definition imported_fields :: "rt_comb_internal \<Rightarrow> rt_comb_internal" where
  "imported_fields c = RT_COMB_INTERNAL_INIT
     \<lparr>ctree := ctree c,
      rgb_valid := (if rgb_valid c \<noteq> 0 then 1 else 0), rgb := (if rgb_valid c \<noteq> 0 then rgb c else (0, 0, 0)),
      inherit_flag := (if inherit_flag c \<noteq> 0 then 1 else 0), shader := shader c,
      region_flag := (if region_flag c \<noteq> 0 then 1 else 0),
      region_id := (if region_flag c \<noteq> 0 then region_id c else 0),
      aircode := (if region_flag c \<noteq> 0 then aircode c else 0),
      GIFTmater := (if region_flag c \<noteq> 0 then GIFTmater c else 0),
      los := (if region_flag c \<noteq> 0 then los c else 0)\<rparr>"

lemma get_attr_if:
  "avs_find avs (std_name t) = (if b then Some x else None) \<Longrightarrow> t < ATTR_NULL \<Longrightarrow>
     get_attr avs t fld comb = (if b then fld x comb else comb)"
  by (simp add: get_attr_find)

lemma number_fields:
  "(if w \<noteq> 0 then comb\<lparr>region_id := w\<rparr> else comb) = comb\<lparr>region_id := (if w \<noteq> 0 then w else region_id comb)\<rparr>"
  "(if w \<noteq> 0 then comb\<lparr>aircode := w\<rparr> else comb) = comb\<lparr>aircode := (if w \<noteq> 0 then w else aircode comb)\<rparr>"
  "(if w \<noteq> 0 then comb\<lparr>GIFTmater := w\<rparr> else comb) = comb\<lparr>GIFTmater := (if w \<noteq> 0 then w else GIFTmater comb)\<rparr>"
  "(if w \<noteq> 0 then comb\<lparr>los := w\<rparr> else comb) = comb\<lparr>los := (if w \<noteq> 0 then w else los comb)\<rparr>"
  by simp_all

lemma import_settled:
  assumes "avs_full A" "\<And>k. avs_find A k = avs_find (comb_export_attributes c None) k"
  shows "comb_import_attributes (Some (snd (db5_standardize_avs A))) (RT_COMB_INTERNAL_INIT\<lparr>ctree := ctree c\<rparr>)
    = imported_fields c"
proof -
  note f = fresh_export_find[OF assms]
  obtain r g b where rgb: "rgb c = (r, g, b)" by (cases "rgb c") auto
  have uu: "ucast (ucast x :: 32 word) = x" for x :: byte by (rule bit_word_eqI) (auto simp: bit_simps)
  let ?S = "snd (db5_standardize_avs A)"
  note g = get_attr_if[OF _ attr_null(1), of ?S, unfolded std_names, OF f(3)]
    get_attr_if[OF _ attr_null(2), of ?S, unfolded std_names, OF f(2)]
    get_attr_if[OF _ attr_null(3), of ?S, unfolded std_names, OF f(1)]
    get_attr_if[OF _ attr_null(4), of ?S, unfolded std_names, OF f(5)]
    get_attr_if[OF _ attr_null(5), of ?S, unfolded std_names, OF f(6)]
    get_attr_if[OF _ attr_null(6), of ?S, unfolded std_names, OF f(7)]
    get_attr_if[OF _ attr_null(7), of ?S, unfolded std_names, OF f(8)]
    get_attr_if[OF _ attr_null(8), of ?S, unfolded std_names, OF f(4)]
  have sh: "(if shader c \<noteq> [] then comb\<lparr>shader := shader comb @ shader c\<rparr> else comb)
      = comb\<lparr>shader := shader comb @ shader c\<rparr>" for comb :: rt_comb_internal
    by simp
  show ?thesis
    unfolding comb_import_attributes_def option.case Let_def g atol_print number_fields sh
    by (cases "region_flag c = 0"; cases "inherit_flag c = 0"; cases "rgb_valid c = 0")
      (simp_all add: imported_fields_def RT_COMB_INTERNAL_INIT_def rgb sscanf_print_rgb uu fastgen_marks)
qed

text \<open>The color is what the attribute \<open>color\<close> says.\<close>

lemma import_color:
  "(rgb (comb_import_attributes (Some avs) comb), rgb_valid (comb_import_attributes (Some avs) comb))
    = (case Option.bind (avs_find avs ''color'') sscanf_rgb of
         Some (r, g, b) \<Rightarrow> ((ucast r, ucast g, ucast b), 1) | None \<Rightarrow> (rgb comb, 0))"
proof -
  have r: "rgb (get_attr avs t fld c) = rgb c" "rgb_valid (get_attr avs t fld c) = rgb_valid c"
    if "\<And>ap c. rgb (fld ap c) = rgb c" "\<And>ap c. rgb_valid (fld ap c) = rgb_valid c" for t fld c
    using get_attr_keeps[of rgb fld, OF that(1)] get_attr_keeps[of rgb_valid fld, OF that(2)] by simp_all
  show ?thesis
    by (simp add: comb_import_attributes_def Let_def r split: list.split)
      (simp add: get_attr_find attr_null(1) std_names split: option.splits prod.splits)
qed

section \<open>Properties\<close>

text \<open>Standardizing a set of attributes leaves under each standard name that is not Boolean
  the value it had, or else the value of the first alias in the set; Boolean ones are reduced
  to a mark or removed (when no other spelling of the name is in the set); attributes that
  are not standard keep their value; and the set stays well formed.\<close>

theorem standardize_avs_values:
  assumes "avs_full avs" "t < ATTR_NULL" "db5_standardize_attribute (Some k) = ATTR_NULL"
  shows "avs_full (snd (db5_standardize_avs avs))
    \<and> (\<not> boolean_attribute t \<longrightarrow> avs_find (snd (db5_standardize_avs avs)) (std_name t)
         = (case avs_find avs (std_name t) of Some v \<Rightarrow> Some v | None \<Rightarrow> first_of_type t (avp avs)))
    \<and> (boolean_attribute t \<and> own_names avs t \<longrightarrow> avs_find (snd (db5_standardize_avs avs)) (std_name t)
         = Option.bind (avs_find avs (std_name t)) (norm_value t))
    \<and> avs_find (snd (db5_standardize_avs avs)) k = avs_find avs k"
proof -
  have "first_of_type t (avp avs) = None" if "own_names avs t" "avs_find avs (std_name t) = None"
  proof -
    have "std_name t \<notin> fst ` set (avp avs)" using that(2) avs_find_None[OF assms(1)] by simp
    then show ?thesis using that(1) by (intro first_of_type_None) (force simp: own_names_def)
  qed
  then show ?thesis
    using standardize_result(1)[OF assms(1)] standardize_find[OF assms(1,2)]
      standardize_find_other[OF assms(1,3)]
    by (auto simp: std_lookup_def norm_value_def split: option.splits)
qed

theorem standardize_avs_values_witness:
  "avs_find (snd (db5_standardize_avs \<lparr>avp = [(''rgb'', Some ''1/2/3''), (''note'', Some ''x'')], avs_max = 4\<rparr>))
     ''color'' = Some ''1/2/3''"
proof -
  let ?a = "\<lparr>avp = [(''rgb'', Some ''1/2/3''), (''note'', Some ''x'')], avs_max = 4\<rparr>"
  have "avs_full ?a" by (simp add: avs_full_def avs_wf_def)
  moreover have "db5_standardize_attribute (Some ''note'') = ATTR_NULL" by code_simp
  moreover have "avs_find ?a ''color'' = None"
    by (simp add: avs_find_map_of)
  ultimately show ?thesis
    using standardize_avs_values[of ?a ATTR_COLOR "''note''"] attr_null(1)
    by (simp add: boolean_attribute_def attr_defs std_names[unfolded attr_defs] name_types[unfolded attr_defs])
qed


text \<open>A FASTGEN region.\<close>

definition plate :: rt_comb_internal where
  "plate = RT_COMB_INTERNAL_INIT\<lparr>region_flag := 1, is_fastgen := REGION_FASTGEN_PLATE, region_id := 7\<rparr>"




end
