(* ===== verification/CsgCombProof.thy ===== *)
theory CsgCombProof
  imports CsgComb
begin

text \<open>
  The round trip of a combination's tree through its on-disk form: what the
  counting pass computes, what the serializing pass writes, how a leaf and an
  expression are read back, and the two together.
\<close>

section \<open>Trees that can be stored\<close>

fun leaf_ok :: "mat leaf \<Rightarrow> bool" where
  "leaf_ok (OP_DB_LEAF n m) =
     (no_nul n \<and> (case m of None \<Rightarrow> True | Some x \<Rightarrow> length x = 8 * ELEMENTS_PER_MAT))"
| "leaf_ok _ = False"

fun ser_tree :: "mat tree \<Rightarrow> bool" where
  "ser_tree OP_NOP = False"
| "ser_tree (Leaf l) = leaf_ok l"
| "ser_tree (Unary u t) = (u = OP_NOT \<and> ser_tree t)"
| "ser_tree (Binary b l r) = (ser_tree l \<and> ser_tree r)"

lemma ser_tree_leaf_ok: "ser_tree t \<Longrightarrow> l \<in> set (leaves t) \<Longrightarrow> leaf_ok l"
  by (induction t) auto

lemma leaf_okE:
  assumes "leaf_ok l"
  obtains n m where "l = OP_DB_LEAF n m" "no_nul n"
    "\<And>x. m = Some x \<Longrightarrow> length x = 8 * ELEMENTS_PER_MAT"
  using assms by (cases l) (auto split: option.splits)

fun leaf_mat :: "(mat \<Rightarrow> bool) \<Rightarrow> mat leaf \<Rightarrow> mat option" where
  "leaf_mat isid (OP_DB_LEAF n m) = stored_mat isid m"
| "leaf_mat isid _ = None"

definition stored_mats :: "(mat \<Rightarrow> bool) \<Rightarrow> mat leaf list \<Rightarrow> mat list" where
  "stored_mats isid ls = concat (map (\<lambda>l. case leaf_mat isid l of None \<Rightarrow> [] | Some x \<Rightarrow> [x]) ls)"

lemma stored_mats_simps [simp]:
  "stored_mats isid [] = []"
  "stored_mats isid (l # ls) =
     (case leaf_mat isid l of None \<Rightarrow> [] | Some x \<Rightarrow> [x]) @ stored_mats isid ls"
  "stored_mats isid (ls @ ls') = stored_mats isid ls @ stored_mats isid ls'"
  by (simp_all add: stored_mats_def)

lemma stored_matD: "stored_mat isid m = Some x \<Longrightarrow> m = Some x \<and> \<not> isid x"
  by (auto simp: stored_mat_def split: option.splits if_splits)

lemma leaf_mat_length:
  assumes "leaf_ok l" "leaf_mat isid l = Some x"
  shows "length x = 8 * ELEMENTS_PER_MAT"
  using assms by (cases rule: leaf_okE) (auto dest: stored_matD)

lemma stored_mats_length:
  "\<forall>l\<in>set ls. leaf_ok l \<Longrightarrow> \<forall>x\<in>set (stored_mats isid ls). length x = 8 * ELEMENTS_PER_MAT"
proof (induction ls)
  case (Cons l ls)
  then show ?case using leaf_mat_length[of l isid] by (auto split: option.splits)
qed simp

lemma length_stored_mats: "length (stored_mats isid ls) \<le> length ls"
  by (induction ls) (auto split: option.splits)

fun rpn :: "mat tree \<Rightarrow> byte list" where
  "rpn OP_NOP = []"
| "rpn (Leaf l) = [DB5COMB_TOKEN_LEAF]"
| "rpn (Unary u t) = rpn t @ [DB5COMB_TOKEN_NOT]"
| "rpn (Binary b l r) = rpn l @ rpn r @ [binop_token b]"

fun opers :: "mat tree \<Rightarrow> nat" where
  "opers (Unary u t) = Suc (opers t)"
| "opers (Binary b l r) = Suc (opers l + opers r)"
| "opers _ = 0"

fun only_unions :: "'m tree \<Rightarrow> bool" where
  "only_unions (Binary b l r) = (b = OP_UNION \<and> only_unions l \<and> only_unions r)"
| "only_unions (Unary u t) = False"
| "only_unions t = True"

lemma length_rpn: "ser_tree t \<Longrightarrow> length (rpn t) = length (leaves t) + opers t"
  by (induction t) auto

definition name_bytes :: "mat leaf list \<Rightarrow> nat" where
  "name_bytes ls = sum_list (map (\<lambda>l. length (leaf_name l) + 9) ls)"

lemma name_bytes_simps [simp]:
  "name_bytes [] = 0" "name_bytes (l # ls) = length (leaf_name l) + 9 + name_bytes ls"
  "name_bytes (ls @ ls') = name_bytes ls + name_bytes ls'"
  by (simp_all add: name_bytes_def)

lemma name_bytes_ge: "9 * length ls \<le> name_bytes ls"
  by (induction ls) auto

section \<open>The counting pass\<close>

fun counted_depth :: "'m tree \<Rightarrow> nat" where
  "counted_depth (Binary b l r) = max (counted_depth l) (counted_depth r)"
| "counted_depth (Unary u t) = 1 + counted_depth t"
| "counted_depth t = 1"

lemma db_tree_counter_spec:
  "ser_tree t \<Longrightarrow> db_tree_counter isid t tcs = Some (counted_depth t,
     \<lparr>n_mat = n_mat tcs + length (stored_mats isid (leaves t)),
      n_leaf = n_leaf tcs + length (leaves t),
      n_oper = n_oper tcs + opers t,
      leafbytes = leafbytes tcs + name_bytes (leaves t),
      non_union_seen = (non_union_seen tcs \<or> \<not> only_unions t)\<rparr>)"
proof (induction isid t tcs rule: db_tree_counter.induct)
  case (1 isid name m tcs)
  then show ?case by (cases tcs) (auto split: option.splits)
qed (auto simp: max_def)

lemma counted_depth_no_not:
  "comb_tree t \<Longrightarrow> counted_depth t = 1"
  by (induction rule: comb_tree_induct) auto

section \<open>The serializing pass\<close>

definition len_bytes :: "size_t \<Rightarrow> nat \<Rightarrow> byte list" where
  "len_bytes v w = (case db5_encode_length v w of None \<Rightarrow> [] | Some bs \<Rightarrow> bs)"

lemma db5_encode_length_bytes:
  "w \<le> 3 \<Longrightarrow> db5_encode_length v w = Some (len_bytes v w)"
  using db5_encode_length_length[of w v] by (auto simp: len_bytes_def)

lemma length_len_bytes: "w \<le> 3 \<Longrightarrow> length (len_bytes v w) = ENCODE_LEN w"
  using db5_encode_length_length[of w v] by (auto simp: len_bytes_def)

definition mat_index :: "mat option \<Rightarrow> nat \<Rightarrow> size_t" where
  "mat_index m k = (case m of None \<Rightarrow> - 1 | Some x \<Rightarrow> of_nat k)"

fun leaf_bytes :: "(mat \<Rightarrow> bool) \<Rightarrow> nat \<Rightarrow> nat \<Rightarrow> mat leaf list \<Rightarrow> byte list" where
  "leaf_bytes isid w k [] = []"
| "leaf_bytes isid w k (l # ls) =
     bytes_of (leaf_name l) @ 0 # len_bytes (mat_index (leaf_mat isid l) k) w
       @ leaf_bytes isid w (k + length (stored_mats isid [l])) ls"

lemma leaf_bytes_append:
  "leaf_bytes isid w k (ls @ ls') =
     leaf_bytes isid w k ls @ leaf_bytes isid w (k + length (stored_mats isid ls)) ls'"
  by (induction ls arbitrary: k) (auto simp: add.assoc)

lemma length_leaf_bytes:
  "w \<le> 3 \<Longrightarrow> length (leaf_bytes isid w k ls) + length ls * (8 - ENCODE_LEN w) = name_bytes ls"
proof (induction ls arbitrary: k)
  case (Cons l ls)
  have "ENCODE_LEN w \<le> 8"
    using Cons.prems power_increasing[of w 3 "2::nat"] by (simp add: ENCODE_LEN_def)
  with Cons show ?case by (fastforce simp: length_len_bytes)
qed simp

definition mat_bytes :: "bu_endian_t \<Rightarrow> mat list \<Rightarrow> byte list" where
  "mat_bytes order ms = concat (map (\<lambda>x. case bu_cv_htond order x ELEMENTS_PER_MAT of
                                       None \<Rightarrow> [] | Some bs \<Rightarrow> bs) ms)"

lemma mat_bytes_simps [simp]:
  "mat_bytes order [] = []"
  "mat_bytes order (ms @ ms') = mat_bytes order ms @ mat_bytes order ms'"
  by (simp_all add: mat_bytes_def)

lemma length_mat_bytes:
  assumes "order \<noteq> BU_PDP_ENDIAN" "\<forall>x\<in>set ms. length x = 8 * ELEMENTS_PER_MAT"
  shows "length (mat_bytes order ms) = length ms * 128"
  using assms(2)
proof (induction ms)
  case (Cons x ms)
  then have "length x = 8 * ELEMENTS_PER_MAT" by simp
  with Cons bu_cv_double_roundtrip[OF assms(1)] show ?case
    by (fastforce simp: mat_bytes_def ELEMENTS_PER_MAT_def)
qed simp

lemma serialize_spec:
  "order \<noteq> BU_PDP_ENDIAN \<Longrightarrow> ser_tree t \<Longrightarrow> wid ss \<le> 3 \<Longrightarrow>
     mat_num ss + length (stored_mats isid (leaves t)) \<le> nmat ss \<Longrightarrow>
     rt_comb_v5_serialize order isid t ss = Some
       (ss\<lparr>mat_num := mat_num ss + length (stored_mats isid (leaves t)),
           matp := matp ss @ mat_bytes order (stored_mats isid (leaves t)),
           leafp := leafp ss @ leaf_bytes isid (wid ss) (mat_num ss) (leaves t),
           exprp := map_option (\<lambda>e. e @ rpn t) (exprp ss)\<rparr>)"
proof (induction order isid t ss rule: rt_comb_v5_serialize.induct)
  case (1 order isid name m ss)
  show ?case
  proof (cases "stored_mat isid m")
    case None
    then show ?thesis using 1
      by (simp add: serialize_leaf_def put_token_def db5_encode_length_bytes mat_index_def)
  next
    case (Some x)
    then have "length x = 8 * ELEMENTS_PER_MAT" using 1 by (auto dest: stored_matD)
    then obtain bs where "bu_cv_htond order x ELEMENTS_PER_MAT = Some bs"
      using bu_cv_double_roundtrip "1.prems"(1) by blast
    then show ?thesis using 1 Some
      by (simp add: serialize_leaf_def put_token_def db5_encode_length_bytes mat_index_def
          mat_bytes_def Let_def)
  qed
next
  case (3 order isid op l r ss)
  then show ?case by (simp add: put_token_def leaf_bytes_append add.assoc option.map_comp comp_def)
qed (auto simp: put_token_def option.map_comp comp_def)


section \<open>Reading a leaf back\<close>

fun imported_leaf ::
  "(mat \<Rightarrow> bool) \<Rightarrow> (mat \<Rightarrow> mat \<Rightarrow> mat) \<Rightarrow> mat option \<Rightarrow> mat leaf \<Rightarrow> mat leaf" where
  "imported_leaf isid mmul arg (OP_DB_LEAF n m) =
     OP_DB_LEAF n (import_mat isid mmul arg (stored_mat isid m))"
| "imported_leaf isid mmul arg l = l"

fun map_leaves :: "('m leaf \<Rightarrow> 'm leaf) \<Rightarrow> 'm tree \<Rightarrow> 'm tree" where
  "map_leaves f OP_NOP = OP_NOP"
| "map_leaves f (Leaf l) = Leaf (f l)"
| "map_leaves f (Unary u t) = Unary u (map_leaves f t)"
| "map_leaves f (Binary b l r) = Binary b (map_leaves f l) (map_leaves f r)"

lemma leaves_map_leaves [simp]: "leaves (map_leaves f t) = map f (leaves t)"
  by (induction t) auto

lemma inside_map_leaves: "inside \<rho> (map_leaves f t) = inside (\<lambda>l. \<rho> (f l)) t"
  by (induction t) auto

lemma unat_mat_offset:
  assumes "k < 2 ^ 31"
  shows "unat (of_nat k * 16 * 8 :: size_t) = k * 128"
proof -
  have "(of_nat k * 16 * 8 :: size_t) = of_nat (k * 128)" by simp
  moreover have "k * 128 < 2 ^ 64" using assms by simp
  ultimately show ?thesis by (simp add: unat_size_of_nat del: of_nat_mult)
qed

lemma mat_bytes_at:
  assumes "order \<noteq> BU_PDP_ENDIAN" "\<forall>x\<in>set ms. length x = 8 * ELEMENTS_PER_MAT"
    "ms = ms1 @ x # ms2"
  shows "bu_cv_ntohd order (drop (length ms1 * 128) (mat_bytes order ms @ rest)) ELEMENTS_PER_MAT
       = Some x"
proof -
  have x: "length x = 8 * ELEMENTS_PER_MAT" using assms(2,3) by simp
  obtain out where out: "bu_cv_htond order x ELEMENTS_PER_MAT = Some out"
    "\<And>rest. bu_cv_ntohd order (out @ rest) ELEMENTS_PER_MAT = Some x"
    using bu_cv_double_roundtrip[OF assms(1) x] by blast
  have "length (mat_bytes order ms1) = length ms1 * 128"
    using length_mat_bytes[OF assms(1)] assms(2,3) by simp
  moreover have "mat_bytes order ms @ rest
      = mat_bytes order ms1 @ out @ mat_bytes order ms2 @ rest"
    using out(1) by (simp add: assms(3) mat_bytes_def)
  ultimately show ?thesis using out(2) by simp
qed

text \<open>A buffer laid out as the export lays it out, and the conditions on its width and
  on the negative test under which its leaves can be read.\<close>

definition comb_buffer ::
  "bu_endian_t \<Rightarrow> (mat \<Rightarrow> bool) \<Rightarrow> byte list \<Rightarrow> byte list \<Rightarrow> mat leaf list \<Rightarrow> nat \<Rightarrow> byte list" where
  "comb_buffer order isid H E ls w =
     H @ mat_bytes order (stored_mats isid ls) @ leaf_bytes isid w 0 ls @ E"

definition leaf_off :: "(mat \<Rightarrow> bool) \<Rightarrow> byte list \<Rightarrow> mat leaf list \<Rightarrow> nat \<Rightarrow> nat \<Rightarrow> nat" where
  "leaf_off isid H ls w i = length H + length (stored_mats isid ls) * 128
     + length (leaf_bytes isid w 0 (take i ls))"

definition readable ::
  "bu_endian_t \<Rightarrow> (mat \<Rightarrow> bool) \<Rightarrow> mat leaf list \<Rightarrow> nat \<Rightarrow> (size_t \<Rightarrow> bool) \<Rightarrow> bool" where
  "readable order isid ls w neg \<longleftrightarrow>
     order \<noteq> BU_PDP_ENDIAN \<and> (\<forall>l\<in>set ls. leaf_ok l) \<and> w \<le> 3
     \<and> length (stored_mats isid ls) < 2 ^ 31 \<and> neg (- 1)
     \<and> (\<forall>k < length (stored_mats isid ls). fits_signed (of_nat k) w \<and> \<not> neg (of_nat k))"

lemma drop_leaf_off:
  assumes "readable order isid ls w neg" "i < length ls"
  shows "drop (leaf_off isid H ls w i) (comb_buffer order isid H E ls w) =
    bytes_of (leaf_name (ls ! i)) @ 0 #
      len_bytes (mat_index (leaf_mat isid (ls ! i)) (length (stored_mats isid (take i ls)))) w
      @ leaf_bytes isid w (length (stored_mats isid (take (Suc i) ls))) (drop (Suc i) ls) @ E"
proof -
  let ?k = "length (stored_mats isid (take i ls))"
  have "leaf_bytes isid w 0 ls = leaf_bytes isid w 0 (take i ls @ drop i ls)" by simp
  also have "\<dots> = leaf_bytes isid w 0 (take i ls) @ leaf_bytes isid w ?k (drop i ls)"
    by (simp only: leaf_bytes_append) simp
  finally have "leaf_bytes isid w 0 ls
      = leaf_bytes isid w 0 (take i ls) @ leaf_bytes isid w ?k (ls ! i # drop (Suc i) ls)"
    using assms by (simp add: Cons_nth_drop_Suc)
  moreover have "length (mat_bytes order (stored_mats isid ls)) = length (stored_mats isid ls) * 128"
    using assms(1) length_mat_bytes[of order, OF _ stored_mats_length] by (simp add: readable_def)
  ultimately show ?thesis
    using assms by (simp add: comb_buffer_def leaf_off_def take_Suc_conv_app_nth)
qed

lemma leaf_off_Suc:
  assumes "w \<le> 3" "i < length ls"
  shows "leaf_off isid H ls w (Suc i)
    = leaf_off isid H ls w i + length (leaf_name (ls ! i)) + 1 + ENCODE_LEN w"
  using assms(2)
  by (simp add: leaf_off_def take_Suc_conv_app_nth leaf_bytes_append length_len_bytes[OF assms(1)])

lemma mat_at:
  assumes "readable order isid ls w neg" "i < length ls" "leaf_mat isid (ls ! i) = Some x"
    and k: "k = length (stored_mats isid (take i ls))"
  shows "k < length (stored_mats isid ls)"
    and "bu_cv_ntohd order (drop (length H + k * 128) (comb_buffer order isid H E ls w))
           ELEMENTS_PER_MAT = Some x"
proof -
  have "stored_mats isid ls = stored_mats isid (take i ls @ ls ! i # drop (Suc i) ls)"
    using assms(2) by (simp add: Cons_nth_drop_Suc)
  then have split: "stored_mats isid ls = stored_mats isid (take i ls) @ x
      # stored_mats isid (drop (Suc i) ls)"
    using assms(3) by simp
  then show "k < length (stored_mats isid ls)" by (simp add: k)
  have o: "order \<noteq> BU_PDP_ENDIAN" and oks: "\<forall>l\<in>set ls. leaf_ok l"
    using assms(1) by (auto simp: readable_def)
  have "drop (length H + k * 128) (comb_buffer order isid H E ls w)
      = drop (length (stored_mats isid (take i ls)) * 128)
        (mat_bytes order (stored_mats isid ls) @ leaf_bytes isid w 0 ls @ E)"
    by (simp add: comb_buffer_def k)
  then show "bu_cv_ntohd order (drop (length H + k * 128) (comb_buffer order isid H E ls w))
           ELEMENTS_PER_MAT = Some x"
    by (simp only: mat_bytes_at[OF o stored_mats_length[OF oks] split])
qed

lemma import_leaf_at:
  assumes r: "readable order isid ls w neg" and i: "i < length ls"
  shows "import_leaf neg order isid mmul arg (comb_buffer order isid H E ls w) (length H)
      (of_nat (length (stored_mats isid ls))) w (leaf_off isid H ls w i)
    = Some (imported_leaf isid mmul arg (ls ! i), leaf_off isid H ls w (Suc i))"
proof -
  let ?k = "length (stored_mats isid (take i ls))" and ?o = "leaf_off isid H ls w i"
  let ?buf = "comb_buffer order isid H E ls w"
  have width: "w \<le> 3" and few: "length (stored_mats isid ls) < 2 ^ 31" and neg: "neg (- 1)"
    and index: "\<And>k. k < length (stored_mats isid ls) \<Longrightarrow>
      fits_signed (of_nat k) w \<and> \<not> neg (of_nat k)" and "leaf_ok (ls ! i)"
    using r i by (auto simp: readable_def)
  from \<open>leaf_ok (ls ! i)\<close> obtain n m where l: "ls ! i = OP_DB_LEAF n m" "no_nul n"
    by (rule leaf_okE)
  note d = drop_leaf_off[OF r i, of H E, unfolded l(1)]
  have name: "c_string (drop ?o ?buf) = Some (bytes_of n)"
    using l(2) by (simp add: d)
  have mi: "fits_signed (mat_index (leaf_mat isid (ls ! i)) ?k) w"
    using mat_at(1)[OF r i _ refl] index width
    by (auto simp: mat_index_def fits_signed_def split: option.splits)
  have "drop (?o + length n + 1) ?buf = drop (length n + 1) (drop ?o ?buf)"
    by (simp add: add.commute add.left_commute)
  also have "\<dots> = len_bytes (mat_index (leaf_mat isid (ls ! i)) ?k) w
      @ leaf_bytes isid w (length (stored_mats isid (take (Suc i) ls))) (drop (Suc i) ls) @ E"
    using l(1) by (simp add: d)
  finally have "db5_decode_signed (drop (?o + length n + 1) ?buf) w
      = Some (mat_index (leaf_mat isid (ls ! i)) ?k, ENCODE_LEN w)"
    using db5_decode_signed_encode[OF mi db5_encode_length_bytes[OF width]]
    by (simp only: length_len_bytes[OF width])
  note facts = name this leaf_off_Suc[OF width i]
  show ?thesis
  proof (cases "stored_mat isid m")
    case None
    then show ?thesis using facts l neg by (simp add: import_leaf_def mat_index_def)
  next
    case (Some x)
    then have x: "leaf_mat isid (ls ! i) = Some x" using l by simp
    note at = mat_at[OF r i x refl]
    have k: "?k < 2 ^ 31" using at(1) few by simp
    have "(of_nat ?k :: size_t) < of_nat (length (stored_mats isid ls))"
      using at(1) few by (simp add: word_less_nat_alt unat_size_of_nat)
    then show ?thesis
      using facts l Some x index[OF at(1)] at(2) unat_mat_offset[OF k]
      by (simp add: import_leaf_def mat_index_def)
  qed
qed

lemma import_leaves_from:
  assumes "readable order isid ls w neg"
  shows "i + n \<le> length ls \<Longrightarrow>
     import_leaves (import_leaf neg order isid mmul arg (comb_buffer order isid H E ls w) (length H)
         (of_nat (length (stored_mats isid ls))) w) n (leaf_off isid H ls w i)
     = Some (map (imported_leaf isid mmul arg) (take n (drop i ls)), leaf_off isid H ls w (i + n))"
proof (induction n arbitrary: i)
  case (Suc n)
  then have i: "i < length ls" by simp
  have "take (Suc n) (drop i ls) = ls ! i # take n (drop (Suc i) ls)"
    using i by (metis Cons_nth_drop_Suc take_Suc_Cons)
  with Suc import_leaf_at[OF assms i] show ?case by simp
qed simp

section \<open>Running the expression\<close>

fun stack_need :: "'m tree \<Rightarrow> nat" where
  "stack_need (Binary b l r) = max (stack_need l) (Suc (stack_need r))"
| "stack_need (Unary u t) = stack_need t"
| "stack_need t = 1"

lemma stack_need_pos: "0 < stack_need t"
  by (induction t rule: stack_need.induct) auto

lemma rpn_loop_tree:
  assumes "ser_tree t"
    and "\<And>j. j < length (leaves t) \<Longrightarrow> rd (off (i + j)) = Some (f (leaves t ! j), off (Suc (i + j)))"
    and "length stack + stack_need t \<le> MAX_V5_STACK"
  shows "rpn_loop rd (length (rpn t) + n) (rpn t @ expr) (off i) stack
       = rpn_loop rd n expr (off (i + length (leaves t))) (map_leaves f t # stack)"
  using assms
proof (induction t arbitrary: i stack n expr)
  case (Leaf l)
  then show ?case using Leaf.prems(2)[of 0] by (simp add: Let_def)
next
  case (Unary u t)
  from Unary.IH[of i stack "Suc n" "DB5COMB_TOKEN_NOT # expr"] Unary.prems
  show ?case using stack_need_pos[of t] by (simp add: token_defs)
next
  case (Binary b l r)
  have "rpn_loop rd (length (rpn l) + (length (rpn r) + Suc n))
      (rpn l @ (rpn r @ binop_token b # expr)) (off i) stack
    = rpn_loop rd (length (rpn r) + Suc n) (rpn r @ binop_token b # expr)
        (off (i + length (leaves l))) (map_leaves f l # stack)"
    using Binary.prems Binary.prems(2)[of "j" for j]
    by (intro Binary.IH(1)) (auto simp: nth_append)
  also have "\<dots> = rpn_loop rd (Suc n) (binop_token b # expr)
      (off (i + length (leaves l) + length (leaves r))) (map_leaves f r # map_leaves f l # stack)"
  proof (rule Binary.IH(2))
    fix j assume "j < length (leaves r)"
    then show "rd (off (i + length (leaves l) + j))
        = Some (f (leaves r ! j), off (Suc (i + length (leaves l) + j)))"
      using Binary.prems(2)[of "length (leaves l) + j"] by (simp add: nth_append add.assoc)
  qed (use Binary.prems in auto)
  finally show ?case
    using Binary.prems(3) stack_need_pos[of r]
    by (cases b) (auto simp: token_defs add.assoc)
qed simp


section \<open>The balanced union tree\<close>

fun tree_height :: "'m tree \<Rightarrow> nat" where
  "tree_height (Binary b l r) = Suc (max (tree_height l) (tree_height r))"
| "tree_height (Unary u t) = Suc (tree_height t)"
| "tree_height t = 0"

lemma union_pairs_leaves: "concat (map leaves (union_pairs ts)) = concat (map leaves ts)"
  by (induction ts rule: union_pairs.induct) auto

lemma union_pairs_inside:
  "(\<exists>t\<in>set (union_pairs ts). inside \<rho> t) \<longleftrightarrow> (\<exists>t\<in>set ts. inside \<rho> t)"
  by (induction ts rule: union_pairs.induct) auto

lemma union_pairs_height:
  "\<forall>t\<in>set ts. tree_height t \<le> h \<Longrightarrow> \<forall>t\<in>set (union_pairs ts). tree_height t \<le> Suc h"
  by (induction ts rule: union_pairs.induct) auto

lemma balance_unions_cases:
  assumes "ts \<noteq> []"
  obtains (one) t where "union_pairs ts = [t]" "balance_unions ts = Some t"
    | (more) "1 < length (union_pairs ts)" "balance_unions ts = balance_unions (union_pairs ts)"
proof -
  have ne: "union_pairs ts \<noteq> []"
    using assms by (cases ts rule: union_pairs.cases) auto
  show thesis
  proof (cases "tl (union_pairs ts)")
    case Nil
    with ne obtain t where "union_pairs ts = [t]" by (cases "union_pairs ts") auto
    moreover from this have "balance_unions ts = Some t"
      by (subst balance_unions.simps) (simp add: Let_def)
    ultimately show ?thesis by (rule one)
  next
    case (Cons a as)
    with ne have "1 < length (union_pairs ts)" by (cases "union_pairs ts") auto
    moreover from this have "balance_unions ts = balance_unions (union_pairs ts)"
      by (subst balance_unions.simps) (auto simp: Let_def simp del: length_union_pairs)
    ultimately show ?thesis by (rule more)
  qed
qed

lemma balance_unions_Nil: "balance_unions [] = None"
  by (subst balance_unions.simps) simp

lemma balance_unions_spec:
  "ts \<noteq> [] \<Longrightarrow> \<exists>t. balance_unions ts = Some t \<and> leaves t = concat (map leaves ts)
     \<and> (\<forall>\<rho>. inside \<rho> t \<longleftrightarrow> (\<exists>u\<in>set ts. inside \<rho> u))"
proof (induction ts rule: balance_unions.induct)
  case (1 ts)
  from "1.prems" show ?case
  proof (cases rule: balance_unions_cases)
    case (one t)
    then show ?thesis
      using union_pairs_leaves[of ts] union_pairs_inside[of ts] by simp
  next
    case more
    have "union_pairs ts \<noteq> []" using more(1) by fastforce
    then obtain t where "balance_unions (union_pairs ts) = Some t"
      "leaves t = concat (map leaves (union_pairs ts))"
      "\<forall>\<rho>. inside \<rho> t \<longleftrightarrow> (\<exists>u\<in>set (union_pairs ts). inside \<rho> u)"
      using "1.IH"[OF refl] more(1) by force
    then show ?thesis using more(2) union_pairs_leaves[of ts] union_pairs_inside[of ts] by simp
  qed
qed

lemma balance_unions_height:
  "balance_unions ts = Some t \<Longrightarrow> length ts \<le> 2 ^ Suc k \<Longrightarrow> \<forall>u\<in>set ts. tree_height u \<le> h \<Longrightarrow>
     tree_height t \<le> h + Suc k"
proof (induction k arbitrary: ts h)
  case 0
  then have "ts \<noteq> []" by (auto simp: balance_unions_Nil)
  then show ?case
    using 0 union_pairs_height[of ts h] by (cases rule: balance_unions_cases) auto
next
  case (Suc k)
  then have "ts \<noteq> []" by (auto simp: balance_unions_Nil)
  then show ?case
  proof (cases rule: balance_unions_cases)
    case (one u)
    then have "tree_height t \<le> Suc h" using Suc.prems union_pairs_height[of ts h] by auto
    then show ?thesis by simp
  next
    case more
    then show ?thesis
      using Suc.IH[of "union_pairs ts" "Suc h"] union_pairs_height[of ts h] Suc.prems by simp
  qed
qed

lemma only_unions_inside:
  "only_unions t \<Longrightarrow> ser_tree t \<Longrightarrow> inside \<rho> t \<longleftrightarrow> (\<exists>l\<in>set (leaves t). \<rho> l)"
  by (induction t) auto

lemma leaves_nonempty: "ser_tree t \<Longrightarrow> leaves t \<noteq> []"
  by (induction t) auto

section \<open>The round trip\<close>

lemma comb_header_spec:
  "w \<le> 3 \<Longrightarrow> comb_header w [a, b, c, d, e] = Some (of_nat w # len_bytes (of_nat a) w
     @ len_bytes (of_nat b) w @ len_bytes (of_nat c) w @ len_bytes (of_nat d) w
     @ len_bytes (of_nat e) w)"
  by (simp add: comb_header_def db5_encode_length_bytes)

lemma decode_len_bytes:
  assumes "fits_unsigned v w"
  shows "db5_decode_length (len_bytes v w @ rest) w = Some (v, ENCODE_LEN w)"
proof -
  have "w \<le> 3" using assms by (simp add: fits_unsigned_def)
  then show ?thesis
    using db5_decode_encode[OF assms db5_encode_length_bytes] by (simp add: length_len_bytes)
qed

lemma unat_width: "w \<le> 3 \<Longrightarrow> unat (of_nat w :: byte) = w"
  by (simp add: unsigned_of_nat take_bit_nat_eq_self_iff)

text \<open>The width for the header suits each of its fields and every matrix subscript.\<close>

definition comb_width :: "(mat \<Rightarrow> bool) \<Rightarrow> mat tree \<Rightarrow> nat" where
  "comb_width isid t =
     db5_select_length_encoding
       (of_nat (length (stored_mats isid (leaves t))) OR of_nat (length (leaves t)) OR
        of_nat (name_bytes (leaves t)) OR
        of_nat (if only_unions t then 0 else length (rpn t)) OR of_nat (counted_depth t))"

definition small_tree :: "mat tree \<Rightarrow> bool" where
  "small_tree t \<longleftrightarrow> name_bytes (leaves t) < 2 ^ 32 \<and> length (rpn t) < 2 ^ 32"

lemma counted_depth_le: "counted_depth t \<le> Suc (length (rpn t))"
  by (induction t) auto

lemma comb_width_fits:
  defines "fld \<equiv> \<lambda>isid t. {length (stored_mats isid (leaves t)), length (leaves t),
     name_bytes (leaves t), (if only_unions t then 0 else length (rpn t)), counted_depth t}"
  assumes "n \<in> fld isid t"
  shows "fits_unsigned (of_nat n) (comb_width isid t)"
proof -
  let ?or = "of_nat (length (stored_mats isid (leaves t))) OR of_nat (length (leaves t)) OR
        of_nat (name_bytes (leaves t)) OR
        of_nat (if only_unions t then 0 else length (rpn t)) OR of_nat (counted_depth t) :: size_t"
  have "(of_nat n :: size_t) \<le> ?or"
    using assms(2) unfolding fld_def
    by (elim insertE emptyE)
      (simp_all only:, (rule word_le_or order_trans[OF _ word_le_or(2)] order_refl)+)
  then show ?thesis unfolding comb_width_def by (rule fits_select_le)
qed

lemma comb_width_index:
  assumes "small_tree t" "k < length (stored_mats isid (leaves t))"
  shows "fits_signed (of_nat k) (comb_width isid t)"
proof -
  let ?w = "comb_width isid t"
  have small: "name_bytes (leaves t) < 2 ^ 32" using assms(1) by (simp add: small_tree_def)
  have k: "9 * k < name_bytes (leaves t)"
    using assms(2) length_stored_mats[of isid "leaves t"] name_bytes_ge[of "leaves t"] by linarith
  have w: "?w \<le> 3" by (simp add: comb_width_def select_le_3)
  have "fits_unsigned (of_nat (name_bytes (leaves t))) ?w" by (rule comb_width_fits) simp
  then have "name_bytes (leaves t) < 2 ^ (8 * ENCODE_LEN ?w)"
    using small by (simp add: fits_unsigned_def unat_size_of_nat)
  then have "9 * k < 2 ^ (8 * ENCODE_LEN ?w)" using k by linarith
  from w this have "k < 2 ^ (8 * ENCODE_LEN ?w - 1)"
    by (cases rule: width_cases) (simp_all add: ENCODE_LEN_def)
  moreover have "unat (of_nat k :: size_t) = k"
    using k small by (intro unat_size_of_nat) simp
  ultimately show ?thesis using w by (simp add: fits_signed_def)
qed


definition comb_prefix :: "(mat \<Rightarrow> bool) \<Rightarrow> mat tree \<Rightarrow> byte list" where
  "comb_prefix isid t = of_nat (comb_width isid t)
     # len_bytes (of_nat (length (stored_mats isid (leaves t)))) (comb_width isid t)
     @ len_bytes (of_nat (length (leaves t))) (comb_width isid t)
     @ len_bytes (of_nat (length (leaf_bytes isid (comb_width isid t) 0 (leaves t)))) (comb_width isid t)
     @ len_bytes (of_nat (if only_unions t then 0 else length (rpn t))) (comb_width isid t)
     @ len_bytes (of_nat (counted_depth t)) (comb_width isid t)"

lemma comb_width_le_3: "comb_width isid t \<le> 3"
  by (simp add: comb_width_def select_le_3)

lemma rt_comb_export5_layout:
  assumes "order \<noteq> BU_PDP_ENDIAN" "ser_tree t"
  shows "rt_comb_export5 order isid (Some t) = Some (comb_prefix isid t
     @ mat_bytes order (stored_mats isid (leaves t))
     @ leaf_bytes isid (comb_width isid t) 0 (leaves t)
     @ (if only_unions t then [] else rpn t))"
proof -
  let ?w = "comb_width isid t"
  have w: "db5_select_length_encoding
       (of_nat (length (stored_mats isid (leaves t))) OR of_nat (length (leaves t)) OR
        of_nat (name_bytes (leaves t)) OR
        of_nat (if \<not> only_unions t then length (leaves t) + opers t else 0) OR
        of_nat (counted_depth t)) = ?w"
    using length_rpn[OF assms(2)] by (simp add: comb_width_def)
  have lb: "name_bytes (leaves t) - length (leaves t) * (8 - ENCODE_LEN ?w)
      = length (leaf_bytes isid ?w 0 (leaves t))"
    using length_leaf_bytes[OF comb_width_le_3[of isid t], of isid 0 "leaves t"] by simp
  have mb: "length (mat_bytes order (stored_mats isid (leaves t)))
      = length (stored_mats isid (leaves t)) * 128"
    using length_mat_bytes[OF assms(1) stored_mats_length] ser_tree_leaf_ok[OF assms(2)] by blast
  note spec = lb comb_header_spec[OF comb_width_le_3] serialize_spec[OF assms] comb_width_le_3 mb
    ELEMENTS_PER_MAT_def SIZEOF_NETWORK_DOUBLE_def comb_prefix_def length_rpn[OF assms(2)] Let_def
  show ?thesis
  proof (cases "only_unions t")
    case True
    show ?thesis
      using w True unfolding rt_comb_export5_def
      by (simp add: db_tree_counter_spec[OF assms(2)] spec)
  next
    case False
    have "length (leaves t) + opers t \<noteq> 0" using leaves_nonempty[OF assms(2)] by simp
    then show ?thesis
      using w False unfolding rt_comb_export5_def
      by (simp add: db_tree_counter_spec[OF assms(2)] spec)
  qed
qed


lemma sint_small_size: "k < 2 ^ 31 \<Longrightarrow> sint (of_nat k :: size_t) = int k"
  by (simp add: signed_of_nat signed_take_bit_int_eq_self_iff)

lemma neg_tests:
  assumes "k < 2 ^ 31"
  shows "(of_nat k :: size_t) \<noteq> - 1" "\<not> sint (of_nat k :: size_t) < 0"
    "sint (- 1 :: size_t) < 0"
proof -
  show "\<not> sint (of_nat k :: size_t) < 0" using sint_small_size[OF assms] by simp
  moreover show "sint (- 1 :: size_t) < 0" by simp
  ultimately show "(of_nat k :: size_t) \<noteq> - 1" by metis
qed

lemma small_tree_counts:
  assumes "small_tree t"
  shows "length (stored_mats isid (leaves t)) < 2 ^ 31" "length (leaves t) < 2 ^ 31"
  using assms name_bytes_ge[of "leaves t"] length_stored_mats[of isid "leaves t"]
  by (simp_all add: small_tree_def)

lemma readable_small:
  assumes "order \<noteq> BU_PDP_ENDIAN" "ser_tree t" "small_tree t"
    and "neg (- 1)" "\<And>k. k < 2 ^ 31 \<Longrightarrow> \<not> neg (of_nat k)"
  shows "readable order isid (leaves t) (comb_width isid t) neg"
  using assms small_tree_counts(1)[of t isid] comb_width_index[of t _ isid]
  by (auto simp: readable_def comb_width_le_3 ser_tree_leaf_ok)

lemma length_comb_prefix: "length (comb_prefix isid t) = 1 + 5 * ENCODE_LEN (comb_width isid t)"
  by (simp add: comb_prefix_def length_len_bytes comb_width_le_3)

text \<open>The header reads back; what remains is the choice between the two import loops.\<close>

lemma rt_comb_import5_header:
  fixes E :: "byte list" and isid :: "mat \<Rightarrow> bool"
  assumes small: "small_tree t" and "order \<noteq> BU_PDP_ENDIAN" "ser_tree t"
  defines "w \<equiv> comb_width isid t" and "H \<equiv> comb_prefix isid t" and "ls \<equiv> leaves t"
    and "rl \<equiv> if only_unions t then 0 else length (rpn t)"
  defines "buf \<equiv> comb_buffer order isid H E ls w"
  shows "rt_comb_import5 order isid mmul arg buf =
    (if rl = 0 then
       do { (ls', off) \<leftarrow> import_leaves
              (import_leaf (\<lambda>mi. mi = - 1) order isid mmul arg buf (length H)
                 (of_nat (length (stored_mats isid ls))) w) (length ls) (leaf_off isid H ls w 0);
            if off = leaf_off isid H ls w (length ls)
            then Some (Some (balance_unions (map Leaf ls'))) else None }
     else if counted_depth t > MAX_V5_STACK then Some None
     else
       do { r \<leftarrow> rpn_loop (import_leaf (\<lambda>mi. sint mi < 0) order isid mmul arg buf (length H)
                 (of_nat (length (stored_mats isid ls))) w) rl E (leaf_off isid H ls w 0) [];
            (case r of
               None \<Rightarrow> Some None
             | Some (off, stack) \<Rightarrow>
                 (case stack of
                    [t] \<Rightarrow> if off = leaf_off isid H ls w (length ls)
                            then Some (Some (Some t)) else None
                  | _ \<Rightarrow> None)) })"
proof -
  let ?N = "length (stored_mats isid ls)" and ?L = "length (leaf_bytes isid w 0 ls)"
  let ?u = "ENCODE_LEN w"
  have w3: "w \<le> 3" by (simp add: w_def comb_width_le_3)
  have fits: "fits_unsigned (of_nat n) w"
    if "n \<in> {?N, length ls, name_bytes ls, rl, counted_depth t}" for n
    using comb_width_fits[of n isid t] that by (simp add: w_def ls_def rl_def)
  have nb: "name_bytes ls < 2 ^ 32" and rl: "rl < 2 ^ 32"
    using small by (auto simp: small_tree_def ls_def rl_def)
  have Lnb: "?L \<le> name_bytes ls"
    using length_leaf_bytes[OF w3, of isid 0 ls] by linarith
  have fitsL: "fits_unsigned (of_nat ?L) w"
    using fits[of "name_bytes ls"] nb Lnb by (simp add: fits_unsigned_def unat_size_of_nat)
  have cnt: "?N < 2 ^ 31" "length ls < 2 ^ 31"
    using small_tree_counts[OF small] by (simp_all add: ls_def)
  have cd: "counted_depth t \<le> Suc (length (rpn t))" by (rule counted_depth_le)
  then have dep: "counted_depth t < 2 ^ 64" using small by (simp add: small_tree_def)
  let ?rest = "mat_bytes order (stored_mats isid ls) @ leaf_bytes isid w 0 ls @ E"
  have buf: "buf = of_nat w # len_bytes (of_nat ?N) w @ len_bytes (of_nat (length ls)) w
      @ len_bytes (of_nat ?L) w @ len_bytes (of_nat rl) w @ len_bytes (of_nat (counted_depth t)) w
      @ ?rest"
    by (simp add: buf_def comb_buffer_def H_def comb_prefix_def w_def ls_def rl_def)
  have mat128: "unat (of_nat ?N * 128 :: size_t) = ?N * 128"
    using unat_mat_offset[OF cnt(1)] by (simp add: mult.assoc)
  have lens: "length H = Suc (?u + ?u + ?u + ?u + ?u)"
    by (simp add: H_def length_comb_prefix w_def)
  have lb: "leaf_off isid H ls w 0 = length H + ?N * 128"
    "leaf_off isid H ls w (length ls) = length H + ?N * 128 + ?L"
    by (simp_all add: leaf_off_def)
  have pos: "\<not> sint (of_nat (length ls) - 1 :: size_t) < 0"
  proof -
    have "ls \<noteq> []" using leaves_nonempty[OF assms(3)] by (simp add: ls_def)
    then have "(of_nat (length ls) - 1 :: size_t) = of_nat (length ls - 1)" by (cases ls) auto
    then show ?thesis using sint_small_size[of "length ls - 1"] cnt(2) by simp
  qed
  have dropE: "drop (length H + ?N * 128 + ?L) buf = E"
  proof -
    have "length (mat_bytes order (stored_mats isid ls)) = ?N * 128"
      using length_mat_bytes[OF assms(2) stored_mats_length] ser_tree_leaf_ok[OF assms(3)]
      by (simp add: ls_def)
    then show ?thesis by (simp add: buf_def comb_buffer_def)
  qed
  have rl0: "(of_nat rl :: size_t) = 0 \<longleftrightarrow> rl = 0"
    using rl unat_size_of_nat[of rl] by auto
  have hd: "(case buf of [] \<Rightarrow> None | b # _ \<Rightarrow> Some (unat b)) = Some w"
    by (simp add: buf unat_width[OF w3])
  have decs: "db5_decode_length (drop 1 buf) w = Some (of_nat ?N, ?u)"
    "db5_decode_length (drop (1 + ?u) buf) w = Some (of_nat (length ls), ?u)"
    "db5_decode_length (drop (1 + ?u + ?u) buf) w = Some (of_nat ?L, ?u)"
    "db5_decode_length (drop (1 + ?u + ?u + ?u) buf) w = Some (of_nat rl, ?u)"
    "db5_decode_length (drop (1 + ?u + ?u + ?u + ?u) buf) w = Some (of_nat (counted_depth t), ?u)"
    using decode_len_bytes[OF fits] decode_len_bytes[OF fitsL]
    by (simp_all add: buf length_len_bytes[OF w3])
  have mb: "1 + ?u + ?u + ?u + ?u + ?u = length H" by (simp add: lens)
  have us: "unat (of_nat ?L :: size_t) = ?L" "unat (of_nat rl :: size_t) = rl"
    "unat (of_nat (length ls) :: size_t) = length ls"
    "unat (of_nat (counted_depth t) :: size_t) = counted_depth t"
    using nb Lnb rl cnt dep by (simp_all add: unat_size_of_nat)
  show ?thesis
    unfolding rt_comb_import5_def
    by (simp only: hd decs bind.bind_lunit prod.case Let_def mb mat128 us if_False pos rl0 lb dropE)
qed


text \<open>An expression that needs more stack than there is writes past the array.\<close>

lemma rpn_loop_overflow:
  assumes "ser_tree t"
    and "\<And>j. j < length (leaves t) \<Longrightarrow> rd (off (i + j)) = Some (f (leaves t ! j), off (Suc (i + j)))"
    and "length stack \<le> MAX_V5_STACK" "MAX_V5_STACK < length stack + stack_need t"
  shows "rpn_loop rd (length (rpn t) + n) (rpn t @ expr) (off i) stack = None"
  using assms
proof (induction t arbitrary: i stack n expr)
  case (Leaf l)
  then show ?case using Leaf.prems(2)[of 0] by (simp add: Let_def)
next
  case (Unary u t)
  from Unary.IH[of i stack "Suc n" "DB5COMB_TOKEN_NOT # expr"] Unary.prems
  show ?case by simp
next
  case (Binary b l r)
  have rdl: "rd (off (i + j)) = Some (f (leaves l ! j), off (Suc (i + j)))"
    if "j < length (leaves l)" for j
    using Binary.prems(2)[of j] that by (simp add: nth_append)
  have rdr: "rd (off (i + length (leaves l) + j))
      = Some (f (leaves r ! j), off (Suc (i + length (leaves l) + j)))"
    if "j < length (leaves r)" for j
    using Binary.prems(2)[of "length (leaves l) + j"] that by (simp add: nth_append add.assoc)
  show ?case
  proof (cases "MAX_V5_STACK < length stack + stack_need l")
    case True
    have "rpn_loop rd (length (rpn l) + (length (rpn r) + Suc n))
        (rpn l @ (rpn r @ binop_token b # expr)) (off i) stack = None"
      using Binary.prems True rdl by (intro Binary.IH(1)) auto
    then show ?thesis by (simp add: add.assoc)
  next
    case False
    have "rpn_loop rd (length (rpn l) + (length (rpn r) + Suc n))
        (rpn l @ (rpn r @ binop_token b # expr)) (off i) stack
      = rpn_loop rd (length (rpn r) + Suc n) (rpn r @ binop_token b # expr)
          (off (i + length (leaves l))) (map_leaves f l # stack)"
      using Binary.prems(1) False rdl by (intro rpn_loop_tree) auto
    also have "\<dots> = None"
      using Binary.prems False rdr stack_need_pos[of l] by (intro Binary.IH(2)) auto
    finally show ?thesis by (simp add: add.assoc)
  qed
qed simp

lemma export_buffer:
  assumes "order \<noteq> BU_PDP_ENDIAN" "ser_tree t"
  shows "rt_comb_export5 order isid (Some t) = Some
    (comb_buffer order isid (comb_prefix isid t) (if only_unions t then [] else rpn t) (leaves t)
       (comb_width isid t))"
  using rt_comb_export5_layout[OF assms] by (simp add: comb_buffer_def)

lemma import_unions:
  assumes "order \<noteq> BU_PDP_ENDIAN" "ser_tree t" "small_tree t" "only_unions t"
    and "rt_comb_export5 order isid (Some t) = Some buf"
  shows "rt_comb_import5 order isid mmul arg buf
    = Some (Some (balance_unions (map Leaf (map (imported_leaf isid mmul arg) (leaves t)))))"
proof -
  have buf: "buf = comb_buffer order isid (comb_prefix isid t) [] (leaves t) (comb_width isid t)"
    using export_buffer[OF assms(1,2), of isid] assms(4,5) by simp
  have r: "readable order isid (leaves t) (comb_width isid t) (\<lambda>mi. mi = - 1)"
    using assms(1-3) neg_tests by (intro readable_small) auto
  show ?thesis
    unfolding buf using assms import_leaves_from[OF r, of 0 "length (leaves t)"]
    by (simp add: rt_comb_import5_header)
qed

lemma leaf_read_sint:
  assumes "order \<noteq> BU_PDP_ENDIAN" "ser_tree t" "small_tree t" "j < length (leaves t)"
  shows "import_leaf (\<lambda>mi. sint mi < 0) order isid mmul arg
      (comb_buffer order isid H E (leaves t) (comb_width isid t)) (length H)
      (of_nat (length (stored_mats isid (leaves t)))) (comb_width isid t)
      (leaf_off isid H (leaves t) (comb_width isid t) j)
    = Some (imported_leaf isid mmul arg (leaves t ! j),
        leaf_off isid H (leaves t) (comb_width isid t) (Suc j))"
  using assms neg_tests by (intro import_leaf_at[OF readable_small]) auto

lemma import_rpn:
  assumes "order \<noteq> BU_PDP_ENDIAN" "ser_tree t" "small_tree t" "\<not> only_unions t"
    and "rt_comb_export5 order isid (Some t) = Some buf" "counted_depth t \<le> MAX_V5_STACK"
  shows "rt_comb_import5 order isid mmul arg buf
    = (if stack_need t \<le> MAX_V5_STACK
       then Some (Some (Some (map_leaves (imported_leaf isid mmul arg) t))) else None)"
proof -
  let ?H = "comb_prefix isid t" and ?w = "comb_width isid t" and ?ls = "leaves t"
  have buf: "buf = comb_buffer order isid ?H (rpn t) ?ls ?w"
    using export_buffer[OF assms(1,2), of isid] assms(4,5) by simp
  define rd where "rd = import_leaf (\<lambda>mi. sint mi < 0) order isid mmul arg buf (length ?H)
    (of_nat (length (stored_mats isid ?ls))) ?w"
  have rd: "rd (leaf_off isid ?H ?ls ?w (0 + j)) = Some (imported_leaf isid mmul arg (?ls ! j),
      leaf_off isid ?H ?ls ?w (Suc (0 + j)))" if "j < length ?ls" for j
    using leaf_read_sint[OF assms(1-3) that] by (simp add: rd_def buf)
  have "rpn t \<noteq> []" using assms(2) by (cases t) auto
  note hdr = rt_comb_import5_header[OF assms(3,1,2), of isid mmul arg "rpn t", folded buf,
      folded rd_def]
  show ?thesis
  proof (cases "stack_need t \<le> MAX_V5_STACK")
    case True
    have "rpn_loop rd (length (rpn t) + 0) (rpn t @ []) (leaf_off isid ?H ?ls ?w 0) []
        = rpn_loop rd 0 [] (leaf_off isid ?H ?ls ?w (0 + length ?ls))
            [map_leaves (imported_leaf isid mmul arg) t]"
      using True rd by (intro rpn_loop_tree[OF assms(2)]) auto
    then show ?thesis using True assms(4,6) \<open>rpn t \<noteq> []\<close> by (simp add: hdr)
  next
    case False
    have "rpn_loop rd (length (rpn t) + 0) (rpn t @ []) (leaf_off isid ?H ?ls ?w 0) [] = None"
      using False rd by (intro rpn_loop_overflow[OF assms(2)]) auto
    then show ?thesis using False assms(4,6) \<open>rpn t \<noteq> []\<close> by (simp add: hdr)
  qed
qed

definition storable :: "mat tree \<Rightarrow> bool" where
  "storable t \<longleftrightarrow> ser_tree t \<and> small_tree t
     \<and> (only_unions t \<or> stack_need t \<le> MAX_V5_STACK \<and> counted_depth t \<le> MAX_V5_STACK)"

lemma inside_unions_of_leaves:
  assumes "ser_tree t" "only_unions t"
  shows "\<exists>t'. balance_unions (map Leaf (map f (leaves t))) = Some t'
    \<and> leaves t' = map f (leaves t) \<and> (\<forall>\<rho>. inside \<rho> t' = inside \<rho> (map_leaves f t))"
proof -
  have "map Leaf (map f (leaves t)) \<noteq> []" using leaves_nonempty[OF assms(1)] by simp
  from balance_unions_spec[OF this] obtain t' where
    "balance_unions (map Leaf (map f (leaves t))) = Some t'"
    "leaves t' = concat (map leaves (map Leaf (map f (leaves t))))"
    and ins: "\<forall>\<rho>. inside \<rho> t' \<longleftrightarrow> (\<exists>u\<in>set (map Leaf (map f (leaves t))). inside \<rho> u)" by blast
  moreover have "concat (map leaves (map Leaf xs)) = xs" for xs :: "mat leaf list"
    by (induction xs) auto
  moreover have "inside \<rho> t' = inside \<rho> (map_leaves f t)" for \<rho>
    using ins only_unions_inside[OF assms(2,1)] by (simp add: inside_map_leaves)
  ultimately show ?thesis by auto
qed

section \<open>Properties\<close>

lemma comb_tree_read_back:
  assumes "order \<noteq> BU_PDP_ENDIAN" "storable t"
  shows "\<exists>buf t'. rt_comb_export5 order isid (Some t) = Some buf
     \<and> rt_comb_import5 order isid mmul arg buf = Some (Some (Some t'))
     \<and> leaves t' = map (imported_leaf isid mmul arg) (leaves t)
     \<and> (\<forall>\<rho>. inside \<rho> t' = inside (\<lambda>l. \<rho> (imported_leaf isid mmul arg l)) t)
     \<and> (if only_unions t then balance_unions (map Leaf (map (imported_leaf isid mmul arg) (leaves t))) = Some t'
        else t' = map_leaves (imported_leaf isid mmul arg) t)"
proof -
  have t: "ser_tree t" "small_tree t" using assms(2) by (simp_all add: storable_def)
  note ex = export_buffer[OF assms(1) t(1), of isid]
  show ?thesis
  proof (cases "only_unions t")
    case True
    then show ?thesis
      using ex import_unions[OF assms(1) t True ex] inside_unions_of_leaves[OF t(1) True,
        of "imported_leaf isid mmul arg"] by (auto simp: inside_map_leaves)
  next
    case False
    then have "stack_need t \<le> MAX_V5_STACK" "counted_depth t \<le> MAX_V5_STACK"
      using assms(2) by (auto simp: storable_def)
    then show ?thesis
      using False ex import_rpn[OF assms(1) t False ex] by (auto simp: inside_map_leaves)
  qed
qed

text \<open>C16: a combination tree written by \<open>rt_comb_export5\<close> is read back by
  \<open>rt_comb_import5\<close>: the import succeeds, the leaves are the exported ones in the
  same order (identity matrices dropped, the caller's matrix applied) and the tree that
  comes back contains the same points.  Its structure is the same when the tree has a
  non-union operator; a tree of unions alone loses its structure and comes back as
  \<open>balance_unions\<close> builds it from the leaves.\<close>

theorem comb_export_import:
  assumes "order \<noteq> BU_PDP_ENDIAN" "storable t"
  shows "\<exists>buf t'. rt_comb_export5 order isid (Some t) = Some buf
     \<and> rt_comb_import5 order isid mmul arg buf = Some (Some (Some t'))
     \<and> leaves t' = map (imported_leaf isid mmul arg) (leaves t)
     \<and> (\<forall>\<rho>. inside \<rho> t' = inside (\<lambda>l. \<rho> (imported_leaf isid mmul arg l)) t)
     \<and> (if only_unions t then balance_unions (map Leaf (map (imported_leaf isid mmul arg) (leaves t))) = Some t'
        else t' = map_leaves (imported_leaf isid mmul arg) t)"
  by (rule comb_tree_read_back[OF assms])

lemma comb_export_import_witness:
  "\<exists>buf t'. rt_comb_export5 BU_LITTLE_ENDIAN (\<lambda>_. False)
       (Some (Binary OP_SUBTRACT (Leaf (OP_DB_LEAF ''a'' (Some (replicate 128 7))))
                                 (Leaf (OP_DB_LEAF ''b'' None)))) = Some buf
     \<and> rt_comb_import5 BU_LITTLE_ENDIAN (\<lambda>_. False) (\<lambda>x d. d) None buf = Some (Some (Some t'))
     \<and> map leaf_name (leaves t') = [''a'', ''b'']"
proof -
  let ?t = "Binary OP_SUBTRACT (Leaf (OP_DB_LEAF ''a'' (Some (replicate 128 7))))
                               (Leaf (OP_DB_LEAF ''b'' None)) :: mat tree"
  have "storable ?t"
    by (simp add: storable_def small_tree_def MAX_V5_STACK_def no_nul_def ELEMENTS_PER_MAT_def)
  from comb_export_import[OF _ this, of BU_LITTLE_ENDIAN "\<lambda>_. False" "\<lambda>x d. d" None]
  show ?thesis by fastforce
qed

text \<open>C17: \<open>rt_comb_import5\<close> guards its 8000-entry stack with the depth that
  \<open>db_tree_counter\<close> stored, but for a tree of binary operators that depth is 1 whatever
  the tree.  A tree that needs a deeper stack passes the guard, and its import writes
  past the end of the stack.\<close>

theorem comb_import_stack_overflow:
  assumes "order \<noteq> BU_PDP_ENDIAN" "ser_tree t" "comb_tree t" "small_tree t" "\<not> only_unions t"
    and "MAX_V5_STACK < stack_need t"
  shows "\<exists>buf tcs. db_tree_counter isid t \<lparr>n_mat = 0, n_leaf = 0, n_oper = 0, leafbytes = 0,
        non_union_seen = False\<rparr> = Some (1, tcs)
     \<and> rt_comb_export5 order isid (Some t) = Some buf
     \<and> rt_comb_import5 order isid mmul arg buf = None"
proof -
  note ex = export_buffer[OF assms(1,2), of isid]
  have "counted_depth t = 1" by (rule counted_depth_no_not[OF assms(3)])
  then show ?thesis
    using ex import_rpn[OF assms(1,2,4,5) ex] assms(6) db_tree_counter_spec[OF assms(2)]
    by (auto simp: MAX_V5_STACK_def)
qed

fun subtract_chain :: "nat \<Rightarrow> mat tree" where
  "subtract_chain 0 = Leaf (OP_DB_LEAF ''x'' None)"
| "subtract_chain (Suc n) = Binary OP_SUBTRACT (Leaf (OP_DB_LEAF ''x'' None)) (subtract_chain n)"

lemma subtract_chain_facts:
  "ser_tree (subtract_chain n)" "comb_tree (subtract_chain n)"
  "stack_need (subtract_chain n) = Suc n" "name_bytes (leaves (subtract_chain n)) = 10 * Suc n"
  "length (rpn (subtract_chain n)) = Suc (2 * n)"
  by (induction n) (auto simp: no_nul_def)

lemma comb_import_stack_overflow_witness:
  "\<exists>buf. rt_comb_export5 BU_LITTLE_ENDIAN (\<lambda>_. False) (Some (subtract_chain 8000)) = Some buf
     \<and> rt_comb_import5 BU_LITTLE_ENDIAN (\<lambda>_. False) (\<lambda>x d. d) None buf = None"
proof -
  have "subtract_chain 8000 = subtract_chain (Suc 7999)" by simp
  then have "\<not> only_unions (subtract_chain 8000)" by (simp only: subtract_chain.simps) simp
  moreover have "small_tree (subtract_chain 8000)"
    by (simp add: small_tree_def subtract_chain_facts)
  moreover have "MAX_V5_STACK < stack_need (subtract_chain 8000)"
    by (simp add: MAX_V5_STACK_def subtract_chain_facts)
  ultimately show ?thesis
    using comb_import_stack_overflow[of BU_LITTLE_ENDIAN "subtract_chain 8000" "\<lambda>_. False"
        "\<lambda>x d. d" None] subtract_chain_facts(1,2)[of 8000] by auto
qed

text \<open>The tree that the import builds from an all-union combination is balanced:
  with at most $2^k$ leaves ($k > 0$) it is at most $k$ operators high.\<close>

theorem comb_import_balanced:
  assumes "balance_unions (map Leaf ls) = Some t" "length ls \<le> 2 ^ k" "0 < k"
  shows "tree_height t \<le> k"
  using balance_unions_height[OF assms(1), of "k - 1" 0] assms(2,3) by simp

lemma comb_import_balanced_witness:
  "\<exists>t. balance_unions (map Leaf [OP_SOLID 1, OP_SOLID 2, OP_SOLID 3 :: mat leaf]) = Some t
     \<and> tree_height t \<le> 2"
proof -
  have "balance_unions (map Leaf [OP_SOLID 1, OP_SOLID 2, OP_SOLID 3 :: mat leaf])
      = Some (Binary OP_UNION (Binary OP_UNION (Leaf (OP_SOLID 1)) (Leaf (OP_SOLID 2)))
                (Leaf (OP_SOLID 3)))"
    by (simp add: balance_unions.simps)
  from comb_import_balanced[OF this] this show ?thesis by simp
qed

end
