(* ===== verification/Db5Internal.thy ===== *)
theory Db5Internal
  imports Db5Alloc CombAttrProof CsgCombProof
begin

text \<open>
  The object layer of \<open>librt/db5_io.c\<close>: from an object in memory to its record on disk and
  back, through the table of methods \<open>OBJ\<close> (\<open>librt/primitives/table.cpp\<close>), with the methods of
  combinations in it.  This is where the tree, the attributes, the object records and the
  storage of the file meet.

  The methods of the other objects are arguments: \<open>OBJ i\<close> is entry \<open>i\<close> of the table, \<open>None\<close>
  behind its end, and \<open>binunif\<close> is \<open>rt_binunif_import5_minor_type\<close>.  They are called with a
  factor of 1.0, and the database and the resources handed to them are left out.  The object
  behind \<open>idb_ptr\<close> is a combination or something else.
\<close>

section \<open>Data\<close>

record 'o rt_db_internal =
  idb_major_type :: int
  idb_minor_type :: int
  idb_meth :: "nat option"
  idb_ptr :: "(rt_comb_internal + 'o) option"
  idb_avs :: "bu_avs option"

definition RT_DB_INTERNAL_INIT :: "'o rt_db_internal" where
  "RT_DB_INTERNAL_INIT =
     \<lparr>idb_major_type = -1, idb_minor_type = -1, idb_meth = None, idb_ptr = None,
      idb_avs = Some bu_avs_init_empty\<rparr>"

definition DB5_MAJORTYPE_BRLCAD :: nat where "DB5_MAJORTYPE_BRLCAD = 1"
definition DB5_MAJORTYPE_BINARY_UNIF :: nat where "DB5_MAJORTYPE_BINARY_UNIF = 9"
definition ID_COMBINATION :: nat where "ID_COMBINATION = 31"
definition ID_BINUNIF :: nat where "ID_BINUNIF = 33"

lemmas id_defs = DB5_MAJORTYPE_BRLCAD_def DB5_MAJORTYPE_BINARY_UNIF_def ID_COMBINATION_def ID_BINUNIF_def

text \<open>The two methods used here; \<open>None\<close> is a null pointer, and the result of a method is
  \<open>None\<close> when it does not return.  The body that an export leaves behind counts only when its
  code is not negative.\<close>

record 'o functab =
  ft_import5 :: "('o rt_db_internal \<Rightarrow> byte list \<Rightarrow> mat \<Rightarrow> (int \<times> 'o rt_db_internal) option) option"
  ft_export5 :: "('o rt_db_internal \<Rightarrow> (int \<times> byte list \<times> 'o rt_db_internal) option) option"

section \<open>Writing an object\<close>

definition rt_db_cvt_to_external5 ::
  "(nat \<Rightarrow> 'o functab option) \<Rightarrow> string option \<Rightarrow> 'o rt_db_internal \<Rightarrow> nat
     \<Rightarrow> (int \<times> byte list \<times> 'o rt_db_internal) option" where
  "rt_db_cvt_to_external5 OBJ name ip major =
     (case name of
        None \<Rightarrow> Some (-1, [], ip)
      | Some n \<Rightarrow>
          do { (ret, body, ip') \<leftarrow>
                 (case Option.bind (Option.bind (idb_meth ip) OBJ) ft_export5 of
                    None \<Rightarrow> Some (-1, [], ip) | Some f \<Rightarrow> f ip);
               if ret < 0 then Some (-1, [], ip')
               else do {
                 let attributes = (case idb_avs ip' of None \<Rightarrow> [] | Some avs \<Rightarrow> db5_export_attributes avs);
                 ext \<leftarrow> db5_export_object3 0 (Some n) 0 (Some attributes) (Some body) major
                          (nat (idb_minor_type ip mod 256)) 0 0;
                 Some (0, ext, ip') } })"

text \<open>The caller's \<open>ip\<close> is freed whatever the outcome: it is \<open>RT_DB_INTERNAL_INIT\<close> afterwards
  and not part of the result.\<close>

definition rt_db_put_internal5 ::
  "(nat \<Rightarrow> 'o functab option) \<Rightarrow> (db_i \<Rightarrow> int \<times> db_i) \<Rightarrow> directory \<Rightarrow> db_i \<Rightarrow> 'o rt_db_internal \<Rightarrow> nat
     \<Rightarrow> (int \<times> db_i \<times> directory) option" where
  "rt_db_put_internal5 OBJ db_dirbuild dp dbip ip major =
     do { (rc, ext, ip) \<leftarrow> rt_db_cvt_to_external5 OBJ (Some (d_namep dp)) ip major;
          if rc < 0 then Some (-2, dbip, dp)
          else do {
            (rc, dbip, dp) \<leftarrow>
              (if of_nat (length ext) \<noteq> d_len dp \<or> d_addr dp = RT_DIR_PHONY_ADDR
               then db5_realloc db_dirbuild dbip dp (of_nat (length ext)) else Some (0, dbip, dp));
            if rc < 0 then Some (-2, dbip, dp)
            else if of_nat (length ext) \<noteq> d_len dp then None
            else if d_inmem dp
            then do { u \<leftarrow> mem_put (d_un dp) ext; Some (0, dbip, dp\<lparr>d_un := u\<rparr>) }
            else (let (rc, dbip) = db_write dbip ext (d_addr dp)
                  in Some (if rc < 0 then -2 else 0, dbip, dp)) } }"

section \<open>Reading an object\<close>

definition import_avs :: "byte list \<Rightarrow> db5_raw_internal \<Rightarrow> bu_avs \<Rightarrow> (int \<times> bu_avs) option" where
  "import_avs ep raw avs =
     do { attributes \<leftarrow> ext_copy ep (rattributes raw);
          (case attributes of
             None \<Rightarrow> Some (0, avs)
           | Some ap \<Rightarrow> do { (n, avs) \<leftarrow> db5_import_attributes ap;
                             Some (if n < 0 then (-8, avs) else (0, snd (db5_standardize_avs avs))) }) }"

definition import_body ::
  "(nat \<Rightarrow> 'o functab option)
     \<Rightarrow> ('o rt_db_internal \<Rightarrow> byte list \<Rightarrow> mat \<Rightarrow> nat \<Rightarrow> (int \<times> 'o rt_db_internal) option)
     \<Rightarrow> nat \<Rightarrow> nat \<Rightarrow> nat \<Rightarrow> 'o rt_db_internal \<Rightarrow> byte list \<Rightarrow> mat \<Rightarrow> (int \<times> 'o rt_db_internal) option" where
  "import_body OBJ binunif obj_id major minor ip body m =
     do { (ret, ip) \<leftarrow>
            (if obj_id = ID_BINUNIF then binunif ip body m minor
             else case OBJ obj_id of
                    None \<Rightarrow> None
                  | Some ft \<Rightarrow> (case ft_import5 ft of None \<Rightarrow> Some (-1, ip) | Some f \<Rightarrow> f ip body m));
          Some (if ret < 0 then (-1, RT_DB_INTERNAL_INIT)
                else (int obj_id, ip\<lparr>idb_major_type := int major, idb_minor_type := int minor,
                                 idb_meth := Some obj_id\<rparr>)) }"

text \<open>\<open>raw\<close> is what the uninitialised local structure holds, \<open>idn\<close> is \<open>bn_mat_identity\<close>.  A
  section that does not lie within the object ends in \<open>None\<close>, as it does in
  \<open>db_wrap_v5_external\<close>.\<close>

definition rt_db_external5_to_internal5 ::
  "(nat \<Rightarrow> 'o functab option)
     \<Rightarrow> ('o rt_db_internal \<Rightarrow> byte list \<Rightarrow> mat \<Rightarrow> nat \<Rightarrow> (int \<times> 'o rt_db_internal) option)
     \<Rightarrow> mat \<Rightarrow> db5_raw_internal \<Rightarrow> 'o rt_db_internal \<Rightarrow> byte list \<Rightarrow> mat option
     \<Rightarrow> (int \<times> 'o rt_db_internal) option" where
  "rt_db_external5_to_internal5 OBJ binunif idn raw ip ep m =
     do { (raw, next) \<leftarrow> db5_get_raw_internal_ptr raw ep;
          let major = unat (major_type raw);
          let minor = unat (minor_type raw);
          if next = None then Some (-3, ip)
          else if major \<noteq> DB5_MAJORTYPE_BRLCAD \<and> major \<noteq> DB5_MAJORTYPE_BINARY_UNIF then Some (-1, ip)
          else do {
            (rc, avs) \<leftarrow> import_avs ep raw
               (case idb_avs ip of None \<Rightarrow> bu_avs_init_empty | Some avs \<Rightarrow> avs);
            let ip = ip\<lparr>idb_avs := Some avs\<rparr>;
            if rc < 0 then Some (rc, ip)
            else do {
              body \<leftarrow> ext_copy ep (rbody raw);
              (case body of
                 None \<Rightarrow> Some (-4, ip)
               | Some body \<Rightarrow>
                   import_body OBJ binunif (if major = DB5_MAJORTYPE_BRLCAD then minor else ID_BINUNIF)
                     major minor ip body (case m of None \<Rightarrow> idn | Some x \<Rightarrow> x)) } } }"

definition rt_db_get_internal5 ::
  "(nat \<Rightarrow> 'o functab option)
     \<Rightarrow> ('o rt_db_internal \<Rightarrow> byte list \<Rightarrow> mat \<Rightarrow> nat \<Rightarrow> (int \<times> 'o rt_db_internal) option)
     \<Rightarrow> mat \<Rightarrow> db5_raw_internal \<Rightarrow> directory \<Rightarrow> db_i \<Rightarrow> mat option \<Rightarrow> (int \<times> 'o rt_db_internal) option" where
  "rt_db_get_internal5 OBJ binunif idn raw dp dbip m =
     do { (rc, ext) \<leftarrow> db_get_external dp dbip;
          if rc < 0 then Some (-2, RT_DB_INTERNAL_INIT)
          else rt_db_external5_to_internal5 OBJ binunif idn raw RT_DB_INTERNAL_INIT ext m }"

text \<open>The set is overwritten by \<open>BU_AVS_INIT\<close>.\<close>

definition db5_get_attributes :: "db5_raw_internal \<Rightarrow> db_i \<Rightarrow> directory \<Rightarrow> (int \<times> bu_avs) option" where
  "db5_get_attributes raw dbip dp =
     do { (rc, ext) \<leftarrow> db_get_external dp dbip;
          if rc < 0 then Some (-1, bu_avs_init_empty)
          else do {
            (raw, next) \<leftarrow> db5_get_raw_internal_ptr raw ext;
            if next = None then Some (-2, bu_avs_init_empty)
            else do {
              attributes \<leftarrow> ext_copy ext (rattributes raw);
              (case attributes of
                 None \<Rightarrow> Some (0, bu_avs_init_empty)
               | Some ap \<Rightarrow> do { (n, avs) \<leftarrow> db5_import_attributes ap;
                                 Some (if n < 0 then -3 else 0, avs) }) } } }"

section \<open>The methods of combinations\<close>

definition comb_ft_export5 ::
  "bu_endian_t \<Rightarrow> (mat \<Rightarrow> bool) \<Rightarrow> 'o rt_db_internal \<Rightarrow> (int \<times> byte list \<times> 'o rt_db_internal) option" where
  "comb_ft_export5 order isid ip =
     (if idb_minor_type ip \<noteq> int ID_COMBINATION then None
      else case idb_ptr ip of
             Some (Inl comb) \<Rightarrow>
               do { body \<leftarrow> rt_comb_export5 order isid (ctree comb);
                    Some (0, body, ip\<lparr>idb_avs := Some (comb_export_attributes comb (idb_avs ip))\<rparr>) }
           | _ \<Rightarrow> None)"

text \<open>When the tree cannot be read the fields and the attributes are not looked at.\<close>

definition comb_ft_import5 ::
  "bu_endian_t \<Rightarrow> (mat \<Rightarrow> bool) \<Rightarrow> (mat \<Rightarrow> mat \<Rightarrow> mat)
     \<Rightarrow> 'o rt_db_internal \<Rightarrow> byte list \<Rightarrow> mat \<Rightarrow> (int \<times> 'o rt_db_internal) option" where
  "comb_ft_import5 order isid mmul ip body m =
     (let ip = ip\<lparr>idb_major_type := int DB5_MAJORTYPE_BRLCAD, idb_minor_type := int ID_COMBINATION,
                  idb_meth := Some ID_COMBINATION, idb_ptr := Some (Inl RT_COMB_INTERNAL_INIT)\<rparr>
      in do { r \<leftarrow> rt_comb_import5 order isid mmul (Some m) body;
              Some (case r of
                      None \<Rightarrow> (-1, ip)
                    | Some t \<Rightarrow> (0, ip\<lparr>idb_ptr := Some (Inl (comb_import_attributes (idb_avs ip)
                                               (RT_COMB_INTERNAL_INIT\<lparr>ctree := t\<rparr>)))\<rparr>)) })"

definition OBJ_COMBINATION ::
  "bu_endian_t \<Rightarrow> (mat \<Rightarrow> bool) \<Rightarrow> (mat \<Rightarrow> mat \<Rightarrow> mat) \<Rightarrow> 'o functab" where
  "OBJ_COMBINATION order isid mmul =
     \<lparr>ft_import5 = Some (comb_ft_import5 order isid mmul), ft_export5 = Some (comb_ft_export5 order isid)\<rparr>"

section \<open>Sections and names of a written object\<close>

lemma ext_copy_fits: "ext_fits buf e \<Longrightarrow> ext_copy buf e = Some (ext_data buf e)"
  by (simp add: ext_copy_def ext_data_def ext_fits_def split: option.splits)

definition small_parts :: "string \<Rightarrow> byte list option \<Rightarrow> byte list option \<Rightarrow> bool" where
  "small_parts name attrib body \<longleftrightarrow> small_section (name_section (Some name))
     \<and> small_section (section_of attrib) \<and> small_section (section_of body) \<and> attr_ok (section_of attrib)"

text \<open>An object that was written is parsed into the parts it was made of, and it already has
  the name under which it is to be stored.\<close>

lemma object_parts:
  assumes "small_parts name attrib body" "db5_export_object3 0 (Some name) 0 attrib body major minor 0 0 = Some out"
  shows "\<exists>raw' e. db5_get_raw_internal_ptr raw out = Some (raw', Some e) \<and> h_dli raw' = 0
     \<and> major_type raw' = of_nat major \<and> minor_type raw' = of_nat minor
     \<and> ext_data out (rname raw') = name_section (Some name) \<and> ext_fits out (rname raw')
     \<and> ext_copy out (rattributes raw') = Some (section_of attrib)
     \<and> ext_copy out (rbody raw') = Some (section_of body)"
proof -
  have s: "small_section (name_section (Some name))" "small_section (section_of attrib)"
    "small_section (section_of body)" "attr_ok (section_of attrib)"
    using assms(1) by (simp_all add: small_parts_def)
  show ?thesis
    using object_read_back[OF s, where dli = 0 and hidden = 0 and major = major and minor = minor
        and rip = raw and rest = "[]"] assms(2)
    by (auto simp: ext_copy_fits)
qed

lemma named_object_wrap:
  assumes "small_parts name attrib body" "db5_export_object3 0 (Some name) 0 attrib body major minor 0 0 = Some out"
    and "name \<noteq> []" "no_nul name"
  shows "db_wrap_v5_external raw out name = Some (0, out)"
proof -
  obtain raw' e where r: "db5_get_raw_internal_ptr raw out = Some (raw', Some e)" "h_dli raw' = 0"
    and d: "ext_data out (rname raw') = Some (bytes_of name @ [0])"
    using object_parts[OF assms(1,2), of raw] assms(3) by (auto simp: name_section_def)
  obtain off where off: "ext_buf (rname raw') = Some off"
    "take (unat (ext_nbytes (rname raw'))) (drop off out) = bytes_of name @ [0]"
    using d by (auto simp: ext_data_def)
  let ?n = "unat (ext_nbytes (rname raw'))"
  obtain ys where "drop off out = (bytes_of name @ [0]) @ ys" using append_take_drop_id off(2) by metis
  then have "c_string (drop off out) = Some (bytes_of name)" using assms(4) by simp
  then show ?thesis using r off(1) by (simp add: db_wrap_v5_external_def)
qed

section \<open>Storing goes through \<open>db_put_external5\<close>\<close>

lemma put_internal5_store:
  assumes "rt_db_cvt_to_external5 OBJ (Some (d_namep dp)) ip major = Some (0, ext, ip')"
    and "db_wrap_v5_external raw ext (d_namep dp) = Some (0, ext)" "\<not> dbi_read_only d"
  shows "rt_db_put_internal5 OBJ db_dirbuild dp d ip major
    = map_option (\<lambda>(rc, s). (if rc < 0 then -2 else 0, s)) (db_put_external5 db_dirbuild raw ext dp d)"
proof -
  let ?r = "if of_nat (length ext) \<noteq> d_len dp \<or> d_addr dp = RT_DIR_PHONY_ADDR
      then db5_realloc db_dirbuild d dp (of_nat (length ext)) else Some (0, d, dp)"
  show ?thesis
  proof (cases ?r)
    case None
    then show ?thesis using assms by (simp add: rt_db_put_internal5_def db_put_external5_def)
  next
    case (Some x)
    obtain rc d1 dp1 where x: "x = (rc, d1, dp1)" by (cases x) auto
    note r = Some[unfolded x]
    show ?thesis
      unfolding rt_db_put_internal5_def db_put_external5_def assms(1) assms(2) bind.simps prod.case r
      using assms(3) by (cases "mem_put (d_un dp1) ext"; cases "db_write d1 ext (d_addr dp1)") simp_all
  qed
qed

section \<open>A combination goes to disk and back\<close>

lemma find_empty: "avp a = [] \<Longrightarrow> avs_find a k = None"
  by (simp add: avs_find_map_of)

lemma pred_option_if: "pred_option P (if b then x else y) = (if b then pred_option P x else pred_option P y)"
  by simp

lemma mark_strings: "no_nul ''P''" "no_nul ''V''" "no_nul ''R''" "no_nul ''1''"
  "no_nul ''region''" "no_nul ''inherit''" "no_nul ''rgb''" "no_nul ''oshader''" "no_nul ''shader''"
  "no_nul ''region_id''" "no_nul ''aircode''" "no_nul ''material_id''" "no_nul ''los''"
  by (simp_all add: no_nul_def)

lemma export_strings:
  assumes "avs_full a" "avp a = []" "no_nul (shader c)"
  shows "\<exists>ps. avp (comb_export_attributes c (Some a)) = map (\<lambda>p. (fst p, Some (snd p))) ps
    \<and> (\<forall>p\<in>set ps. pair_ok p) \<and> distinct (map fst ps)"
proof -
  let ?A = "comb_export_attributes c (Some a)"
  let ?ps = "map (\<lambda>p. (fst p, the (snd p))) (avp ?A)"
  have full: "avs_full ?A" using export_find(1)[OF assms(1)] .
  have ne: "\<And>p. p \<in> set (avp ?A) \<Longrightarrow> snd p \<noteq> None" "\<And>p. p \<in> set (avp ?A) \<Longrightarrow> fst p \<noteq> []"
    and "distinct (map fst (avp ?A))"
    using full unfolding avs_full_def avs_wf_def by blast+
  then have "distinct (map fst ?ps)" by (simp add: comp_def)
  moreover have "avp ?A = map (\<lambda>p. (fst p, Some (snd p))) ?ps"
    using ne(1) by (intro nth_equalityI) (auto simp: prod_eq_iff)
  moreover have "pair_ok q" if "q \<in> set ?ps" for q
  proof -
    obtain n v where q: "q = (n, v)" by (cases q)
    then have mem: "(n, Some v) \<in> set (avp ?A)" using that ne(1) by force
    then have f: "avs_find ?A n = Some v" using avs_find_iff[OF full] by simp
    have "pred_option no_nul (avs_find ?A n)"
      unfolding export_find(2)[OF assms(1)] find_empty[OF assms(2)] pred_option_if
      by (simp add: print_ok assms(3) mark_strings)
    then have "no_nul v" unfolding f by simp
    moreover have "avs_find ?A m = None" if "m \<notin> set comb_names" for m
      using that unfolding export_find(2)[OF assms(1)] find_empty[OF assms(2)] by (simp add: comb_names_def)
    then have "n \<in> set comb_names" using f by (metis option.distinct(1))
    then have "no_nul n" using mark_strings(5-) by (auto simp: comb_names_def)
    ultimately have "no_nul n \<and> no_nul v" by blast
    then show ?thesis using ne(2)[OF mem] q by (simp add: pair_ok_def)
  qed
  ultimately show ?thesis by blast
qed

text \<open>A combination as a program that makes one hands it over.\<close>

definition comb_intern :: "rt_comb_internal \<Rightarrow> 'o rt_db_internal" where
  "comb_intern c = RT_DB_INTERNAL_INIT\<lparr>idb_major_type := int DB5_MAJORTYPE_BRLCAD,
     idb_minor_type := int ID_COMBINATION, idb_meth := Some ID_COMBINATION, idb_ptr := Some (Inl c)\<rparr>"

definition fresh_attributes :: "rt_comb_internal \<Rightarrow> bu_avs" where
  "fresh_attributes c = comb_export_attributes c (Some bu_avs_init_empty)"

text \<open>Sizes far beyond what a machine can hold.\<close>

definition comb_small :: "bu_endian_t \<Rightarrow> (mat \<Rightarrow> bool) \<Rightarrow> string \<Rightarrow> rt_comb_internal \<Rightarrow> bool" where
  "comb_small order isid name c \<longleftrightarrow> length name < 2 ^ 56
     \<and> length (db5_export_attributes (fresh_attributes c)) < 2 ^ 57
     \<and> (case rt_comb_export5 order isid (ctree c) of None \<Rightarrow> True | Some body \<Rightarrow> length body < 2 ^ 57)"

lemma fresh_attributes_find:
  "avs_full (fresh_attributes c)" "avs_find (fresh_attributes c) k = avs_find (comb_export_attributes c None) k"
proof -
  have e: "comb_export_attributes c None = comb_export_attributes c (Some (bu_avs_init 32))"
    by (simp add: comb_export_attributes_def)
  have z: "avs_find bu_avs_init_empty k = None" "avs_find (bu_avs_init 32) k = None"
    by (rule find_empty; simp add: bu_avs_init_empty_def bu_avs_init_def)+
  show "avs_full (fresh_attributes c)" unfolding fresh_attributes_def by (rule export_find(1)[OF full_init(1)])
  show "avs_find (fresh_attributes c) k = avs_find (comb_export_attributes c None) k"
    unfolding fresh_attributes_def e export_find(2)[OF full_init(1)] export_find(2)[OF full_init(2)] z ..
qed

lemma fresh_attributes_strings:
  assumes "no_nul (shader c)"
  shows "\<exists>ps. avp (fresh_attributes c) = map (\<lambda>p. (fst p, Some (snd p))) ps
    \<and> (\<forall>p\<in>set ps. pair_ok p) \<and> distinct (map fst ps)"
  unfolding fresh_attributes_def using assms
  by (intro export_strings full_init(1)) (simp_all add: bu_avs_init_empty_def)

text \<open>The attribute section, and what is made of it.\<close>

lemma attr_ok_fresh:
  assumes "no_nul (shader c)"
  shows "attr_ok (section_of (Some (db5_export_attributes (fresh_attributes c))))"
proof -
  let ?F = "fresh_attributes c"
  obtain ps where ps: "avp ?F = map (\<lambda>p. (fst p, Some (snd p))) ps" "\<forall>p\<in>set ps. pair_ok p"
    using fresh_attributes_strings[OF assms] by blast
  have "4 \<le> length (db5_export_attributes ?F)" if "ps \<noteq> []" by (rule export_length[OF ps(1) that ps(2)])
  moreover have "db5_export_attributes ?F = []" if "ps = []" using ps(1) that by (simp add: db5_export_attributes_def)
  ultimately show ?thesis by (cases "ps = []") (auto simp: attr_ok_def section_of_def)
qed

lemma import_avs_fresh:
  assumes "no_nul (shader c)"
    and "ext_copy out (rattributes raw) = Some (section_of (Some (db5_export_attributes (fresh_attributes c))))"
  shows "\<exists>A. import_avs out raw bu_avs_init_empty = Some (0, snd (db5_standardize_avs A)) \<and> avs_full A
     \<and> (\<forall>k. avs_find A k = avs_find (fresh_attributes c) k)"
proof -
  let ?F = "fresh_attributes c"
  obtain ps where ps: "avp ?F = map (\<lambda>p. (fst p, Some (snd p))) ps" "\<forall>p\<in>set ps. pair_ok p"
    "distinct (map fst ps)"
    using fresh_attributes_strings[OF assms(1)] by blast
  show ?thesis
  proof (cases "ps = []")
    case True
    then have "avp ?F = []" using ps(1) by simp
    then have "import_avs out raw bu_avs_init_empty = Some (0, snd (db5_standardize_avs bu_avs_init_empty))"
      using assms(2) by (simp add: import_avs_def section_of_def db5_standardize_avs_def bu_avs_init_empty_def
          db5_export_attributes_def)
    moreover have "avs_find bu_avs_init_empty k = avs_find ?F k" for k
      unfolding find_empty[OF \<open>avp ?F = []\<close>] by (rule find_empty) (simp add: bu_avs_init_empty_def)
    ultimately show ?thesis using full_init(1) by blast
  next
    case False
    obtain A where A: "db5_import_attributes (db5_export_attributes ?F) = Some (int (length ps), A)"
      "avp A = avp ?F" "avs_wf A"
      using attributes_read_back[OF ps(1) False ps(2,3)] by blast
    have "db5_export_attributes ?F \<noteq> []" using export_length[OF ps(1) False ps(2)] by auto
    then have "import_avs out raw bu_avs_init_empty = Some (0, snd (db5_standardize_avs A))"
      using A(1) assms(2) by (simp add: import_avs_def section_of_def)
    moreover have "avs_full A" using A(2,3) fresh_attributes_find(1)[of c] by (simp add: avs_full_def)
    ultimately show ?thesis using same_avp[OF A(2)] by blast
  qed
qed

lemma object_length_bound:
  assumes "db5_export_object3 dli name hidden attrib body major minor azip bzip = Some out"
  shows "length out \<le> object_need (name_section name) (section_of attrib) (section_of body)"
proof -
  have "finish_object hdr len secs need w = Some out \<Longrightarrow> length out \<le> need" for hdr len secs need w
    by (auto simp: finish_object_def Let_def split: if_splits elim!: option_elims)
  then show ?thesis using assms unfolding db5_export_object3_def Let_def
    by (auto split: if_splits elim!: option_elims)
qed

lemma section_need_bound: "section_need x \<le> (case x of None \<Rightarrow> 0 | Some bs \<Rightarrow> length bs + 8)"
  using ENCODE_LEN_le_8[OF section_width_le_3, of x] by (cases x) (auto simp: section_need_def)

lemma section_of_length: "section_of x = Some bs \<Longrightarrow> x = Some bs"
  by (auto simp: section_of_def split: option.splits if_splits)

text \<open>Writing a combination.\<close>

lemma comb_cvt:
  assumes "order \<noteq> BU_PDP_ENDIAN" "ctree c = Some t" "storable t" "no_nul (shader c)"
    and small: "comb_small order isid name c"
    and "OBJ ID_COMBINATION = Some (OBJ_COMBINATION order isid mmul)"
  shows "\<exists>ext body ip'. rt_db_cvt_to_external5 OBJ (Some name) (comb_intern c) DB5_MAJORTYPE_BRLCAD
      = Some (0, ext, ip')
    \<and> rt_comb_export5 order isid (Some t) = Some body
    \<and> small_parts name (Some (db5_export_attributes (fresh_attributes c))) (Some body)
    \<and> db5_export_object3 0 (Some name) 0 (Some (db5_export_attributes (fresh_attributes c))) (Some body) 1 31 0 0
      = Some ext
    \<and> 8 dvd length ext \<and> length ext < 2 ^ 59"
proof -
  let ?at = "db5_export_attributes (fresh_attributes c)"
  obtain body where b: "rt_comb_export5 order isid (Some t) = Some body"
    using comb_tree_read_back[OF assms(1,3)] by blast
  have l: "length name < 2 ^ 56" "length ?at < 2 ^ 57" "length body < 2 ^ 57"
    using small assms(2) b by (simp_all add: comb_small_def)
  have "attr_ok (section_of (Some ?at))" by (rule attr_ok_fresh[OF assms(4)])
  then have parts: "small_parts name (Some ?at) (Some body)"
    using l by (auto simp: small_parts_def small_section_def name_section_def section_of_def)
  have s: "small_section (name_section (Some name))" "small_section (section_of (Some ?at))"
    "small_section (section_of (Some body))" "attr_ok (section_of (Some ?at))"
    using parts by (simp_all add: small_parts_def)
  obtain ext where e: "db5_export_object3 0 (Some name) 0 (Some ?at) (Some body) 1 31 0 0 = Some ext"
    "length ext mod 8 = 0"
    using object_read_back[OF s, where dli = 0 and hidden = 0 and major = 1 and minor = 31 and rest = "[]"
        and rip = raw_zero] by (elim exE conjE) (rule that)
  have "length ext \<le> 6 + 8 + (length name + 1 + 8) + (length ?at + 8) + (length body + 8) + 8"
    using object_length_bound[OF e(1)] section_need_bound[of "name_section (Some name)"]
      section_need_bound[of "section_of (Some ?at)"] section_need_bound[of "section_of (Some body)"]
    by (auto simp: object_need_def sizeof_header_def name_section_def section_of_def split: if_splits)
  then have "length ext < 2 ^ 59" using l by simp
  moreover have "rt_db_cvt_to_external5 OBJ (Some name) (comb_intern c) DB5_MAJORTYPE_BRLCAD
      = Some (0, ext, (comb_intern c)\<lparr>idb_avs := Some (fresh_attributes c)\<rparr>)"
    using e(1) b assms(2,6)
    by (simp add: rt_db_cvt_to_external5_def comb_intern_def RT_DB_INTERNAL_INIT_def OBJ_COMBINATION_def
        comb_ft_export5_def fresh_attributes_def id_defs)
  ultimately show ?thesis using b parts e by (auto simp: mod_0_imp_dvd)
qed

text \<open>Reading what was written.\<close>

definition read_leaf :: "(mat \<Rightarrow> bool) \<Rightarrow> (mat \<Rightarrow> mat \<Rightarrow> mat) \<Rightarrow> mat \<Rightarrow> mat option \<Rightarrow> mat leaf \<Rightarrow> mat leaf" where
  "read_leaf isid mmul idn m = imported_leaf isid mmul (Some (case m of None \<Rightarrow> idn | Some x \<Rightarrow> x))"

lemma comb_read:
  assumes "order \<noteq> BU_PDP_ENDIAN" "storable t" "no_nul (shader c)"
    and "OBJ ID_COMBINATION = Some (OBJ_COMBINATION order isid mmul)"
    and "rt_comb_export5 order isid (Some t) = Some body" "body \<noteq> []"
    and parts: "small_parts name (Some (db5_export_attributes (fresh_attributes c))) (Some body)"
    and "db5_export_object3 0 (Some name) 0 (Some (db5_export_attributes (fresh_attributes c))) (Some body) 1 31 0 0
      = Some ext"
  shows "\<exists>ip t'. rt_db_external5_to_internal5 OBJ binunif idn raw RT_DB_INTERNAL_INIT ext m
      = Some (int ID_COMBINATION, ip)
    \<and> idb_ptr ip = Some (Inl (imported_fields (c\<lparr>ctree := Some t'\<rparr>)))
    \<and> leaves t' = map (read_leaf isid mmul idn m) (leaves t) \<and> (\<forall>\<rho>. inside \<rho> t' = inside (\<lambda>l. \<rho> (read_leaf isid mmul idn m l)) t)
    \<and> (if only_unions t then balance_unions (map Leaf (map (read_leaf isid mmul idn m) (leaves t))) = Some t'
       else t' = map_leaves (read_leaf isid mmul idn m) t)"
proof -
  let ?M = "case m of None \<Rightarrow> idn | Some x \<Rightarrow> x"
  obtain raw' e where r: "db5_get_raw_internal_ptr raw ext = Some (raw', Some e)"
    "major_type raw' = 1" "minor_type raw' = 31"
    "ext_copy ext (rattributes raw') = Some (section_of (Some (db5_export_attributes (fresh_attributes c))))"
    "ext_copy ext (rbody raw') = Some (Some body)"
    using object_parts[OF parts assms(8), of raw] assms(6) by (auto simp: section_of_def)
  obtain A where A: "import_avs ext raw' bu_avs_init_empty = Some (0, snd (db5_standardize_avs A))" "avs_full A"
    "\<forall>k. avs_find A k = avs_find (fresh_attributes c) k"
    using import_avs_fresh[OF assms(3) r(4)] by blast
  obtain t' where t': "rt_comb_import5 order isid mmul (Some ?M) body = Some (Some (Some t'))"
    "leaves t' = map (read_leaf isid mmul idn m) (leaves t)" "\<forall>\<rho>. inside \<rho> t' = inside (\<lambda>l. \<rho> (read_leaf isid mmul idn m l)) t"
    "if only_unions t then balance_unions (map Leaf (map (read_leaf isid mmul idn m) (leaves t))) = Some t'
     else t' = map_leaves (read_leaf isid mmul idn m) t"
    using comb_tree_read_back[OF assms(1,2), of isid mmul "Some ?M"] assms(5) unfolding read_leaf_def
    by (elim exE conjE) simp
  have "comb_export_attributes (c\<lparr>ctree := Some t'\<rparr>) None = comb_export_attributes c None"
    by (simp add: comb_export_attributes_def)
  then have "comb_import_attributes (Some (snd (db5_standardize_avs A))) (RT_COMB_INTERNAL_INIT\<lparr>ctree := Some t'\<rparr>)
      = imported_fields (c\<lparr>ctree := Some t'\<rparr>)"
    using import_settled[OF A(2), of "c\<lparr>ctree := Some t'\<rparr>"] A(3) fresh_attributes_find(2)[of c] by simp
  then have "\<exists>ip. rt_db_external5_to_internal5 OBJ binunif idn raw RT_DB_INTERNAL_INIT ext m
      = Some (int ID_COMBINATION, ip) \<and> idb_ptr ip = Some (Inl (imported_fields (c\<lparr>ctree := Some t'\<rparr>)))"
    using r A(1) t'(1) assms(4)
    by (simp add: rt_db_external5_to_internal5_def RT_DB_INTERNAL_INIT_def import_body_def OBJ_COMBINATION_def
        comb_ft_import5_def id_defs Let_def)
  then show ?thesis using t'(2-4) by blast
qed

text \<open>The attributes alone.\<close>

lemma comb_get_attributes:
  assumes "no_nul (shader c)" "db_get_external dp d = Some (0, ext)"
    and "small_parts name (Some (db5_export_attributes (fresh_attributes c))) body"
    and "db5_export_object3 0 (Some name) 0 (Some (db5_export_attributes (fresh_attributes c))) body major minor 0 0
      = Some ext"
  shows "\<exists>A. db5_get_attributes raw d dp = Some (0, A) \<and> avp A = avp (fresh_attributes c)"
proof -
  let ?F = "fresh_attributes c"
  obtain raw' e where r: "db5_get_raw_internal_ptr raw ext = Some (raw', Some e)"
    "ext_copy ext (rattributes raw') = Some (section_of (Some (db5_export_attributes ?F)))"
    using object_parts[OF assms(3,4), of raw] by blast
  obtain ps where ps: "avp ?F = map (\<lambda>p. (fst p, Some (snd p))) ps" "\<forall>p\<in>set ps. pair_ok p"
    "distinct (map fst ps)"
    using fresh_attributes_strings[OF assms(1)] by blast
  show ?thesis
  proof (cases "ps = []")
    case True
    then have "avp ?F = []" using ps(1) by simp
    then show ?thesis using assms(2) r
      by (simp add: db5_get_attributes_def section_of_def db5_export_attributes_def bu_avs_init_empty_def)
  next
    case False
    obtain A where A: "db5_import_attributes (db5_export_attributes ?F) = Some (int (length ps), A)"
      "avp A = avp ?F" using attributes_read_back[OF ps(1) False ps(2,3)] by blast
    have "db5_export_attributes ?F \<noteq> []" using export_length[OF ps(1) False ps(2)] by auto
    then show ?thesis using A assms(2) r by (simp add: db5_get_attributes_def section_of_def)
  qed
qed

text \<open>Reading any object that was written.\<close>

lemma written_object_import:
  assumes "small_parts name attrib body" "db5_export_object3 0 (Some name) 0 attrib body major minor 0 0 = Some out"
    and "major < 256" "minor < 256"
    and avs: "section_of attrib = None \<and> avs = the (idb_avs ip)
      \<or> (\<exists>n A. db5_import_attributes (the attrib) = Some (n, A) \<and> 0 \<le> n \<and> avs = snd (db5_standardize_avs A)
           \<and> section_of attrib \<noteq> None)"
    and "idb_avs ip \<noteq> None"
  shows "rt_db_external5_to_internal5 OBJ binunif idn raw ip out m =
    (if major \<noteq> DB5_MAJORTYPE_BRLCAD \<and> major \<noteq> DB5_MAJORTYPE_BINARY_UNIF then Some (-1, ip)
     else case section_of body of
            None \<Rightarrow> Some (-4, ip\<lparr>idb_avs := Some avs\<rparr>)
          | Some bs \<Rightarrow> import_body OBJ binunif (if major = DB5_MAJORTYPE_BRLCAD then minor else ID_BINUNIF)
                         major minor (ip\<lparr>idb_avs := Some avs\<rparr>) bs (case m of None \<Rightarrow> idn | Some x \<Rightarrow> x))"
proof -
  obtain raw' e where r: "db5_get_raw_internal_ptr raw out = Some (raw', Some e)"
    "major_type raw' = of_nat major" "minor_type raw' = of_nat minor"
    "ext_copy out (rattributes raw') = Some (section_of attrib)" "ext_copy out (rbody raw') = Some (section_of body)"
    using object_parts[OF assms(1,2), of raw] by blast
  have u: "unat (major_type raw') = major" "unat (minor_type raw') = minor"
    using assms(3,4) r(2,3) by (simp_all add: unat_of_nat)
  obtain a where a: "idb_avs ip = Some a" using assms(6) by blast
  have "import_avs out raw' a = Some (0, avs)"
    using avs r(4) a section_of_length[of attrib] by (auto simp: import_avs_def)
  then show ?thesis using r(1,5) u a
    by (simp add: rt_db_external5_to_internal5_def Let_def split: option.split)
qed

section \<open>Properties\<close>


text \<open>A database in which combinations are the only objects, and a region to store in it.\<close>

definition comb_table :: "nat \<Rightarrow> unit functab option" where
  "comb_table i = (if i = ID_COMBINATION
     then Some (OBJ_COMBINATION BU_LITTLE_ENDIAN (\<lambda>_. False) (\<lambda>x d. d)) else None)"

definition small_region :: rt_comb_internal where
  "small_region = RT_COMB_INTERNAL_INIT\<lparr>
     ctree := Some (Binary OP_SUBTRACT (Leaf (OP_DB_LEAF ''a'' None)) (Leaf (OP_DB_LEAF ''b'' None))),
     region_flag := 1, region_id := 7, shader := ''plastic''\<rparr>"

lemma small_region_small: "comb_small BU_LITTLE_ENDIAN (\<lambda>_. False) ''r'' small_region"
proof -
  have "length (db5_export_attributes (fresh_attributes small_region)) < 100" by code_simp
  moreover have "case rt_comb_export5 BU_LITTLE_ENDIAN (\<lambda>_. False) (ctree small_region) of
      None \<Rightarrow> True | Some body \<Rightarrow> length body < 100" by code_simp
  ultimately show ?thesis by (auto simp: comb_small_def split: option.splits)
qed

lemma small_region_put:
  "\<exists>d' dp'. rt_db_put_internal5 comb_table (\<lambda>d. (-1, d)) (phony_entry ''r'') fresh_db (comb_intern small_region)
     DB5_MAJORTYPE_BRLCAD = Some (0, d', dp')"
proof -
  have "case rt_db_put_internal5 comb_table (\<lambda>d. (-1, d)) (phony_entry ''r'') fresh_db (comb_intern small_region)
     DB5_MAJORTYPE_BRLCAD of Some (rc, _) \<Rightarrow> rc = 0 | None \<Rightarrow> False" by code_simp
  then show ?thesis by (auto split: option.splits)
qed


text \<open>The type of an object on disk is not checked before it is used as an index: an object
  that is in order otherwise, but whose type byte has no entry in the table of methods, makes
  \<open>rt_db_external5_to_internal5\<close> read behind the end of the table.\<close>

theorem type_outside_table:
  assumes "small_parts name None (Some body)" "body \<noteq> []" "minor < 256" "minor \<noteq> ID_BINUNIF" "OBJ minor = None"
    and "db5_export_object3 0 (Some name) 0 None (Some body) DB5_MAJORTYPE_BRLCAD minor 0 0 = Some out"
    and "idb_avs ip \<noteq> None"
  shows "rt_db_external5_to_internal5 OBJ binunif idn raw ip out m = None"
proof -
  have "DB5_MAJORTYPE_BRLCAD < 256" "section_of None = None" "section_of (Some body) = Some body"
    using assms(2) by (simp_all add: id_defs section_of_def)
  then show ?thesis
    using written_object_import[OF assms(1,6) _ assms(3) _ assms(7), of "the (idb_avs ip)"] assms(4,5)
    by (simp add: import_body_def)
qed

lemma type_outside_table_witness:
  "\<exists>out. db5_export_object3 0 (Some ''x'') 0 None (Some [1]) DB5_MAJORTYPE_BRLCAD 200 0 0 = Some out
    \<and> rt_db_external5_to_internal5 comb_table (\<lambda>ip _ _ _. Some (-1, ip)) [] raw_zero RT_DB_INTERNAL_INIT out None
      = None"
proof -
  have s: "small_parts ''x'' None (Some [1])"
    by (simp add: small_parts_def small_section_def name_section_def section_of_def attr_ok_def)
  then obtain out where "db5_export_object3 0 (Some ''x'') 0 None (Some [1]) DB5_MAJORTYPE_BRLCAD 200 0 0 = Some out"
    using object_read_back[of "Some ''x''" None "Some [1]" 0 0 DB5_MAJORTYPE_BRLCAD 200]
    by (auto simp: small_parts_def)
  then show ?thesis
    using type_outside_table[OF s, of 200 comb_table out RT_DB_INTERNAL_INIT]
    by (auto simp: comb_table_def id_defs RT_DB_INTERNAL_INIT_def)
qed

end
