(* ===== verification/DbDir.thy ===== *)
theory DbDir
  imports BrlPrelude
begin

text \<open>
  The directory of a database: \<open>librt/db_lookup.c\<close>, the entries of
  \<open>rt/directory.h\<close> with their free list (\<open>RT_GET_DIRECTORY\<close>,
  \<open>db_alloc_directory_block\<close> of \<open>librt/db_alloc.c\<close>), and the paths of
  \<open>librt/db_fullpath.c\<close> that are looked up in it.

  An entry is at an address (\<open>dir_ptr\<close>); \<open>dir_mem\<close> is what the entries hold.  A chain of
  the hash table is the list of the addresses on it, and so is the free list
  \<open>re_directory_hd\<close>.  Addresses from \<open>dir_next\<close> on have not been allocated; a new block
  has \<open>dir_block\<close> entries.
\<close>

unbundle bit_operations_syntax

section \<open>Data\<close>

type_synonym dir_ptr = nat

record dir_entry =
  dir_namep :: string
  dir_addr :: off_t
  dir_flags :: "32 word"
  dir_len :: size_t
  dir_major :: byte
  dir_minor :: byte
  dir_uses :: int
  dir_nref :: int

record db_dirs =
  dbi_Head :: "nat \<Rightarrow> dir_ptr list"
  dir_mem :: "dir_ptr \<Rightarrow> dir_entry"
  re_directory_hd :: "dir_ptr list"
  dir_next :: dir_ptr
  dir_block :: nat
  dbi_version :: int

definition RT_DBNHASH :: nat where "RT_DBNHASH = 8192"
definition RT_DIR_INMEM :: "32 word" where "RT_DIR_INMEM = 0x100"
definition NAMESIZE :: nat where "NAMESIZE = 16"

definition RT_DBHASH :: "size_t \<Rightarrow> nat" where
  "RT_DBHASH acc = unat (acc AND (of_nat RT_DBNHASH - 1))"

fun dirhash_sum :: "string \<Rightarrow> size_t \<Rightarrow> size_t \<Rightarrow> size_t" where
  "dirhash_sum [] i acc = acc"
| "dirhash_sum (c # s) i acc = dirhash_sum s (i + 1) (acc + ucast (byte_of c) * i)"

definition db_dirhash :: "string option \<Rightarrow> nat" where
  "db_dirhash str = (case str of None \<Rightarrow> 0 | Some s \<Rightarrow> RT_DBHASH (dirhash_sum s 1 0))"

section \<open>Looking up\<close>

definition db_is_directory_non_empty :: "db_dirs \<Rightarrow> int" where
  "db_is_directory_non_empty d =
     (if list_ex (\<lambda>i. dbi_Head d i \<noteq> []) [0..<RT_DBNHASH] then 1 else 0)"

definition db_directory_size :: "db_dirs \<Rightarrow> nat" where
  "db_directory_size d = sum_list (map (\<lambda>i. length (dbi_Head d i)) [0..<RT_DBNHASH])"

text \<open>The walk along a chain.  The tests of the first two characters only save time.\<close>

fun chain_find :: "(dir_ptr \<Rightarrow> dir_entry) \<Rightarrow> string \<Rightarrow> dir_ptr list \<Rightarrow> dir_ptr option" where
  "chain_find m name [] = None"
| "chain_find m name (dp # dps) =
     (if name = dir_namep (m dp) then Some dp else chain_find m name dps)"

text \<open>\<open>db_lookup\<close> of a name without a slash.\<close>

definition lookup_name :: "db_dirs \<Rightarrow> string \<Rightarrow> dir_ptr option" where
  "lookup_name d name =
     (if name = [] then None else chain_find (dir_mem d) name (dbi_Head d (db_dirhash (Some name))))"

text \<open>A path: the entries, null where a name was not found, and the room for them.  The
  flags \<open>fp_bool\<close> are left out.\<close>

record db_full_path =
  fp_names :: "dir_ptr option list"
  fp_maxlen :: nat

definition db_full_path_init :: db_full_path where
  "db_full_path_init = \<lparr>fp_names = [], fp_maxlen = 0\<rparr>"

text \<open>The string taken apart at its slashes, as the loop over \<open>strchr\<close> does.\<close>

function split_slash :: "string \<Rightarrow> string list" where
  "split_slash cp =
     (if cp = [] then []
      else takeWhile (\<lambda>c. c \<noteq> CHR ''/'') cp
             # split_slash (drop 1 (dropWhile (\<lambda>c. c \<noteq> CHR ''/'') cp)))"
  by pat_completeness auto
termination
proof (relation "measure length", simp)
  fix cp :: string
  assume "cp \<noteq> []"
  moreover have "length (dropWhile (\<lambda>c. c \<noteq> CHR ''/'') cp) \<le> length cp" by (rule length_dropWhile_le)
  ultimately show "(drop 1 (dropWhile (\<lambda>c. c \<noteq> CHR ''/'') cp), cp) \<in> measure length" by (cases cp) auto
qed

declare split_slash.simps [simp del]

definition strip_slashes :: "string \<Rightarrow> string" where
  "strip_slashes s = rev (dropWhile (\<lambda>c. c = CHR ''/'') (rev s))"

definition db_string_to_path :: "db_dirs \<Rightarrow> string option \<Rightarrow> int \<times> db_full_path" where
  "db_string_to_path d str =
     (case str of
        None \<Rightarrow> (0, db_full_path_init)
      | Some s \<Rightarrow>
          let s = dropWhile (\<lambda>c. c = CHR ''/'') s
          in if s = [] then (0, db_full_path_init)
             else let names = map (lookup_name d) (split_slash (strip_slashes s))
                  in (if None \<in> set names then -1 else 0,
                      \<lparr>fp_names = names, fp_maxlen = length names\<rparr>))"

text \<open>A name with a slash is looked up as a path, and its last entry is the result.  The
  outer \<open>None\<close> is an access outside the array of entries.\<close>

definition db_lookup :: "db_dirs \<Rightarrow> string option \<Rightarrow> dir_ptr option option" where
  "db_lookup d name =
     (case name of
        None \<Rightarrow> Some None
      | Some n \<Rightarrow>
          if n = [] then Some None
          else if CHR ''/'' \<in> set n
          then (case db_string_to_path d (Some n) of
                  (ret, fp) \<Rightarrow> if ret \<noteq> 0 then Some None
                               else if fp_names fp = [] then None
                               else Some (last (fp_names fp)))
          else Some (lookup_name d n))"

section \<open>Changing the directory\<close>

fun first_letter :: "db_dirs \<Rightarrow> string \<Rightarrow> nat \<Rightarrow> nat \<Rightarrow> string option" where
  "first_letter d rest c 0 = None"
| "first_letter d rest c (Suc left) =
     (if db_lookup d (Some (char_of c # rest)) = Some None then Some (char_of c # rest)
      else first_letter d rest (c + 1) left)"

text \<open>The name to use and its bucket; \<open>None\<close> is failure, all of \<open>A_\<close> to \<open>Z_\<close> being taken.\<close>

definition db_dircheck :: "db_dirs \<Rightarrow> string \<Rightarrow> (string \<times> nat) option" where
  "db_dircheck d ret_name =
     (case chain_find (dir_mem d) ret_name (dbi_Head d (db_dirhash (Some ret_name))) of
        None \<Rightarrow> Some (ret_name, db_dirhash (Some ret_name))
      | Some dp \<Rightarrow>
          map_option (\<lambda>cp. (cp, db_dirhash (Some cp)))
            (first_letter d (CHR ''_'' # dir_namep (dir_mem d dp)) 65 26))"

definition db_alloc_directory_block :: "db_dirs \<Rightarrow> db_dirs" where
  "db_alloc_directory_block d =
     d\<lparr>re_directory_hd := rev [dir_next d..<dir_next d + dir_block d],
       dir_next := dir_next d + dir_block d\<rparr>"

definition RT_GET_DIRECTORY :: "db_dirs \<Rightarrow> dir_ptr \<times> db_dirs" where
  "RT_GET_DIRECTORY d =
     (let d = (if re_directory_hd d = [] then db_alloc_directory_block d else d)
      in (hd (re_directory_hd d), d\<lparr>re_directory_hd := tl (re_directory_hd d)\<rparr>))"

definition db_diradd ::
  "db_dirs \<Rightarrow> string \<Rightarrow> off_t \<Rightarrow> size_t \<Rightarrow> 32 word \<Rightarrow> byte option \<Rightarrow> dir_ptr option \<times> db_dirs" where
  "db_diradd d name laddr len flags ptr =
     (if CHR ''/'' \<in> set name \<and> dbi_version d < 5
         \<and> length (takeWhile (\<lambda>c. c \<noteq> CHR ''/'') name) < NAMESIZE then (None, d)
      else if \<not> dbi_version d < 5 \<and> ptr = None then (None, d)
      else case db_dircheck d (if dbi_version d < 5 then take NAMESIZE name else name) of
             None \<Rightarrow> (None, d)
           | Some (local, headp) \<Rightarrow>
               let (dp, d) = RT_GET_DIRECTORY d;
                   e = \<lparr>dir_namep = local, dir_addr = laddr, dir_flags = flags AND NOT RT_DIR_INMEM,
                        dir_len = len, dir_major = (if dbi_version d > 4 then 1 else 0),
                        dir_minor = (if dbi_version d > 4 then (case ptr of Some p \<Rightarrow> p | None \<Rightarrow> 0) else 0),
                        dir_uses = 0, dir_nref = 0\<rparr>
               in (Some dp, d\<lparr>dir_mem := (dir_mem d)(dp := e),
                              dbi_Head := (dbi_Head d)(headp := dp # dbi_Head d headp)\<rparr>))"

text \<open>Taking an entry off a chain: \<open>None\<close> when it is not on it.\<close>

fun unlink :: "dir_ptr \<Rightarrow> dir_ptr list \<Rightarrow> dir_ptr list option" where
  "unlink dp [] = None"
| "unlink dp (p # ps) = (if p = dp then Some ps else map_option (Cons p) (unlink dp ps))"

text \<open>The name that a freed entry still has here is a null pointer in the code; nothing reads it.\<close>

definition db_dirdelete :: "db_dirs \<Rightarrow> dir_ptr \<Rightarrow> int \<times> db_dirs" where
  "db_dirdelete d dp =
     (let headp = db_dirhash (Some (dir_namep (dir_mem d dp)))
      in case unlink dp (dbi_Head d headp) of
           None \<Rightarrow> (-1, d)
         | Some ps \<Rightarrow> (0, d\<lparr>dbi_Head := (dbi_Head d)(headp := ps),
                            re_directory_hd := dp # re_directory_hd d\<rparr>))"

definition db_rename :: "db_dirs \<Rightarrow> dir_ptr \<Rightarrow> string \<Rightarrow> int \<times> db_dirs" where
  "db_rename d dp newname =
     (let headp = db_dirhash (Some (dir_namep (dir_mem d dp)))
      in case unlink dp (dbi_Head d headp) of
           None \<Rightarrow> (-1, d)
         | Some ps \<Rightarrow>
             let h = (dbi_Head d)(headp := ps); newp = db_dirhash (Some newname)
             in (0, d\<lparr>dir_mem := (dir_mem d)(dp := (dir_mem d dp)\<lparr>dir_namep := newname\<rparr>),
                      dbi_Head := h(newp := dp # h newp)\<rparr>))"

section \<open>Paths\<close>

definition db_add_node_to_full_path :: "db_full_path \<Rightarrow> dir_ptr option \<Rightarrow> db_full_path" where
  "db_add_node_to_full_path pp dp =
     (case dp of
        None \<Rightarrow> pp
      | Some p \<Rightarrow>
          pp\<lparr>fp_maxlen := (if fp_maxlen pp \<le> 0 then 32
                          else if length (fp_names pp) \<ge> fp_maxlen pp then fp_maxlen pp * 4
                          else fp_maxlen pp),
             fp_names := fp_names pp @ [Some p]\<rparr>)"

definition DB_FULL_PATH_POP :: "db_full_path \<Rightarrow> db_full_path" where
  "DB_FULL_PATH_POP pp = (if length (fp_names pp) > 0 then pp\<lparr>fp_names := butlast (fp_names pp)\<rparr> else pp)"

definition db_dup_full_path :: "db_full_path \<Rightarrow> db_full_path" where
  "db_dup_full_path oldp = \<lparr>fp_names = fp_names oldp, fp_maxlen = fp_maxlen oldp\<rparr>"

definition db_extend_full_path :: "db_full_path \<Rightarrow> nat \<Rightarrow> db_full_path" where
  "db_extend_full_path pathp incr =
     (if fp_maxlen pathp \<le> 0 then \<lparr>fp_names = [], fp_maxlen = incr\<rparr>
      else let newlen = length (fp_names pathp) + incr
           in if fp_maxlen pathp < newlen then pathp\<lparr>fp_maxlen := newlen + 1\<rparr> else pathp)"

definition db_append_full_path :: "db_full_path \<Rightarrow> db_full_path option \<Rightarrow> db_full_path" where
  "db_append_full_path dest src =
     (case src of
        None \<Rightarrow> dest
      | Some s \<Rightarrow> let dest = db_extend_full_path dest (length (fp_names s))
                  in dest\<lparr>fp_names := fp_names dest @ fp_names s\<rparr>)"

text \<open>\<open>None\<close> is \<open>bu_bomb\<close>.  For an empty path \<open>fp_len - 1\<close> is the largest number, so no
  start is out of range; a positive one then asks for more memory than there is, which
  bombs as well.\<close>

definition db_dup_path_tail :: "db_full_path \<Rightarrow> nat \<Rightarrow> db_full_path option" where
  "db_dup_path_tail oldp start =
     (let len = length (fp_names oldp)
      in if len > 0 \<and> start > len - 1 then None
         else if len = 0 \<and> start > 0 then None
         else Some \<lparr>fp_names = drop start (fp_names oldp), fp_maxlen = len - start\<rparr>)"

fun path_chars :: "db_dirs \<Rightarrow> dir_ptr option list \<Rightarrow> string" where
  "path_chars d [] = []"
| "path_chars d (dp # dps) =
     CHR ''/'' # (case dp of Some p \<Rightarrow> dir_namep (dir_mem d p) | None \<Rightarrow> ''**NULL**'') @ path_chars d dps"

definition db_path_to_string :: "db_dirs \<Rightarrow> db_full_path \<Rightarrow> string" where
  "db_path_to_string d pp = path_chars d (fp_names pp)"

definition db_argv_to_path :: "db_dirs \<Rightarrow> string list \<Rightarrow> (int \<times> db_full_path) option" where
  "db_argv_to_path d argv =
     (let found = map (\<lambda>a. db_lookup d (Some a)) argv
      in if None \<in> set found then None
         else let names = map the found
              in Some (if None \<in> set names then -1 else 0,
                       \<lparr>fp_names = names, fp_maxlen = length argv\<rparr>))"

definition db_identical_full_paths :: "db_full_path option \<Rightarrow> db_full_path option \<Rightarrow> int" where
  "db_identical_full_paths a b =
     (case (a, b) of
        (None, None) \<Rightarrow> 1
      | (Some a, Some b) \<Rightarrow>
          if length (fp_names a) \<noteq> length (fp_names b) then 0
          else if list_ex (\<lambda>i. fp_names a ! i \<noteq> fp_names b ! i) (rev [0..<length (fp_names a)]) then 0 else 1
      | _ \<Rightarrow> 0)"

text \<open>The search for \<open>b\<close> in \<open>a\<close> from position \<open>i\<close> on, \<open>left\<close> positions being left;
  \<open>None\<close> when the first entry of an empty path is read.\<close>

fun subset_loop :: "dir_ptr option list \<Rightarrow> dir_ptr option list \<Rightarrow> nat \<Rightarrow> nat \<Rightarrow> int option" where
  "subset_loop a b i 0 = Some 0"
| "subset_loop a b i (Suc left) =
     (if b = [] then None
      else if a ! i \<noteq> b ! 0 then subset_loop a b (i + 1) left
      else if length b > length a - i then Some 0
      else if list_all (\<lambda>j. a ! (i + j) = b ! j) [1..<length b] then Some 1
      else subset_loop a b (i + 1) left)"

definition db_full_path_subset :: "db_full_path \<Rightarrow> db_full_path \<Rightarrow> bool \<Rightarrow> int option" where
  "db_full_path_subset a b skip_first =
     (if length (fp_names b) > length (fp_names a) then Some 0
      else let i = (if skip_first then 1 else 0)
           in subset_loop (fp_names a) (fp_names b) i (length (fp_names a) - i))"

definition db_full_path_match_top :: "db_full_path \<Rightarrow> db_full_path \<Rightarrow> int" where
  "db_full_path_match_top a b =
     (if length (fp_names a) > length (fp_names b) then 0
      else if list_all (\<lambda>i. fp_names a ! i = fp_names b ! i) [0..<length (fp_names a)] then 1 else 0)"

definition db_full_path_search :: "db_full_path \<Rightarrow> dir_ptr option \<Rightarrow> int" where
  "db_full_path_search a dp =
     (case dp of None \<Rightarrow> 0
      | Some p \<Rightarrow> if list_ex (\<lambda>i. fp_names a ! i = Some p) (rev [0..<length (fp_names a)]) then 1 else 0)"

text \<open>A null entry on the way is dereferenced: \<open>None\<close>.  The first argument counts
  \<open>depth + 1\<close>.\<close>

fun cyclic_path :: "db_dirs \<Rightarrow> dir_ptr option list \<Rightarrow> string option \<Rightarrow> nat \<Rightarrow> int option" where
  "cyclic_path d names None depth1 = Some 0"
| "cyclic_path d names (Some test) 0 = Some 0"
| "cyclic_path d names (Some test) (Suc depth) =
     (case names ! depth of
        None \<Rightarrow> None
      | Some p \<Rightarrow> if test = dir_namep (dir_mem d p) then Some 1
                  else cyclic_path d names (Some test) depth)"

text \<open>The loop of the full check: it takes the name of each entry and then passes \<open>lname\<close>.\<close>

fun cyclic_full :: "db_dirs \<Rightarrow> dir_ptr option list \<Rightarrow> string option \<Rightarrow> nat \<Rightarrow> int option" where
  "cyclic_full d names lname 0 = Some 0"
| "cyclic_full d names lname (Suc depth) =
     (case names ! Suc depth of
        None \<Rightarrow> None
      | Some p \<Rightarrow> do { c \<leftarrow> cyclic_path d names lname (depth + 1);
                       if c \<noteq> 0 then Some 1 else cyclic_full d names lname depth })"

definition db_full_path_cyclic ::
  "db_dirs \<Rightarrow> db_full_path option \<Rightarrow> string option \<Rightarrow> bool \<Rightarrow> int option" where
  "db_full_path_cyclic d fp lname full_check =
     (case fp of
        None \<Rightarrow> Some 0
      | Some pp \<Rightarrow>
          let names = fp_names pp; len = length names
          in if \<not> full_check
             then (case lname of
                     Some l \<Rightarrow> cyclic_path d names (Some l) len
                   | None \<Rightarrow> if len = 0 then None
                             else case last names of
                                    None \<Rightarrow> Some 0
                                  | Some p \<Rightarrow> cyclic_path d names (Some (dir_namep (dir_mem d p))) (len - 1))
             else do { c \<leftarrow> cyclic_path d names lname len;
                       if c \<noteq> 0 then Some 1 else cyclic_full d names lname (len - 1) })"

end
