(* ===== verification/DbDirProof.thy ===== *)
theory DbDirProof
  imports DbDir "HOL-Library.Sublist"
begin

text \<open>
  The directory refines a finite map from names to entries, and paths are written and read
  through it.
\<close>

section \<open>The map a directory stands for\<close>

definition hash_of :: "string \<Rightarrow> nat" where
  "hash_of n = db_dirhash (Some n)"

definition dir_abs :: "db_dirs \<Rightarrow> string \<Rightarrow> dir_ptr option" where
  "dir_abs d n = chain_find (dir_mem d) n (dbi_Head d (hash_of n))"

definition entries :: "db_dirs \<Rightarrow> dir_ptr set" where
  "entries d = (\<Union>k. set (dbi_Head d k))"

definition name_of :: "db_dirs \<Rightarrow> dir_ptr \<Rightarrow> string" where
  "name_of d p = dir_namep (dir_mem d p)"

text \<open>Every entry is on the chain of its name, once; free entries are on no chain.\<close>

definition dir_ok :: "db_dirs \<Rightarrow> bool" where
  "dir_ok d \<longleftrightarrow> (\<forall>k. distinct (dbi_Head d k) \<and> (\<forall>p\<in>set (dbi_Head d k). hash_of (name_of d p) = k))
     \<and> distinct (re_directory_hd d) \<and> entries d \<inter> set (re_directory_hd d) = {}
     \<and> (\<forall>p\<in>entries d \<union> set (re_directory_hd d). p < dir_next d) \<and> 0 < dir_block d"

definition names_unique :: "db_dirs \<Rightarrow> bool" where
  "names_unique d \<longleftrightarrow> inj_on (name_of d) (entries d)"

lemma entries_iff: "dir_ok d \<Longrightarrow> p \<in> entries d \<longleftrightarrow> p \<in> set (dbi_Head d (hash_of (name_of d p)))"
  by (auto simp: entries_def dir_ok_def)

lemma chain_find_Some: "chain_find m n ps = Some p \<Longrightarrow> p \<in> set ps \<and> dir_namep (m p) = n"
  by (induction ps) (auto split: if_splits)

lemma chain_find_None: "chain_find m n ps = None \<longleftrightarrow> (\<forall>p\<in>set ps. dir_namep (m p) \<noteq> n)"
  by (induction ps) auto

lemma chain_find_append:
  "chain_find m n (ps @ qs) = (case chain_find m n ps of None \<Rightarrow> chain_find m n qs | Some p \<Rightarrow> Some p)"
  by (induction ps) auto

lemma chain_find_cong:
  "(\<And>p. p \<in> set ps \<Longrightarrow> dir_namep (m p) = dir_namep (m' p)) \<Longrightarrow> chain_find m n ps = chain_find m' n ps"
  by (induction ps) auto

lemma dir_abs_entry: "dir_abs d n = Some p \<Longrightarrow> p \<in> entries d \<and> name_of d p = n"
  using chain_find_Some by (fastforce simp: dir_abs_def entries_def name_of_def)

lemma dir_abs_None:
  assumes "dir_ok d"
  shows "dir_abs d n = None \<longleftrightarrow> n \<notin> name_of d ` entries d"
proof -
  have "p \<in> set (dbi_Head d (hash_of n)) \<longleftrightarrow> p \<in> entries d" if "name_of d p = n" for p
    using entries_iff[OF assms, of p] that by simp
  then show ?thesis unfolding dir_abs_def chain_find_None by (auto simp: name_of_def)
qed

lemma dir_abs_iff:
  assumes "dir_ok d" "names_unique d"
  shows "dir_abs d n = Some p \<longleftrightarrow> p \<in> entries d \<and> name_of d p = n"
proof
  assume "p \<in> entries d \<and> name_of d p = n"
  then obtain q where q: "dir_abs d n = Some q" using dir_abs_None[OF assms(1), of n] by fastforce
  with dir_abs_entry[OF q] \<open>p \<in> entries d \<and> name_of d p = n\<close> assms(2)
  show "dir_abs d n = Some p" by (auto simp: names_unique_def inj_on_def)
qed (rule dir_abs_entry)

lemma unlink_Some:
  "unlink p ps = Some qs \<Longrightarrow> \<exists>xs ys. ps = xs @ p # ys \<and> qs = xs @ ys"
proof (induction ps arbitrary: qs)
  case (Cons q ps)
  then show ?case
  proof (cases "q = p")
    case True
    then show ?thesis using Cons.prems by (auto intro: exI[of _ "[]"])
  next
    case False
    then obtain rs where r: "unlink p ps = Some rs" "qs = q # rs" using Cons.prems by auto
    then obtain xs ys where "ps = xs @ p # ys" "rs = xs @ ys" using Cons.IH by blast
    then show ?thesis using r(2) by (intro exI[of _ "q # xs"] exI[of _ ys]) simp
  qed
qed simp

lemma unlink_None: "unlink p ps = None \<longleftrightarrow> p \<notin> set ps"
  by (induction ps) auto

text \<open>Extensionality for directories with unique names.\<close>

lemma dir_abs_eqI:
  assumes "dir_ok d'" "names_unique d'"
    and "\<And>n p. f n = Some p \<longleftrightarrow> p \<in> entries d' \<and> name_of d' p = n"
  shows "dir_abs d' = f"
proof
  fix n
  show "dir_abs d' n = f n"
    using dir_abs_iff[OF assms(1,2), of n] assms(3)[of n] by (cases "dir_abs d' n"; cases "f n") auto
qed

section \<open>Removing an entry from its chain\<close>

definition off_chain :: "db_dirs \<Rightarrow> dir_ptr \<Rightarrow> dir_ptr list \<Rightarrow> db_dirs" where
  "off_chain d p qs = d\<lparr>dbi_Head := (dbi_Head d)(hash_of (name_of d p) := qs)\<rparr>"

lemma off_chain_entries:
  assumes "dir_ok d" "unlink p (dbi_Head d (hash_of (name_of d p))) = Some qs"
  shows "entries (off_chain d p qs) = entries d - {p}" "p \<in> entries d"
    "\<And>k. distinct (dbi_Head (off_chain d p qs) k)"
    "\<And>k q. q \<in> set (dbi_Head (off_chain d p qs) k) \<longleftrightarrow> q \<in> set (dbi_Head d k) \<and> q \<noteq> p"
proof -
  let ?h = "hash_of (name_of d p)"
  obtain xs ys where s: "dbi_Head d ?h = xs @ p # ys" "qs = xs @ ys" using unlink_Some[OF assms(2)] by blast
  have dist: "distinct (dbi_Head d k)" for k using assms(1) by (simp add: dir_ok_def)
  have only: "p \<in> set (dbi_Head d k) \<longleftrightarrow> k = ?h" for k
  proof
    assume "p \<in> set (dbi_Head d k)"
    then show "k = ?h" using assms(1) by (auto simp: dir_ok_def)
  next
    assume "k = ?h"
    then show "p \<in> set (dbi_Head d k)" by (simp add: s(1))
  qed
  show m: "q \<in> set (dbi_Head (off_chain d p qs) k) \<longleftrightarrow> q \<in> set (dbi_Head d k) \<and> q \<noteq> p" for k q
    using dist[of ?h] only[of k] s by (auto simp: off_chain_def)
  then show "entries (off_chain d p qs) = entries d - {p}" by (auto simp: entries_def)
  have "p \<in> set (dbi_Head d ?h)" by (simp add: s(1))
  then show "p \<in> entries d" by (auto simp: entries_def)
  show "distinct (dbi_Head (off_chain d p qs) k)" for k
    using dist[of k] dist[of ?h] s by (auto simp: off_chain_def)
qed

lemma unlink_entry:
  assumes "dir_ok d" "p \<in> entries d"
  obtains qs where "unlink p (dbi_Head d (hash_of (name_of d p))) = Some qs"
  using unlink_None[of p "dbi_Head d (hash_of (name_of d p))"] assms entries_iff[OF assms(1)] by fastforce

lemma off_chain_ok:
  assumes "dir_ok d" "unlink p (dbi_Head d (hash_of (name_of d p))) = Some qs"
  shows "dir_ok (off_chain d p qs)" "name_of (off_chain d p qs) = name_of d"
    "p \<notin> set (re_directory_hd (off_chain d p qs))" "p < dir_next (off_chain d p qs)"
    "names_unique d \<Longrightarrow> names_unique (off_chain d p qs)"
    "names_unique d \<Longrightarrow> dir_abs (off_chain d p qs) = (dir_abs d)(name_of d p := None)"
proof -
  note oc = off_chain_entries[OF assms]
  show nm: "name_of (off_chain d p qs) = name_of d" by (rule ext) (simp add: name_of_def off_chain_def)
  have sel: "re_directory_hd (off_chain d p qs) = re_directory_hd d" "dir_next (off_chain d p qs) = dir_next d"
    "dir_block (off_chain d p qs) = dir_block d"
    by (simp_all add: off_chain_def)
  show ok: "dir_ok (off_chain d p qs)"
    unfolding dir_ok_def oc(1) nm sel using assms(1) oc(3,4) by (auto simp: dir_ok_def)
  show "p \<notin> set (re_directory_hd (off_chain d p qs))" "p < dir_next (off_chain d p qs)"
    using assms(1) oc(2) by (auto simp: dir_ok_def sel)
  assume u: "names_unique d"
  then show un: "names_unique (off_chain d p qs)" by (auto simp: names_unique_def oc(1) nm inj_on_def)
  show "dir_abs (off_chain d p qs) = (dir_abs d)(name_of d p := None)"
  proof (rule dir_abs_eqI[OF ok un])
    fix n q
    show "((dir_abs d)(name_of d p := None)) n = Some q
        \<longleftrightarrow> q \<in> entries (off_chain d p qs) \<and> name_of (off_chain d p qs) q = n"
      using dir_abs_iff[OF assms(1) u, of n q] u oc(2)
      by (auto simp: oc(1) nm names_unique_def inj_on_def)
  qed
qed

lemma dirdelete_removes:
  assumes "dir_ok d" "names_unique d" "p \<in> entries d"
  shows "\<exists>d'. db_dirdelete d p = (0, d') \<and> dir_ok d' \<and> names_unique d'
    \<and> dir_abs d' = (dir_abs d)(name_of d p := None)"
proof -
  obtain qs where u: "unlink p (dbi_Head d (hash_of (name_of d p))) = Some qs"
    using unlink_entry[OF assms(1,3)] .
  let ?d = "off_chain d p qs"
  note oc = off_chain_ok[OF assms(1) u] and pe = off_chain_entries(1)[OF assms(1) u]
  define d' where "d' = ?d\<lparr>re_directory_hd := p # re_directory_hd ?d\<rparr>"
  have del: "db_dirdelete d p = (0, d')"
    using u by (simp add: db_dirdelete_def d'_def off_chain_def hash_of_def name_of_def Let_def)
  have same: "entries d' = entries ?d" "name_of d' = name_of ?d" "dir_abs d' = dir_abs ?d"
    by (auto simp: entries_def name_of_def dir_abs_def d'_def fun_eq_iff)
  have "dir_ok d'"
    using oc(1,3,4) pe unfolding dir_ok_def same by (auto simp: d'_def)
  moreover have "names_unique d'" using oc(5)[OF assms(2)] by (simp add: names_unique_def same)
  ultimately show ?thesis using del oc(6)[OF assms(2)] by (simp add: same)
qed

lemma dirdelete_absent:
  assumes "dir_ok d" "p \<notin> entries d"
  shows "db_dirdelete d p = (-1, d)"
proof -
  have "unlink p (dbi_Head d (hash_of (name_of d p))) = None"
    using assms by (auto simp: unlink_None entries_def)
  then show ?thesis by (simp add: db_dirdelete_def hash_of_def name_of_def)
qed

section \<open>Putting an entry on its chain\<close>

definition on_chain :: "db_dirs \<Rightarrow> dir_ptr \<Rightarrow> dir_entry \<Rightarrow> db_dirs" where
  "on_chain d p e =
     (let h = hash_of (dir_namep e)
      in d\<lparr>dir_mem := (dir_mem d)(p := e), dbi_Head := (dbi_Head d)(h := p # dbi_Head d h)\<rparr>)"

lemma on_chain_ok:
  assumes "dir_ok d" "p \<notin> entries d" "p \<notin> set (re_directory_hd d)" "p < dir_next d"
  shows "dir_ok (on_chain d p e)" "entries (on_chain d p e) = insert p (entries d)"
    "name_of (on_chain d p e) = (name_of d)(p := dir_namep e)"
    "dir_abs (on_chain d p e) = (dir_abs d)(dir_namep e \<mapsto> p)"
    "names_unique (on_chain d p e) \<longleftrightarrow> names_unique d \<and> dir_abs d (dir_namep e) = None"
proof -
  let ?d = "on_chain d p e"
  have notin: "p \<notin> set (dbi_Head d k)" for k using assms(2) by (auto simp: entries_def)
  show e: "entries ?d = insert p (entries d)"
    by (auto simp: entries_def on_chain_def Let_def split: if_splits)
  show nm: "name_of ?d = (name_of d)(p := dir_namep e)"
    by (auto simp: name_of_def on_chain_def Let_def fun_eq_iff)
  have sel: "re_directory_hd ?d = re_directory_hd d" "dir_next ?d = dir_next d" "dir_block ?d = dir_block d"
    by (simp_all add: on_chain_def Let_def)
  have hd: "dbi_Head ?d k = (if k = hash_of (dir_namep e) then p # dbi_Head d k else dbi_Head d k)" for k
    by (simp add: on_chain_def Let_def)
  have d: "distinct (dbi_Head ?d k)" for k using assms(1) notin by (simp add: hd dir_ok_def)
  have h: "hash_of (name_of ?d q) = k" if "q \<in> set (dbi_Head ?d k)" for q k
    using that assms(1) notin[of k] by (auto simp: hd nm dir_ok_def split: if_splits)
  show "dir_ok ?d"
    using assms d h unfolding dir_ok_def[of ?d] e sel by (auto simp: dir_ok_def[of d])
  show "dir_abs ?d = (dir_abs d)(dir_namep e \<mapsto> p)"
  proof
    fix n
    have old: "chain_find (dir_mem ?d) n (dbi_Head d k) = chain_find (dir_mem d) n (dbi_Head d k)" for k
      using notin[of k] by (intro chain_find_cong) (auto simp: on_chain_def Let_def)
    have new: "dir_namep (dir_mem ?d p) = dir_namep e" by (simp add: on_chain_def Let_def)
    show "dir_abs ?d n = ((dir_abs d)(dir_namep e \<mapsto> p)) n"
      using old new by (auto simp: dir_abs_def hd)
  qed
  have "inj_on ((name_of d)(p := dir_namep e)) (entries d) \<longleftrightarrow> inj_on (name_of d) (entries d)"
    using assms(2) by (intro inj_on_cong) auto
  moreover have "((name_of d)(p := dir_namep e)) ` entries d = name_of d ` entries d"
    using assms(2) by (intro image_cong) auto
  ultimately show "names_unique ?d \<longleftrightarrow> names_unique d \<and> dir_abs d (dir_namep e) = None"
    unfolding names_unique_def e nm using assms(2) dir_abs_None[OF assms(1), of "dir_namep e"] by simp
qed

lemma rename_moves:
  assumes "dir_ok d" "names_unique d" "p \<in> entries d"
  shows "\<exists>d'. db_rename d p new = (0, d') \<and> dir_ok d' \<and> entries d' = entries d
    \<and> dir_abs d' = (dir_abs d)(name_of d p := None, new \<mapsto> p)
    \<and> (names_unique d' \<longleftrightarrow> dir_abs d new = None \<or> dir_abs d new = Some p)"
proof -
  obtain qs where u: "unlink p (dbi_Head d (hash_of (name_of d p))) = Some qs"
    using unlink_entry[OF assms(1,3)] .
  note oc = off_chain_ok[OF assms(1) u] and pe = off_chain_entries(1)[OF assms(1) u]
  have notin: "p \<notin> entries (off_chain d p qs)" by (simp add: pe)
  let ?d = "on_chain (off_chain d p qs) p ((dir_mem d p)\<lparr>dir_namep := new\<rparr>)"
  note on = on_chain_ok[OF oc(1) notin oc(3,4), of "(dir_mem d p)\<lparr>dir_namep := new\<rparr>"]
  have "db_rename d p new = (0, ?d)"
    using u by (simp add: db_rename_def on_chain_def off_chain_def hash_of_def name_of_def Let_def)
  moreover have "entries ?d = entries d" using on(2) pe assms(3) by auto
  moreover have "dir_abs ?d = (dir_abs d)(name_of d p := None, new \<mapsto> p)"
    using on(4) oc(6)[OF assms(2)] by simp
  moreover have "names_unique ?d \<longleftrightarrow> dir_abs d new = None \<or> dir_abs d new = Some p"
    using on(5) oc(5,6)[OF assms(2)] dir_abs_iff[OF assms(1,2), of new p]
      dir_abs_iff[OF assms(1,2), of "name_of d p" p] assms(3) by auto
  ultimately show ?thesis using on(1) by blast
qed

section \<open>Adding an entry\<close>

lemma lookup_plain:
  assumes "CHR ''/'' \<notin> set n" "n \<noteq> []"
  shows "db_lookup d (Some n) = Some (dir_abs d n)"
  using assms by (simp add: db_lookup_def lookup_name_def dir_abs_def hash_of_def)

lemma get_directory:
  assumes "dir_ok d"
  obtains dp d' where "RT_GET_DIRECTORY d = (dp, d')" "dir_ok d'" "dbi_Head d' = dbi_Head d"
    "dir_mem d' = dir_mem d" "dbi_version d' = dbi_version d"
    "dp \<notin> entries d" "dp \<notin> set (re_directory_hd d')" "dp < dir_next d'"
proof -
  let ?d = "if re_directory_hd d = [] then db_alloc_directory_block d else d"
  have ent: "entries (db_alloc_directory_block d) = entries d" "name_of (db_alloc_directory_block d) = name_of d"
    by (auto simp: entries_def name_of_def db_alloc_directory_block_def fun_eq_iff)
  have new: "dir_ok (db_alloc_directory_block d)" if "re_directory_hd d = []"
  proof -
    have "p < dir_next d" if "p \<in> entries d" for p using assms that by (simp add: dir_ok_def)
    then have "entries d \<inter> {dir_next d..<dir_next d + dir_block d} = {}"
      "\<And>p. p \<in> entries d \<Longrightarrow> p < dir_next d + dir_block d" by fastforce+
    then show ?thesis
      unfolding dir_ok_def ent using assms
      by (auto simp: dir_ok_def db_alloc_directory_block_def)
  qed
  have ok: "dir_ok ?d" using assms new by auto
  have ne: "re_directory_hd ?d \<noteq> []"
    using assms by (auto simp: db_alloc_directory_block_def dir_ok_def)
  then obtain dp fs where fs: "re_directory_hd ?d = dp # fs" by (cases "re_directory_hd ?d") auto
  let ?d' = "?d\<lparr>re_directory_hd := fs\<rparr>"
  have e': "entries ?d' = entries ?d" "name_of ?d' = name_of ?d" "entries ?d = entries d"
    using ent by (auto simp: entries_def name_of_def fun_eq_iff)
  have ok': "dir_ok ?d'"
    using ok unfolding dir_ok_def e' by (auto simp: fs)
  have out: "dp \<notin> entries d" "dp < dir_next ?d'" "dp \<notin> set fs"
    using ok fs e'(3) by (auto simp: dir_ok_def)
  show ?thesis
  proof (rule that)
    show "RT_GET_DIRECTORY d = (dp, ?d')" by (simp only: RT_GET_DIRECTORY_def Let_def fs list.sel)
  qed (use ok' out in \<open>simp_all add: db_alloc_directory_block_def\<close>)
qed

text \<open>The name an entry gets, for a directory given as a map: its own if free, otherwise the
  first free one with a letter in front.\<close>

definition fresh_name :: "(string \<Rightarrow> 'a option) \<Rightarrow> string \<Rightarrow> string option" where
  "fresh_name m n =
     (if m n = None then Some n
      else find (\<lambda>s. m s = None) (map (\<lambda>c. char_of c # CHR ''_'' # n) [65..<91]))"

lemma letter_not_slash:
  assumes "65 \<le> c" "c < 91"
  shows "(char_of (c :: nat) :: char) \<noteq> CHR ''/''"
proof
  assume "(char_of c :: char) = CHR ''/''"
  then have "(of_char (char_of c :: char) :: nat) = of_char (CHR ''/'')" by (rule arg_cong)
  then have "c mod 256 = 47" by simp
  then show False using assms by simp
qed

lemma first_letter_find:
  assumes "CHR ''/'' \<notin> set rest" "c + left \<le> 91" "65 \<le> c"
  shows "first_letter d rest c left
    = find (\<lambda>s. dir_abs d s = None) (map (\<lambda>c. char_of c # rest) [c..<c + left])"
  using assms(2,3)
proof (induction left arbitrary: c)
  case (Suc left)
  have "char_of c \<noteq> CHR ''/''" using Suc.prems by (intro letter_not_slash) auto
  then have l: "db_lookup d (Some (char_of c # rest)) = Some (dir_abs d (char_of c # rest))"
    using assms(1) by (intro lookup_plain) auto
  have "[c..<c + Suc left] = c # [Suc c..<Suc c + left]" by (simp add: upt_conv_Cons)
  then show ?case using Suc.IH[of "Suc c"] Suc.prems by (simp add: l)
qed simp

lemma fresh_name_free: "fresh_name m n = Some s \<Longrightarrow> m s = None"
  by (auto simp: fresh_name_def find_Some_iff split: if_splits)

lemma dircheck_fresh:
  assumes "CHR ''/'' \<notin> set n"
  shows "db_dircheck d n = map_option (\<lambda>s. (s, hash_of s)) (fresh_name (dir_abs d) n)"
proof (cases "dir_abs d n")
  case None
  then show ?thesis by (simp add: db_dircheck_def fresh_name_def dir_abs_def hash_of_def)
next
  case (Some dp)
  then have "dir_namep (dir_mem d dp) = n" using dir_abs_entry by (auto simp: name_of_def)
  moreover have "first_letter d (CHR ''_'' # n) 65 26
      = find (\<lambda>s. dir_abs d s = None) (map (\<lambda>c. char_of c # CHR ''_'' # n) [65..<91])"
    using first_letter_find[of "CHR ''_'' # n" 65 26 d] assms by simp
  ultimately show ?thesis
    using Some by (simp add: db_dircheck_def fresh_name_def dir_abs_def hash_of_def)
qed

text \<open>What is stored of a name, and what a new entry holds.\<close>

definition stored_name :: "db_dirs \<Rightarrow> string \<Rightarrow> string" where
  "stored_name d name = (if dbi_version d < 5 then take NAMESIZE name else name)"

definition new_entry :: "db_dirs \<Rightarrow> string \<Rightarrow> off_t \<Rightarrow> size_t \<Rightarrow> 32 word \<Rightarrow> byte option \<Rightarrow> dir_entry" where
  "new_entry d s laddr len flags ptr =
     \<lparr>dir_namep = s, dir_addr = laddr, dir_flags = flags AND NOT RT_DIR_INMEM, dir_len = len,
      dir_major = (if dbi_version d > 4 then 1 else 0),
      dir_minor = (if dbi_version d > 4 then (case ptr of Some p \<Rightarrow> p | None \<Rightarrow> 0) else 0),
      dir_uses = 0, dir_nref = 0\<rparr>"

lemma slash_in_take:
  "c \<in> set xs \<Longrightarrow> length (takeWhile (\<lambda>x. x \<noteq> c) xs) < n \<Longrightarrow> c \<in> set (take n xs)"
proof (induction xs arbitrary: n)
  case (Cons x xs)
  then show ?case by (cases n) (auto split: if_splits)
qed simp

lemma diradd_accepts:
  assumes "dbi_version d < 5 \<Longrightarrow> CHR ''/'' \<notin> set (stored_name d name)"
    and "dbi_version d < 5 \<or> ptr \<noteq> None"
  shows "db_diradd d name laddr len flags ptr
    = (case db_dircheck d (stored_name d name) of
         None \<Rightarrow> (None, d)
       | Some (s, h) \<Rightarrow> (case RT_GET_DIRECTORY d of (dp, d') \<Rightarrow>
           (Some dp, d'\<lparr>dir_mem := (dir_mem d')(dp := new_entry d' s laddr len flags ptr),
                        dbi_Head := (dbi_Head d')(h := dp # dbi_Head d' h)\<rparr>)))"
  using assms slash_in_take[of "CHR ''/''" name NAMESIZE]
  by (auto simp: db_diradd_def stored_name_def new_entry_def Let_def split: option.splits prod.splits)

lemma diradd_chosen:
  assumes ok: "dir_ok d" and slash: "dbi_version d < 5 \<Longrightarrow> CHR ''/'' \<notin> set (stored_name d name)"
    and minor: "dbi_version d < 5 \<or> ptr \<noteq> None"
    and chosen: "db_dircheck d (stored_name d name) = Some (s, hash_of s)" and free: "dir_abs d s = None"
  shows "\<exists>dp d'. db_diradd d name laddr len flags ptr = (Some dp, d') \<and> dir_ok d'
        \<and> dp \<notin> entries d \<and> entries d' = insert dp (entries d)
        \<and> (names_unique d \<longrightarrow> names_unique d')
        \<and> dir_abs d' = (dir_abs d)(s \<mapsto> dp) \<and> dbi_version d' = dbi_version d
        \<and> dir_mem d' = (dir_mem d)(dp := new_entry d s laddr len flags ptr)"
proof -
  obtain dp d' where g: "RT_GET_DIRECTORY d = (dp, d')" "dir_ok d'" "dbi_Head d' = dbi_Head d"
    "dir_mem d' = dir_mem d" "dbi_version d' = dbi_version d"
    "dp \<notin> entries d" "dp \<notin> set (re_directory_hd d')" "dp < dir_next d'"
    using get_directory[OF ok] .
  have same: "entries d' = entries d" "dir_abs d' = dir_abs d" "name_of d' = name_of d"
    "new_entry d' s laddr len flags ptr = new_entry d s laddr len flags ptr"
    by (simp_all add: entries_def dir_abs_def name_of_def new_entry_def fun_eq_iff g(3-5))
  let ?e = "new_entry d s laddr len flags ptr"
  have nm: "dir_namep ?e = s" by (simp add: new_entry_def)
  note on = on_chain_ok[OF g(2) _ g(7,8), unfolded same, OF g(6), of ?e, unfolded nm]
  have "db_diradd d name laddr len flags ptr = (Some dp, on_chain d' dp ?e)"
    by (simp add: diradd_accepts[OF slash minor] chosen g(1) same on_chain_def nm Let_def)
  moreover have "names_unique d' = names_unique d" by (simp add: names_unique_def same)
  moreover have "dir_mem (on_chain d' dp ?e) = (dir_mem d)(dp := ?e)"
    "dbi_version (on_chain d' dp ?e) = dbi_version d"
    by (simp_all add: on_chain_def Let_def g(4,5))
  ultimately show ?thesis using on g(6) free by (auto simp del: fun_upd_apply)
qed

lemma diradd_spec:
  assumes ok: "dir_ok d" and slash: "CHR ''/'' \<notin> set (stored_name d name)"
    and minor: "dbi_version d < 5 \<or> ptr \<noteq> None"
  shows "case fresh_name (dir_abs d) (stored_name d name) of
      None \<Rightarrow> db_diradd d name laddr len flags ptr = (None, d)
    | Some s \<Rightarrow> \<exists>dp d'. db_diradd d name laddr len flags ptr = (Some dp, d') \<and> dir_ok d'
        \<and> dp \<notin> entries d \<and> entries d' = insert dp (entries d)
        \<and> (names_unique d \<longrightarrow> names_unique d')
        \<and> dir_abs d' = (dir_abs d)(s \<mapsto> dp) \<and> dbi_version d' = dbi_version d
        \<and> dir_mem d' = (dir_mem d)(dp := new_entry d s laddr len flags ptr)"
proof (cases "fresh_name (dir_abs d) (stored_name d name)")
  case None
  then show ?thesis using dircheck_fresh[OF slash, of d] by (simp add: diradd_accepts[OF slash minor])
next
  case (Some s)
  then show ?thesis
    using diradd_chosen[OF ok slash minor _ fresh_name_free[OF Some], of laddr len flags]
      dircheck_fresh[OF slash, of d] by simp
qed

text \<open>Without a type, or with a slash in the first characters of an old name, nothing is added.\<close>

lemma diradd_refuses:
  assumes "\<not> (dbi_version d < 5 \<or> ptr \<noteq> None)"
  shows "db_diradd d name laddr len flags ptr = (None, d)"
  using assms by (simp add: db_diradd_def)

section \<open>The directories that are reached\<close>

definition plain_name :: "string \<Rightarrow> bool" where
  "plain_name n \<longleftrightarrow> n \<noteq> [] \<and> CHR ''/'' \<notin> set n"

definition dir_inv :: "db_dirs \<Rightarrow> bool" where
  "dir_inv d \<longleftrightarrow> dir_ok d \<and> names_unique d \<and> (\<forall>p\<in>entries d. plain_name (name_of d p))"

definition no_dirs :: "int \<Rightarrow> db_dirs" where
  "no_dirs version = \<lparr>dbi_Head = (\<lambda>_. []), dir_mem = (\<lambda>_. \<lparr>dir_namep = [], dir_addr = 0, dir_flags = 0,
     dir_len = 0, dir_major = 0, dir_minor = 0, dir_uses = 0, dir_nref = 0\<rparr>),
     re_directory_hd = [], dir_next = 0, dir_block = 1024, dbi_version = version\<rparr>"

text \<open>The callers' rules: names are not empty and have no slash, and an entry is renamed to a
  name that is free.\<close>

inductive dir_step :: "db_dirs \<Rightarrow> db_dirs \<Rightarrow> bool" where
  add: "db_diradd d name laddr len flags ptr = (r, d') \<Longrightarrow> plain_name (stored_name d name) \<Longrightarrow> dir_step d d'"
| delete: "db_dirdelete d p = (r', d') \<Longrightarrow> dir_step d d'"
| rename: "db_rename d p new = (r', d') \<Longrightarrow> plain_name new \<Longrightarrow> dir_abs d new = None \<or> dir_abs d new = Some p
    \<Longrightarrow> dir_step d d'"

lemma dir_inv_no_dirs: "dir_inv (no_dirs v)"
  by (simp add: dir_inv_def dir_ok_def names_unique_def entries_def no_dirs_def)

lemma plain_entries:
  assumes "dir_ok d" "names_unique d"
  shows "(\<forall>p\<in>entries d. plain_name (name_of d p)) \<longleftrightarrow> (\<forall>n\<in>dom (dir_abs d). plain_name n)"
  using dir_abs_iff[OF assms] by (auto simp: dom_def)

lemma find_in: "find P xs = Some x \<Longrightarrow> x \<in> set xs"
  by (induction xs) (auto split: if_splits)

lemma fresh_name_plain: "fresh_name m n = Some s \<Longrightarrow> plain_name n \<Longrightarrow> plain_name s"
proof -
  assume f: "fresh_name m n = Some s" and n: "plain_name n"
  have "\<forall>t\<in>set (map (\<lambda>c. char_of c # CHR ''_'' # n) [65..<91]). plain_name t"
    using n letter_not_slash[THEN not_sym] by (fastforce simp: plain_name_def simp del: upt_rec_numeral)
  moreover have "s \<in> set (map (\<lambda>c. char_of c # CHR ''_'' # n) [65..<91])" if "m n \<noteq> None"
    using f that find_in unfolding fresh_name_def by (simp only: if_False)
  ultimately show "plain_name s" using f n by (cases "m n = None") (auto simp: fresh_name_def)
qed

lemma rename_absent:
  assumes "dir_ok d" "p \<notin> entries d"
  shows "db_rename d p new = (-1, d)"
proof -
  have "unlink p (dbi_Head d (hash_of (name_of d p))) = None"
    using assms by (auto simp: unlink_None entries_def)
  then show ?thesis by (simp add: db_rename_def hash_of_def name_of_def)
qed

lemma dir_inv_step: "dir_step d d' \<Longrightarrow> dir_inv d \<Longrightarrow> dir_inv d'"
proof (induction rule: dir_step.induct)
  case (add d name laddr len flags ptr r d')
  have ok: "dir_ok d" "names_unique d" "CHR ''/'' \<notin> set (stored_name d name)"
    and pl: "\<forall>n\<in>dom (dir_abs d). plain_name n"
    using add.prems add.hyps(2) plain_entries[of d] by (auto simp: dir_inv_def plain_name_def)
  show ?case
  proof (cases "dbi_version d < 5 \<or> ptr \<noteq> None")
    case True
    show ?thesis
    proof (cases "fresh_name (dir_abs d) (stored_name d name)")
      case None
      then show ?thesis using diradd_spec[OF ok(1,3) True, of laddr len flags] add by simp
    next
      case (Some s)
      then have "dir_ok d'" "names_unique d'" "dir_abs d' = (dir_abs d)(s \<mapsto> the r)"
        using diradd_spec[OF ok(1,3) True, of laddr len flags] add.hyps(1) ok(2) by auto
      moreover have "\<forall>n\<in>dom (dir_abs d'). plain_name n"
        using fresh_name_plain[OF Some add.hyps(2)] pl calculation(3) by auto
      ultimately show ?thesis using plain_entries by (auto simp: dir_inv_def)
    qed
  qed (use add diradd_refuses in \<open>metis prod.inject\<close>)
next
  case (delete d p r' d')
  show ?case
  proof (cases "p \<in> entries d")
    case True
    then have "dir_ok d'" "names_unique d'" "dir_abs d' = (dir_abs d)(name_of d p := None)"
      using dirdelete_removes[of d p] delete by (auto simp: dir_inv_def)
    then show ?thesis using delete.prems plain_entries[of d] plain_entries[of d'] by (auto simp: dir_inv_def)
  qed (use delete dirdelete_absent[of d p] in \<open>auto simp: dir_inv_def\<close>)
next
  case (rename d p new r' d')
  show ?case
  proof (cases "p \<in> entries d")
    case True
    then have "dir_ok d'" "names_unique d'" "dir_abs d' = (dir_abs d)(name_of d p := None, new \<mapsto> p)"
      using rename_moves[of d p new] rename by (auto simp: dir_inv_def)
    then show ?thesis
      using rename.prems rename.hyps(2) plain_entries[of d] plain_entries[of d'] by (auto simp: dir_inv_def)
  qed (use rename rename_absent[of d p new] in \<open>auto simp: dir_inv_def\<close>)
qed

lemma dir_inv_reachable: "dir_step\<^sup>*\<^sup>* (no_dirs v) d \<Longrightarrow> dir_inv d"
  by (induction rule: rtranclp_induct) (auto intro: dir_inv_no_dirs dir_inv_step)

section \<open>Properties\<close>

text \<open>A directory with one object in it.\<close>

definition ball_dir :: db_dirs where
  "ball_dir = snd (db_diradd (no_dirs 5) ''ball'' 0 64 0 (Some 1))"

lemma ball_dir:
  "db_diradd (no_dirs 5) ''ball'' 0 64 0 (Some 1) = (Some 1023, ball_dir)"
  "dir_ok ball_dir" "names_unique ball_dir" "entries ball_dir = {1023}" "name_of ball_dir 1023 = ''ball''"
  "dir_abs ball_dir = [''ball'' \<mapsto> 1023]" "dbi_version ball_dir = 5"
proof -
  have n: "dir_ok (no_dirs 5)" "names_unique (no_dirs 5)" using dir_inv_no_dirs by (auto simp: dir_inv_def)
  have e: "dir_abs (no_dirs 5) = (\<lambda>_. None)" "entries (no_dirs 5) = {}" "dbi_version (no_dirs 5) = 5"
    by (auto simp: dir_abs_def entries_def no_dirs_def)
  then have "fresh_name (dir_abs (no_dirs 5)) (stored_name (no_dirs 5) ''ball'') = Some ''ball''"
    by (simp add: fresh_name_def stored_name_def)
  then obtain dp d' where d: "db_diradd (no_dirs 5) ''ball'' 0 64 0 (Some 1) = (Some dp, d')" "dir_ok d'"
    "entries d' = {dp}" "names_unique d'" "dir_abs d' = [''ball'' \<mapsto> dp]" "dbi_version d' = 5"
    using diradd_spec[OF n(1), where name = "''ball''" and ptr = "Some 1" and laddr = 0 and len = 64 and flags = 0] n(2) e by (auto simp: stored_name_def)
  have g: "fst (RT_GET_DIRECTORY (no_dirs 5)) = 1023"
    by (simp add: RT_GET_DIRECTORY_def no_dirs_def db_alloc_directory_block_def Let_def hd_rev)
  have "fst (db_diradd (no_dirs 5) ''ball'' 0 64 0 (Some 1)) = Some (fst (RT_GET_DIRECTORY (no_dirs 5)))"
    by (cases "RT_GET_DIRECTORY (no_dirs 5)")
      (simp add: db_diradd_def db_dircheck_def e(3), simp add: no_dirs_def)
  then have dp: "dp = 1023" using d(1) g by simp
  show "db_diradd (no_dirs 5) ''ball'' 0 64 0 (Some 1) = (Some 1023, ball_dir)"
    using d(1) dp by (simp add: ball_dir_def)
  then have b: "ball_dir = d'" using d(1) by simp
  show "dir_ok ball_dir" "names_unique ball_dir" "entries ball_dir = {1023}"
    "dir_abs ball_dir = [''ball'' \<mapsto> 1023]" "dbi_version ball_dir = 5"
    using d dp b by simp_all
  then show "name_of ball_dir 1023 = ''ball''" using dir_abs_entry[of ball_dir "''ball''" 1023] by simp
qed

text \<open>C34: adding an object refines an insertion into a finite map: a free name is taken as it
  is (cut to 16 characters in an old database), a taken one gets the first letter that makes it
  free, with all 26 taken (or no type given) nothing changes; the entry is a new one, holds what
  was given, and no other entry changes.\<close>

theorem diradd_refines:
  assumes "dir_ok d" "names_unique d" "CHR ''/'' \<notin> set (stored_name d name)"
  shows "case (if dbi_version d < 5 \<or> ptr \<noteq> None then fresh_name (dir_abs d) (stored_name d name) else None) of
      None \<Rightarrow> db_diradd d name laddr len flags ptr = (None, d)
    | Some s \<Rightarrow> \<exists>dp d'. db_diradd d name laddr len flags ptr = (Some dp, d') \<and> dir_ok d' \<and> names_unique d'
        \<and> dp \<notin> entries d \<and> entries d' = insert dp (entries d)
        \<and> dir_abs d s = None \<and> dir_abs d' = (dir_abs d)(s \<mapsto> dp)
        \<and> dir_mem d' = (dir_mem d)(dp := new_entry d s laddr len flags ptr)"
proof (cases "dbi_version d < 5 \<or> ptr \<noteq> None")
  case True
  show ?thesis
    using diradd_spec[OF assms(1,3) True, of laddr len flags] assms(2) True fresh_name_free
    by (cases "fresh_name (dir_abs d) (stored_name d name)") auto
qed (simp add: diradd_refuses)

theorem diradd_refines_witness:
  "\<exists>dp d'. db_diradd ball_dir ''ball'' 64 80 0 (Some 1) = (Some dp, d') \<and> names_unique d'
     \<and> dir_abs d' = [''ball'' \<mapsto> 1023, ''A_ball'' \<mapsto> dp]"
proof -
  have "(char_of (65 :: nat) :: char) = CHR ''A''" by code_simp
  then have "fresh_name [''ball'' \<mapsto> (1023 :: nat)] ''ball'' = Some ''A_ball''"
    by (simp add: fresh_name_def upt_conv_Cons)
  then show ?thesis
    using diradd_refines[OF ball_dir(2,3), where name = "''ball''" and ptr = "Some 1" and laddr = 64 and len = 80 and flags = 0] ball_dir(6,7)
    by (auto simp: stored_name_def)
qed

text \<open>C36: taking an object out, or renaming it, succeeds for every entry and refines the
  removal of its name, followed for a new name by its insertion; the names stay distinct
  after a renaming exactly when the new name was free (or its own), which the code does not
  check: an entry that had the name is hidden.\<close>

theorem delete_rename_refines:
  assumes "dir_ok d" "names_unique d" "p \<in> entries d"
  shows "(\<exists>d'. db_dirdelete d p = (0, d') \<and> dir_ok d' \<and> names_unique d'
           \<and> dir_abs d' = (dir_abs d)(name_of d p := None))
    \<and> (\<exists>d'. db_rename d p new = (0, d') \<and> dir_ok d' \<and> entries d' = entries d
           \<and> dir_abs d' = (dir_abs d)(name_of d p := None, new \<mapsto> p)
           \<and> (names_unique d' \<longleftrightarrow> dir_abs d new = None \<or> dir_abs d new = Some p))"
  using dirdelete_removes[OF assms] rename_moves[OF assms] by blast

theorem delete_rename_refines_witness:
  "(\<exists>d'. db_dirdelete ball_dir 1023 = (0, d') \<and> dir_abs d' = Map.empty)
    \<and> (\<exists>d'. db_rename ball_dir 1023 ''sph'' = (0, d') \<and> names_unique d' \<and> dir_abs d' = [''sph'' \<mapsto> 1023])"
  using delete_rename_refines[OF ball_dir(2,3), of 1023 "''sph''"] ball_dir(4-6) by auto

text \<open>C35: in every directory built from an empty one by adding objects under plain names, deleting
  objects, and renaming them to plain names that are free or their own (renaming to a taken name hides an object,
  see \<open>delete_rename_refines\<close>), each object is found under its name and each name found belongs to its
  object.\<close>

theorem reachable_lookup:
  assumes "dir_step\<^sup>*\<^sup>* (no_dirs v) d" "plain_name n"
  shows "db_lookup d (Some n) = Some (Some p) \<longleftrightarrow> p \<in> entries d \<and> name_of d p = n"
  using dir_inv_reachable[OF assms(1)] lookup_plain[of n d] assms(2) dir_abs_iff[of d n p]
  by (auto simp: dir_inv_def plain_name_def)

theorem reachable_lookup_witness:
  "db_lookup ball_dir (Some ''ball'') = Some (Some 1023)"
proof -
  have "dir_step (no_dirs 5) ball_dir"
    by (rule dir_step.add[OF ball_dir(1)]) (simp add: plain_name_def stored_name_def no_dirs_def)
  then have "dir_step\<^sup>*\<^sup>* (no_dirs 5) ball_dir" by simp
  from reachable_lookup[OF this, of "''ball''" 1023] show ?thesis
    using ball_dir(4,5) by (simp add: plain_name_def)
qed

end
