(* ===== verification/Db5Scan.thy ===== *)
theory Db5Scan
  imports Complex_Main Db5Internal DbDirProof
begin

text \<open>
  Scanning a v5 database file for its objects: \<open>db5_get_raw_internal_fp\<close> of
  \<open>librt/db5_io.c\<close>, and \<open>db5_scan\<close>, \<open>db5_diradd\<close>, \<open>db_diradd5\<close>,
  \<open>db5_diradd_handler\<close>, \<open>db_version\<close> of \<open>librt/db5_scan.c\<close>.

  A file opened for reading is the list of its bytes and a position; a read past the end
  gives what there is and moves to the end.  A database that is mapped into memory
  (\<open>dbi_mf\<close> not null) has \<open>dbi_inmem\<close>.  What the uninitialised structure \<open>raw\<close> of
  \<open>db5_scan\<close> holds is an argument.
\<close>

unbundle bit_operations_syntax

section \<open>Reading the next object of a file\<close>

text \<open>The number of bytes of the object length; for no known width nothing is read.\<close>

definition lenbuf_count :: "byte \<Rightarrow> nat" where
  "lenbuf_count width =
     (if unat width = DB5HDR_WIDTHCODE_8BIT then 1
      else if unat width = DB5HDR_WIDTHCODE_16BIT then 2
      else if unat width = DB5HDR_WIDTHCODE_32BIT then 4
      else if unat width = DB5HDR_WIDTHCODE_64BIT then 8 else 0)"

text \<open>\<open>fread\<close> of \<open>n\<close> bytes: what was read and the new position.\<close>

definition fread :: "nat \<Rightarrow> byte list \<Rightarrow> nat \<Rightarrow> byte list \<times> nat" where
  "fread n f pos = (let got = take n (drop pos f) in (got, pos + length got))"

text \<open>The rest of an object of which the header and the length field \<open>lenbuf\<close> were read:
  the result code, the structure, the buffer \<open>rip->buf\<close> its sections point into, and the
  position of the file.\<close>

definition raw_fp_rest ::
  "db5_raw_internal \<Rightarrow> byte list \<Rightarrow> byte list \<Rightarrow> byte list \<Rightarrow> nat
     \<Rightarrow> (int \<times> db5_raw_internal \<times> byte list \<times> nat) option" where
  "raw_fp_rest rip header lenbuf f pos =
     do { (len, dlen) \<leftarrow> db5_decode_length lenbuf (unat (h_object_width rip));
          if dlen < 1 \<or> dlen > 8 then Some (-1, rip\<lparr>object_length := len\<rparr>, [], pos)
          else if len > drop_bit 3 (- 1) then Some (-1, rip\<lparr>object_length := len\<rparr>, [], pos)
          else do {
            let used = sizeof_header + dlen;
            let rip = rip\<lparr>object_length := push_bit 3 len\<rparr>;
            let n = unat (object_length rip);
            if n < sizeof_header \<or> n < used then Some (-1, rip, [], pos)
            else do {
              let (got, pos) = fread (n - used) f pos;
              let buf = header @ lenbuf @ got;
              if length got \<noteq> n - used then Some (-2, rip, buf, pos)
              else if buf ! (n - 1) \<noteq> DB5HDR_MAGIC2 then Some (-2, rip, buf, pos)
              else do { (rip, _) \<leftarrow> grab_sections rip buf used;
                        Some (0, rip, buf, pos) } } } }"

definition db5_get_raw_internal_fp ::
  "db5_raw_internal \<Rightarrow> byte list \<Rightarrow> nat \<Rightarrow> (int \<times> db5_raw_internal \<times> byte list \<times> nat) option" where
  "db5_get_raw_internal_fp rip f pos =
     (let (header, pos) = fread sizeof_header f pos
      in if length header \<noteq> sizeof_header then Some (-1, rip, [], pos)
         else do { (rc, rip) \<leftarrow> crack_disk_header rip header;
                   if rc < 0 then Some (-2, rip, [], pos)
                   else let count = lenbuf_count (h_object_width rip); (lenbuf, pos) = fread count f pos
                        in if count = 0 \<or> length lenbuf \<noteq> count then Some (-2, rip, [], pos)
                           else raw_fp_rest rip header lenbuf f pos })"

section \<open>The scan\<close>

record scan_db =
  scan_file :: db_i
  scan_dirs :: db_dirs
  dbi_nrec :: nat
  dbi_title :: "string option"
  dbi_local2base :: real
  dbi_base2local :: real
  dbi_fp_open :: bool

text \<open>A handler gets the database, the structure with the bytes its sections point into, and the
  address of the object.\<close>

type_synonym handler = "scan_db \<Rightarrow> db5_raw_internal \<Rightarrow> byte list \<Rightarrow> off_t \<Rightarrow> scan_db option"

lemma raw_ptr_advances:
  assumes "db5_get_raw_internal_ptr rip ip = Some (rip', Some n)"
  shows "sizeof_header \<le> n" "n \<le> length ip" "n = unat (object_length rip')"
  using assms by (auto simp: db5_get_raw_internal_ptr_def grab_sections_def Let_def not_less
      split: if_splits elim!: option_elims)

lemma raw_ptr_positive:
  "db5_get_raw_internal_ptr rip ip = Some (rip', Some n) \<Longrightarrow> 0 < unat (object_length rip')"
  using raw_ptr_advances[of rip ip rip' n] by (simp add: sizeof_header_def)

text \<open>The loop over the mapped file: the result code, the address reached, the database and the
  number of objects.\<close>

function scan_mapped ::
  "handler \<Rightarrow> byte list \<Rightarrow> db5_raw_internal \<Rightarrow> nat \<Rightarrow> scan_db \<Rightarrow> nat \<Rightarrow> (int \<times> nat \<times> scan_db \<times> nat) option" where
  "scan_mapped handler mem raw addr d nrec =
     (if addr < length mem
      then case db5_get_raw_internal_ptr raw (drop addr mem) of
             None \<Rightarrow> None
           | Some (raw, None) \<Rightarrow> Some (-1, addr, d, nrec)
           | Some (raw, Some n) \<Rightarrow>
               do { d \<leftarrow> handler d raw (drop addr mem) (of_nat addr);
                    scan_mapped handler mem raw (addr + unat (object_length raw)) d (nrec + 1) }
      else Some (0, addr, d, nrec))"
  by pat_completeness auto
termination
  by (relation "measure (\<lambda>(_, mem, _, addr, _, _). length mem - addr)") (auto dest: raw_ptr_positive)

declare scan_mapped.simps [simp del]

lemma fread_moves:
  "fread n f pos = (got, pos') \<Longrightarrow> pos' = pos + length got \<and> length got \<le> n \<and> (got = [] \<or> pos' \<le> length f)"
  by (auto simp: fread_def Let_def)

lemma fread_within:
  "fread n f pos = (got, pos') \<Longrightarrow> pos \<le> length f \<Longrightarrow> pos \<le> pos' \<and> pos' \<le> length f"
  by (auto simp: fread_def Let_def)

lemma raw_fp_rest_moves:
  assumes "raw_fp_rest rip header lenbuf f pos = Some (got, rip', buf, pos')" "\<not> got < 0" "pos \<le> length f"
  shows "pos \<le> pos' \<and> pos' \<le> length f"
  using assms
  by (auto simp: raw_fp_rest_def Let_def dest: fread_within split: if_splits prod.splits elim!: option_elims)

lemma raw_fp_advances:
  assumes "db5_get_raw_internal_fp rip f pos = Some (got, rip', buf, pos')" "\<not> got < 0"
  shows "pos < pos' \<and> pos' \<le> length f"
proof -
  obtain header p1 where h: "fread sizeof_header f pos = (header, p1)" by fastforce
  with assms have l: "length header = sizeof_header" by (auto simp: db5_get_raw_internal_fp_def split: if_splits)
  then obtain rc r where r: "crack_disk_header rip header = Some (rc, r)"
    using assms h by (auto simp: db5_get_raw_internal_fp_def elim!: option_elims)
  obtain lenbuf p2 where c: "fread (lenbuf_count (h_object_width r)) f p1 = (lenbuf, p2)" by fastforce
  have rest: "raw_fp_rest r header lenbuf f p2 = Some (got, rip', buf, pos')" "lenbuf \<noteq> []"
    using assms h l r c by (auto simp: db5_get_raw_internal_fp_def Let_def split: if_splits)
  have "pos < p2 \<and> p2 \<le> length f"
    using fread_moves[OF h] fread_moves[OF c] l rest(2) by (auto simp: sizeof_header_def)
  then show ?thesis using raw_fp_rest_moves[OF rest(1) assms(2)] by linarith
qed

lemma raw_fp_closer:
  "db5_get_raw_internal_fp rip f pos = Some (got, rip', buf, pos') \<Longrightarrow> \<not> got < 0
    \<Longrightarrow> length f - pos' < length f - pos"
  using raw_fp_advances[of rip f pos got rip' buf pos'] by linarith

text \<open>The loop over the file: the last result code and the position it left.\<close>

function scan_fp ::
  "handler \<Rightarrow> byte list \<Rightarrow> db5_raw_internal \<Rightarrow> nat \<Rightarrow> scan_db \<Rightarrow> nat \<Rightarrow> (int \<times> nat \<times> scan_db \<times> nat) option" where
  "scan_fp handler f raw addr d nrec =
     (case db5_get_raw_internal_fp raw f addr of
        None \<Rightarrow> None
      | Some (got, raw, buf, pos) \<Rightarrow>
          if got < 0 then Some (got, pos, d, nrec)
          else do { d \<leftarrow> handler d raw buf (of_nat addr);
                    scan_fp handler f raw pos d (nrec + 1) })"
  by pat_completeness auto
termination
  by (relation "measure (\<lambda>(_, f, _, addr, _, _). length f - addr)") (auto dest: raw_fp_closer)

declare scan_fp.simps [simp del]

definition scan_fatal :: "scan_db \<Rightarrow> int \<times> scan_db" where
  "scan_fatal d = (-1, d\<lparr>scan_file := (scan_file d)\<lparr>dbi_read_only := True\<rparr>\<rparr>)"

definition scan_done :: "nat \<Rightarrow> nat \<Rightarrow> scan_db \<Rightarrow> int \<times> scan_db" where
  "scan_done eof nrec d = (0, d\<lparr>scan_file := (scan_file d)\<lparr>dbi_eof := of_nat eof\<rparr>, dbi_nrec := nrec\<rparr>)"

definition db5_scan :: "handler \<Rightarrow> db5_raw_internal \<Rightarrow> scan_db \<Rightarrow> (int \<times> scan_db) option" where
  "db5_scan handler raw d =
     (case dbi_inmem (scan_file d) of
        Some mem \<Rightarrow>
          do { valid \<leftarrow> db5_header_is_valid mem;
               if \<not> valid then Some (scan_fatal d)
               else do { (rc, addr, d, nrec) \<leftarrow> scan_mapped handler mem raw 8 d 0;
                         if rc < 0 then Some (scan_fatal d)
                         else if addr \<noteq> length mem then None
                         else Some (scan_done addr nrec d) } }
      | None \<Rightarrow>
          (let f = dbi_file (scan_file d); (header, pos) = fread 8 f 0
           in if length header \<noteq> 8 then Some (scan_fatal d)
              else do { valid \<leftarrow> db5_header_is_valid header;
                        if \<not> valid then Some (scan_fatal d)
                        else do { (got, pos, d, nrec) \<leftarrow> scan_fp handler f raw pos d 0;
                                  if got \<noteq> -1 then Some (scan_fatal d)
                                  else Some (scan_done pos nrec d) } }))"

section \<open>Entering the objects in the directory\<close>

definition RT_DIR_SOLID :: "32 word" where "RT_DIR_SOLID = 0x1"
definition RT_DIR_COMB :: "32 word" where "RT_DIR_COMB = 0x2"
definition RT_DIR_REGION :: "32 word" where "RT_DIR_REGION = 0x4"
definition RT_DIR_HIDDEN :: "32 word" where "RT_DIR_HIDDEN = 0x8"
definition RT_DIR_NON_GEOM :: "32 word" where "RT_DIR_NON_GEOM = 0x10"

definition DB5_MAJORTYPE_ATTRIBUTE_ONLY :: nat where "DB5_MAJORTYPE_ATTRIBUTE_ONLY = 2"
definition DB5_MAJORTYPE_BINARY_MIME :: nat where "DB5_MAJORTYPE_BINARY_MIME = 10"
definition DLI_HEADER_OBJECT :: byte where "DLI_HEADER_OBJECT = 1"
definition DLI_FREE_STORAGE :: byte where "DLI_FREE_STORAGE = 2"

text \<open>The flags by type; for a type that is not listed the entry keeps the flags it had.
  \<open>region\<close> is whether the attributes of a combination have a \<open>region\<close>.\<close>

definition flags_of_type :: "byte \<Rightarrow> byte \<Rightarrow> bool \<Rightarrow> byte \<Rightarrow> 32 word \<Rightarrow> 32 word" where
  "flags_of_type major minor region hidden old =
     (let flags =
            (if unat major = DB5_MAJORTYPE_BRLCAD
             then (if unat minor = ID_COMBINATION
                   then (if region then RT_DIR_COMB OR RT_DIR_REGION else RT_DIR_COMB)
                   else RT_DIR_SOLID)
             else if unat major = DB5_MAJORTYPE_BINARY_UNIF \<or> unat major = DB5_MAJORTYPE_BINARY_MIME
             then RT_DIR_NON_GEOM
             else if unat major = DB5_MAJORTYPE_ATTRIBUTE_ONLY then 0 else old)
      in if hidden \<noteq> 0 then flags OR RT_DIR_HIDDEN else flags)"

text \<open>A new entry at the head of its chain; \<open>fill\<close> is what is assigned to it.\<close>

definition dir_insert :: "db_dirs \<Rightarrow> nat \<Rightarrow> (dir_entry \<Rightarrow> dir_entry) \<Rightarrow> dir_ptr \<times> db_dirs" where
  "dir_insert d headp fill =
     (let (dp, d) = RT_GET_DIRECTORY d
      in (dp, d\<lparr>dir_mem := (dir_mem d)(dp := fill (dir_mem d dp)),
                dbi_Head := (dbi_Head d)(headp := dp # dbi_Head d headp)\<rparr>))"

definition fill_entry :: "string \<Rightarrow> off_t \<Rightarrow> byte \<Rightarrow> byte \<Rightarrow> bool \<Rightarrow> byte \<Rightarrow> size_t \<Rightarrow> dir_entry \<Rightarrow> dir_entry" where
  "fill_entry local laddr major minor region hidden len e =
     \<lparr>dir_namep = local, dir_addr = laddr,
      dir_flags = flags_of_type major minor region hidden (dir_flags e), dir_len = len,
      dir_major = major, dir_minor = minor, dir_uses = 0, dir_nref = 0\<rparr>"

definition db_diradd5 ::
  "db_dirs \<Rightarrow> string \<Rightarrow> off_t \<Rightarrow> byte \<Rightarrow> byte \<Rightarrow> byte \<Rightarrow> size_t \<Rightarrow> bu_avs option \<Rightarrow> dir_ptr option \<times> db_dirs" where
  "db_diradd5 d name laddr major minor hidden len avs =
     (case db_dircheck d name of
        None \<Rightarrow> (None, d)
      | Some (local, headp) \<Rightarrow>
          let region = (case avs of None \<Rightarrow> False
                        | Some a \<Rightarrow> avp a \<noteq> [] \<and> bu_avs_get a (Some ''region'') \<noteq> None);
              (dp, d) = dir_insert d headp (fill_entry local laddr major minor region hidden len)
          in (Some dp, d))"

text \<open>The test for a region attribute in the sections of a combination.\<close>

definition has_region :: "db5_raw_internal \<Rightarrow> byte list \<Rightarrow> bool option" where
  "has_region rip buf =
     (if unat (major_type rip) = DB5_MAJORTYPE_BRLCAD \<and> unat (minor_type rip) = ID_COMBINATION
         \<and> ext_nbytes (rattributes rip) \<noteq> 0
      then do { attributes \<leftarrow> ext_copy buf (rattributes rip);
                ap \<leftarrow> attributes;
                (n, avs) \<leftarrow> db5_import_attributes ap;
                Some (\<not> n < 0 \<and> bu_avs_get avs (Some ''region'') \<noteq> None) }
      else Some False)"

definition object_name :: "db5_raw_internal \<Rightarrow> byte list \<Rightarrow> string option" where
  "object_name rip buf =
     do { off \<leftarrow> ext_buf (rname rip); map_option string_of (c_string (drop off buf)) }"

definition db5_diradd ::
  "db_dirs \<Rightarrow> db5_raw_internal \<Rightarrow> byte list \<Rightarrow> off_t \<Rightarrow> (dir_ptr option \<times> db_dirs) option" where
  "db5_diradd d rip buf laddr =
     do { name \<leftarrow> object_name rip buf;
          (case db_dircheck d name of
             None \<Rightarrow> Some (None, d)
           | Some (local, headp) \<Rightarrow>
               do { region \<leftarrow> has_region rip buf;
                    let (dp, d) = dir_insert d headp
                          (fill_entry local laddr (major_type rip) (minor_type rip) region
                             (h_name_hidden rip) (object_length rip));
                    Some (Some dp, d) }) }"

definition db5_diradd_handler :: handler where
  "db5_diradd_handler d rip buf laddr =
     (if h_dli rip = DLI_HEADER_OBJECT then Some d
      else if h_dli rip = DLI_FREE_STORAGE
      then Some (d\<lparr>scan_file := (scan_file d)\<lparr>dbi_freep :=
             rt_memfree (object_length rip) laddr (dbi_freep (scan_file d))\<rparr>\<rparr>)
      else if ext_buf (rname rip) = None then Some d
      else do { (dp, dirs) \<leftarrow> db5_diradd (scan_dirs d) rip buf laddr;
                Some (d\<lparr>scan_dirs := dirs\<rparr>) })"

definition db_version :: "scan_db \<Rightarrow> int option" where
  "db_version d =
     (if dbi_version (scan_dirs d) \<noteq> 0 then Some \<bar>dbi_version (scan_dirs d)\<bar>
      else let (header, pos) = fread 8 (dbi_file (scan_file d)) 0
           in if length header \<noteq> 8 then Some (-1)
              else do { valid \<leftarrow> db5_header_is_valid header;
                        Some (if valid then 5 else if hd header = 73 then 4 else -1) })"

text \<open>The entries as \<open>db_get_external\<close> and the storage routines see them.\<close>

definition dir_of_entry :: "dir_entry \<Rightarrow> directory" where
  "dir_of_entry e = \<lparr>d_un = FileOffset (dir_addr e), d_len = dir_len e,
     d_inmem = (dir_flags e AND RT_DIR_INMEM \<noteq> 0), d_namep = dir_namep e\<rparr>"

text \<open>Building the directory of a database that was opened: the scan, and the title and units of
  the object \<open>_GLOBAL\<close>.  \<open>sscanf\<close> with \<open>%lf\<close> is an argument, and so are
  \<open>db5_update_ident\<close> and the scan of a version 4 database; the conversion factors are real numbers.
  The color table, which is not part of the database structure, is left out.\<close>

text \<open>\<open>vmath.h\<close> includes \<open>float.h\<close>, so that the tolerance is \<open>FLT_EPSILON\<close>.\<close>

definition FLT_EPSILON :: real where "FLT_EPSILON = 1 / 2 ^ 23"

definition VUNITIZE_TOL :: real where "VUNITIZE_TOL = FLT_EPSILON"

definition NEAR_ZERO :: "real \<Rightarrow> real \<Rightarrow> bool" where
  "NEAR_ZERO val epsilon \<longleftrightarrow> val > - epsilon \<and> val < epsilon"

definition DB5_GLOBAL_OBJECT_NAME :: string where "DB5_GLOBAL_OBJECT_NAME = ''_GLOBAL''"

definition set_units :: "(string \<Rightarrow> real option) \<Rightarrow> string option \<Rightarrow> scan_db \<Rightarrow> scan_db" where
  "set_units scan_lf cp d =
     (case Option.bind cp scan_lf of
        None \<Rightarrow> d
      | Some dd \<Rightarrow> if NEAR_ZERO dd VUNITIZE_TOL then d
                   else d\<lparr>dbi_local2base := dd, dbi_base2local := 1 / dd\<rparr>)"

definition global_attributes ::
  "(string \<Rightarrow> real option) \<Rightarrow> byte list \<Rightarrow> db5_raw_internal \<Rightarrow> scan_db \<Rightarrow> (int \<times> scan_db) option" where
  "global_attributes scan_lf ep raw d =
     do { attributes \<leftarrow> ext_copy ep (rattributes raw);
          (n, avs) \<leftarrow> db5_import_attributes (case attributes of None \<Rightarrow> [] | Some ap \<Rightarrow> ap);
          if n < 0 then Some (-1, d)
          else let title = (case bu_avs_get avs (Some ''title'') of
                              Some cp \<Rightarrow> cp | None \<Rightarrow> ''Untitled BRL-CAD database'')
               in Some (0, set_units scan_lf (bu_avs_get avs (Some ''units'')) (d\<lparr>dbi_title := Some title\<rparr>)) }"

definition dirbuild5 ::
  "(string \<Rightarrow> real option) \<Rightarrow> (scan_db \<Rightarrow> scan_db) \<Rightarrow> db5_raw_internal \<Rightarrow> db5_raw_internal \<Rightarrow> scan_db
     \<Rightarrow> (int \<times> scan_db) option" where
  "dirbuild5 scan_lf update_ident raw raw' d =
     do { (rc, d) \<leftarrow> db5_scan db5_diradd_handler raw d;
          if rc < 0 then Some (-1, d)
          else do {
            dp \<leftarrow> db_lookup (scan_dirs d) (Some DB5_GLOBAL_OBJECT_NAME);
            (case dp of
               None \<Rightarrow> Some (0, update_ident (d\<lparr>dbi_title := Some DB5_GLOBAL_OBJECT_NAME\<rparr>))
             | Some p \<Rightarrow>
                 do { (rc, ep) \<leftarrow> db_get_external (dir_of_entry (dir_mem (scan_dirs d) p)) (scan_file d);
                      if rc < 0 then Some (-1, d)
                      else do {
                        (raw', next) \<leftarrow> db5_get_raw_internal_ptr raw' ep;
                        if next = None then Some (-1, d)
                        else if unat (major_type raw') \<noteq> DB5_MAJORTYPE_ATTRIBUTE_ONLY
                        then Some (0, d\<lparr>dbi_title := Some DB5_GLOBAL_OBJECT_NAME\<rparr>)
                        else global_attributes scan_lf ep raw' d } }) } }"

definition db_dirbuild ::
  "(string \<Rightarrow> real option) \<Rightarrow> (scan_db \<Rightarrow> scan_db) \<Rightarrow> (scan_db \<Rightarrow> int \<times> scan_db)
     \<Rightarrow> db5_raw_internal \<Rightarrow> db5_raw_internal \<Rightarrow> scan_db \<Rightarrow> (int \<times> scan_db) option" where
  "db_dirbuild scan_lf update_ident db_scan raw raw' d =
     (if \<not> dbi_fp_open d then Some (-1, d)
      else do { version \<leftarrow> db_version d;
          if version = 5 then dirbuild5 scan_lf update_ident raw raw' d
          else if version = 4 then (case db_scan d of (rc, d) \<Rightarrow> Some (if rc < 0 then -1 else 0, d))
          else Some (-1, d) })"

section \<open>Images of objects\<close>

text \<open>The bytes of a whole object, and what they parse to.\<close>

definition object_image :: "byte list \<Rightarrow> db5_raw_internal \<Rightarrow> bool" where
  "object_image b r \<longleftrightarrow> take 1 b = [DB5HDR_MAGIC1]
     \<and> db5_get_raw_internal_ptr raw_zero b = Some (r, Some (length b))
     \<and> db5_decode_length (drop sizeof_header b) (unat (h_object_width r))
         = Some (of_nat (length b div 8), lenbuf_count (h_object_width r))
     \<and> sizeof_header + lenbuf_count (h_object_width r) \<le> length b"

lemma decode_used:
  assumes "db5_decode_length cp (unat w) = Some (n, used)"
  shows "used = lenbuf_count w" "0 < used" "used \<le> 8"
  using assms by (auto simp: db5_decode_length_def lenbuf_count_def widthcode_defs
      split: if_splits list.splits)

lemma decode_prefix:
  assumes "db5_decode_length cp w = Some (n, used)"
  shows "used \<le> length cp" "db5_decode_length (take used cp @ x) w = Some (n, used)"
  using assms by (auto simp: db5_decode_length_def split: if_splits list.splits)

lemma decode_append:
  assumes "db5_decode_length cp w = Some (n, used)"
  shows "db5_decode_length (cp @ x) w = Some (n, used)"
proof -
  have "cp @ x = take used cp @ drop used cp @ x" by simp
  then show ?thesis using decode_prefix(2)[OF assms] by metis
qed

lemma grab_append:
  assumes "grab buf p w cp = Some y"
  shows "grab (buf @ x) p w cp = Some y"
proof (cases "p = 0")
  case False
  then obtain n used where d: "db5_decode_length (drop cp buf) (unat w) = Some (n, used)"
    using assms by (auto simp: grab_def elim!: option_elims)
  have "drop cp (buf @ x) = drop cp buf @ x"
    using decode_prefix(1)[OF d] decode_used(2)[OF d] by simp
  then show ?thesis using assms d decode_append[OF d, of x] False by (simp add: grab_def)
qed (use assms in \<open>simp add: grab_def\<close>)

lemma grab_sections_append:
  "grab_sections rip buf cp = Some y \<Longrightarrow> grab_sections rip (buf @ x) cp = Some y"
  by (auto simp: grab_sections_def grab_append elim!: option_elims)

lemma grab_sections_cong:
  "grab_sections (r\<lparr>rname := a, rbody := b, rattributes := c, object_length := l\<rparr>) buf cp
     = grab_sections (r\<lparr>object_length := l\<rparr>) buf cp"
  by (simp add: grab_sections_def)

text \<open>The header of an object sets every field but the length and the sections.\<close>

lemma crack_any:
  assumes "take 1 b = [DB5HDR_MAGIC1]" "crack_disk_header raw b = Some (rc, r)"
  shows "crack_disk_header rip (take 6 b @ x) = Some (0, r\<lparr>object_length := object_length rip,
      rname := rname rip, rbody := rbody rip, rattributes := rattributes rip\<rparr>)"
  using assms by (cases "(raw, b)" rule: crack_disk_header.cases) auto

lemma crack_length: "crack_disk_header raw b = Some (rc, r) \<Longrightarrow> 6 \<le> length b"
  by (cases "(raw, b)" rule: crack_disk_header.cases) auto

text \<open>The parts of the parse of an image.\<close>

lemma object_imageE:
  assumes "object_image b r"
  obtains r0 where "\<And>rip x. \<exists>r1. crack_disk_header rip (take 6 b @ x) = Some (0, r1)
        \<and> h_object_width r1 = h_object_width r
        \<and> grab_sections (r1\<lparr>object_length := of_nat (length b)\<rparr>) b (6 + lenbuf_count (h_object_width r))
            = Some (r, Some (length b))"
    and "db5_decode_length (drop 6 b) (unat (h_object_width r))
           = Some (of_nat (length b div 8), lenbuf_count (h_object_width r))"
    and "push_bit 3 (of_nat (length b div 8)) = (of_nat (length b) :: size_t)"
    and "unat (of_nat (length b) :: size_t) = length b" "8 dvd length b" "length b < 2 ^ 64"
    and "6 + lenbuf_count (h_object_width r) \<le> length b" "b ! (length b - 1) = DB5HDR_MAGIC2"
    and "object_length r = of_nat (length b)"
proof -
  have m: "take 1 b = [DB5HDR_MAGIC1]"
    and p: "db5_get_raw_internal_ptr raw_zero b = Some (r, Some (length b))"
    and dec: "db5_decode_length (drop 6 b) (unat (h_object_width r))
         = Some (of_nat (length b div 8), lenbuf_count (h_object_width r))"
    and fits: "6 + lenbuf_count (h_object_width r) \<le> length b"
    using assms by (auto simp: object_image_def sizeof_header_def)
  obtain rc r0 where c: "crack_disk_header raw_zero b = Some (rc, r0)"
    using p by (auto simp: db5_get_raw_internal_ptr_def elim!: option_elims)
  have rc: "rc = 0" using crack_disk_header_rc[OF c] .
  obtain len used where d0: "db5_decode_length (drop 6 b) (unat (h_object_width r0)) = Some (len, used)"
    using p c rc by (auto simp: db5_get_raw_internal_ptr_def sizeof_header_def elim!: option_elims)
  have g: "grab_sections (r0\<lparr>object_length := push_bit 3 len\<rparr>) b (6 + used) = Some (r, Some (length b))"
    and last: "b ! (unat (push_bit 3 len) - 1) = DB5HDR_MAGIC2"
    using p c rc d0
    by (simp_all add: db5_get_raw_internal_ptr_def sizeof_header_def Let_def split: if_splits)
  have r: "h_object_width r = h_object_width r0" "object_length r = push_bit 3 len"
    and L: "length b = unat (push_bit 3 len)"
    using grab_sections_again(1)[OF g] grab_sections_again(2)[OF g] by auto
  have len: "len = of_nat (length b div 8)" "used = lenbuf_count (h_object_width r)"
    using d0 dec r(1) by auto
  have L': "push_bit 3 len = (of_nat (length b) :: size_t)" using L by simp
  have u: "unat (of_nat (length b) :: size_t) = length b" using L by (simp add: L')
  have "unat (of_nat (length b) :: size_t) < 2 ^ LENGTH(64)" by (rule unsigned_less)
  then have lt: "length b < 2 ^ 64" using u by simp
  have "unat (push_bit 3 len) = unat len * 8 mod 2 ^ 64"
    by (simp add: push_bit_eq_mult unat_word_ariths)
  moreover have "(8 :: nat) dvd unat len * 8 mod 2 ^ 64"
    by (rule iffD2[OF dvd_mod_iff]) simp_all
  ultimately have dvd: "8 dvd length b" using L by simp
  have crack: "\<exists>r1. crack_disk_header rip (take 6 b @ x) = Some (0, r1)
        \<and> h_object_width r1 = h_object_width r
        \<and> grab_sections (r1\<lparr>object_length := of_nat (length b)\<rparr>) b (6 + lenbuf_count (h_object_width r))
            = Some (r, Some (length b))" for rip x
  proof -
    let ?r1 = "r0\<lparr>object_length := object_length rip, rname := rname rip, rbody := rbody rip,
      rattributes := rattributes rip\<rparr>"
    have "grab_sections (?r1\<lparr>object_length := of_nat (length b)\<rparr>) b (6 + lenbuf_count (h_object_width r))
        = Some (r, Some (length b))"
      using g by (simp add: grab_sections_cong L' len(2))
    then show ?thesis using crack_any[OF m c, of rip x] r(1) by (intro exI[of _ ?r1]) simp
  qed
  show thesis
    by (rule that[OF crack dec _ u dvd lt fits]) (use L L' len last r(2) in simp_all)
qed

lemma image_length: "object_image b r \<Longrightarrow> 8 \<le> length b \<and> 8 dvd length b \<and> length b < 2 ^ 64"
  by (erule object_imageE) (auto dest: dvd_imp_le)

text \<open>Whatever the structure held before, and whatever follows in the file, both readers give
  the same.\<close>

lemma image_ptr:
  assumes "object_image b r"
  shows "db5_get_raw_internal_ptr rip (b @ rest) = Some (r, Some (length b))"
proof -
  let ?n = "lenbuf_count (h_object_width r)" and ?l = "length b"
  obtain r1 where c: "crack_disk_header rip (take 6 b @ drop 6 b @ rest) = Some (0, r1)"
    and w: "h_object_width r1 = h_object_width r"
    and g: "grab_sections (r1\<lparr>object_length := of_nat (length b)\<rparr>) b (6 + ?n) = Some (r, Some (length b))"
    and p: "db5_decode_length (drop 6 b) (unat (h_object_width r)) = Some (of_nat (length b div 8), ?n)"
      "push_bit 3 (of_nat (length b div 8)) = (of_nat (length b) :: size_t)"
      "unat (of_nat (length b) :: size_t) = length b" "6 + ?n \<le> length b" "b ! (length b - 1) = DB5HDR_MAGIC2"
    using object_imageE[OF assms] by metis
  have d: "db5_decode_length (drop 6 (b @ rest)) (unat (h_object_width r1)) = Some (of_nat (length b div 8), ?n)"
    using decode_append[OF p(1), of rest] p(4) by (simp add: w)
  show ?thesis
    unfolding db5_get_raw_internal_ptr_def sizeof_header_def
    using c[folded append_assoc, unfolded append_take_drop_id] d p(2-5) grab_sections_append[OF g, of rest]
      nth_append_left[of "?l - 1" b rest]
    by (simp add: Let_def)
qed

lemma image_fp:
  assumes "object_image b r" "drop pos f = b @ rest"
  shows "db5_get_raw_internal_fp rip f pos = Some (0, r, b, pos + length b)"
proof -
  let ?n = "lenbuf_count (h_object_width r)" and ?l = "length b"
  obtain r1 where c: "crack_disk_header rip (take 6 b @ []) = Some (0, r1)"
    and w: "h_object_width r1 = h_object_width r"
    and g: "grab_sections (r1\<lparr>object_length := of_nat ?l\<rparr>) b (6 + ?n) = Some (r, Some ?l)"
    and p: "db5_decode_length (drop 6 b) (unat (h_object_width r)) = Some (of_nat (?l div 8), ?n)"
      "push_bit 3 (of_nat (?l div 8)) = (of_nat ?l :: size_t)"
      "unat (of_nat ?l :: size_t) = ?l" "6 + ?n \<le> ?l" "b ! (?l - 1) = DB5HDR_MAGIC2" "?l < 2 ^ 64"
    using object_imageE[OF assms(1)] by metis
  have n: "0 < ?n" "?n \<le> 8" using decode_used[OF p(1)] by auto
  have at: "drop (pos + k) f = drop k b @ rest" if "k \<le> ?l" for k
  proof -
    have "drop (pos + k) f = drop k (drop pos f)" by (simp add: add.commute)
    then show ?thesis using that by (simp add: assms(2))
  qed
  have h: "fread sizeof_header f pos = (take 6 b, pos + 6)"
    using assms(2) p(4) by (simp add: fread_def sizeof_header_def)
  have l: "fread ?n f (pos + 6) = (take ?n (drop 6 b), pos + 6 + ?n)"
    using at[of 6] p(4) by (simp add: fread_def)
  have "?l - (6 + ?n) = length (drop (6 + ?n) b)" by simp
  then have r: "fread (?l - (6 + ?n)) f (pos + 6 + ?n) = (drop (6 + ?n) b, pos + ?l)"
    using at[of "6 + ?n"] p(4) by (simp add: fread_def add.assoc)
  have "drop (6 + ?n) b = drop ?n (drop 6 b)" by (simp add: add.commute)
  then have buf: "take 6 b @ take ?n (drop 6 b) @ drop (6 + ?n) b = b"
    by (simp only: append_take_drop_id)
  have small: "\<not> (of_nat (?l div 8) :: size_t) > drop_bit 3 (- 1)"
  proof -
    have "unat (of_nat (?l div 8) :: size_t) = ?l div 8" using p(6) by (intro unat_size_of_nat) simp
    moreover have "unat (drop_bit 3 (- 1) :: size_t) = 2 ^ 61 - 1" by (simp add: mask_eq_exp_minus_1)
    moreover have "?l div 8 \<le> 2 ^ 61 - 1" using p(6) by simp
    ultimately show ?thesis by (simp only: word_less_nat_alt not_less)
  qed
  have d: "db5_decode_length (take ?n (drop 6 b)) (unat (h_object_width r)) = Some (of_nat (?l div 8), ?n)"
    using decode_prefix(2)[OF p(1), of "[]"] by simp
  have "raw_fp_rest r1 (take 6 b) (take ?n (drop 6 b)) f (pos + 6 + ?n) = Some (0, r, b, pos + ?l)"
    unfolding raw_fp_rest_def w d sizeof_header_def
    using n small p(2-5) r g by (simp add: Let_def buf)
  then show ?thesis
    unfolding db5_get_raw_internal_fp_def h using c w l n p(4) by (simp add: sizeof_header_def)
qed

section \<open>What a scan hands to its handler\<close>

definition images :: "(byte list \<times> db5_raw_internal) list \<Rightarrow> bool" where
  "images os \<longleftrightarrow> list_all (\<lambda>(b, r). object_image b r) os"

definition contents :: "(byte list \<times> db5_raw_internal) list \<Rightarrow> byte list" where
  "contents os = concat (map fst os)"

lemma images_simps [simp]:
  "images []" "images ((b, r) # os) \<longleftrightarrow> object_image b r \<and> images os"
  by (simp_all add: images_def)

lemma contents_simps [simp]:
  "contents [] = []" "contents ((b, r) # os) = b @ contents os"
  "contents (os @ os') = contents os @ contents os'"
  by (simp_all add: contents_def)

text \<open>The objects one after the other, from an address on.\<close>

fun feed :: "handler \<Rightarrow> (byte list \<times> db5_raw_internal) list \<Rightarrow> nat \<Rightarrow> scan_db \<Rightarrow> scan_db option" where
  "feed handler [] addr d = Some d"
| "feed handler ((b, r) # os) addr d =
     do { d \<leftarrow> handler d r b (of_nat addr); feed handler os (addr + length b) d }"

lemma fp_at_end: "length f \<le> addr \<Longrightarrow> db5_get_raw_internal_fp raw f addr = Some (-1, raw, [], addr)"
  by (simp add: db5_get_raw_internal_fp_def fread_def sizeof_header_def)

lemma scan_fp_objects:
  assumes "images os" "drop addr f = contents os @ tail" "feed handler os addr d = Some d'"
  shows "\<exists>raw'. scan_fp handler f raw addr d n
    = scan_fp handler f raw' (addr + length (contents os)) d' (n + length os)"
  using assms
proof (induction os arbitrary: addr d n raw)
  case (Cons x os)
  obtain b r where x: "x = (b, r)" by fastforce
  obtain d1 where h: "handler d r b (of_nat addr) = Some d1" "feed handler os (addr + length b) d1 = Some d'"
    using Cons.prems(3) by (auto simp: x elim!: option_elims)
  have i: "object_image b r" "images os" and f: "drop addr f = b @ contents os @ tail"
    using Cons.prems(1,2) by (simp_all add: x)
  have "drop (addr + length b) f = drop (length b) (drop addr f)" by (simp add: add.commute)
  then have f': "drop (addr + length b) f = contents os @ tail" by (simp add: f)
  from Cons.IH[OF i(2) f' h(2), of r "n + 1"] show ?case
    by (simp add: scan_fp.simps[of handler f raw addr] image_fp[OF i(1) f] h(1) x add.assoc)
qed auto

lemma scan_fp_feed:
  assumes "images os" "drop addr f = contents os" "addr \<le> length f" "feed handler os addr d = Some d'"
  shows "scan_fp handler f raw addr d n = Some (-1, length f, d', n + length os)"
proof -
  have "length (drop addr f) = length (contents os)" by (simp only: assms(2))
  then have "addr + length (contents os) = length f" using assms(3) by simp
  then show ?thesis using scan_fp_objects[OF assms(1) _ assms(4), of f "[]" raw n] assms(2)
    by (auto simp: scan_fp.simps[of handler f _ "length f"] fp_at_end)
qed

text \<open>A handler that looks only at the object itself.\<close>

definition stays_inside :: "handler \<Rightarrow> bool" where
  "stays_inside handler \<longleftrightarrow>
     (\<forall>d r b a d' x. handler d r b a = Some d' \<longrightarrow> handler d r (b @ x) a = Some d')"

lemma scan_mapped_objects:
  assumes "images os" "drop addr mem = contents os @ tail" "feed handler os addr d = Some d'"
    and "stays_inside handler"
  shows "\<exists>raw'. scan_mapped handler mem raw addr d n
    = scan_mapped handler mem raw' (addr + length (contents os)) d' (n + length os)"
  using assms(1-3)
proof (induction os arbitrary: addr d n raw)
  case (Cons x os)
  obtain b r where x: "x = (b, r)" by fastforce
  obtain d1 where h: "handler d r b (of_nat addr) = Some d1" "feed handler os (addr + length b) d1 = Some d'"
    using Cons.prems(3) by (auto simp: x elim!: option_elims)
  have i: "object_image b r" "images os" and f: "drop addr mem = b @ contents os @ tail"
    using Cons.prems(1,2) by (simp_all add: x)
  have "drop (addr + length b) mem = drop (length b) (drop addr mem)" by (simp add: add.commute)
  then have f': "drop (addr + length b) mem = contents os @ tail" by (simp add: f)
  have h': "handler d r (drop addr mem) (of_nat addr) = Some d1"
    using assms(4) h(1) by (simp add: stays_inside_def f)
  have p: "db5_get_raw_internal_ptr raw (drop addr mem) = Some (r, Some (length b))"
    unfolding f by (rule image_ptr[OF i(1)])
  have "unat (object_length r) = length b" using raw_ptr_advances(3)[OF p] by simp
  moreover have "addr < length mem"
    using arg_cong[OF f, of length] image_length[OF i(1)] by (cases "addr < length mem") auto
  ultimately show ?case using Cons.IH[OF i(2) f' h(2), of r "n + 1"]
    by (simp add: scan_mapped.simps[of handler mem raw addr] p h' x add.assoc)
qed auto

lemma scan_mapped_feed:
  assumes "images os" "drop addr mem = contents os" "addr \<le> length mem" "feed handler os addr d = Some d'"
    and "stays_inside handler"
  shows "scan_mapped handler mem raw addr d n = Some (0, length mem, d', n + length os)"
proof -
  have "length (drop addr mem) = length (contents os)" by (simp only: assms(2))
  then have "addr + length (contents os) = length mem" using assms(3) by simp
  then show ?thesis using scan_mapped_objects[OF assms(1) _ assms(4,5), of mem "[]" raw n] assms(2)
    by (auto simp: scan_mapped.simps[of handler mem _ "length mem"])
qed

text \<open>A file of a valid header and objects, scanned in either way.\<close>

definition v5_file :: "byte list \<Rightarrow> (byte list \<times> db5_raw_internal) list \<Rightarrow> bool" where
  "v5_file f os \<longleftrightarrow> 8 \<le> length f \<and> db5_header_is_valid (take 8 f) = Some True
     \<and> drop 8 f = contents os \<and> images os"

lemma header_valid_prefix:
  assumes "8 \<le> length f"
  shows "db5_header_is_valid f = db5_header_is_valid (take 8 f)"
proof -
  obtain a b c d e g h i r where "f = a # b # c # d # e # g # h # i # r"
    using assms by (auto simp: Suc_le_length_iff numeral_eq_Suc)
  then show ?thesis by (simp add: numeral_eq_Suc)
qed

lemma db5_scan_feed:
  assumes "v5_file f os" "feed handler os 8 d = Some d'"
    and "case dbi_inmem (scan_file d) of
           None \<Rightarrow> dbi_file (scan_file d) = f | Some mem \<Rightarrow> mem = f \<and> stays_inside handler"
  shows "db5_scan handler raw d = Some (scan_done (length f) (length os) d')"
proof -
  have v: "8 \<le> length f" "db5_header_is_valid (take 8 f) = Some True" "drop 8 f = contents os" "images os"
    using assms(1) by (auto simp: v5_file_def)
  show ?thesis
  proof (cases "dbi_inmem (scan_file d)")
    case None
    then show ?thesis
      using assms(3) scan_fp_feed[OF v(4,3,1) assms(2), of raw 0] v(1,2)
      by (simp add: db5_scan_def fread_def)
  next
    case (Some mem)
    then show ?thesis
      using assms(3) scan_mapped_feed[OF v(4,3,1) assms(2), of raw 0] v(1,2) header_valid_prefix[OF v(1)]
      by (simp add: db5_scan_def)
  qed
qed

end
