(* ===== verification/Db5ScanProof.thy ===== *)
theory Db5ScanProof
  imports Db5Scan
begin

text \<open>
  What a scan makes of a v5 database file: the directory and the free map it builds, that they
  satisfy the invariants of the directory (\<open>DbDirProof\<close>) and of the storage (\<open>Db5Alloc\<close>), that
  the two ways to scan agree, and what a damaged length does.
\<close>

unbundle bit_operations_syntax

section \<open>The directory that a scan builds\<close>

text \<open>The directory as a finite map from names to the entries themselves.\<close>

definition dir_view :: "db_dirs \<Rightarrow> string \<Rightarrow> dir_entry option" where
  "dir_view d n = map_option (dir_mem d) (dir_abs d n)"

lemma fresh_name_cong:
  assumes "\<And>n. m n = None \<longleftrightarrow> m' n = None"
  shows "fresh_name m n = fresh_name m' n"
proof -
  have "(\<lambda>s. m s = None) = (\<lambda>s. m' s = None)" using assms by simp
  then show ?thesis unfolding fresh_name_def by (simp only: assms)
qed

lemma fresh_name_view: "fresh_name (dir_view d) n = fresh_name (dir_abs d) n"
  by (rule fresh_name_cong) (simp add: dir_view_def)

lemma dir_insert_new:
  assumes "dir_inv d" "plain_name s" "dir_abs d s = None" "\<And>e. dir_namep (fill e) = s"
  shows "\<exists>dp d' e. dir_insert d (hash_of s) fill = (dp, d') \<and> dir_inv d'
    \<and> dir_view d' = (dir_view d)(s \<mapsto> fill e)"
proof -
  have ok: "dir_ok d" "names_unique d" and pl: "\<And>p. p \<in> entries d \<Longrightarrow> plain_name (name_of d p)"
    using assms(1) by (auto simp: dir_inv_def)
  obtain dp d' where g: "RT_GET_DIRECTORY d = (dp, d')" "dir_ok d'" "dbi_Head d' = dbi_Head d"
    "dir_mem d' = dir_mem d" "dp \<notin> entries d" "dp \<notin> set (re_directory_hd d')" "dp < dir_next d'"
    using get_directory[OF ok(1)] by metis
  have same: "entries d' = entries d" "dir_abs d' = dir_abs d" "name_of d' = name_of d"
    by (simp_all add: entries_def dir_abs_def name_of_def fun_eq_iff g(3,4))
  let ?e = "fill (dir_mem d dp)"
  note on = on_chain_ok[OF g(2) _ g(6,7), unfolded same, OF g(5), of ?e, unfolded assms(4)]
  have un: "names_unique d'" using ok(2) by (simp add: names_unique_def same)
  have "dir_insert d (hash_of s) fill = (dp, on_chain d' dp ?e)"
    by (simp add: dir_insert_def g(1,4) on_chain_def assms(4) Let_def)
  moreover have "dir_inv (on_chain d' dp ?e)"
    unfolding dir_inv_def on(2,3)
  proof (intro conjI ballI)
    show "dir_ok (on_chain d' dp ?e)" by (rule on(1))
    show "names_unique (on_chain d' dp ?e)" using on(5) un assms(3) by simp
    fix p assume "p \<in> insert dp (entries d)"
    then show "plain_name (((name_of d)(dp := s)) p)" using pl[of p] assms(2) by (cases "p = dp") simp_all
  qed
  moreover have "dir_view (on_chain d' dp ?e) = (dir_view d)(s \<mapsto> ?e)"
  proof
    fix n
    have "dir_mem (on_chain d' dp ?e) = (dir_mem d)(dp := ?e)" by (simp add: on_chain_def g(4) Let_def)
    moreover have "dir_abs d n \<noteq> Some dp" using dir_abs_entry g(5) by blast
    ultimately show "dir_view (on_chain d' dp ?e) n = ((dir_view d)(s \<mapsto> ?e)) n"
      by (cases "dir_abs d n") (auto simp: dir_view_def on(4))
  qed
  ultimately show ?thesis by blast
qed

text \<open>The objects that get an entry, and the entry they get.\<close>

definition gets_entry :: "db5_raw_internal \<Rightarrow> bool" where
  "gets_entry r \<longleftrightarrow> h_dli r \<noteq> DLI_HEADER_OBJECT \<and> h_dli r \<noteq> DLI_FREE_STORAGE \<and> ext_buf (rname r) \<noteq> None"

definition known_type :: "byte \<Rightarrow> bool" where
  "known_type major \<longleftrightarrow> unat major \<in> {DB5_MAJORTYPE_BRLCAD, DB5_MAJORTYPE_ATTRIBUTE_ONLY,
     DB5_MAJORTYPE_BINARY_UNIF, DB5_MAJORTYPE_BINARY_MIME}"

definition blank_entry :: dir_entry where
  "blank_entry = \<lparr>dir_namep = [], dir_addr = 0, dir_flags = 0, dir_len = 0, dir_major = 0,
     dir_minor = 0, dir_uses = 0, dir_nref = 0\<rparr>"

definition entry_for :: "byte list \<Rightarrow> db5_raw_internal \<Rightarrow> nat \<Rightarrow> string \<Rightarrow> dir_entry" where
  "entry_for b r addr s =
     fill_entry s (of_nat addr) (major_type r) (minor_type r) (has_region r b = Some True)
       (h_name_hidden r) (object_length r) blank_entry"

text \<open>A named object that is readable: the name has its zero byte in the object and is plain, the
  type is one of those listed, and the attributes of a combination can be parsed.\<close>

definition readable :: "byte list \<Rightarrow> db5_raw_internal \<Rightarrow> bool" where
  "readable b r \<longleftrightarrow> (gets_entry r \<longrightarrow>
     (case object_name r b of None \<Rightarrow> False | Some nm \<Rightarrow> plain_name nm)
     \<and> known_type (major_type r) \<and> has_region r b \<noteq> None)"

definition catalogue1 ::
  "byte list \<Rightarrow> db5_raw_internal \<Rightarrow> nat \<Rightarrow> (string \<Rightarrow> dir_entry option) \<Rightarrow> string \<Rightarrow> dir_entry option" where
  "catalogue1 b r addr m =
     (if gets_entry r
      then case Option.bind (object_name r b) (fresh_name m) of
             None \<Rightarrow> m | Some s \<Rightarrow> m(s \<mapsto> entry_for b r addr s)
      else m)"

fun catalogue ::
  "(byte list \<times> db5_raw_internal) list \<Rightarrow> nat \<Rightarrow> (string \<Rightarrow> dir_entry option) \<Rightarrow> string \<Rightarrow> dir_entry option" where
  "catalogue [] addr m = m"
| "catalogue ((b, r) # os) addr m = catalogue os (addr + length b) (catalogue1 b r addr m)"

lemma fill_known:
  assumes "known_type major"
  shows "fill_entry s a major minor region hidden len e = fill_entry s a major minor region hidden len e'"
  using assms by (auto simp: fill_entry_def flags_of_type_def known_type_def)

lemma dir_namep_fill [simp]: "dir_namep (fill_entry s a major minor region hidden len e) = s"
  by (simp add: fill_entry_def)

lemma diradd_catalogue:
  assumes "dir_inv d" "readable b r" "gets_entry r"
  shows "\<exists>dp d'. db5_diradd d r b (of_nat addr) = Some (dp, d') \<and> dir_inv d'
    \<and> dir_view d' = catalogue1 b r addr (dir_view d)"
proof -
  obtain nm region where nm: "object_name r b = Some nm" "plain_name nm"
    and k: "known_type (major_type r)" and rg: "has_region r b = Some region"
    using assms(2,3) by (auto simp: readable_def split: option.splits)
  have ck: "db_dircheck d nm = map_option (\<lambda>s. (s, hash_of s)) (fresh_name (dir_abs d) nm)"
    using nm(2) by (intro dircheck_fresh) (simp add: plain_name_def)
  show ?thesis
  proof (cases "fresh_name (dir_abs d) nm")
    case None
    then show ?thesis using assms(1,3)
      by (simp add: db5_diradd_def nm(1) ck catalogue1_def fresh_name_view)
  next
    case (Some s)
    let ?fill = "fill_entry s (of_nat addr) (major_type r) (minor_type r) region (h_name_hidden r) (object_length r)"
    have s: "dir_abs d s = None" "plain_name s"
      using fresh_name_free[OF Some] fresh_name_plain[OF Some nm(2)] by auto
    obtain dp d' e where i: "dir_insert d (hash_of s) ?fill = (dp, d')" "dir_inv d'"
      "dir_view d' = (dir_view d)(s \<mapsto> ?fill e)"
      using dir_insert_new[OF assms(1) s(2,1), of ?fill] by auto
    have e: "?fill e = entry_for b r addr s"
      using fill_known[OF k] by (cases region) (simp_all add: entry_for_def rg)
    show ?thesis using assms(3) i
      by (simp add: db5_diradd_def nm(1) ck Some rg catalogue1_def fresh_name_view e)
  qed
qed

lemma c_string_longer: "c_string bs = Some s \<Longrightarrow> c_string (bs @ x) = Some s"
  by (induction bs arbitrary: s) (auto split: if_splits elim!: option_elims)

lemma object_name_longer:
  assumes "object_name r b = Some nm"
  shows "object_name r (b @ x) = Some nm"
proof -
  obtain off s where o: "ext_buf (rname r) = Some off" "c_string (drop off b) = Some s" "nm = string_of s"
    using assms by (auto simp: object_name_def elim!: option_elims)
  have "off \<le> length b" using o(2) by (cases "off \<le> length b") auto
  then show ?thesis using o c_string_longer[OF o(2), of x] by (simp add: object_name_def)
qed

lemma has_region_longer: "has_region r b = Some reg \<Longrightarrow> has_region r (b @ x) = Some reg"
  by (auto simp: has_region_def ext_copy_def split: if_splits option.splits elim!: option_elims)

lemma diradd_longer:
  assumes "db5_diradd d r b a = Some x"
  shows "db5_diradd d r (b @ y) a = Some x"
proof -
  obtain nm where nm: "object_name r b = Some nm"
    using assms by (auto simp: db5_diradd_def elim!: option_elims)
  note nm' = object_name_longer[OF nm, of y]
  show ?thesis
  proof (cases "db_dircheck d nm")
    case None
    then show ?thesis using assms by (simp add: db5_diradd_def nm nm')
  next
    case (Some lh)
    then obtain region where rg: "has_region r b = Some region"
      using assms by (cases lh) (auto simp: db5_diradd_def nm elim!: option_elims)
    show ?thesis using assms Some has_region_longer[OF rg, of y] by (simp add: db5_diradd_def nm nm' rg)
  qed
qed

lemma handler_stays_inside: "stays_inside db5_diradd_handler"
  unfolding stays_inside_def
proof (intro allI impI)
  fix d r b a d' and x :: "byte list"
  assume h: "db5_diradd_handler d r b a = Some d'"
  show "db5_diradd_handler d r (b @ x) a = Some d'"
  proof (cases "gets_entry r")
    case True
    then obtain y where "db5_diradd (scan_dirs d) r b a = Some y"
      using h by (auto simp: db5_diradd_handler_def gets_entry_def elim!: option_elims)
    with h True diradd_longer[OF this, of x] show ?thesis
      by (cases y) (auto simp: db5_diradd_handler_def gets_entry_def)
  qed (use h in \<open>auto simp: db5_diradd_handler_def gets_entry_def split: if_splits\<close>)
qed

definition dir_objects :: "(string \<Rightarrow> dir_entry option) \<Rightarrow> string \<Rightarrow> directory option" where
  "dir_objects m n = map_option dir_of_entry (m n)"

fun free_extents :: "(byte list \<times> db5_raw_internal) list \<Rightarrow> nat \<Rightarrow> nat set" where
  "free_extents [] addr = {}"
| "free_extents ((b, r) # os) addr =
     (if h_dli r = DLI_FREE_STORAGE then {addr..<addr + length b} else {})
     \<union> free_extents os (addr + length b)"

definition scan_ok :: "scan_db \<Rightarrow> nat \<Rightarrow> bool" where
  "scan_ok d addr \<longleftrightarrow> dir_inv (scan_dirs d)
     \<and> disk_ok ((scan_file d)\<lparr>dbi_eof := of_nat addr\<rparr>, dir_objects (dir_view (scan_dirs d)))"

lemma disk_ok_extend:
  assumes "disk_ok (d, objs)" "unat (dbi_eof d) \<le> unat e" "8 dvd unat e" "unat e < 2 ^ 60"
  shows "disk_ok (d\<lparr>dbi_eof := e\<rparr>, objs)"
proof -
  have f: "file_ok (d\<lparr>dbi_eof := e\<rparr>)"
    using assms by (fastforce simp: disk_ok_def file_ok_def)
  have "dp_ok (d\<lparr>dbi_eof := e\<rparr>) dp" if "objs n = Some dp" for n dp
    using disk_okD(2)[OF assms(1) that] assms(2) by (auto simp: dp_ok_def)
  then show ?thesis using f assms(1) by (simp add: disk_ok_def)
qed

lemma disk_ok_new:
  assumes "disk_ok (d, objs)" "dp_ok d dp"
    and "\<And>m dq. m \<noteq> n \<Longrightarrow> objs m = Some dq \<Longrightarrow> dp_extent dq \<inter> dp_extent dp = {}"
  shows "disk_ok (d, objs(n \<mapsto> dp))"
proof -
  have "dp_extent x \<inter> dp_extent y = {}"
    if "a \<noteq> b" "(objs(n \<mapsto> dp)) a = Some x" "(objs(n \<mapsto> dp)) b = Some y" for a b x y
    using that assms(3)[of b y] assms(3)[of a x] disk_okD(3)[OF assms(1), of a b x y]
    by (auto simp: Int_commute split: if_splits)
  moreover have "dp_ok d x" if "(objs(n \<mapsto> dp)) a = Some x" for a x
    using that assms(2) disk_okD(2)[OF assms(1), of a x] by (auto split: if_splits)
  ultimately show ?thesis using disk_okD(1)[OF assms(1)] unfolding disk_ok_def prod.case by blast
qed

lemma flags_not_inmem: "flags_of_type major minor region hidden 0 AND RT_DIR_INMEM = 0"
  by (simp add: flags_of_type_def RT_DIR_INMEM_def RT_DIR_SOLID_def RT_DIR_COMB_def RT_DIR_REGION_def
      RT_DIR_HIDDEN_def RT_DIR_NON_GEOM_def Let_def)

lemma dir_of_entry_for:
  "dir_of_entry (entry_for b r addr s)
     = \<lparr>d_un = FileOffset (of_nat addr), d_len = object_length r, d_inmem = False, d_namep = s\<rparr>"
  by (simp add: dir_of_entry_def entry_for_def fill_entry_def blank_entry_def flags_not_inmem)

lemma dir_objects_upd: "dir_objects (m(s \<mapsto> e)) = (dir_objects m)(s \<mapsto> dir_of_entry e)"
  by (auto simp: dir_objects_def)

text \<open>One object more.  \<open>file_at\<close> is the file as if it ended at an address.\<close>

definition file_at :: "scan_db \<Rightarrow> nat \<Rightarrow> db_i" where
  "file_at d addr = (scan_file d)\<lparr>dbi_eof := of_nat addr\<rparr>"

lemma file_at_sel [simp]:
  "dbi_freep (file_at d addr) = dbi_freep (scan_file d)" "dbi_eof (file_at d addr) = of_nat addr"
  by (simp_all add: file_at_def)

lemma unat_addr: "n < 2 ^ 60 \<Longrightarrow> unat (of_nat n :: 64 word) = n"
  by (rule unat_size_of_nat) simp

lemma scan_ok_parts:
  assumes "scan_ok d addr" "addr < 2 ^ 60"
  shows "dir_inv (scan_dirs d)" "disk_ok (file_at d addr, dir_objects (dir_view (scan_dirs d)))"
    "8 dvd addr" "free_units (dbi_freep (scan_file d)) \<subseteq> {..<addr}"
    "dir_objects (dir_view (scan_dirs d)) n = Some dq \<Longrightarrow> dp_extent dq \<subseteq> {..<addr}"
proof -
  have k: "disk_ok (file_at d addr, dir_objects (dir_view (scan_dirs d)))"
    using assms(1) by (simp add: scan_ok_def file_at_def)
  then show "dir_inv (scan_dirs d)" "disk_ok (file_at d addr, dir_objects (dir_view (scan_dirs d)))"
    using assms(1) by (simp_all add: scan_ok_def)
  note f = disk_okD(1)[OF k, unfolded file_ok_def file_at_sel unat_addr[OF assms(2)]]
  then show "8 dvd addr" "free_units (dbi_freep (scan_file d)) \<subseteq> {..<addr}" by simp_all
  show "dp_extent dq \<subseteq> {..<addr}" if "dir_objects (dir_view (scan_dirs d)) n = Some dq"
    using dp_extent_below[OF disk_okD(2)[OF k that]] by (simp add: unat_addr[OF assms(2)])
qed

lemma scan_ok_further:
  assumes "scan_ok d addr" "addr + n < 2 ^ 60" "8 dvd n"
  shows "disk_ok (file_at d (addr + n), dir_objects (dir_view (scan_dirs d)))"
proof -
  have a: "addr < 2 ^ 60" using assms(2) by simp
  note p = scan_ok_parts[OF assms(1) a]
  have "disk_ok ((file_at d addr)\<lparr>dbi_eof := of_nat (addr + n)\<rparr>, dir_objects (dir_view (scan_dirs d)))"
  proof (rule disk_ok_extend[OF p(2)])
    show "unat (dbi_eof (file_at d addr)) \<le> unat (of_nat (addr + n) :: off_t)"
      by (simp only: file_at_sel unat_addr[OF a] unat_addr[OF assms(2)] le_add1)
    show "8 dvd unat (of_nat (addr + n) :: off_t)" "unat (of_nat (addr + n) :: off_t) < 2 ^ 60"
      using p(3) assms(2,3) by (simp_all only: unat_addr[OF assms(2)] dvd_add)
  qed
  then show ?thesis by (simp add: file_at_def)
qed

lemma free_step:
  assumes "scan_ok d addr" "addr + n < 2 ^ 60" "8 dvd n" "8 \<le> n"
  defines "d' \<equiv> d\<lparr>scan_file := (scan_file d)\<lparr>dbi_freep :=
    rt_memfree (of_nat n) (of_nat addr) (dbi_freep (scan_file d))\<rparr>\<rparr>"
  shows "scan_ok d' (addr + n)"
    "free_units (dbi_freep (scan_file d')) = free_units (dbi_freep (scan_file d)) \<union> {addr..<addr + n}"
proof -
  have a: "addr < 2 ^ 60" and n: "n < 2 ^ 60" using assms(2) by simp_all
  note u = unat_addr[OF a] unat_addr[OF n] unat_addr[OF assms(2)]
  note p = scan_ok_parts[OF assms(1) a] and k = scan_ok_further[OF assms(1-3)]
  let ?D = "file_at d (addr + n)" and ?objs = "dir_objects (dir_view (scan_dirs d))"
  have "{unat (of_nat addr :: off_t)..<unat (of_nat addr :: off_t) + unat (of_nat n :: size_t)}
      \<inter> free_units (dbi_freep ?D) = {}"
    using p(4) by (auto simp: u)
  note g = give_back[OF disk_okD(1)[OF k], of "of_nat addr" "of_nat n", OF _ _ _ _ this, unfolded u file_at_sel,
      OF p(3) assms(3,4) order_refl]
  have eq: "file_at d' (addr + n) = ?D\<lparr>dbi_freep := rt_memfree (of_nat n) (of_nat addr) (dbi_freep (scan_file d))\<rparr>"
    by (simp add: file_at_def d'_def)
  show "free_units (dbi_freep (scan_file d')) = free_units (dbi_freep (scan_file d)) \<union> {addr..<addr + n}"
    using g(2) by (simp add: d'_def)
  have "dp_ok (file_at d' (addr + n)) dq" if "?objs m = Some dq" for m dq
    using disk_okD(2)[OF k that] p(5)[OF that] g(2) unfolding eq by (auto simp: dp_ok_def)
  then have "disk_ok (file_at d' (addr + n), ?objs)"
    using g(1) disk_okD(3)[OF k] unfolding eq disk_ok_def prod.case by blast
  then show "scan_ok d' (addr + n)" using p(1) by (simp add: scan_ok_def file_at_def d'_def)
qed

lemma entry_step:
  assumes "scan_ok d addr" "addr + length b < 2 ^ 60" "object_image b r" "fresh_name (dir_view (scan_dirs d)) nm = Some s"
  shows "disk_ok (file_at d (addr + length b),
    dir_objects ((dir_view (scan_dirs d))(s \<mapsto> entry_for b r addr s)))"
proof -
  have a: "addr < 2 ^ 60" and n: "length b < 2 ^ 60" using assms(2) by simp_all
  have l: "object_length r = of_nat (length b)" using object_imageE[OF assms(3)] by metis
  note u = unat_addr[OF a] unat_addr[OF n] unat_addr[OF assms(2)]
  have d8: "8 dvd length b" "8 \<le> length b" using image_length[OF assms(3)] by auto
  note p = scan_ok_parts[OF assms(1) a] and k = scan_ok_further[OF assms(1,2) d8(1)]
  let ?dp = "dir_of_entry (entry_for b r addr s)"
  have dp: "d_addr ?dp = of_nat addr" "d_len ?dp = of_nat (length b)"
    by (simp_all add: dir_of_entry_for d_addr_def l)
  have ext: "dp_extent ?dp = {addr..<addr + length b}" by (simp add: dp_extent_def dp u)
  have "dp_ok (file_at d (addr + length b)) ?dp"
    unfolding dp_ok_def ext file_at_sel dp u
    using p(3,4) d8 not_phony[of "of_nat addr"] a by (auto simp: dir_of_entry_for u)
  then show ?thesis
    unfolding dir_objects_upd by (rule disk_ok_new[OF k]) (use p(5) ext in fastforce)
qed

lemma handler_step:
  assumes "scan_ok d addr" "addr + length b < 2 ^ 60" "object_image b r" "readable b r"
  shows "\<exists>d'. db5_diradd_handler d r b (of_nat addr) = Some d' \<and> scan_ok d' (addr + length b)
    \<and> dir_view (scan_dirs d') = catalogue1 b r addr (dir_view (scan_dirs d))
    \<and> free_units (dbi_freep (scan_file d')) = free_units (dbi_freep (scan_file d))
        \<union> (if h_dli r = DLI_FREE_STORAGE then {addr..<addr + length b} else {})
    \<and> dbi_file (scan_file d') = dbi_file (scan_file d)
    \<and> dbi_read_only (scan_file d') = dbi_read_only (scan_file d)"
proof -
  have l: "object_length r = of_nat (length b)" using object_imageE[OF assms(3)] by metis
  have d8: "8 dvd length b" "8 \<le> length b" using image_length[OF assms(3)] by auto
  have a: "addr < 2 ^ 60" using assms(2) by simp
  note p = scan_ok_parts[OF assms(1) a] and k = scan_ok_further[OF assms(1,2) d8(1)]
  consider "gets_entry r" | "h_dli r = DLI_FREE_STORAGE"
    | "\<not> gets_entry r" "h_dli r \<noteq> DLI_FREE_STORAGE" by blast
  then show ?thesis
  proof cases
    case 1
    obtain dp dirs where x: "db5_diradd (scan_dirs d) r b (of_nat addr) = Some (dp, dirs)" "dir_inv dirs"
      "dir_view dirs = catalogue1 b r addr (dir_view (scan_dirs d))"
      using diradd_catalogue[OF p(1) assms(4) 1] by blast
    have "disk_ok (file_at d (addr + length b), dir_objects (dir_view dirs))"
      using k entry_step[OF assms(1-3)] by (auto simp: x(3) catalogue1_def split: option.splits bind_splits)
    then have "scan_ok (d\<lparr>scan_dirs := dirs\<rparr>) (addr + length b)" using x(2) by (simp add: scan_ok_def file_at_def)
    then show ?thesis using 1 x by (auto simp: db5_diradd_handler_def gets_entry_def)
  next
    case 2
    then show ?thesis using free_step[OF assms(1,2) d8]
      by (simp add: db5_diradd_handler_def DLI_HEADER_OBJECT_def DLI_FREE_STORAGE_def l catalogue1_def gets_entry_def)
  next
    case 3
    then have "db5_diradd_handler d r b (of_nat addr) = Some d"
      by (auto simp: db5_diradd_handler_def gets_entry_def)
    then show ?thesis using 3 k p(1) by (simp add: catalogue1_def scan_ok_def file_at_def)
  qed
qed

lemma feed_directory:
  assumes "scan_ok d addr" "addr + length (contents os) < 2 ^ 60" "images os" "list_all (\<lambda>(b, r). readable b r) os"
  shows "\<exists>d'. feed db5_diradd_handler os addr d = Some d' \<and> scan_ok d' (addr + length (contents os))
    \<and> dir_view (scan_dirs d') = catalogue os addr (dir_view (scan_dirs d))
    \<and> free_units (dbi_freep (scan_file d')) = free_units (dbi_freep (scan_file d)) \<union> free_extents os addr
    \<and> dbi_file (scan_file d') = dbi_file (scan_file d)
    \<and> dbi_read_only (scan_file d') = dbi_read_only (scan_file d)"
  using assms
proof (induction os arbitrary: addr d)
  case (Cons x os)
  obtain b r where x: "x = (b, r)" by fastforce
  have "addr + length b < 2 ^ 60" using Cons.prems(2) by (simp add: x)
  then obtain d1 where d1: "db5_diradd_handler d r b (of_nat addr) = Some d1" "scan_ok d1 (addr + length b)"
    "dir_view (scan_dirs d1) = catalogue1 b r addr (dir_view (scan_dirs d))"
    "free_units (dbi_freep (scan_file d1)) = free_units (dbi_freep (scan_file d))
        \<union> (if h_dli r = DLI_FREE_STORAGE then {addr..<addr + length b} else {})"
    "dbi_file (scan_file d1) = dbi_file (scan_file d)"
    "dbi_read_only (scan_file d1) = dbi_read_only (scan_file d)"
    using handler_step[OF Cons.prems(1), of b r] Cons.prems(3,4) by (auto simp: x)
  have "addr + length b + length (contents os) < 2 ^ 60" using Cons.prems(2) by (simp add: x)
  from Cons.IH[OF d1(2) this] obtain d' where
    "feed db5_diradd_handler os (addr + length b) d1 = Some d'" "scan_ok d' (addr + length b + length (contents os))"
    "dir_view (scan_dirs d') = catalogue os (addr + length b) (dir_view (scan_dirs d1))"
    "free_units (dbi_freep (scan_file d')) = free_units (dbi_freep (scan_file d1)) \<union> free_extents os (addr + length b)"
    "dbi_file (scan_file d') = dbi_file (scan_file d1)"
    "dbi_read_only (scan_file d') = dbi_read_only (scan_file d1)"
    using Cons.prems(3,4) by (auto simp: x)
  then show ?case using d1 by (simp add: x Un_assoc add.assoc)
qed simp

text \<open>Where the entries of a catalogue come from.\<close>

lemma catalogue_origin:
  assumes "catalogue os addr m n = Some e"
  shows "m n = Some e \<or> (\<exists>pre b r post. os = pre @ (b, r) # post \<and> gets_entry r
    \<and> e = entry_for b r (addr + length (contents pre)) n)"
  using assms
proof (induction os arbitrary: addr m)
  case (Cons x os)
  obtain b r where x: "x = (b, r)" by fastforce
  have "catalogue1 b r addr m n = Some e \<or> (\<exists>pre b' r' post. os = pre @ (b', r') # post \<and> gets_entry r'
    \<and> e = entry_for b' r' (addr + length b + length (contents pre)) n)"
    using Cons.IH[of "addr + length b" "catalogue1 b r addr m"] Cons.prems by (simp add: x)
  then show ?case
  proof
    assume "catalogue1 b r addr m n = Some e"
    then have "m n = Some e \<or> gets_entry r \<and> e = entry_for b r addr n"
      by (auto simp: catalogue1_def split: if_splits option.splits)
    then show ?thesis
    proof
      assume "gets_entry r \<and> e = entry_for b r addr n"
      then show ?thesis
        by (intro disjI2 exI[of _ "[]"] exI[of _ b] exI[of _ r] exI[of _ os]) (simp add: x)
    qed simp
  next
    assume "\<exists>pre b' r' post. os = pre @ (b', r') # post \<and> gets_entry r'
      \<and> e = entry_for b' r' (addr + length b + length (contents pre)) n"
    then obtain pre b' r' post where "os = pre @ (b', r') # post" "gets_entry r'"
      "e = entry_for b' r' (addr + length b + length (contents pre)) n" by blast
    then show ?thesis
      by (intro disjI2 exI[of _ "x # pre"] exI[of _ b'] exI[of _ r'] exI[of _ post]) (simp add: x add.assoc)
  qed
qed simp

text \<open>A database that was just opened: nothing is known of its file yet.\<close>

definition just_opened :: "scan_db \<Rightarrow> bool" where
  "just_opened d \<longleftrightarrow> dir_inv (scan_dirs d) \<and> dir_abs (scan_dirs d) = Map.empty
     \<and> mem_inv (dbi_freep (scan_file d)) \<and> mem_aligned (dbi_freep (scan_file d))
     \<and> free_units (dbi_freep (scan_file d)) = {} \<and> dbi_inmem (scan_file d) = None"

lemma just_opened_ok: "just_opened d \<Longrightarrow> scan_ok d 8"
  by (auto simp: just_opened_def scan_ok_def disk_ok_def file_ok_def dir_objects_def dir_view_def)

text \<open>The objects of a file after the header.\<close>

definition readable_file :: "byte list \<Rightarrow> (byte list \<times> db5_raw_internal) list \<Rightarrow> bool" where
  "readable_file f os \<longleftrightarrow> v5_file f os \<and> list_all (\<lambda>(b, r). readable b r) os \<and> length f < 2 ^ 60"

lemma stored_at:
  assumes "scan_ok d (length (dbi_file (scan_file d)))" "drop 8 (dbi_file (scan_file d)) = contents os"
    and "length (dbi_file (scan_file d)) < 2 ^ 60" "images os" "8 \<le> length (dbi_file (scan_file d))"
    and "os = pre @ (b, r) # post" "e = entry_for b r (8 + length (contents pre)) n"
    and "dir_objects (dir_view (scan_dirs d)) n = Some (dir_of_entry e)"
  shows "db_get_external (dir_of_entry e) (file_at d (length (dbi_file (scan_file d)))) = Some (0, b)"
proof -
  let ?f = "dbi_file (scan_file d)" and ?a = "8 + length (contents pre)"
  have i: "object_image b r" using assms(4,6) by (auto simp: images_def)
  have l: "object_length r = of_nat (length b)" using object_imageE[OF i] by metis
  have f: "length ?f = 8 + length (contents os)" using arg_cong[OF assms(2), of length] assms(5) by simp
  then have a: "?a < 2 ^ 60" "length b < 2 ^ 60" using assms(3,6) by simp_all
  have dp: "d_addr (dir_of_entry e) = of_nat ?a" "d_len (dir_of_entry e) = of_nat (length b)"
    by (simp_all only: assms(7) dir_of_entry_for d_addr_def l directory.simps d_un.case)
  note k = scan_ok_parts(2)[OF assms(1,3)]
  have "drop ?a ?f = drop (length (contents pre)) (drop 8 ?f)" by (simp add: add.commute)
  then have tk: "take (length b) (drop ?a ?f) = b" by (simp add: assms(2,6))
  have np: "(of_nat ?a :: off_t) \<noteq> RT_DIR_PHONY_ADDR"
    by (rule not_phony) (simp only: unat_addr[OF a(1)], use a(1) in simp)
  have ff: "dbi_file (file_at d (length ?f)) = ?f" by (simp add: file_at_def)
  show ?thesis
  proof (rule db_get_external_stored[OF disk_okD(1)[OF k] disk_okD(2)[OF k assms(8)]])
    show "d_addr (dir_of_entry e) \<noteq> RT_DIR_PHONY_ADDR" unfolding dp by (rule np)
    show "length b = unat (d_len (dir_of_entry e))" unfolding dp unat_addr[OF a(2)] ..
    show "take (unat (d_len (dir_of_entry e))) (drop (unat (d_addr (dir_of_entry e)))
        (dbi_file (file_at d (length ?f)))) = b"
      unfolding ff dp unat_addr[OF a(1)] unat_addr[OF a(2)] by (rule tk)
  qed
qed

section \<open>The two ways to scan\<close>

definition mapped :: "scan_db \<Rightarrow> byte list \<Rightarrow> scan_db" where
  "mapped d mem = d\<lparr>scan_file := (scan_file d)\<lparr>dbi_inmem := Some mem\<rparr>\<rparr>"

lemma handler_mapped:
  "db5_diradd_handler d r b a = Some d' \<Longrightarrow> db5_diradd_handler (mapped d mem) r b a = Some (mapped d' mem)"
  by (auto simp: db5_diradd_handler_def mapped_def split: if_splits elim!: option_elims)

lemma feed_mapped:
  "feed db5_diradd_handler os addr d = Some d'
     \<Longrightarrow> feed db5_diradd_handler os addr (mapped d mem) = Some (mapped d' mem)"
proof (induction os arbitrary: addr d)
  case (Cons x os)
  then show ?case by (cases x) (auto simp: handler_mapped elim!: option_elims)
qed simp

lemma directory_scan:
  assumes "just_opened d" "readable_file (dbi_file (scan_file d)) os"
  shows "\<exists>d1. feed db5_diradd_handler os 8 d = Some d1 \<and> scan_ok d1 (length (dbi_file (scan_file d)))
    \<and> dir_view (scan_dirs d1) = catalogue os 8 Map.empty
    \<and> free_units (dbi_freep (scan_file d1)) = free_extents os 8
    \<and> dbi_file (scan_file d1) = dbi_file (scan_file d)
    \<and> db5_scan db5_diradd_handler raw d = Some (scan_done (length (dbi_file (scan_file d))) (length os) d1)"
proof -
  let ?f = "dbi_file (scan_file d)"
  have v: "v5_file ?f os" "list_all (\<lambda>(b, r). readable b r) os" "length ?f < 2 ^ 60"
    using assms(2) by (auto simp: readable_file_def)
  then have w: "images os" "drop 8 ?f = contents os" "8 \<le> length ?f" by (auto simp: v5_file_def)
  have "length (drop 8 ?f) = length (contents os)" by (simp only: w(2))
  then have c: "images os" "8 + length (contents os) = length ?f"
    using w(1,3) unfolding length_drop by linarith+
  have e: "dir_view (scan_dirs d) = Map.empty" "free_units (dbi_freep (scan_file d)) = {}"
    using assms(1) by (auto simp: just_opened_def dir_view_def)
  obtain d1 where d1: "feed db5_diradd_handler os 8 d = Some d1" "scan_ok d1 (length ?f)"
    "dir_view (scan_dirs d1) = catalogue os 8 Map.empty"
    "free_units (dbi_freep (scan_file d1)) = free_extents os 8" "dbi_file (scan_file d1) = ?f"
    using feed_directory[OF just_opened_ok[OF assms(1)] _ c(1) v(2)] v(3) unfolding c(2) e by auto
  moreover have "db5_scan db5_diradd_handler raw d = Some (scan_done (length ?f) (length os) d1)"
    by (rule db5_scan_feed[OF v(1) d1(1)]) (use assms(1) in \<open>simp add: just_opened_def\<close>)
  ultimately show ?thesis by blast
qed

text \<open>The state after a scan of a readable file.\<close>

lemma scan_result:
  assumes "just_opened d" "readable_file (dbi_file (scan_file d)) os"
  shows "\<exists>d'. db5_scan db5_diradd_handler raw d = Some (0, d') \<and> dbi_nrec d' = length os
    \<and> dir_inv (scan_dirs d') \<and> dir_view (scan_dirs d') = catalogue os 8 Map.empty
    \<and> free_units (dbi_freep (scan_file d')) = free_extents os 8
    \<and> disk_ok (scan_file d', dir_objects (dir_view (scan_dirs d')))
    \<and> dbi_eof (scan_file d') = of_nat (length (dbi_file (scan_file d)))
    \<and> (\<forall>n e pre b r post. dir_view (scan_dirs d') n = Some e \<longrightarrow> os = pre @ (b, r) # post \<longrightarrow>
         e = entry_for b r (8 + length (contents pre)) n \<longrightarrow>
         db_get_external (dir_of_entry e) (scan_file d') = Some (0, b))"
proof -
  let ?f = "dbi_file (scan_file d)"
  have v: "8 \<le> length ?f" "drop 8 ?f = contents os" "images os" "length ?f < 2 ^ 60"
    using assms(2) by (auto simp: readable_file_def v5_file_def)
  obtain d1 where d1: "scan_ok d1 (length ?f)" "dir_view (scan_dirs d1) = catalogue os 8 Map.empty"
    "free_units (dbi_freep (scan_file d1)) = free_extents os 8" "dbi_file (scan_file d1) = ?f"
    "db5_scan db5_diradd_handler raw d = Some (scan_done (length ?f) (length os) d1)"
    using directory_scan[OF assms, of raw] by blast
  note p = scan_ok_parts[OF d1(1) v(4)]
  have get: "db_get_external (dir_of_entry e) (file_at d1 (length ?f)) = Some (0, b)"
    if "dir_view (scan_dirs d1) n = Some e" "os = pre @ (b, r) # post" "e = entry_for b r (8 + length (contents pre)) n"
    for n e pre b r post
  proof -
    have "dir_objects (dir_view (scan_dirs d1)) n = Some (dir_of_entry e)" using that(1) by (simp add: dir_objects_def)
    from stored_at[of d1, unfolded d1(4), OF d1(1) v(2,4,3,1) that(2,3) this] show ?thesis .
  qed
  let ?d' = "d1\<lparr>scan_file := file_at d1 (length ?f), dbi_nrec := length os\<rparr>"
  have "db5_scan db5_diradd_handler raw d = Some (0, ?d')"
    using d1(5) by (simp add: scan_done_def file_at_def)
  moreover have "dbi_nrec ?d' = length os" "scan_dirs ?d' = scan_dirs d1" "scan_file ?d' = file_at d1 (length ?f)"
    by simp_all
  ultimately show ?thesis
    using d1(2,3) p(1,2) get by (intro exI[of _ ?d']) (simp only: file_at_sel, blast)
qed

section \<open>Properties\<close>

text \<open>C3: scanning a file of a header and whole objects builds the directory that the catalogue of
  its objects describes: every named object under its name (a name that is taken gets a letter in
  front), with its address and length; the free map is exactly the free-storage objects; the layout
  satisfies the invariant of the allocator, and through each entry \<open>db_get_external\<close> reads back the
  bytes of an object of the file.\<close>

theorem scan_builds_directory:
  assumes "just_opened d" "readable_file (dbi_file (scan_file d)) os"
  shows "\<exists>d'. db5_scan db5_diradd_handler raw d = Some (0, d') \<and> dbi_nrec d' = length os
    \<and> dir_inv (scan_dirs d') \<and> dir_view (scan_dirs d') = catalogue os 8 Map.empty
    \<and> free_units (dbi_freep (scan_file d')) = free_extents os 8
    \<and> disk_ok (scan_file d', dir_objects (dir_view (scan_dirs d')))
    \<and> (\<forall>n e. dir_view (scan_dirs d') n = Some e \<longrightarrow>
         (\<exists>(b, r)\<in>set os. gets_entry r \<and> db_get_external (dir_of_entry e) (scan_file d') = Some (0, b)))"
proof -
  obtain d' where d': "db5_scan db5_diradd_handler raw d = Some (0, d')" "dbi_nrec d' = length os"
    "dir_inv (scan_dirs d')" "dir_view (scan_dirs d') = catalogue os 8 Map.empty"
    "free_units (dbi_freep (scan_file d')) = free_extents os 8"
    "disk_ok (scan_file d', dir_objects (dir_view (scan_dirs d')))"
    and get: "\<And>n e pre b r post. dir_view (scan_dirs d') n = Some e \<Longrightarrow> os = pre @ (b, r) # post \<Longrightarrow>
         e = entry_for b r (8 + length (contents pre)) n \<Longrightarrow>
         db_get_external (dir_of_entry e) (scan_file d') = Some (0, b)"
    using scan_result[OF assms, of raw] by blast
  have "\<exists>(b, r)\<in>set os. gets_entry r \<and> db_get_external (dir_of_entry e) (scan_file d') = Some (0, b)"
    if at: "dir_view (scan_dirs d') n = Some e" for n e
  proof -
    obtain pre b r post where o: "os = pre @ (b, r) # post" "gets_entry r" "e = entry_for b r (8 + length (contents pre)) n"
      using catalogue_origin[of os 8 Map.empty n e, folded d'(4), OF at] by (elim disjE exE conjE) simp_all
    then show ?thesis using get[OF at o(1,3)] by auto
  qed
  then show ?thesis using d' by blast
qed

text \<open>\<open>db_diradd5\<close> with the header and the attributes of an object makes the entry that
  \<open>db5_diradd\<close> makes from the object itself.\<close>

lemma diradd5_agrees:
  assumes "object_name r b = Some nm" "ext_copy b (rattributes r) = Some (Some ap)"
    "db5_import_attributes ap = Some (n, avs)" "0 \<le> n" "ext_nbytes (rattributes r) \<noteq> 0"
    and "unat (major_type r) = DB5_MAJORTYPE_BRLCAD" "unat (minor_type r) = ID_COMBINATION" "avp avs \<noteq> []"
  shows "db5_diradd d r b addr = Some (db_diradd5 d nm addr (major_type r) (minor_type r)
    (h_name_hidden r) (object_length r) (Some avs))"
  using assms by (auto simp: db5_diradd_def db_diradd5_def has_region_def split: option.splits prod.splits)

lemma flags_of_type_bits:
  assumes "known_type major"
  shows "let fl = flags_of_type major minor region hidden old in
    (fl AND RT_DIR_SOLID \<noteq> 0 \<longleftrightarrow> unat major = DB5_MAJORTYPE_BRLCAD \<and> unat minor \<noteq> ID_COMBINATION)
    \<and> (fl AND RT_DIR_COMB \<noteq> 0 \<longleftrightarrow> unat major = DB5_MAJORTYPE_BRLCAD \<and> unat minor = ID_COMBINATION)
    \<and> (fl AND RT_DIR_REGION \<noteq> 0 \<longleftrightarrow> unat major = DB5_MAJORTYPE_BRLCAD \<and> unat minor = ID_COMBINATION \<and> region)
    \<and> (fl AND RT_DIR_NON_GEOM \<noteq> 0 \<longleftrightarrow> unat major \<in> {DB5_MAJORTYPE_BINARY_UNIF, DB5_MAJORTYPE_BINARY_MIME})
    \<and> (fl AND RT_DIR_HIDDEN \<noteq> 0 \<longleftrightarrow> hidden \<noteq> 0) \<and> fl AND RT_DIR_INMEM = 0"
  using assms
  by (auto simp: flags_of_type_def known_type_def id_defs DB5_MAJORTYPE_ATTRIBUTE_ONLY_def
      DB5_MAJORTYPE_BINARY_MIME_def RT_DIR_SOLID_def RT_DIR_COMB_def RT_DIR_REGION_def
      RT_DIR_NON_GEOM_def RT_DIR_HIDDEN_def RT_DIR_INMEM_def Let_def)

text \<open>C7: the flags of an entry made from a readable object say what it is: a primitive, a
  combination, a region exactly when a combination has the attribute \<open>region\<close>, or no geometry;
  hidden as its header says, and never in memory only.\<close>

theorem diradd_types:
  assumes "dir_inv d" "readable b r" "gets_entry r" "db5_diradd d r b addr = Some (Some dp, d')"
  shows "let fl = dir_flags (dir_mem d' dp); comb = (unat (major_type r) = DB5_MAJORTYPE_BRLCAD \<and> unat (minor_type r) = ID_COMBINATION) in
    (fl AND RT_DIR_SOLID \<noteq> 0 \<longleftrightarrow> unat (major_type r) = DB5_MAJORTYPE_BRLCAD \<and> \<not> comb)
    \<and> (fl AND RT_DIR_COMB \<noteq> 0 \<longleftrightarrow> comb) \<and> (fl AND RT_DIR_REGION \<noteq> 0 \<longleftrightarrow> comb \<and> has_region r b = Some True)
    \<and> (fl AND RT_DIR_NON_GEOM \<noteq> 0 \<longleftrightarrow> unat (major_type r) \<in> {DB5_MAJORTYPE_BINARY_UNIF, DB5_MAJORTYPE_BINARY_MIME})
    \<and> (fl AND RT_DIR_HIDDEN \<noteq> 0 \<longleftrightarrow> h_name_hidden r \<noteq> 0) \<and> fl AND RT_DIR_INMEM = 0
    \<and> dir_addr (dir_mem d' dp) = addr \<and> dir_len (dir_mem d' dp) = object_length r"
proof -
  obtain nm region where nm: "object_name r b = Some nm" and k: "known_type (major_type r)"
    and rg: "has_region r b = Some region"
    using assms(2,3) by (auto simp: readable_def split: option.splits)
  obtain s h where ck: "db_dircheck d nm = Some (s, h)"
    using assms(4) by (auto simp: db5_diradd_def nm split: option.splits)
  have "\<exists>old. dir_mem d' dp = fill_entry s addr (major_type r) (minor_type r) region (h_name_hidden r) (object_length r) old"
    using assms(4) by (auto simp: db5_diradd_def nm ck rg dir_insert_def Let_def split: prod.splits)
  then obtain old where "dir_mem d' dp = fill_entry s addr (major_type r) (minor_type r) region
      (h_name_hidden r) (object_length r) old" by blast
  then show ?thesis
    using flags_of_type_bits[OF k, of "minor_type r" region "h_name_hidden r" "dir_flags old"]
    by (auto simp: fill_entry_def rg Let_def)
qed

text \<open>C4: on such a file the scan through memory and the scan through \<open>stdio\<close> end in the same
  directory, free map, end of file and number of objects.\<close>

theorem mapped_scan_agrees:
  assumes "just_opened d" "readable_file (dbi_file (scan_file d)) os"
  shows "\<exists>d'. db5_scan db5_diradd_handler raw d = Some (0, d')
    \<and> db5_scan db5_diradd_handler raw' (mapped d (dbi_file (scan_file d))) = Some (0, mapped d' (dbi_file (scan_file d)))"
proof -
  let ?f = "dbi_file (scan_file d)"
  obtain d1 where d1: "feed db5_diradd_handler os 8 d = Some d1"
    "db5_scan db5_diradd_handler raw d = Some (scan_done (length ?f) (length os) d1)"
    using directory_scan[OF assms, of raw] by blast
  have v: "v5_file ?f os" using assms(2) by (simp add: readable_file_def)
  have "db5_scan db5_diradd_handler raw' (mapped d ?f) = Some (scan_done (length ?f) (length os) (mapped d1 ?f))"
    by (rule db5_scan_feed[OF v feed_mapped[OF d1(1)]]) (simp add: mapped_def handler_stays_inside)
  then show ?thesis using d1(2) by (simp add: scan_done_def mapped_def)
qed

text \<open>The start of an object whose length field of one byte is zero.\<close>

definition zero_length :: "byte list \<Rightarrow> bool" where
  "zero_length bad \<longleftrightarrow> length bad = 7 \<and> take 1 bad = [DB5HDR_MAGIC1]
     \<and> bad ! 1 AND DB5HDR_HFLAGS_OBJECT_WIDTH_MASK = 0 \<and> bad ! 6 = 0"

lemma zero_lengthE:
  assumes "zero_length bad"
  obtains c1 c2 c3 c4 c5 where "bad = [DB5HDR_MAGIC1, c1, c2, c3, c4, c5, 0]"
    "c1 AND DB5HDR_HFLAGS_OBJECT_WIDTH_MASK = 0"
proof -
  obtain c0 c1 c2 c3 c4 c5 c6 where "bad = [c0, c1, c2, c3, c4, c5, c6]"
    using assms by (auto simp: zero_length_def numeral_eq_Suc length_Suc_conv)
  then show ?thesis using assms by (intro that[of c1 c2 c3 c4 c5]) (auto simp: zero_length_def numeral_eq_Suc)
qed

lemma zero_length_readers:
  assumes "zero_length bad" "drop addr f = bad @ rest"
  shows "\<exists>r. db5_get_raw_internal_fp raw f addr = Some (-1, r, [], addr + 7)"
    "\<exists>r. db5_get_raw_internal_ptr raw' (bad @ rest) = Some (r, None)"
proof -
  obtain c1 c2 c3 c4 c5 where bad: "bad = [DB5HDR_MAGIC1, c1, c2, c3, c4, c5, 0]"
    and c1: "c1 AND DB5HDR_HFLAGS_OBJECT_WIDTH_MASK = 0"
    using zero_lengthE[OF assms(1)] .
  have f: "drop addr f = DB5HDR_MAGIC1 # c1 # c2 # c3 # c4 # c5 # 0 # rest" using assms(2) by (simp add: bad)
  have "drop (addr + 6) f = drop 6 (drop addr f)" by (simp add: add.commute)
  then have f6: "drop (addr + 6) f = 0 # rest" by (simp add: f)
  have dec: "db5_decode_length (0 # x) 0 = Some (0, 1)" for x
    by (simp add: db5_decode_length_def widthcode_defs)
  let ?h = "[DB5HDR_MAGIC1, c1, c2, c3, c4, c5]"
  have h: "fread sizeof_header f addr = (?h, addr + 6)" by (simp add: fread_def sizeof_header_def f)
  have l: "fread 1 f (addr + 6) = ([0], addr + 7)" by (simp add: fread_def f6)
  obtain r where r: "crack_disk_header raw ?h = Some (0, r)" "h_object_width r = 0" using c1 by simp
  have count: "lenbuf_count 0 = 1" by (simp add: lenbuf_count_def widthcode_defs)
  have "raw_fp_rest r ?h [0] f (addr + 7) = Some (-1, r\<lparr>object_length := 0\<rparr>, [], addr + 7)"
    using dec[of "[]"] by (simp add: raw_fp_rest_def r(2) sizeof_header_def)
  then show "\<exists>r. db5_get_raw_internal_fp raw f addr = Some (-1, r, [], addr + 7)"
    by (simp add: db5_get_raw_internal_fp_def h[unfolded sizeof_header_def] r l count sizeof_header_def
        del: One_nat_def crack_disk_header.simps)
  show "\<exists>r. db5_get_raw_internal_ptr raw' (bad @ rest) = Some (r, None)"
    by (simp add: db5_get_raw_internal_ptr_def sizeof_header_def bad c1 dec)
qed

text \<open>C5: a length field that is zero, say after a crash, ends the scan through \<open>stdio\<close> as if it
  were the end of the file: \<open>db5_get_raw_internal_fp\<close> returns -1, which \<open>db5_scan\<close> takes for the
  end of the file.  The scan succeeds, \<open>dbi_eof\<close> is in the middle of the file, the database can still be
  written, and no object behind that place is in the directory.  The scan through memory fails on
  the same file and makes the database read-only.\<close>

theorem zero_length_ends_scan:
  assumes "just_opened d" "8 \<le> length (dbi_file (scan_file d))"
    and "db5_header_is_valid (take 8 (dbi_file (scan_file d))) = Some True"
    and "drop 8 (dbi_file (scan_file d)) = contents os @ bad @ rest" "zero_length bad"
    and "images os" "list_all (\<lambda>(b, r). readable b r) os" "length (dbi_file (scan_file d)) < 2 ^ 60"
  shows "(\<exists>d'. db5_scan db5_diradd_handler raw d = Some (0, d')
      \<and> unat (dbi_eof (scan_file d')) + length rest = length (dbi_file (scan_file d))
      \<and> dbi_read_only (scan_file d') = dbi_read_only (scan_file d)
      \<and> dir_view (scan_dirs d') = catalogue os 8 Map.empty)
    \<and> (\<exists>d''. db5_scan db5_diradd_handler raw' (mapped d (dbi_file (scan_file d))) = Some (-1, d'')
      \<and> dbi_read_only (scan_file d''))"
proof -
  let ?f = "dbi_file (scan_file d)" and ?a = "8 + length (contents os)"
  have len: "?a + 7 + length rest = length ?f"
  proof -
    have "length (drop 8 ?f) = length (contents os @ bad @ rest)" by (simp only: assms(4))
    then show ?thesis using assms(2,5) by (simp add: zero_length_def)
  qed
  have e: "dir_view (scan_dirs d) = Map.empty"
    using assms(1) by (auto simp: just_opened_def dir_view_def)
  have "?a < 2 ^ 60" using len assms(8) by linarith
  then obtain d1 where d1: "feed db5_diradd_handler os 8 d = Some d1"
    "dir_view (scan_dirs d1) = catalogue os 8 Map.empty" "dbi_read_only (scan_file d1) = dbi_read_only (scan_file d)"
    using feed_directory[OF just_opened_ok[OF assms(1)] _ assms(6,7)] unfolding e by auto
  have "drop ?a ?f = drop (length (contents os)) (drop 8 ?f)" by (simp add: add.commute)
  then have tail: "drop ?a ?f = bad @ rest" by (simp add: assms(4))
  have nm: "dbi_inmem (scan_file d) = None" using assms(1) by (simp add: just_opened_def)
  obtain raw1 where s: "scan_fp db5_diradd_handler ?f raw 8 d 0
      = scan_fp db5_diradd_handler ?f raw1 ?a d1 (0 + length os)"
    using scan_fp_objects[OF assms(6,4) d1(1)] by blast
  have "scan_fp db5_diradd_handler ?f raw1 ?a d1 (0 + length os) = Some (-1, ?a + 7, d1, length os)"
    using zero_length_readers(1)[OF assms(5) tail, of raw1] by (auto simp: scan_fp.simps[of db5_diradd_handler ?f raw1])
  then have fp: "db5_scan db5_diradd_handler raw d = Some (scan_done (?a + 7) (length os) d1)"
    using nm s assms(2,3) by (simp add: db5_scan_def fread_def)
  obtain raw2 where s2: "scan_mapped db5_diradd_handler ?f raw' 8 (mapped d ?f) 0
      = scan_mapped db5_diradd_handler ?f raw2 ?a (mapped d1 ?f) (0 + length os)"
    using scan_mapped_objects[OF assms(6,4) feed_mapped[OF d1(1)] handler_stays_inside] by blast
  have "scan_mapped db5_diradd_handler ?f raw2 ?a (mapped d1 ?f) (0 + length os)
      = Some (-1, ?a, mapped d1 ?f, length os)"
    using zero_length_readers(2)[OF assms(5) tail, of raw2] len
    by (auto simp: scan_mapped.simps[of db5_diradd_handler ?f raw2] tail)
  then have mp: "db5_scan db5_diradd_handler raw' (mapped d ?f) = Some (scan_fatal (mapped d ?f))
      \<or> db5_scan db5_diradd_handler raw' (mapped d ?f) = Some (scan_fatal (mapped d1 ?f))"
    using s2 assms(2,3) header_valid_prefix[OF assms(2)] by (simp add: db5_scan_def mapped_def)
  have "unat (of_nat (?a + 7) :: off_t) = ?a + 7" using len assms(8) by (intro unat_addr) linarith
  then show ?thesis
    using fp mp d1(2,3) len by (auto simp: scan_done_def scan_fatal_def)
qed

text \<open>C6: \<open>db_dirbuild\<close> of such a file, when it is open, takes the title and the units from the attributes of the
  object that is entered as \<open>_GLOBAL\<close>, if it is an attribute-only object, and the directory is that
  of the scan.  Units that cannot be read or lie within \<open>FLT_EPSILON\<close> of zero leave the conversion factors
  alone: those of an angstrom, \<open>10^-7\<close> millimeters, are among them.  Without an open file there is no
  directory.\<close>

theorem dirbuild_reads_title:
  assumes "just_opened d" "readable_file (dbi_file (scan_file d)) os" "dbi_version (scan_dirs d) = 5"
    and "os = pre @ (b, r) # post"
    and "catalogue os 8 Map.empty DB5_GLOBAL_OBJECT_NAME
           = Some (entry_for b r (8 + length (contents pre)) DB5_GLOBAL_OBJECT_NAME)"
    and "unat (major_type r) = DB5_MAJORTYPE_ATTRIBUTE_ONLY"
    and "ext_copy b (rattributes r) = Some (Some ap)" "db5_import_attributes ap = Some (n, avs)" "0 \<le> n"
  shows "\<exists>d' d''. db5_scan db5_diradd_handler raw d = Some (0, d')
    \<and> db_dirbuild scan_lf update_ident db_scan raw raw' d = Some (if dbi_fp_open d then (0, d'') else (-1, d))
    \<and> dbi_title d'' = Some (case bu_avs_get avs (Some ''title'') of Some t \<Rightarrow> t | None \<Rightarrow> ''Untitled BRL-CAD database'')
    \<and> (case Option.bind (bu_avs_get avs (Some ''units'')) scan_lf of
         Some dd \<Rightarrow> (if \<bar>dd\<bar> \<ge> 1 / 2 ^ 23 then dbi_local2base d'' = dd \<and> dbi_base2local d'' * dd = 1
                     else dbi_local2base d'' = dbi_local2base d' \<and> dbi_base2local d'' = dbi_base2local d')
       | None \<Rightarrow> dbi_local2base d'' = dbi_local2base d' \<and> dbi_base2local d'' = dbi_base2local d')
    \<and> scan_dirs d'' = scan_dirs d' \<and> scan_file d'' = scan_file d'"
proof -
  obtain d' where d': "db5_scan db5_diradd_handler raw d = Some (0, d')"
    "dir_view (scan_dirs d') = catalogue os 8 Map.empty"
    and get: "\<And>n e pre b r post. dir_view (scan_dirs d') n = Some e \<Longrightarrow> os = pre @ (b, r) # post \<Longrightarrow>
         e = entry_for b r (8 + length (contents pre)) n \<Longrightarrow>
         db_get_external (dir_of_entry e) (scan_file d') = Some (0, b)"
    using scan_result[OF assms(1,2), of raw] by blast
  let ?e = "entry_for b r (8 + length (contents pre)) DB5_GLOBAL_OBJECT_NAME"
  have at: "dir_view (scan_dirs d') DB5_GLOBAL_OBJECT_NAME = Some ?e" using d'(2) assms(5) by simp
  then obtain p where p: "dir_abs (scan_dirs d') DB5_GLOBAL_OBJECT_NAME = Some p" "dir_mem (scan_dirs d') p = ?e"
    by (auto simp: dir_view_def)
  have look: "db_lookup (scan_dirs d') (Some DB5_GLOBAL_OBJECT_NAME) = Some (Some p)"
    using lookup_plain[of DB5_GLOBAL_OBJECT_NAME "scan_dirs d'"] p(1) by (simp add: DB5_GLOBAL_OBJECT_NAME_def)
  note ext = get[OF at assms(4) refl]
  have i: "object_image b r" using assms(2,4) by (auto simp: readable_file_def v5_file_def images_def)
  have parse: "db5_get_raw_internal_ptr raw' b = Some (r, Some (length b))"
    using image_ptr[OF i, of raw' "[]"] by simp
  let ?title = "case bu_avs_get avs (Some ''title'') of Some t \<Rightarrow> t | None \<Rightarrow> ''Untitled BRL-CAD database''"
  let ?d'' = "set_units scan_lf (bu_avs_get avs (Some ''units'')) (d'\<lparr>dbi_title := Some ?title\<rparr>)"
  have ga: "global_attributes scan_lf b r d' = Some (0, ?d'')"
    using assms(7-9) by (simp add: global_attributes_def Let_def)
  have "dirbuild5 scan_lf update_ident raw raw' d = Some (0, ?d'')"
    by (simp add: dirbuild5_def d'(1) look p(2) ext parse assms(6) ga)
  then have db: "db_dirbuild scan_lf update_ident db_scan raw raw' d = Some (if dbi_fp_open d then (0, ?d'') else (-1, d))"
    by (simp add: db_dirbuild_def db_version_def assms(3))
  have sel: "dbi_title ?d'' = Some ?title" "scan_dirs ?d'' = scan_dirs d'" "scan_file ?d'' = scan_file d'"
    by (simp_all add: set_units_def split: option.splits)
  have units: "case Option.bind (bu_avs_get avs (Some ''units'')) scan_lf of
         Some dd \<Rightarrow> (if \<bar>dd\<bar> \<ge> 1 / 2 ^ 23 then dbi_local2base ?d'' = dd \<and> dbi_base2local ?d'' * dd = 1
                     else dbi_local2base ?d'' = dbi_local2base d' \<and> dbi_base2local ?d'' = dbi_base2local d')
       | None \<Rightarrow> dbi_local2base ?d'' = dbi_local2base d' \<and> dbi_base2local ?d'' = dbi_base2local d'"
    by (auto simp: set_units_def NEAR_ZERO_def VUNITIZE_TOL_def FLT_EPSILON_def split: option.splits)
  show ?thesis
    by (rule exI[of _ d'], rule exI[of _ ?d''], intro conjI d'(1) db sel units)
qed

text \<open>An angstrom (\<open>libbu/units.c\<close>) is refused.\<close>

theorem angstrom_refused:
  assumes "scan_lf units = Some (1 / 10 ^ 7)"
  shows "set_units scan_lf (Some units) d = d"
  by (simp add: set_units_def assms NEAR_ZERO_def VUNITIZE_TOL_def FLT_EPSILON_def)

text \<open>A file with a header object, an object \<open>a\<close>, the object \<open>_GLOBAL\<close> with the title
  \<open>abc\<close>, and a free-storage object.\<close>

definition global_object :: "byte list" where
  "global_object = [0x76, 0x20, 0x20, 0, 2, 0, 4, 8, 95, 71, 76, 79, 66, 65, 76, 0,
     11, 116, 105, 116, 108, 101, 0, 97, 98, 99, 0, 0, 0, 0, 0, 0x35]"

definition sample_db :: scan_db where
  "sample_db = \<lparr>scan_file = fresh_db\<lparr>dbi_file := dbi_file fresh_db @ small_object @ global_object
      @ [0x76, 2, 0, 0, 0, 0, 1, 0x35]\<rparr>, scan_dirs = no_dirs 5, dbi_nrec = 0, dbi_title = None,
     dbi_local2base = 1, dbi_base2local = 1, dbi_fp_open = True\<rparr>"

definition parsed :: "byte list \<Rightarrow> byte list \<times> db5_raw_internal" where
  "parsed b = (b, fst (the (db5_get_raw_internal_ptr raw_zero b)))"

definition sample_objects :: "(byte list \<times> db5_raw_internal) list" where
  "sample_objects = map parsed [small_object, global_object, [0x76, 2, 0, 0, 0, 0, 1, 0x35]]"

lemma sample_ok: "just_opened sample_db" "readable_file (dbi_file (scan_file sample_db)) sample_objects"
proof -
  show "just_opened sample_db"
    using dir_inv_no_dirs[of 5] fresh_db_ok(1)
    by (auto simp: just_opened_def sample_db_def fresh_db_def file_ok_def mem_inv_def mem_aligned_def
        free_units_def dir_abs_def no_dirs_def)
  have "db5_header_is_valid (take 8 (dbi_file (scan_file sample_db))) = Some True" by code_simp
  moreover have "drop 8 (dbi_file (scan_file sample_db)) = contents sample_objects" by code_simp
  moreover have "images sample_objects" by code_simp
  moreover have "list_all (\<lambda>(b, r). readable b r) sample_objects" by code_simp
  moreover have "length (dbi_file (scan_file sample_db)) = 64"
    by (simp add: sample_db_def fresh_db_def small_object_def global_object_def)
  ultimately show "readable_file (dbi_file (scan_file sample_db)) sample_objects"
    by (simp add: readable_file_def v5_file_def)
qed

lemma scan_builds_directory_witness:
  "\<exists>d' e. db5_scan db5_diradd_handler raw_zero sample_db = Some (0, d') \<and> dbi_nrec d' = 3
     \<and> dir_view (scan_dirs d') ''a'' = Some e \<and> dir_addr e = 8 \<and> dir_len e = 16
     \<and> free_units (dbi_freep (scan_file d')) = {56..<64}"
proof -
  have "map (\<lambda>(b, r). (length b, h_dli r = DLI_FREE_STORAGE)) sample_objects = [(16, False), (32, False), (8, True)]"
    by code_simp
  then obtain b r b' r' c s' where o: "sample_objects = [(b, r), (b', r'), (c, s')]" "length b = 16" "length b' = 32"
    "length c = 8" "h_dli r \<noteq> DLI_FREE_STORAGE" "h_dli r' \<noteq> DLI_FREE_STORAGE" "h_dli s' = DLI_FREE_STORAGE"
    by (auto simp: map_eq_Cons_conv)
  have s: "free_extents sample_objects 8 = {56..<64}" "length sample_objects = 3" by (simp_all add: o)
  have "map_option (\<lambda>e. (dir_addr e, dir_len e)) (catalogue sample_objects 8 Map.empty ''a'') = Some (8, 16)"
    by code_simp
  then show ?thesis using scan_builds_directory[OF sample_ok, of raw_zero] by (auto simp: s)
qed

lemma diradd_types_witness:
  "\<exists>dp d'. db5_diradd (no_dirs 5) (snd (parsed small_object)) small_object 8 = Some (Some dp, d')
     \<and> dir_flags (dir_mem d' dp) AND RT_DIR_SOLID \<noteq> 0"
proof -
  have g: "gets_entry (snd (parsed small_object))" "readable small_object (snd (parsed small_object))"
    "unat (major_type (snd (parsed small_object))) = DB5_MAJORTYPE_BRLCAD"
    "unat (minor_type (snd (parsed small_object))) \<noteq> ID_COMBINATION"
    "object_name (snd (parsed small_object)) small_object = Some ''a''"
    "has_region (snd (parsed small_object)) small_object = Some False"
    by code_simp+
  have "db_dircheck (no_dirs 5) ''a'' = Some (''a'', db_dirhash (Some ''a''))"
    by (simp add: db_dircheck_def no_dirs_def)
  then obtain dp d' where d: "db5_diradd (no_dirs 5) (snd (parsed small_object)) small_object 8 = Some (Some dp, d')"
    by (auto simp: db5_diradd_def g(5,6) case_prod_beta)
  from diradd_types[OF dir_inv_no_dirs g(2,1) d] d g(3,4) show ?thesis by (auto simp: Let_def)
qed

lemma mapped_scan_agrees_witness:
  "\<exists>d'. db5_scan db5_diradd_handler raw_zero sample_db = Some (0, d')
     \<and> db5_scan db5_diradd_handler raw_zero (mapped sample_db (dbi_file (scan_file sample_db)))
         = Some (0, mapped d' (dbi_file (scan_file sample_db)))"
  by (rule mapped_scan_agrees[OF sample_ok])

lemma dirbuild_reads_title_witness:
  "\<exists>d''. db_dirbuild (\<lambda>_. None) id (\<lambda>d. (0, d)) raw_zero raw_zero sample_db = Some (0, d'')
     \<and> dbi_title d'' = Some ''abc''"
proof -
  let ?b = "fst (parsed global_object)" and ?r = "snd (parsed global_object)"
  have os: "sample_objects = [parsed small_object] @ (?b, ?r) # [parsed [0x76, 2, 0, 0, 0, 0, 1, 0x35]]"
    by (simp add: sample_objects_def)
  have cat: "catalogue sample_objects 8 Map.empty DB5_GLOBAL_OBJECT_NAME
      = Some (entry_for ?b ?r (8 + length (contents [parsed small_object])) DB5_GLOBAL_OBJECT_NAME)"
    and ty: "unat (major_type ?r) = DB5_MAJORTYPE_ATTRIBUTE_ONLY"
    and ap: "ext_copy ?b (rattributes ?r) = Some (Some [116, 105, 116, 108, 101, 0, 97, 98, 99, 0, 0])"
    by code_simp+
  have "map_option (\<lambda>(n, a). (n, bu_avs_get a (Some ''title'')))
      (db5_import_attributes [116, 105, 116, 108, 101, 0, 97, 98, 99, 0, 0]) = Some (1, Some ''abc'')" by code_simp
  then obtain avs where avs: "db5_import_attributes [116, 105, 116, 108, 101, 0, 97, 98, 99, 0, 0] = Some (1, avs)"
    "bu_avs_get avs (Some ''title'') = Some ''abc''" by auto
  have "dbi_version (scan_dirs sample_db) = 5" by (simp add: sample_db_def no_dirs_def)
  from dirbuild_reads_title[OF sample_ok this os cat ty ap avs(1), of raw_zero "\<lambda>_. None" id "\<lambda>d. (0, d)" raw_zero]
  moreover have "dbi_fp_open sample_db" by (simp add: sample_db_def)
  ultimately show ?thesis by (auto simp: avs(2))
qed

text \<open>The same file with the length of \<open>_GLOBAL\<close> lost.\<close>

definition damaged_db :: scan_db where
  "damaged_db = sample_db\<lparr>scan_file := fresh_db\<lparr>dbi_file := dbi_file fresh_db @ small_object
      @ global_object[6 := 0] @ [0x76, 2, 0, 0, 0, 0, 1, 0x35]\<rparr>\<rparr>"

lemma zero_length_ends_scan_witness:
  "\<exists>d'. db5_scan db5_diradd_handler raw_zero damaged_db = Some (0, d')
     \<and> unat (dbi_eof (scan_file d')) = 31 \<and> length (dbi_file (scan_file damaged_db)) = 64
     \<and> \<not> dbi_read_only (scan_file d')"
proof -
  let ?bad = "take 7 (global_object[6 := 0])" and ?os = "[parsed small_object]"
  let ?rest = "drop 7 (global_object[6 := 0]) @ [0x76, 2, 0, 0, 0, 0, 1, 0x35]"
  have op: "just_opened damaged_db"
    using sample_ok(1) by (simp add: just_opened_def damaged_db_def sample_db_def)
  have f: "8 \<le> length (dbi_file (scan_file damaged_db))" "length (dbi_file (scan_file damaged_db)) = 64"
    "length ?rest = 33"
    by (simp_all add: damaged_db_def fresh_db_def small_object_def global_object_def)
  have v: "db5_header_is_valid (take 8 (dbi_file (scan_file damaged_db))) = Some True"
    "drop 8 (dbi_file (scan_file damaged_db)) = contents ?os @ ?bad @ ?rest"
    "zero_length ?bad" "images ?os" "list_all (\<lambda>(b, r). readable b r) ?os"
    by code_simp+
  have "length (dbi_file (scan_file damaged_db)) < 2 ^ 60" by (simp add: f(2))
  from zero_length_ends_scan[OF op f(1) v this, of raw_zero raw_zero] show ?thesis
    unfolding f(2,3) by (auto simp: damaged_db_def fresh_db_def)
qed

end
