(* ===== verification/Db5Tiles.thy ===== *)
theory Db5Tiles
  imports Db5ScanProof
begin

text \<open>
  The file that the storage routines (\<open>Db5Alloc\<close>) leave behind is one that a scan (\<open>Db5Scan\<close>)
  can read: after its header it is a sequence of whole objects, each of them either free storage
  or the object of one directory entry.  So a database that is closed and opened again has the
  same objects, the same free map and the same end of file.
\<close>

unbundle bit_operations_syntax

section \<open>Writing into a file\<close>

lemma write_at_mid:
  assumes "length pre = a" "length mid = length bs" "bs \<noteq> []"
  shows "write_at a bs (pre @ mid @ post) = pre @ bs @ post"
  using assms by (simp add: write_at_def)

lemma write_at_end:
  assumes "length f = a" "bs \<noteq> []"
  shows "write_at a bs f = f @ bs"
  using assms by (simp add: write_at_def)

lemma db_write_done:
  assumes "db_write d bs off = (rc, d')" "\<not> rc < 0"
  shows "dbi_file d' = write_at (unat off) bs (dbi_file d)" "same_maps d d'" "bs \<noteq> []" "\<not> dbi_read_only d'"
  using assms by (auto simp: db_write_def same_maps_def Let_def split: if_splits option.splits list.splits)

section \<open>Free storage on disk\<close>

text \<open>The bytes between the header and the trailing magic do not matter.\<close>

lemma free_image:
  assumes "free_header n = Some h" "length (h @ z @ [DB5HDR_MAGIC2]) = n" "8 \<le> n" "8 dvd n" "n < 2 ^ 60"
  shows "\<exists>r. object_image (h @ z @ [DB5HDR_MAGIC2]) r \<and> h_dli r = DLI_FREE_STORAGE"
proof -
  obtain l w where h: "h = [DB5HDR_MAGIC1, push_bit 6 (of_nat w) OR 2, 0, 0, 0, 0] @ l"
    and w: "w \<le> 3" and l: "db5_encode_length (of_nat (n div 8)) w = Some l" "length l = ENCODE_LEN w"
    and fits: "fits_unsigned (of_nat (n div 8)) w" and sz: "6 + length l < n"
    using free_header_spec[OF assms(5)] assms(1,3) by auto
  let ?b = "h @ z @ [DB5HDR_MAGIC2]"
  have ow: "unat (drop_bit 6 ((push_bit 6 (of_nat w) OR 2) AND DB5HDR_HFLAGS_OBJECT_WIDTH_MASK) :: byte) = w"
    "((push_bit 6 (of_nat w) OR 2) AND DB5HDR_HFLAGS_DLI_MASK :: byte) = 2"
    "((push_bit 6 (of_nat w) OR 2) AND DB5HDR_HFLAGS_NAME_PRESENT :: byte) = 0"
    using w by (cases rule: width_cases; simp add: hdr_defs)+
  let ?c1 = "push_bit 6 (of_nat w) OR 2 :: byte"
  have crack: "\<exists>r. crack_disk_header raw_zero ?b = Some (0, r) \<and> unat (h_object_width r) = w \<and> h_dli r = 2
      \<and> h_name_present r = 0 \<and> a_present r = 0 \<and> b_present r = 0"
    using ow by (simp add: h)
  then obtain r where r: "crack_disk_header raw_zero ?b = Some (0, r)" "unat (h_object_width r) = w" "h_dli r = 2"
    "h_name_present r = 0" "a_present r = 0" "b_present r = 0" by blast
  have d6: "drop 6 ?b = l @ z @ [DB5HDR_MAGIC2]" by (simp add: h)
  have dec: "db5_decode_length (drop 6 ?b) w = Some (of_nat (n div 8), length l)"
    unfolding d6 using db5_decode_encode[OF fits l(1), of "z @ [DB5HDR_MAGIC2]"] by simp
  have L: "unat (push_bit 3 (of_nat (n div 8)) :: size_t) = n"
    using assms(4,5) by (intro unat_push_bit_3) (auto simp: dvd_eq_mod_eq_0)
  have lb: "length ?b = n" using assms(2) .
  have last: "?b ! (n - 1) = DB5HDR_MAGIC2" using assms(2) by (auto simp: nth_append)
  let ?r = "r\<lparr>object_length := push_bit 3 (of_nat (n div 8)), rname := BU_EXTERNAL_INIT,
    rattributes := BU_EXTERNAL_INIT, rbody := BU_EXTERNAL_INIT\<rparr>"
  have "db5_get_raw_internal_ptr raw_zero ?b = Some (?r, Some n)"
    unfolding db5_get_raw_internal_ptr_def sizeof_header_def r(1)
    using dec L last lb sz r(2,4-6) by (simp add: grab_sections_def grab_def Let_def)
  moreover have "lenbuf_count (h_object_width r) = length l"
    using decode_used(1)[of "drop 6 ?b" "h_object_width r"] dec r(2) by simp
  ultimately have "object_image ?b ?r"
    using dec sz r(2) lb by (simp add: object_image_def sizeof_header_def h)
  then show ?thesis by (intro exI[of _ ?r]) (simp add: r(3) DLI_FREE_STORAGE_def)
qed

lemma write_free_tile:
  assumes "db5_write_free d dp len = Some (rc, d', dp')" "\<not> rc < 0"
    and "d_un dp = FileOffset a" "\<not> d_inmem dp" "8 \<le> unat len" "8 dvd unat len" "unat a + unat len < 2 ^ 60"
    and "dbi_file d = pre @ mid @ post" "length pre = unat a" "length mid = unat len"
  shows "dp' = dp \<and> same_maps d d' \<and> \<not> dbi_read_only d'
    \<and> (\<exists>b r. dbi_file d' = pre @ b @ post \<and> length b = unat len \<and> object_image b r \<and> h_dli r = DLI_FREE_STORAGE)"
proof -
  let ?n = "unat len"
  have n60: "?n < 2 ^ 60" using assms(7) by simp
  have da: "d_addr dp = a" by (simp add: d_addr_def assms(3))
  obtain h where h: "free_header ?n = Some h" "length h < ?n" "length h \<le> 14"
  proof -
    obtain l w where "free_header ?n = Some ([DB5HDR_MAGIC1, push_bit 6 (of_nat w) OR 2, 0, 0, 0, 0] @ l)"
      "w \<le> 3" "length l = ENCODE_LEN w" "6 + length l < ?n"
      using free_header_spec[OF n60] assms(5) by blast
    then show ?thesis using ENCODE_LEN_le_8[of w] by (intro that) auto
  qed
  show ?thesis
  proof (cases "len \<le> 8192")
    case True
    define z where "z = ?n - length h - 1"
    let ?b = "h @ replicate z 0 @ [DB5HDR_MAGIC2]"
    have n: "?n - length h = Suc z" "?n - 1 = length h + z" using h(2) by (simp_all add: z_def)
    then have b: "length ?b = ?n" using h(2) by simp
    have "(h @ replicate (Suc z) 0)[length h + z := DB5HDR_MAGIC2] = ?b"
      unfolding replicate_update_last[symmetric] by (simp add: list_update_append del: replicate.simps)
    then have "(h @ replicate (?n - length h) 0)[?n - 1 := DB5HDR_MAGIC2] = ?b" unfolding n .
    then have mk: "db5_make_free_object ?n = Some ?b"
      using assms(5,6) h by (auto simp: db5_make_free_object_def)
    obtain rc1 d1 where w: "db_write d ?b a = (rc1, d1)" by fastforce
    have e: "\<not> rc1 < 0" "d' = d1" "dp' = dp"
      using assms(1,2,4) True mk w by (auto simp: db5_write_free_def da split: if_splits)
    note dw = db_write_done[OF w e(1)]
    have "dbi_file d1 = pre @ ?b @ post"
      unfolding dw(1) assms(8) by (rule write_at_mid[OF assms(9)]) (use assms(10) b in simp_all)
    then show ?thesis using dw(2,4) e(2,3) free_image[OF h(1) b assms(5,6) n60] b by blast
  next
    case False
    then have big: "8192 < ?n" by (simp add: word_le_nat_alt not_le)
    let ?h = "h @ replicate (16 - length h) 0"
    have lh: "length ?h = 16" using h(3) by simp
    have mk: "db5_make_free_object_hdr ?n = Some ?h"
      using assms(5,6) h by (auto simp: db5_make_free_object_hdr_def)
    let ?y = "take (?n - 17) (drop 16 mid)" and ?e = "drop (?n - 1) mid"
    have "drop (?n - 17) (drop 16 mid) = ?e" using big by simp
    then have mid: "mid = take 16 mid @ ?y @ ?e" by (metis append_take_drop_id)
    have ly: "length ?y = ?n - 17" "length ?e = 1" "length (take 16 mid) = 16" using big assms(10) by simp_all
    obtain rc1 d1 where w: "db_write d ?h a = (rc1, d1)" by fastforce
    obtain rc2 d2 where w2: "db_write d1 [DB5HDR_MAGIC2] (a + len - 1) = (rc2, d2)" by fastforce
    have e: "\<not> rc1 < 0" "\<not> rc2 < 0" "d' = d2" "dp' = dp"
      using assms(1,2,4) False mk w w2 by (auto simp: db5_write_free_def da split: if_splits)
    note dw = db_write_done[OF w e(1)] and dw2 = db_write_done[OF w2 e(2)]
    have "dbi_file d1 = write_at (unat a) ?h (pre @ take 16 mid @ ?y @ ?e @ post)"
      unfolding dw(1) assms(8) by (subst mid) simp
    also have "\<dots> = pre @ ?h @ ?y @ ?e @ post"
      by (rule write_at_mid[OF assms(9)]) (use lh ly(3) in auto)
    finally have f1: "dbi_file d1 = (pre @ ?h @ ?y) @ ?e @ post" by simp
    have au: "unat (a + len - 1) = unat a + ?n - 1"
    proof -
      have "unat (a + len) = unat a + ?n" using assms(7) by (intro unat_add_small) simp
      moreover have "unat (1 :: off_t) \<le> unat (a + len)" using calculation big by simp
      ultimately show ?thesis using unat_sub_small[of 1 "a + len"] by simp
    qed
    have lp: "length (pre @ ?h @ ?y) = unat (a + len - 1)"
    proof -
      have "length (pre @ ?h @ ?y) = unat a + 16 + (?n - 17)" using assms(9) lh ly(1) by simp
      then show ?thesis using big by (simp add: au)
    qed
    have "dbi_file d2 = (pre @ ?h @ ?y) @ [DB5HDR_MAGIC2] @ post"
      unfolding dw2(1) f1 by (rule write_at_mid[OF lp]) (use ly(2) in simp_all)
    moreover have "?h @ ?y @ [DB5HDR_MAGIC2] = h @ (replicate (16 - length h) 0 @ ?y) @ [DB5HDR_MAGIC2]" by simp
    moreover have b: "length (h @ (replicate (16 - length h) 0 @ ?y) @ [DB5HDR_MAGIC2]) = ?n"
      using big lh ly(1) by simp
    moreover have "same_maps d d2" using dw(2) dw2(2) by (simp add: same_maps_def)
    ultimately show ?thesis using dw2(4) e(3,4) free_image[OF h(1) b assms(5,6) n60] b
      by (metis append_assoc)
  qed
qed

section \<open>Who owns the objects of a file\<close>

text \<open>An object of the file is free storage, or the object of an entry that has its place and
  its name.\<close>

definition claimed :: "db_i \<Rightarrow> (string \<Rightarrow> directory option) \<Rightarrow> nat \<Rightarrow> byte list \<Rightarrow> db5_raw_internal \<Rightarrow> bool" where
  "claimed d objs addr b r \<longleftrightarrow>
     h_dli r = DLI_FREE_STORAGE \<and> {addr..<addr + length b} \<subseteq> free_units (dbi_freep d)
     \<or> (\<exists>n dp. objs n = Some dp \<and> unat (d_addr dp) = addr \<and> unat (d_len dp) = length b
          \<and> gets_entry r \<and> readable b r \<and> object_name r b = Some n)"

fun all_claimed :: "db_i \<Rightarrow> (string \<Rightarrow> directory option) \<Rightarrow> (byte list \<times> db5_raw_internal) list \<Rightarrow> nat \<Rightarrow> bool" where
  "all_claimed d objs [] addr \<longleftrightarrow> True"
| "all_claimed d objs ((b, r) # os) addr \<longleftrightarrow> claimed d objs addr b r \<and> all_claimed d objs os (addr + length b)"

lemma all_claimed_append [simp]:
  "all_claimed d objs (os1 @ os2) addr
     \<longleftrightarrow> all_claimed d objs os1 addr \<and> all_claimed d objs os2 (addr + length (contents os1))"
  by (induction os1 arbitrary: addr) (auto simp: add.assoc)

lemma images_append [simp]: "images (os1 @ os2) \<longleftrightarrow> images os1 \<and> images os2"
  by (simp add: images_def)

lemma claimed_mono:
  assumes "claimed d objs addr b r" "{addr..<addr + length b} \<inter> free_units (dbi_freep d) \<subseteq> free_units (dbi_freep d')"
    and "\<And>n dp. objs n = Some dp \<Longrightarrow> unat (d_addr dp) = addr \<Longrightarrow> objs' n = Some dp"
  shows "claimed d' objs' addr b r"
  using assms unfolding claimed_def by blast

lemma all_claimed_mono:
  assumes "all_claimed d objs os addr" "images os"
    and "{addr..<addr + length (contents os)} \<inter> free_units (dbi_freep d) \<subseteq> free_units (dbi_freep d')"
    and "\<And>n dp. objs n = Some dp \<Longrightarrow> addr \<le> unat (d_addr dp)
      \<Longrightarrow> unat (d_addr dp) < addr + length (contents os) \<Longrightarrow> objs' n = Some dp"
  shows "all_claimed d' objs' os addr"
  using assms
proof (induction os arbitrary: addr)
  case (Cons x os)
  obtain b r where x: "x = (b, r)" by fastforce
  have l: "8 \<le> length b" using Cons.prems(2) image_length by (auto simp: x)
  have "claimed d' objs' addr b r"
  proof (rule claimed_mono)
    show "claimed d objs addr b r" using Cons.prems(1) by (simp add: x)
    show "{addr..<addr + length b} \<inter> free_units (dbi_freep d) \<subseteq> free_units (dbi_freep d')"
      using Cons.prems(3) by (fastforce simp: x)
    show "objs' n = Some dp" if "objs n = Some dp" "unat (d_addr dp) = addr" for n dp
      using Cons.prems(4)[OF that(1)] that(2) l by (cases b) (simp_all add: x)
  qed
  moreover have "all_claimed d' objs' os (addr + length b)"
  proof (rule Cons.IH)
    show "{addr + length b..<addr + length b + length (contents os)} \<inter> free_units (dbi_freep d)
        \<subseteq> free_units (dbi_freep d')"
      using Cons.prems(3) by (fastforce simp: x)
    show "objs' n = Some dp" if "objs n = Some dp" "addr + length b \<le> unat (d_addr dp)"
      "unat (d_addr dp) < addr + length b + length (contents os)" for n dp
      using Cons.prems(4)[OF that(1)] that(2,3) by (simp add: x)
  qed (use Cons.prems(1,2) in \<open>simp_all add: x\<close>)
  ultimately show ?case by (simp add: x)
qed simp

lemma tile_at:
  assumes "addr \<le> x" "x < addr + length (contents os)"
  shows "\<exists>os1 b r os2. os = os1 @ (b, r) # os2 \<and> addr + length (contents os1) \<le> x
    \<and> x < addr + length (contents os1) + length b"
  using assms
proof (induction os arbitrary: addr)
  case (Cons y os)
  obtain b r where y: "y = (b, r)" by fastforce
  show ?case
  proof (cases "x < addr + length b")
    case True
    then show ?thesis using Cons.prems(1)
      by (intro exI[of _ "[]"] exI[of _ b] exI[of _ r] exI[of _ os]) (simp add: y)
  next
    case False
    then obtain os1 b' r' os2 where "os = os1 @ (b', r') # os2"
      "addr + length b + length (contents os1) \<le> x" "x < addr + length b + length (contents os1) + length b'"
      using Cons.IH[of "addr + length b"] Cons.prems by (auto simp: y add.assoc)
    then show ?thesis
      by (intro exI[of _ "y # os1"] exI[of _ b'] exI[of _ r'] exI[of _ os2]) (simp add: y add.assoc)
  qed
qed simp

text \<open>A file whose objects are all claimed but for a gap of \<open>n\<close> bytes, which is to be written;
  at the end of the file the gap may not be there yet.\<close>

definition hole ::
  "db_i \<Rightarrow> (string \<Rightarrow> directory option) \<Rightarrow> (byte list \<times> db5_raw_internal) list \<Rightarrow> nat
     \<Rightarrow> (byte list \<times> db5_raw_internal) list \<Rightarrow> bool" where
  "hole d objs os1 n os2 \<longleftrightarrow>
     (\<exists>hdr junk. dbi_file d = hdr @ contents os1 @ junk @ contents os2 \<and> length hdr = 8
        \<and> db5_header_is_valid hdr = Some True \<and> (length junk = n \<or> junk = [] \<and> os2 = []))
     \<and> images os1 \<and> images os2 \<and> unat (dbi_eof d) = 8 + length (contents os1) + n + length (contents os2)
     \<and> all_claimed d objs os1 8 \<and> all_claimed d objs os2 (8 + length (contents os1) + n)"

definition tiles :: "db_i \<Rightarrow> (string \<Rightarrow> directory option) \<Rightarrow> (byte list \<times> db5_raw_internal) list \<Rightarrow> bool" where
  "tiles d objs os \<longleftrightarrow> hole d objs os 0 []"

lemma tiles_iff:
  "tiles d objs os \<longleftrightarrow> (\<exists>hdr. dbi_file d = hdr @ contents os \<and> length hdr = 8 \<and> db5_header_is_valid hdr = Some True)
     \<and> images os \<and> unat (dbi_eof d) = 8 + length (contents os) \<and> all_claimed d objs os 8"
  by (auto simp: tiles_def hole_def)

text \<open>Nothing that is owned lies in the header, and an entry is filed under its name.\<close>

definition low_ok :: "db_i \<Rightarrow> (string \<Rightarrow> directory option) \<Rightarrow> bool" where
  "low_ok d objs \<longleftrightarrow> free_units (dbi_freep d) \<subseteq> {8..}
     \<and> (\<forall>n dp. objs n = Some dp \<longrightarrow> d_namep dp = n \<and> 8 \<le> unat (d_addr dp))"

lemma owned_tile:
  assumes "tiles d objs os" "disk_ok (d, objs)" "low_ok d objs" "objs n = Some dp" "d_addr dp \<noteq> RT_DIR_PHONY_ADDR"
  shows "\<exists>os1 b r os2. os = os1 @ (b, r) # os2 \<and> unat (d_addr dp) = 8 + length (contents os1)
    \<and> unat (d_len dp) = length b \<and> gets_entry r \<and> readable b r \<and> object_name r b = Some n"
proof -
  note k = disk_okD(1)[OF assms(2)] disk_okD(2)[OF assms(2,4)]
  note bd = dp_ok_bounds[OF k assms(5)]
  let ?x = "unat (d_addr dp)"
  have t: "unat (dbi_eof d) = 8 + length (contents os)" "all_claimed d objs os 8"
    using assms(1) by (auto simp: tiles_iff)
  have x8: "8 \<le> ?x" using assms(3,4) by (auto simp: low_ok_def)
  have "?x < 8 + length (contents os)" using bd(1,3) t(1) by linarith
  then obtain os1 b r os2 where o: "os = os1 @ (b, r) # os2" "8 + length (contents os1) \<le> ?x"
    "?x < 8 + length (contents os1) + length b"
    using tile_at[OF x8] by blast
  have xin: "?x \<in> dp_extent dp" using bd(3) by (simp add: dp_extent_def)
  then have nf: "?x \<notin> free_units (dbi_freep d)" using k(2) by (auto simp: dp_ok_def)
  have "claimed d objs (8 + length (contents os1)) b r" using t(2) by (simp add: o(1))
  then obtain m dq where q: "objs m = Some dq" "unat (d_addr dq) = 8 + length (contents os1)"
    "unat (d_len dq) = length b" "gets_entry r" "readable b r" "object_name r b = Some m"
    using nf o(2,3) unfolding claimed_def by auto
  have "?x \<in> dp_extent dq" using o(2,3) q(2,3) by (simp add: dp_extent_def)
  then have "m = n" using disk_okD(3)[OF assms(2) _ q(1) assms(4)] xin by blast
  then show ?thesis using q assms(4) o(1) by auto
qed

section \<open>Free extents are runs of objects\<close>

lemma sorted_wrt_linear:
  "sorted_wrt P xs \<Longrightarrow> x \<in> set xs \<Longrightarrow> y \<in> set xs \<Longrightarrow> x = y \<or> P x y \<or> P y x"
  by (induction xs) auto

lemma free_extent_maximal:
  assumes "mem_inv m" "c \<in> set (mm_list m)"
  shows "unat (m_addr c) \<in> free_units m" "m_end c - 1 \<in> free_units m" "m_end c \<notin> free_units m"
    "0 < unat (m_addr c) \<Longrightarrow> unat (m_addr c) - 1 \<notin> free_units m" "unat (m_addr c) < m_end c"
proof -
  have ok: "\<And>e. e \<in> set (mm_list m) \<Longrightarrow> block_ok e" and srt: "sorted_wrt before (mm_list m)"
    using assms(1) by (auto simp: mem_inv_def chain_ok_def)
  show lt: "unat (m_addr c) < m_end c" using ok[OF assms(2)] by (simp add: block_ok_def m_end_def)
  have sub: "extent c \<subseteq> free_units m" using assms(2) by (auto simp: free_units_def units_of_def)
  then show "unat (m_addr c) \<in> free_units m" "m_end c - 1 \<in> free_units m"
    using lt by (auto simp: extent_def)
  have apart: "m_end c < unat (m_addr e) \<or> m_end e < unat (m_addr c)" if "e \<in> set (mm_list m)" "e \<noteq> c" for e
    using sorted_wrt_linear[OF srt assms(2) that(1)] that(2) by (auto simp: before_def)
  show "m_end c \<notin> free_units m"
  proof
    assume "m_end c \<in> free_units m"
    then obtain e where e: "e \<in> set (mm_list m)" "m_end c \<in> extent e" by (auto simp: free_units_def units_of_def)
    then show False using apart[OF e(1)] lt by (cases "e = c") (auto simp: extent_def)
  qed
  show "unat (m_addr c) - 1 \<notin> free_units m" if "0 < unat (m_addr c)"
  proof
    assume "unat (m_addr c) - 1 \<in> free_units m"
    then obtain e where e: "e \<in> set (mm_list m)" "unat (m_addr c) - 1 \<in> extent e"
      by (auto simp: free_units_def units_of_def)
    then show False using apart[OF e(1)] lt that by (cases "e = c") (auto simp: extent_def)
  qed
qed

lemma tile_uniform:
  assumes "claimed d objs addr b r" "disk_ok (d, objs)"
  shows "{addr..<addr + length b} \<subseteq> free_units (dbi_freep d) \<or> {addr..<addr + length b} \<inter> free_units (dbi_freep d) = {}"
  using assms(1) unfolding claimed_def
proof
  assume "\<exists>n dp. objs n = Some dp \<and> unat (d_addr dp) = addr \<and> unat (d_len dp) = length b
          \<and> gets_entry r \<and> readable b r \<and> object_name r b = Some n"
  then obtain n dp where q: "objs n = Some dp" "unat (d_addr dp) = addr" "unat (d_len dp) = length b" by blast
  have "dp_ok d dp" using disk_okD(2)[OF assms(2) q(1)] .
  then show ?thesis using q(2,3) by (auto simp: dp_ok_def dp_extent_def)
qed blast

lemma tile_boundary:
  assumes "tiles d objs os" "disk_ok (d, objs)" "8 \<le> x" "x \<le> 8 + length (contents os)"
    and "x \<noteq> 8 + length (contents os) \<Longrightarrow> 8 < x \<Longrightarrow> x \<in> free_units (dbi_freep d) \<longleftrightarrow> x - 1 \<notin> free_units (dbi_freep d)"
  shows "\<exists>os1 os2. os = os1 @ os2 \<and> x = 8 + length (contents os1)"
proof (cases "x = 8 + length (contents os)")
  case True
  then show ?thesis by (intro exI[of _ os] exI[of _ "[]"]) simp
next
  case False
  then obtain os1 b r os2 where o: "os = os1 @ (b, r) # os2" "8 + length (contents os1) \<le> x"
    "x < 8 + length (contents os1) + length b"
    using tile_at[OF assms(3), of os] assms(4) by auto
  have "claimed d objs (8 + length (contents os1)) b r" using assms(1) by (simp add: tiles_iff o(1))
  note u = tile_uniform[OF this assms(2)]
  show ?thesis
  proof (cases "x = 8 + length (contents os1)")
    case True
    then show ?thesis using o(1) by blast
  next
    case inside: False
    then have "x \<in> {8 + length (contents os1)..<8 + length (contents os1) + length b}"
      "x - 1 \<in> {8 + length (contents os1)..<8 + length (contents os1) + length b}" "8 < x"
      using o(2,3) by auto
    then have "x \<in> free_units (dbi_freep d) \<longleftrightarrow> x - 1 \<in> free_units (dbi_freep d)" using u by blast
    then show ?thesis using assms(5)[OF False \<open>8 < x\<close>] by blast
  qed
qed

lemma boundaries_split:
  assumes "os = os1 @ os2" "os = os1' @ os2'" "images os" "length (contents os1) \<le> length (contents os1')"
  shows "\<exists>mid. os1' = os1 @ mid \<and> os2 = mid @ os2'"
proof -
  obtain us where "os1 = os1' @ us \<and> us @ os2 = os2' \<or> os1 @ us = os1' \<and> os2 = us @ os2'"
    using assms(1,2) by (auto simp: append_eq_append_conv2)
  then show ?thesis
  proof
    assume u: "os1 = os1' @ us \<and> us @ os2 = os2'"
    have "us = []"
    proof (rule ccontr)
      assume "us \<noteq> []"
      then obtain b r vs where v: "us = (b, r) # vs" by (cases us) auto
      then have "8 \<le> length b" using assms(1,3) u image_length by auto
      then show False using assms(4) u v by (cases b) auto
    qed
    then show ?thesis using u by simp
  qed blast
qed

lemma free_run:
  assumes "tiles d objs os" "disk_ok (d, objs)" "low_ok d objs" "c \<in> set (mm_list (dbi_freep d))"
  shows "\<exists>os1 mid os2. os = os1 @ mid @ os2 \<and> unat (m_addr c) = 8 + length (contents os1)
    \<and> unat (m_size c) = length (contents mid)"
proof -
  have f: "mem_inv (dbi_freep d)" "free_units (dbi_freep d) \<subseteq> {..<unat (dbi_eof d)}"
    using disk_okD(1)[OF assms(2)] by (auto simp: file_ok_def)
  have t: "images os" "unat (dbi_eof d) = 8 + length (contents os)" using assms(1) by (auto simp: tiles_iff)
  note mx = free_extent_maximal[OF f(1) assms(4)]
  let ?x = "unat (m_addr c)" and ?y = "m_end c"
  have x: "8 \<le> ?x" "?x < 8 + length (contents os)" "?y \<le> 8 + length (contents os)"
    using assms(3) mx(1,2,5) f(2) t(2) by (auto simp: low_ok_def)
  obtain os1 os2' where a: "os = os1 @ os2'" "?x = 8 + length (contents os1)"
    using tile_boundary[OF assms(1,2) x(1)] x mx(1,4) by auto
  obtain os1' os2 where b: "os = os1' @ os2" "?y = 8 + length (contents os1')"
    using tile_boundary[OF assms(1,2), of ?y] x mx(2,3,5) by auto
  have "length (contents os1) \<le> length (contents os1')" using a(2) b(2) mx(5) by linarith
  then obtain mid where m: "os1' = os1 @ mid" "os2' = mid @ os2"
    using boundaries_split[OF a(1) b(1) t(1)] by blast
  have "unat (m_size c) = length (contents mid)" using a(2) b(2) m(1) by (simp add: m_end_def)
  then show ?thesis using a m by blast
qed

section \<open>The storage routines keep the objects whole\<close>

lemma unat_addr_phony: "d_addr dp = RT_DIR_PHONY_ADDR \<Longrightarrow> unat (d_addr dp) = 2 ^ 64 - 1"
  using unat_phony by simp

lemma eof_small: "disk_ok (d, objs) \<Longrightarrow> unat (dbi_eof d) < 2 ^ 60"
  by (simp add: disk_ok_def file_ok_def)

text \<open>The place of an entry is a hole once the entry is taken out.\<close>

lemma entry_hole:
  assumes "tiles d objs os" "disk_ok (d, objs)" "low_ok d objs" "objs n = Some dp" "d_addr dp \<noteq> RT_DIR_PHONY_ADDR"
  shows "\<exists>os1 b r os2. os = os1 @ (b, r) # os2 \<and> unat (d_addr dp) = 8 + length (contents os1)
    \<and> unat (d_len dp) = length b \<and> hole d (objs(n := None)) os1 (length b) os2
    \<and> (\<exists>hdr. dbi_file d = hdr @ contents os1 @ b @ contents os2 \<and> length hdr = 8
         \<and> db5_header_is_valid hdr = Some True)"
proof -
  obtain os1 b r os2 where o: "os = os1 @ (b, r) # os2" "unat (d_addr dp) = 8 + length (contents os1)"
    "unat (d_len dp) = length b" using owned_tile[OF assms] by blast
  obtain hdr where t: "dbi_file d = hdr @ contents os" "length hdr = 8" "db5_header_is_valid hdr = Some True"
    "images os" "unat (dbi_eof d) = 8 + length (contents os)" "all_claimed d objs os 8"
    using assms(1) by (auto simp: tiles_iff)
  have "8 \<le> length b" using t(4) o(1) image_length by auto
  then have "all_claimed d (objs(n := None)) os1 8"
    "all_claimed d (objs(n := None)) os2 (8 + length (contents os1) + length b)"
    using t(4,6) o(1,2) assms(4)
    by (auto simp: o(1) intro!: all_claimed_mono[of d objs _ _ d "objs(n := None)"])
  then have "hole d (objs(n := None)) os1 (length b) os2"
    unfolding hole_def using t o(1) by (intro conjI exI[of _ hdr] exI[of _ b]) auto
  moreover have "dbi_file d = hdr @ contents os1 @ b @ contents os2" using t(1) by (simp add: o(1))
  ultimately show ?thesis using o t(2,3) by blast
qed

text \<open>An entry without storage can be taken out.\<close>

lemma phony_removed:
  assumes "tiles d objs os" "disk_ok (d, objs)" "objs n = Some dp" "d_addr dp = RT_DIR_PHONY_ADDR"
  shows "tiles d (objs(n := None)) os"
proof -
  have t: "images os" "unat (dbi_eof d) = 8 + length (contents os)" "all_claimed d objs os 8"
    using assms(1) by (auto simp: tiles_iff)
  have "all_claimed d (objs(n := None)) os 8"
  proof (rule all_claimed_mono[OF t(3,1)])
    show "(objs(n := None)) m = Some dq"
      if "objs m = Some dq" "unat (d_addr dq) < 8 + length (contents os)" for m dq
      using that assms(3) unat_addr_phony[OF assms(4)] t(2) eof_small[OF assms(2)] by auto
  qed blast
  then show ?thesis using assms(1) by (auto simp: tiles_iff)
qed

text \<open>Filling a hole with an object, and with free storage.\<close>

lemma hole_filled:
  assumes "hole d objs os1 n os2" "dbi_file d' = hdr @ contents os1 @ b @ contents os2" "length hdr = 8"
    and "db5_header_is_valid hdr = Some True" "object_image b r" "length b = n" "dbi_eof d' = dbi_eof d"
    and "free_units (dbi_freep d) \<subseteq> free_units (dbi_freep d')"
    and "claimed d' objs' (8 + length (contents os1)) b r"
    and "\<And>m dq. objs m = Some dq \<Longrightarrow> objs' m = Some dq"
  shows "tiles d' objs' (os1 @ (b, r) # os2)"
proof -
  have h: "images os1" "images os2" "unat (dbi_eof d) = 8 + length (contents os1) + n + length (contents os2)"
    "all_claimed d objs os1 8" "all_claimed d objs os2 (8 + length (contents os1) + n)"
    using assms(1) by (auto simp: hole_def)
  have "all_claimed d' objs' os1 8"
    by (rule all_claimed_mono[OF h(4,1)]) (use assms(8,10) in auto)
  moreover have "all_claimed d' objs' os2 (8 + length (contents os1) + n)"
    by (rule all_claimed_mono[OF h(5,2)]) (use assms(8,10) in auto)
  ultimately show ?thesis using assms(2-7,9) h(1-3) by (auto simp: tiles_iff)
qed

lemma hole_written:
  assumes "hole d objs os1 n os2" "db_write d w off = (rc, d')" "\<not> rc < 0"
    and "unat off = 8 + length (contents os1)" "length w = n" "object_image w r"
    and "claimed d objs' (unat off) w r" "\<And>m dq. objs m = Some dq \<Longrightarrow> objs' m = Some dq"
  shows "tiles d' objs' (os1 @ (w, r) # os2)"
proof -
  note w = db_write_done[OF assms(2,3)]
  obtain hdr junk where f: "dbi_file d = hdr @ contents os1 @ junk @ contents os2" "length hdr = 8"
    "db5_header_is_valid hdr = Some True" "length junk = n \<or> junk = [] \<and> os2 = []"
    using assms(1) by (auto simp: hole_def)
  have "dbi_file d' = (hdr @ contents os1) @ w @ contents os2"
  proof (cases "length junk = n")
    case True
    have "write_at (unat off) w ((hdr @ contents os1) @ junk @ contents os2) = (hdr @ contents os1) @ w @ contents os2"
      by (rule write_at_mid) (use assms(4,5) f(2) w(3) True in simp_all)
    then show ?thesis by (simp add: w(1) f(1))
  next
    case False
    then have "write_at (unat off) w (dbi_file d) = dbi_file d @ w"
      by (intro write_at_end) (use f assms(4) w(3) in auto)
    then show ?thesis using False f(1,4) by (simp add: w(1))
  qed
  then have "dbi_file d' = hdr @ contents os1 @ w @ contents os2" by simp
  moreover have "claimed d' objs' (8 + length (contents os1)) w r"
    using assms(4,7) w(2) by (simp add: claimed_def same_maps_def)
  ultimately show ?thesis
    using hole_filled[OF assms(1) _ f(2,3) assms(6,5)] w(2) assms(8) by (auto simp: same_maps_def)
qed

lemma hole_freed:
  assumes "hole d objs os1 n os2" "dbi_file d = hdr @ contents os1 @ junk @ contents os2" "length hdr = 8"
    and "db5_header_is_valid hdr = Some True" "length junk = n"
    and "db5_write_free d1 dp len = Some (rc, d', dp')" "\<not> rc < 0" "dbi_file d1 = dbi_file d" "dbi_eof d1 = dbi_eof d"
    and "d_un dp = FileOffset a" "\<not> d_inmem dp" "unat a = 8 + length (contents os1)" "unat len = n"
    and "8 \<le> n" "8 dvd n" "unat a + n < 2 ^ 60" "dbi_eof d2 = dbi_eof d'" "dbi_file d2 = dbi_file d'"
    and "{unat a..<unat a + n} \<subseteq> free_units (dbi_freep d2)" "free_units (dbi_freep d) \<subseteq> free_units (dbi_freep d2)"
  shows "\<exists>b r. tiles d2 objs (os1 @ (b, r) # os2)"
proof -
  have f: "dbi_file d1 = (hdr @ contents os1) @ junk @ contents os2" by (simp add: assms(2,8))
  have l: "length (hdr @ contents os1) = unat a" by (simp add: assms(3,12))
  have "8 \<le> unat len" "8 dvd unat len" "unat a + unat len < 2 ^ 60" "length junk = unat len"
    using assms(5,13-16) by simp_all
  from write_free_tile[OF assms(6,7,10,11) this(1-3) f l this(4)] obtain b r where
    w: "same_maps d1 d'" "dbi_file d' = (hdr @ contents os1) @ b @ contents os2" "length b = n"
    "object_image b r" "h_dli r = DLI_FREE_STORAGE" using assms(13) by auto
  have "claimed d2 objs (8 + length (contents os1)) b r"
    using w(3,5) assms(12,19) by (simp add: claimed_def)
  then have "tiles d2 objs (os1 @ (b, r) # os2)"
    using hole_filled[OF assms(1) _ assms(3,4) w(4,3), where d' = d2 and objs' = objs] w(1,2) assms(9,17,18,20)
    by (simp add: same_maps_def)
  then show ?thesis by blast
qed

lemma entry_bounds:
  assumes "disk_ok (d, objs)" "objs n = Some dp" "d_addr dp \<noteq> RT_DIR_PHONY_ADDR"
  shows "8 \<le> unat (d_len dp)" "8 dvd unat (d_len dp)" "unat (d_addr dp) + unat (d_len dp) < 2 ^ 60"
    "d_un dp = FileOffset (d_addr dp)" "\<not> d_inmem dp" "file_ok d" "dp_ok d dp"
  using dp_ok_bounds[OF disk_okD(1)[OF assms(1)] disk_okD(2)[OF assms(1,2)] assms(3)]
    disk_okD(1)[OF assms(1)] disk_okD(2)[OF assms(1,2)] by blast+

lemma low_ok_owned:
  assumes "low_ok d objs" "objs n = Some dp" "free_units (dbi_freep d') = owned d dp"
  shows "low_ok d' (objs(n := None))"
  using assms by (fastforce simp: low_ok_def owned_def dp_extent_def)

lemma delete_tiles:
  assumes "tiles d objs os" "disk_ok (d, objs)" "low_ok d objs" "objs n = Some dp" "\<not> dbi_read_only d"
    and "db_delete d dp = Some (rc, d2, dp')" "\<not> rc < 0"
  shows "(\<exists>os'. tiles d2 (objs(n := None)) os') \<and> low_ok d2 (objs(n := None))"
proof -
  have k: "file_ok d" "dp_ok d dp" using disk_okD[OF assms(2)] assms(4) by auto
  have np: "d_addr dp \<noteq> RT_DIR_PHONY_ADDR" using delete_stored[OF assms(6) k(2)] .
  note b = entry_bounds[OF assms(2,4) np]
  from db_delete_ok[OF k assms(5) np] assms(6) have fu: "free_units (dbi_freep d2) = owned d dp" by auto
  obtain os1 ob r os2 hdr where o: "unat (d_addr dp) = 8 + length (contents os1)" "unat (d_len dp) = length ob"
    "hole d (objs(n := None)) os1 (length ob) os2" "dbi_file d = hdr @ contents os1 @ ob @ contents os2"
    "length hdr = 8" "db5_header_is_valid hdr = Some True"
    using entry_hole[OF assms(1-4) np] by blast
  obtain d1 dp1 where w: "db5_write_free d dp (d_len dp) = Some (rc, d1, dp1)"
    "d2 = d1\<lparr>dbi_freep := rt_memfree (d_len dp1) (d_addr dp1) (dbi_freep d1)\<rparr>"
    using assms(6) b(5) by (auto simp: db_delete_def Let_def elim!: option_elims)
  have "\<exists>b r. tiles d2 (objs(n := None)) (os1 @ (b, r) # os2)"
    by (rule hole_freed[OF o(3,4,5,6) refl w(1) assms(7) refl refl b(4,5) o(1,2)])
      (use b(1-3) o(2) fu w(2) in \<open>auto simp: owned_def dp_extent_def\<close>)
  then show ?thesis using low_ok_owned[OF assms(3,4) fu] by blast
qed

lemma release_tiles:
  assumes "tiles d objs os" "disk_ok (d, objs)" "low_ok d objs" "objs n = Some dp" "\<not> dbi_read_only d"
    and "realloc_release d dp = Some (rc, d', dp')" "\<not> rc < 0"
  shows "(\<exists>os'. tiles d' (objs(n := None)) os') \<and> disk_ok (d', objs(n := None)) \<and> low_ok d' (objs(n := None))"
proof -
  have k: "file_ok d" "dp_ok d dp" using disk_okD[OF assms(2)] assms(4) by auto
  from realloc_release_frees[OF k assms(5)] assms(6,7)
  have f: "file_ok d'" "dbi_eof d' = dbi_eof d" "free_units (dbi_freep d') = owned d dp" by auto
  have low: "low_ok d' (objs(n := None))" using low_ok_owned[OF assms(3,4) f(3)] .
  have "dp_ok d' (phony_entry n)" "owned d' (phony_entry n) \<subseteq> owned d dp \<union> {unat (dbi_eof d)..<unat (dbi_eof d')}"
    by (auto simp: phony_entry_def dp_ok_def dp_extent_def d_addr_def owned_def f(3))
  from disk_ok_update[OF assms(2,4) f(1) this(1) _ this(2)] f(2)
  have "disk_ok (d', objs(n \<mapsto> phony_entry n))" by simp
  then have disk: "disk_ok (d', objs(n := None))" using disk_ok_remove[of d' "objs(n \<mapsto> phony_entry n)" n] by simp
  have "\<exists>os'. tiles d' (objs(n := None)) os'"
  proof (cases "d_addr dp = RT_DIR_PHONY_ADDR")
    case True
    then have "d' = d" using assms(6) by (auto simp: realloc_release_def)
    then show ?thesis using phony_removed[OF assms(1,2,4) True] by blast
  next
    case False
    note b = entry_bounds[OF assms(2,4) False]
    obtain os1 ob r os2 hdr where o: "unat (d_addr dp) = 8 + length (contents os1)" "unat (d_len dp) = length ob"
      "hole d (objs(n := None)) os1 (length ob) os2" "dbi_file d = hdr @ contents os1 @ ob @ contents os2"
      "length hdr = 8" "db5_header_is_valid hdr = Some True"
      using entry_hole[OF assms(1-4) False] by blast
    let ?d1 = "d\<lparr>dbi_freep := rt_memfree (d_len dp) (d_addr dp) (dbi_freep d)\<rparr>"
    obtain rc1 d1 dp1 where w: "db5_write_free ?d1 dp (d_len dp) = Some (rc1, d1, dp1)" "\<not> rc1 < 0" "d1 = d'"
      using assms(6,7) False by (auto simp: realloc_release_def Let_def split: if_splits elim!: option_elims)
    have "\<exists>b r. tiles d' (objs(n := None)) (os1 @ (b, r) # os2)"
      by (rule hole_freed[OF o(3,4,5,6) refl w(1,2) _ _ b(4,5) o(1,2)])
        (use b(1-3) o(2) f(3) w(3) in \<open>auto simp: owned_def dp_extent_def\<close>)
    then show ?thesis by blast
  qed
  then show ?thesis using disk low by blast
qed

text \<open>The rear part of a hole becomes free storage.\<close>

lemma hole_shrunk:
  assumes "hole d objs os1 n os2" "dbi_file d' = hdr @ contents os1 @ junk @ b @ contents os2" "length hdr = 8"
    and "db5_header_is_valid hdr = Some True" "length junk = k" "k \<le> n" "object_image b r" "h_dli r = DLI_FREE_STORAGE"
    and "length b = n - k" "dbi_eof d' = dbi_eof d" "free_units (dbi_freep d) \<subseteq> free_units (dbi_freep d')"
    and "{8 + length (contents os1) + k..<8 + length (contents os1) + n} \<subseteq> free_units (dbi_freep d')"
  shows "hole d' objs os1 k ((b, r) # os2)"
proof -
  have h: "images os1" "images os2" "unat (dbi_eof d) = 8 + length (contents os1) + n + length (contents os2)"
    "all_claimed d objs os1 8" "all_claimed d objs os2 (8 + length (contents os1) + n)"
    using assms(1) by (auto simp: hole_def)
  have "all_claimed d' objs os1 8"
    by (rule all_claimed_mono[OF h(4,1)]) (use assms(11) in auto)
  moreover have "all_claimed d' objs os2 (8 + length (contents os1) + n)"
    by (rule all_claimed_mono[OF h(5,2)]) (use assms(11) in auto)
  moreover have "8 + length (contents os1) + k + length b = 8 + length (contents os1) + n" using assms(6,9) by simp
  then have "claimed d' objs (8 + length (contents os1) + k) b r"
    unfolding claimed_def using assms(8,12) by (simp only: simp_thms)
  moreover have "\<exists>hdr junk. dbi_file d' = hdr @ contents os1 @ junk @ contents ((b, r) # os2) \<and> length hdr = 8
      \<and> db5_header_is_valid hdr = Some True \<and> (length junk = k \<or> junk = [] \<and> (b, r) # os2 = [])"
    using assms(2-5) by auto
  ultimately show ?thesis using assms(6,7,9,10) h(1-3) by (simp add: hole_def add.assoc)
qed

lemma smaller_hole:
  assumes "tiles d objs os" "disk_ok (d, objs)" "low_ok d objs" "objs n = Some dp" "\<not> dbi_read_only d"
    and "d_addr dp \<noteq> RT_DIR_PHONY_ADDR" "unat len < unat (d_len dp)" "8 dvd unat len" "8 \<le> unat len"
    and "realloc_smaller d dp len = Some (rc, d', dp')" "\<not> rc < 0"
  shows "\<exists>os1 os2. hole d' (objs(n := None)) os1 (unat len) os2 \<and> unat (d_addr dp') = 8 + length (contents os1)
    \<and> d_len dp' = len"
proof -
  note b = entry_bounds[OF assms(2,4,6)]
  let ?a = "d_addr dp" and ?l = "d_len dp"
  obtain os1 ob r os2 hdr where o: "unat ?a = 8 + length (contents os1)" "unat ?l = length ob"
    "hole d (objs(n := None)) os1 (length ob) os2" "dbi_file d = hdr @ contents os1 @ ob @ contents os2"
    "length hdr = 8" "db5_header_is_valid hdr = Some True"
    using entry_hole[OF assms(1-4,6)] by blast
  have an: "unat (?a + len) = unat ?a + unat len" using b(3) assms(7) by (intro unat_add_small) simp
  have ln: "unat (?l - len) = unat ?l - unat len" using assms(7) by (intro unat_sub_small) simp
  have l8: "8 dvd unat (?l - len)" "8 \<le> unat (?l - len)"
  proof -
    show d8: "8 dvd unat (?l - len)" using ln b(2) assms(8) by (simp add: dvd_diff_nat)
    show "8 \<le> unat (?l - len)" using d8 ln assms(7) by (intro dvd_imp_le) auto
  qed
  have inm: "dbi_inmem d = None" using b(6) by (simp add: file_ok_def)
  obtain rc1 d1 dp1 where w1: "db5_write_free d (dp\<lparr>d_len := len\<rparr>) len = Some (rc1, d1, dp1)" "\<not> rc1 < 0"
    using assms(10,11) by (auto simp: realloc_smaller_def Let_def split: if_splits elim!: option_elims)
  have f1: "dbi_file d = (hdr @ contents os1) @ take (unat len) ob @ (drop (unat len) ob @ contents os2)"
    using o(4) by simp
  have "length (hdr @ contents os1) = unat ?a" "length (take (unat len) ob) = unat len"
    using o(1,2,5) assms(7) by simp_all
  with write_free_tile[OF w1, of ?a, OF _ _ assms(9,8) _ f1] b(3,4,5) assms(7)
  obtain b1 r1 where t1: "dp1 = dp\<lparr>d_len := len\<rparr>" "same_maps d d1" "\<not> dbi_read_only d1"
    "dbi_file d1 = (hdr @ contents os1) @ b1 @ drop (unat len) ob @ contents os2" "length b1 = unat len" by auto
  obtain rc2 d2 dp2 where w2: "db5_write_free d1 (dp\<lparr>d_un := FileOffset (?a + len), d_len := ?l - len\<rparr>) (?l - len)
      = Some (rc2, d2, dp2)" "\<not> rc2 < 0"
    and d': "d' = d2\<lparr>dbi_freep := rt_memfree (d_len dp2) (d_addr dp2) (dbi_freep d2)\<rparr>"
    and dp': "dp' = dp2\<lparr>d_un := FileOffset ?a, d_len := len\<rparr>"
    using assms(10,11) w1 t1(1) by (auto simp: realloc_smaller_def Let_def split: if_splits elim!: option_elims)
  have f2: "dbi_file d1 = (hdr @ contents os1 @ b1) @ drop (unat len) ob @ contents os2" using t1(4) by simp
  have "length (hdr @ contents os1 @ b1) = unat (?a + len)" "length (drop (unat len) ob) = unat (?l - len)"
    "unat (?a + len) + unat (?l - len) < 2 ^ 60"
    using o(1,2,5) t1(5) an ln assms(7) b(3) by simp_all
  with write_free_tile[OF w2, of "?a + len", OF _ _ l8(2,1) _ f2] b(5)
  obtain b2 r2 where t2: "dp2 = dp\<lparr>d_un := FileOffset (?a + len), d_len := ?l - len\<rparr>" "same_maps d1 d2"
    "dbi_file d2 = (hdr @ contents os1 @ b1) @ b2 @ contents os2" "length b2 = unat (?l - len)"
    "object_image b2 r2" "h_dli r2 = DLI_FREE_STORAGE" by auto
  have dp2: "d_len dp2 = ?l - len" "d_addr dp2 = ?a + len" using t2(1) by (simp_all add: d_addr_def)
  have same: "same_maps d d2" using t1(2) t2(2) by (simp add: same_maps_def)
  have dis: "{unat (?a + len)..<unat (?a + len) + unat (?l - len)} \<inter> free_units (dbi_freep d2) = {}"
  proof -
    have "{unat (?a + len)..<unat (?a + len) + unat (?l - len)} \<subseteq> dp_extent dp"
      using an ln assms(7) by (auto simp: dp_extent_def)
    then show ?thesis using b(7) same by (auto simp: dp_ok_def same_maps_def)
  qed
  have eof: "unat (?a + len) + unat (?l - len) \<le> unat (dbi_eof d2)"
    using dp_ok_bounds(1)[OF b(6,7) assms(6)] an ln assms(7) same by (simp add: same_maps_def)
  have "8 dvd unat ?a" using dp_ok_bounds(4)[OF b(6,7) assms(6)] .
  then have a8: "8 dvd unat (?a + len)" using an assms(8) by simp
  note g = give_back(2)[OF file_ok_same[OF same b(6)] a8 l8 eof dis]
  have fu: "free_units (dbi_freep d') = free_units (dbi_freep d) \<union> {unat ?a + unat len..<unat ?a + unat ?l}"
    using g same an ln assms(7) by (simp add: d' dp2 same_maps_def)
  have "hole d' (objs(n := None)) os1 (unat len) ((b2, r2) # os2)"
    by (rule hole_shrunk[OF o(3) _ o(5,6) t1(5) _ t2(5,6)])
      (use t2(3,4) d' assms(7) o(1,2) ln same fu in \<open>auto simp: same_maps_def\<close>)
  then show ?thesis using o(1) dp' by auto
qed

lemma taken_hole:
  assumes "tiles d objs os" "disk_ok (d, objs)" "low_ok d objs"
    and "rt_memalloc_nosplit n (dbi_freep d) = (Some c, m)"
  shows "\<exists>os1 mid os2 hdr. unat (m_addr c) = 8 + length (contents os1) \<and> unat (m_size c) = length (contents mid)
    \<and> hole (d\<lparr>dbi_freep := m\<rparr>) objs os1 (unat (m_size c)) os2
    \<and> dbi_file d = hdr @ contents os1 @ contents mid @ contents os2 \<and> length hdr = 8
    \<and> db5_header_is_valid hdr = Some True \<and> m_end c \<le> unat (dbi_eof d)"
proof -
  have inv: "mem_inv (dbi_freep d)" using disk_okD(1)[OF assms(2)] by (simp add: file_ok_def)
  note tk = rt_memalloc_nosplit_takes[OF inv assms(4)]
  have c: "c \<in> set (mm_list (dbi_freep d))" and m: "free_units m = free_units (dbi_freep d) - extent c"
    using tk by auto
  obtain os1 mid os2 where o: "os = os1 @ mid @ os2" "unat (m_addr c) = 8 + length (contents os1)"
    "unat (m_size c) = length (contents mid)"
    using free_run[OF assms(1-3) c] by blast
  obtain hdr where t: "dbi_file d = hdr @ contents os" "length hdr = 8" "db5_header_is_valid hdr = Some True"
    "images os" "unat (dbi_eof d) = 8 + length (contents os)" "all_claimed d objs os 8"
    using assms(1) by (auto simp: tiles_iff)
  let ?dm = "d\<lparr>dbi_freep := m\<rparr>"
  have e: "extent c = {8 + length (contents os1)..<8 + length (contents os1) + length (contents mid)}"
    by (simp add: extent_def m_end_def o(2,3))
  have i: "images os1" "images os2" and cl: "all_claimed d objs os1 8"
    "all_claimed d objs os2 (8 + length (contents os1) + length (contents mid))"
    using t(4,6) by (simp_all add: o(1) add.assoc)
  have "all_claimed ?dm objs os1 8"
    by (rule all_claimed_mono[OF cl(1) i(1)]) (auto simp: m e)
  moreover have "all_claimed ?dm objs os2 (8 + length (contents os1) + length (contents mid))"
    by (rule all_claimed_mono[OF cl(2) i(2)]) (auto simp: m e)
  ultimately have "hole ?dm objs os1 (unat (m_size c)) os2"
    unfolding hole_def using t(1-3,5) i by (intro conjI exI[of _ hdr] exI[of _ "contents mid"]) (simp_all add: o)
  moreover have "dbi_file d = hdr @ contents os1 @ contents mid @ contents os2" using t(1) by (simp add: o(1))
  moreover have "m_end c \<le> unat (dbi_eof d)" using t(5) by (simp add: m_end_def o)
  ultimately show ?thesis using o(2,3) t(2,3) by blast
qed

lemma place_hole:
  assumes "tiles d objs os" "disk_ok (d, objs)" "low_ok d objs" "\<not> d_inmem dp" "8 dvd unat n" "8 \<le> unat n"
    and "unat (dbi_eof d) + unat n < 2 ^ 60" "\<not> dbi_read_only d"
    and "realloc_place d dp n = Some (rc, d', dp')" "\<not> rc < 0"
  shows "\<exists>os1 os2. hole d' objs os1 (unat n) os2 \<and> unat (d_addr dp') = 8 + length (contents os1) \<and> d_len dp' = n"
proof -
  have inv: "mem_inv (dbi_freep d)" "mem_aligned (dbi_freep d)" using disk_okD(1)[OF assms(2)] by (auto simp: file_ok_def)
  obtain q m where r: "rt_memalloc_nosplit n (dbi_freep d) = (q, m)" by fastforce
  show ?thesis
  proof (cases q)
    case None
    then have m: "m = dbi_freep d" using resmap.not_taken r by blast
    have d': "d' = d\<lparr>dbi_freep := m, dbi_eof := dbi_eof d + n\<rparr>" "dp' = dp\<lparr>d_un := FileOffset (dbi_eof d), d_len := n\<rparr>"
      using assms(9) r None by (auto simp: realloc_place_def)
    have e: "unat (dbi_eof d + n) = unat (dbi_eof d) + unat n" using assms(7) by (intro unat_add_small) simp
    obtain hdr where t: "dbi_file d = hdr @ contents os" "length hdr = 8" "db5_header_is_valid hdr = Some True"
      "images os" "unat (dbi_eof d) = 8 + length (contents os)" "all_claimed d objs os 8"
      using assms(1) by (auto simp: tiles_iff)
    have "all_claimed d' objs os 8" by (rule all_claimed_mono[OF t(6,4)]) (auto simp: d' m)
    then have "hole d' objs os (unat n) []"
      unfolding hole_def using t(1-5) by (intro conjI exI[of _ hdr] exI[of _ "[]"]) (simp_all add: d' e)
    then show ?thesis using t(5) d' by auto
  next
    case (Some c)
    obtain os1 mid os2 hdr where o: "unat (m_addr c) = 8 + length (contents os1)" "unat (m_size c) = length (contents mid)"
      "hole (d\<lparr>dbi_freep := m\<rparr>) objs os1 (unat (m_size c)) os2"
      "dbi_file d = hdr @ contents os1 @ contents mid @ contents os2" "length hdr = 8"
      "db5_header_is_valid hdr = Some True" "m_end c \<le> unat (dbi_eof d)"
      using taken_hole[OF assms(1-3)] r Some by blast
    let ?dm = "d\<lparr>dbi_freep := m\<rparr>" and ?a = "m_addr c" and ?s = "m_size c"
    have ge: "\<not> ?s < n" using assms(9) r Some by (auto simp: realloc_place_def Let_def split: if_splits)
    show ?thesis
    proof (cases "?s = n")
      case True
      then have "d' = ?dm" "dp' = dp\<lparr>d_un := FileOffset ?a, d_len := n\<rparr>"
        using assms(9) r Some by (auto simp: realloc_place_def Let_def)
      then show ?thesis using o(1,3) True by auto
    next
      case False
      then have lt: "unat n < unat ?s" using ge False by (auto simp: word_less_nat_alt word_unat_eq_iff not_less)
      have top: "unat ?a + unat ?s < 2 ^ 60" using o(7) eof_small[OF assms(2)] by (simp add: m_end_def)
      have an: "unat (?a + n) = unat ?a + unat n" using top lt by (intro unat_add_small) simp
      have sn: "unat (?s - n) = unat ?s - unat n" using lt by (intro unat_sub_small) simp
      have c: "c \<in> set (mm_list (dbi_freep d))"
        using rt_memalloc_nosplit_takes[OF inv(1), of n c m] r Some by simp
      then have s8: "8 dvd unat ?s" "8 dvd unat ?a" using inv(2) by (auto simp: mem_aligned_def aligned8_def)
      have l8: "8 dvd unat (?s - n)" "8 \<le> unat (?s - n)"
      proof -
        show d8: "8 dvd unat (?s - n)" using sn s8(1) assms(5) by (simp add: dvd_diff_nat)
        show "8 \<le> unat (?s - n)" using d8 sn lt by (intro dvd_imp_le) auto
      qed
      let ?dp1 = "dp\<lparr>d_un := FileOffset (?a + n), d_len := ?s - n\<rparr>"
      obtain rc1 d1 dp1 where w1: "db5_write_free ?dm ?dp1 (?s - n) = Some (rc1, d1, dp1)" "\<not> rc1 < 0"
        using assms(9,10) r Some False ge by (auto simp: realloc_place_def Let_def split: if_splits elim!: option_elims)
      have f1: "dbi_file ?dm = (hdr @ contents os1 @ take (unat n) (contents mid)) @ drop (unat n) (contents mid) @ contents os2"
        using o(4) by simp
      have "length (hdr @ contents os1 @ take (unat n) (contents mid)) = unat (?a + n)"
        "length (drop (unat n) (contents mid)) = unat (?s - n)" "unat (?a + n) + unat (?s - n) < 2 ^ 60"
        using o(1,2,5) an sn lt top by simp_all
      with write_free_tile[OF w1, of "?a + n", OF _ _ l8(2,1) _ f1] assms(4)
      obtain b1 r1 where t1: "dp1 = ?dp1" "same_maps ?dm d1"
        "dbi_file d1 = (hdr @ contents os1 @ take (unat n) (contents mid)) @ b1 @ contents os2"
        "length b1 = unat (?s - n)" "object_image b1 r1" "h_dli r1 = DLI_FREE_STORAGE" by auto
      let ?d1 = "d1\<lparr>dbi_freep := rt_memfree (?s - n) (?a + n) (dbi_freep d1)\<rparr>"
      let ?dp2 = "dp\<lparr>d_un := FileOffset ?a, d_len := n\<rparr>"
      have da: "d_addr ?dp1 = ?a + n" by simp
      obtain rc2 d2 dp2 where w2: "db5_write_free ?d1 ?dp2 n = Some (rc2, d2, dp2)" "\<not> rc2 < 0" "d' = d2" "dp' = dp2"
        using assms(9,10) r Some False ge w1 t1(1)
        by (auto simp: realloc_place_def Let_def d_addr_def split: if_splits elim!: option_elims)
      have f2: "dbi_file ?d1 = (hdr @ contents os1) @ take (unat n) (contents mid) @ (b1 @ contents os2)"
        using t1(3) by simp
      have "length (hdr @ contents os1) = unat ?a" "length (take (unat n) (contents mid)) = unat n"
        "unat ?a + unat n < 2 ^ 60" using o(1,2,5) lt top by simp_all
      with write_free_tile[OF w2(1,2), of ?a, OF _ _ assms(6,5) _ f2] assms(4)
      obtain b2 where t2: "dp2 = ?dp2" "same_maps ?d1 d2" "dbi_file d2 = (hdr @ contents os1) @ b2 @ b1 @ contents os2"
        "length b2 = unat n" by auto
      have te: "free_units (rt_memfree (?s - n) (?a + n) m) = free_units (dbi_freep d) - {unat ?a..<unat ?a + unat n}"
        using resmap.take_exact[OF inv(1), of n c m] r Some lt by simp
      have m: "free_units m = free_units (dbi_freep d) - extent c" "extent c \<subseteq> free_units (dbi_freep d)"
        using rt_memalloc_nosplit_takes[OF inv(1), of n c m] r Some by auto
      have fu: "free_units (dbi_freep d') = free_units (dbi_freep d) - {unat ?a..<unat ?a + unat n}"
        using t1(2) t2(2) te by (simp add: same_maps_def w2(3))
      have "hole d' objs os1 (unat n) ((b1, r1) # os2)"
      proof (rule hole_shrunk[OF o(3) _ o(5,6) t2(4) _ t1(5,6)])
        show "free_units (dbi_freep ?dm) \<subseteq> free_units (dbi_freep d')"
          using m(1) lt by (auto simp: fu extent_def m_end_def)
        have "{8 + length (contents os1) + unat n..<8 + length (contents os1) + unat ?s} \<subseteq> extent c"
          using o(1) by (auto simp: extent_def m_end_def)
        then show "{8 + length (contents os1) + unat n..<8 + length (contents os1) + unat ?s}
            \<subseteq> free_units (dbi_freep d')"
          using m(2) o(1) by (auto simp: fu)
      qed (use t1(2,4) t2(2,3) w2(3) sn lt in \<open>auto simp: same_maps_def\<close>)
      then show ?thesis using o(1) w2(4) t2(1) by auto
    qed
  qed
qed

lemma realloc_hole:
  assumes "tiles d objs os" "disk_ok (d, objs)" "low_ok d objs" "objs n = Some dp" "\<not> dbi_read_only d"
    and "8 dvd unat len" "8 \<le> unat len" "unat (dbi_eof d) + unat len < 2 ^ 60"
    and "db5_realloc build d dp len = Some (rc, d', dp')" "\<not> rc < 0"
  shows "\<exists>os1 os2. hole d' (objs(n := None)) os1 (unat len) os2 \<and> unat (d_addr dp') = 8 + length (contents os1)
    \<and> d_len dp' = len"
proof -
  have k: "file_ok d" "dp_ok d dp" using disk_okD[OF assms(2)] assms(4) by auto
  have mem: "\<not> d_inmem dp" and phl: "d_addr dp = RT_DIR_PHONY_ADDR \<Longrightarrow> d_len dp = 0"
    using k(2) by (auto simp: dp_ok_def)
  have eof: "dbi_eof d \<noteq> RT_DIR_PHONY_ADDR" using k(1) by (intro not_phony) (simp add: file_ok_def)
  consider (same) "d_addr dp \<noteq> RT_DIR_PHONY_ADDR" "len = d_len dp"
    | (smaller) "d_addr dp \<noteq> RT_DIR_PHONY_ADDR" "len < d_len dp"
    | (larger) "\<not> (d_addr dp \<noteq> RT_DIR_PHONY_ADDR \<and> len = d_len dp)" "\<not> len < d_len dp"
    using phl by fastforce
  then show ?thesis
  proof cases
    case same
    then have "d' = d" "dp' = dp" using assms(9) by (auto simp: db5_realloc_def split: if_splits)
    with entry_hole[OF assms(1-4) same(1)] same(2) show ?thesis by metis
  next
    case smaller
    then have "realloc_smaller d dp len = Some (rc, d', dp')"
      using assms(5,9) mem eof by (auto simp: db5_realloc_def split: if_splits)
    then show ?thesis
      using smaller_hole[OF assms(1-5) smaller(1) _ assms(6,7) _ assms(10)] smaller(2) by (simp add: word_less_nat_alt)
  next
    case larger
    obtain rc1 d1 dp1 where r: "realloc_release d dp = Some (rc1, d1, dp1)" "\<not> rc1 < 0"
      and p: "realloc_place d1 dp1 len = Some (rc, d', dp')"
      using assms(5,9,10) larger mem eof phl
      by (auto simp: db5_realloc_def Let_def split: if_splits elim!: option_elims)
    from realloc_release_frees[OF k assms(5)] r
    have f: "dbi_eof d1 = dbi_eof d" "\<not> d_inmem dp1" "\<not> dbi_read_only d1" by (auto simp: io_end_def)
    obtain os' where t: "tiles d1 (objs(n := None)) os'" "disk_ok (d1, objs(n := None))" "low_ok d1 (objs(n := None))"
      using release_tiles[OF assms(1-5) r] by blast
    show ?thesis using place_hole[OF t f(2) assms(6,7) _ f(3) p assms(10)] assms(8) f(1) by simp
  qed
qed

text \<open>A whole object of the given name, which a scan can enter in the directory.\<close>

definition stores_as :: "byte list \<Rightarrow> string \<Rightarrow> bool" where
  "stores_as b n \<longleftrightarrow> (\<exists>r. object_image b r \<and> gets_entry r \<and> readable b r \<and> object_name r b = Some n)"

lemma put_tiles:
  assumes "tiles d objs os" "disk_ok (d, objs)" "low_ok d objs" "objs n = Some dp" "\<not> dbi_read_only d"
    and "put_bounded d dp raw ep" "db_wrap_v5_external raw ep n = Some (0, w)" "stores_as w n"
    and "db_put_external5 build raw ep dp d = Some (0, d', dp')"
  shows "(\<exists>os'. tiles d' (objs(n \<mapsto> dp')) os') \<and> disk_ok (d', objs(n \<mapsto> dp')) \<and> low_ok d' (objs(n \<mapsto> dp'))
    \<and> \<not> dbi_read_only d'"
proof -
  have k: "file_ok d" "dp_ok d dp" using disk_okD[OF assms(2)] assms(4) by auto
  have nm: "d_namep dp = n" using assms(3,4) by (auto simp: low_ok_def)
  obtain r where r: "object_image w r" "gets_entry r" "readable w r" "object_name r w = Some n"
    using assms(8) by (auto simp: stores_as_def)
  have l8: "8 \<le> length w" "8 dvd length w" using image_length[OF r(1)] by auto
  have bd: "unat (dbi_eof d) + length w < 2 ^ 60" using assms(6,7) nm by (simp add: put_bounded_def)
  let ?len = "of_nat (length w) :: size_t"
  have ul: "unat ?len = length w" using bd by (intro unat_size_of_nat) simp
  from put_cases[OF k assms(6,9)] assms(7) nm have po: "put_ok d dp w 0 d' dp'" by auto
  then have p: "file_ok d'" "dp_ok d' dp'" "unat (dbi_eof d) \<le> unat (dbi_eof d')" "d_namep dp' = n" "\<not> dbi_read_only d'"
    "owned d' dp' \<subseteq> owned d dp \<union> {unat (dbi_eof d)..<unat (dbi_eof d')}"
    using nm by (auto simp: put_ok_def)
  have disk: "disk_ok (d', objs(n \<mapsto> dp'))" using disk_ok_update[OF assms(2,4) p(1,2,3,6)] .
  obtain rc1 d1 dp1 where a: "(if ?len \<noteq> d_len dp \<or> d_addr dp = RT_DIR_PHONY_ADDR
        then db5_realloc build d dp ?len else Some (0, d, dp)) = Some (rc1, d1, dp1)"
    and pl: "placed d dp ?len rc1 d1 dp1"
    using realloc_for_put[OF k assms(5) l8(2,1) bd] by blast
  have eq: "db_put_external5 build raw ep dp d =
     (if rc1 < 0 then Some (-5, d1, dp1)
      else if ?len \<noteq> d_len dp1 then None
      else if d_inmem dp1
      then do { u \<leftarrow> mem_put (d_un dp1) w; Some (0, d1, dp1\<lparr>d_un := u\<rparr>) }
      else (let (rc, dbip) = db_write d1 w (d_addr dp1) in Some (if rc < 0 then -1 else 0, dbip, dp1)))"
    by (simp only: db_put_external5_def assms(5,7) nm a Option.bind_lunit prod.case less_irrefl if_False)
  have rc1: "\<not> rc1 < 0" using assms(9) eq by auto
  then have inm: "\<not> d_inmem dp1" using pl by (auto simp: placed_def dp_ok_def)
  obtain rc2 where w: "db_write d1 w (d_addr dp1) = (rc2, d')" "\<not> rc2 < 0" "dp' = dp1"
    using assms(9) eq rc1 inm by (auto simp: Let_def split: prod.splits if_splits)
  have "\<exists>os1 os2. hole d1 (objs(n := None)) os1 (length w) os2 \<and> unat (d_addr dp1) = 8 + length (contents os1)
      \<and> d_len dp1 = ?len"
  proof (cases "?len \<noteq> d_len dp \<or> d_addr dp = RT_DIR_PHONY_ADDR")
    case True
    then have "db5_realloc build d dp ?len = Some (rc1, d1, dp1)" using a by (simp only: if_True)
    from realloc_hole[OF assms(1-5) _ _ _ this rc1] l8 bd show ?thesis by (simp add: ul)
  next
    case False
    then have "d1 = d" "dp1 = dp" using a by auto
    with entry_hole[OF assms(1-4)] False ul show ?thesis by metis
  qed
  then obtain os1 os2 where h: "hole d1 (objs(n := None)) os1 (length w) os2"
    "unat (d_addr dp1) = 8 + length (contents os1)" "d_len dp1 = ?len" by blast
  have "claimed d1 (objs(n \<mapsto> dp')) (unat (d_addr dp1)) w r"
    unfolding claimed_def using r w(3) h(3) ul by auto
  then have t: "tiles d' (objs(n \<mapsto> dp')) (os1 @ (w, r) # os2)"
    by (rule hole_written[OF h(1) w(1,2) h(2) refl r(1)]) (auto split: if_splits)
  have "owned d dp \<subseteq> {8..}" using assms(3,4) by (fastforce simp: low_ok_def owned_def dp_extent_def)
  moreover have "8 \<le> unat (dbi_eof d)" using assms(1) by (simp add: tiles_iff)
  ultimately have "owned d' dp' \<subseteq> {8..}" using p(6) by auto
  then have "low_ok d' (objs(n \<mapsto> dp'))"
    using assms(3) p(4) h(2) w(3) by (auto simp: low_ok_def owned_def)
  then show ?thesis using t disk p(5) by blast
qed

section \<open>Opening the file again\<close>

lemma catalogue_keeps: "m n = Some e \<Longrightarrow> catalogue os addr m n = Some e"
proof (induction os arbitrary: addr m)
  case (Cons x os)
  obtain b r where x: "x = (b, r)" by fastforce
  have "catalogue1 b r addr m n = Some e"
    using Cons.prems fresh_name_free[of m] by (auto simp: catalogue1_def split: option.splits bind_splits)
  then show ?case using Cons.IH by (simp add: x)
qed simp

text \<open>Names are not repeated in a file whose objects are claimed, so no entry is renamed.\<close>

definition entered_below :: "(string \<Rightarrow> directory option) \<Rightarrow> (string \<Rightarrow> dir_entry option) \<Rightarrow> nat \<Rightarrow> bool" where
  "entered_below objs m addr \<longleftrightarrow> (\<forall>n. m n \<noteq> None \<longrightarrow> (\<exists>dp. objs n = Some dp \<and> unat (d_addr dp) < addr))"

lemma claimed_catalogue1:
  assumes "claimed d objs addr b r" "entered_below objs m addr" "gets_entry r" "8 \<le> length b"
  shows "\<exists>n dp. objs n = Some dp \<and> unat (d_addr dp) = addr \<and> unat (d_len dp) = length b \<and> object_name r b = Some n
    \<and> catalogue1 b r addr m = m(n \<mapsto> entry_for b r addr n) \<and> entered_below objs (m(n \<mapsto> entry_for b r addr n)) (addr + length b)"
proof -
  obtain n dp where q: "objs n = Some dp" "unat (d_addr dp) = addr" "unat (d_len dp) = length b" "object_name r b = Some n"
    using assms(1,3) by (auto simp: claimed_def gets_entry_def)
  have "m n = None" using assms(2) q(1,2) by (cases "m n") (auto simp: entered_below_def)
  then have "catalogue1 b r addr m = m(n \<mapsto> entry_for b r addr n)"
    using assms(3) q(4) by (simp add: catalogue1_def fresh_name_def)
  moreover have "entered_below objs (m(n \<mapsto> entry_for b r addr n)) (addr + length b)"
    using assms(2,4) q(1,2) by (fastforce simp: entered_below_def)
  ultimately show ?thesis using q by blast
qed

lemma entered_below_more: "entered_below objs m addr \<Longrightarrow> entered_below objs m (addr + k)"
  by (fastforce simp: entered_below_def)

text \<open>Every entry of the catalogue is an entry of the directory, and the other way round.\<close>

lemma catalogue_claimed:
  assumes "all_claimed d objs os addr" "images os" "entered_below objs m addr" "m n = None"
    and "catalogue os addr m n = Some e"
  shows "\<exists>dp. objs n = Some dp \<and> dir_addr e = of_nat (unat (d_addr dp)) \<and> unat (dir_len e) = unat (d_len dp)
    \<and> unat (d_addr dp) < addr + length (contents os)"
  using assms
proof (induction os arbitrary: addr m)
  case (Cons x os)
  obtain b r where x: "x = (b, r)" by fastforce
  have i: "object_image b r" "8 \<le> length b" "object_length r = of_nat (length b)" "length b < 2 ^ 64"
    using Cons.prems(2) image_length by (auto simp: x elim!: object_imageE)
  let ?m = "catalogue1 b r addr m"
  have rest: "all_claimed d objs os (addr + length b)" "images os" using Cons.prems(1,2) by (simp_all add: x)
  have cat: "catalogue os (addr + length b) ?m n = Some e" using Cons.prems(5) by (simp add: x)
  have eb: "entered_below objs ?m (addr + length b)"
    and one: "?m n = None \<or> (\<exists>dp. objs n = Some dp \<and> unat (d_addr dp) = addr \<and> unat (d_len dp) = length b
      \<and> ?m n = Some (entry_for b r addr n))"
  proof -
    have "entered_below objs ?m (addr + length b) \<and> (?m n = None \<or> (\<exists>dp. objs n = Some dp \<and> unat (d_addr dp) = addr
      \<and> unat (d_len dp) = length b \<and> ?m n = Some (entry_for b r addr n)))"
    proof (cases "gets_entry r")
      case True
      have "claimed d objs addr b r" using Cons.prems(1) by (simp add: x)
      then obtain k dp where q: "objs k = Some dp" "unat (d_addr dp) = addr" "unat (d_len dp) = length b"
        "?m = m(k \<mapsto> entry_for b r addr k)" "entered_below objs (m(k \<mapsto> entry_for b r addr k)) (addr + length b)"
        using claimed_catalogue1[OF _ Cons.prems(3) True i(2)] by blast
      show ?thesis using q(1-3,5) Cons.prems(4) unfolding q(4) by (cases "k = n") simp_all
    next
      case False
      then show ?thesis using Cons.prems(3,4) entered_below_more by (simp add: catalogue1_def)
    qed
    then show "entered_below objs ?m (addr + length b)" "?m n = None \<or> (\<exists>dp. objs n = Some dp \<and> unat (d_addr dp) = addr
      \<and> unat (d_len dp) = length b \<and> ?m n = Some (entry_for b r addr n))" by blast+
  qed
  from one show ?case
  proof
    assume "?m n = None"
    from Cons.IH[OF rest eb this cat] show ?thesis by (auto simp: x add.assoc)
  next
    assume "\<exists>dp. objs n = Some dp \<and> unat (d_addr dp) = addr \<and> unat (d_len dp) = length b
      \<and> ?m n = Some (entry_for b r addr n)"
    then obtain dp where q: "objs n = Some dp" "unat (d_addr dp) = addr" "unat (d_len dp) = length b"
      "?m n = Some (entry_for b r addr n)" by blast
    have e: "e = entry_for b r addr n"
      using catalogue_keeps[of ?m n "entry_for b r addr n"] q(4) cat by simp
    have "unat (of_nat (length b) :: size_t) = length b" using i(4) by (rule unat_size_of_nat)
    then have "dir_addr e = of_nat (unat (d_addr dp))" "unat (dir_len e) = unat (d_len dp)"
      using q(2,3) i(3) by (simp_all add: e entry_for_def fill_entry_def)
    moreover have "unat (d_addr dp) < addr + length (contents (x # os))" using q(2) i(2) by (cases b) (simp_all add: x)
    ultimately show ?thesis using q(1) by blast
  qed
qed simp

lemma catalogue_enters:
  assumes "all_claimed d objs (os1 @ (b, r) # os2) addr" "images (os1 @ (b, r) # os2)" "entered_below objs m addr"
    and "gets_entry r" "object_name r b = Some n"
  shows "catalogue (os1 @ (b, r) # os2) addr m n = Some (entry_for b r (addr + length (contents os1)) n)"
  using assms(1-3)
proof (induction os1 arbitrary: addr m)
  case Nil
  have "8 \<le> length b" using Nil.prems(2) image_length by auto
  then obtain n' where "object_name r b = Some n'" "catalogue1 b r addr m = m(n' \<mapsto> entry_for b r addr n')"
    using claimed_catalogue1[OF _ Nil.prems(3) assms(4)] Nil.prems(1) by auto
  then have "catalogue1 b r addr m n = Some (entry_for b r addr n)" using assms(5) by simp
  then show ?case using catalogue_keeps by simp
next
  case (Cons x os1)
  obtain b' r' where x: "x = (b', r')" by fastforce
  have i: "8 \<le> length b'" using Cons.prems(2) image_length by (auto simp: x)
  have "entered_below objs (catalogue1 b' r' addr m) (addr + length b')"
  proof (cases "gets_entry r'")
    case True
    have "claimed d objs addr b' r'" using Cons.prems(1) by (simp add: x)
    then obtain k where "catalogue1 b' r' addr m = m(k \<mapsto> entry_for b' r' addr k)"
      "entered_below objs (m(k \<mapsto> entry_for b' r' addr k)) (addr + length b')"
      using claimed_catalogue1[OF _ Cons.prems(3) True i] by blast
    then show ?thesis by simp
  next
    case False
    then show ?thesis using Cons.prems(3) entered_below_more by (simp add: catalogue1_def)
  qed
  then show ?case using Cons.IH[of "addr + length b'"] Cons.prems(1,2) by (simp add: x add.assoc)
qed

text \<open>A database that can be closed and opened again: its objects are whole, its layout is in
  order, and it can be written.\<close>

definition db_whole :: "db_state \<Rightarrow> bool" where
  "db_whole s \<longleftrightarrow> (case s of (d, objs) \<Rightarrow>
     (\<exists>os. tiles d objs os) \<and> disk_ok (d, objs) \<and> low_ok d objs \<and> \<not> dbi_read_only d)"

text \<open>What becomes of an object that is to be stored: if it can be wrapped, it is a whole object
  under the name of its entry.\<close>

definition storable :: "db5_raw_internal \<Rightarrow> byte list \<Rightarrow> string \<Rightarrow> bool" where
  "storable raw ep n \<longleftrightarrow>
     (case db_wrap_v5_external raw ep n of Some (rc, w) \<Rightarrow> rc = 0 \<longrightarrow> stores_as w n | None \<Rightarrow> True)"

text \<open>The steps of \<open>db_step\<close> in which nothing fails.\<close>

inductive store_step :: "(db_i \<Rightarrow> int \<times> db_i) \<Rightarrow> db_state \<Rightarrow> db_state \<Rightarrow> bool" for build where
  enter: "objs n = None \<Longrightarrow> store_step build (d, objs) (d, objs(n \<mapsto> phony_entry n))"
| put: "objs n = Some dp \<Longrightarrow> put_bounded d dp raw ep \<Longrightarrow> storable raw ep n \<Longrightarrow>
     db_put_external5 build raw ep dp d = Some (0, d', dp') \<Longrightarrow> store_step build (d, objs) (d', objs(n \<mapsto> dp'))"
| delete: "objs n = Some dp \<Longrightarrow> db_delete d dp = Some (0, d', dp') \<Longrightarrow>
     store_step build (d, objs) (d', objs(n := None))"

inductive_cases store_stepE: "store_step build (d, objs) s'"

lemma enter_whole:
  assumes "db_whole (d, objs)" "objs n = None"
  shows "db_whole (d, objs(n \<mapsto> phony_entry n))"
proof -
  obtain os where t: "tiles d objs os" and k: "disk_ok (d, objs)" "low_ok d objs" "\<not> dbi_read_only d"
    using assms(1) by (auto simp: db_whole_def)
  have "dp_extent (phony_entry n) = {}" "dp_ok d (phony_entry n)"
    by (simp_all add: phony_entry_def dp_ok_def dp_extent_def d_addr_def)
  then have "disk_ok (d, objs(n \<mapsto> phony_entry n))" using k(1) by (intro disk_ok_new) auto
  moreover have "low_ok d (objs(n \<mapsto> phony_entry n))"
    using k(2) unat_phony by (auto simp: low_ok_def phony_entry_def d_addr_def)
  moreover have "tiles d (objs(n \<mapsto> phony_entry n)) os"
  proof -
    have "all_claimed d (objs(n \<mapsto> phony_entry n)) os 8"
      by (rule all_claimed_mono[of d objs]) (use t assms(2) in \<open>auto simp: tiles_iff\<close>)
    then show ?thesis using t by (simp add: tiles_iff)
  qed
  ultimately show ?thesis using k(3) by (auto simp: db_whole_def)
qed

lemma store_step_whole:
  assumes "store_step build s s'" "db_whole s"
  shows "db_whole s'"
  using assms
proof (induction rule: store_step.induct)
  case (enter objs n d)
  then show ?case using enter_whole by blast
next
  case (put objs n dp d raw ep d' dp')
  then obtain os where t: "tiles d objs os" and k: "disk_ok (d, objs)" "low_ok d objs" "\<not> dbi_read_only d"
    by (auto simp: db_whole_def)
  have nm: "d_namep dp = n" using k(2) put(1) by (auto simp: low_ok_def)
  obtain w where w: "db_wrap_v5_external raw ep n = Some (0, w)"
    using put_cases[OF disk_okD(1)[OF k(1)] disk_okD(2)[OF k(1) put(1)] put(2,4)] nm by auto
  have "stores_as w n" using put(3) w by (simp add: storable_def)
  from put_tiles[OF t k(1,2) put(1) k(3) put(2) w this put(4)] show ?case by (simp add: db_whole_def)
next
  case (delete objs n dp d d' dp')
  then obtain os where t: "tiles d objs os" and k: "disk_ok (d, objs)" "low_ok d objs" "\<not> dbi_read_only d"
    by (auto simp: db_whole_def)
  have f: "file_ok d" "dp_ok d dp" using disk_okD[OF k(1)] delete(1) by auto
  have np: "d_addr dp \<noteq> RT_DIR_PHONY_ADDR" using delete_stored[OF delete(2) f(2)] .
  from db_delete_ok[OF f k(3) np] delete(2) have ro: "\<not> dbi_read_only d'" by (auto simp: io_end_def)
  have "db_step build (d, objs) (d', objs(n := None))" by (rule db_step.Delete[where objs = objs and name = n, OF delete(1,2)])
  from db_step_keeps[OF this] k(1) ro have "disk_ok (d', objs(n := None))" by simp
  then show ?case using delete_tiles[OF t k(1,2) delete(1) k(3) delete(2)] ro by (simp add: db_whole_def)
qed

lemma store_steps_whole: "(store_step build)\<^sup>*\<^sup>* s s' \<Longrightarrow> db_whole s \<Longrightarrow> db_whole s'"
  by (induction rule: rtranclp_induct) (auto intro: store_step_whole)

lemma all_claimed_readable:
  "all_claimed d objs os addr \<Longrightarrow> list_all (\<lambda>(b, r). readable b r) os"
proof (induction os arbitrary: addr)
  case (Cons x os)
  obtain b r where x: "x = (b, r)" by fastforce
  have "readable b r" using Cons.prems by (auto simp: x claimed_def readable_def gets_entry_def)
  then show ?case using Cons by (auto simp: x)
qed simp

lemma tiles_readable:
  assumes "tiles d objs os" "disk_ok (d, objs)"
  shows "readable_file (dbi_file d) os" "length (dbi_file d) = unat (dbi_eof d)"
proof -
  obtain hdr where t: "dbi_file d = hdr @ contents os" "length hdr = 8" "db5_header_is_valid hdr = Some True"
    "images os" "unat (dbi_eof d) = 8 + length (contents os)" "all_claimed d objs os 8"
    using assms(1) by (auto simp: tiles_iff)
  show l: "length (dbi_file d) = unat (dbi_eof d)" using t(1,2,5) by simp
  then have "length (dbi_file d) < 2 ^ 60" using eof_small[OF assms(2)] by simp
  then show "readable_file (dbi_file d) os"
    using t all_claimed_readable[OF t(6)] by (simp add: readable_file_def v5_file_def)
qed

lemma free_extents_claimed:
  assumes "all_claimed d objs os addr" "disk_ok (d, objs)"
  shows "free_extents os addr = {addr..<addr + length (contents os)} \<inter> free_units (dbi_freep d)"
  using assms(1)
proof (induction os arbitrary: addr)
  case (Cons x os)
  obtain b r where x: "x = (b, r)" by fastforce
  have c: "claimed d objs addr b r" and IH: "free_extents os (addr + length b)
      = {addr + length b..<addr + length b + length (contents os)} \<inter> free_units (dbi_freep d)"
    using Cons by (simp_all add: x)
  have "{addr..<addr + length (contents (x # os))}
      = {addr..<addr + length b} \<union> {addr + length b..<addr + length b + length (contents os)}" by (auto simp: x)
  moreover have "{addr..<addr + length b} \<inter> free_units (dbi_freep d)
      = (if h_dli r = DLI_FREE_STORAGE then {addr..<addr + length b} else {})"
  proof (cases "h_dli r = DLI_FREE_STORAGE")
    case True
    then have "{addr..<addr + length b} \<subseteq> free_units (dbi_freep d)" using c by (auto simp: claimed_def gets_entry_def)
    then show ?thesis using True by auto
  next
    case False
    then obtain n dp where q: "objs n = Some dp" "unat (d_addr dp) = addr" "unat (d_len dp) = length b"
      using c by (auto simp: claimed_def)
    have "dp_ok d dp" using disk_okD(2)[OF assms(2) q(1)] .
    then show ?thesis using False q(2,3) by (auto simp: dp_ok_def dp_extent_def)
  qed
  ultimately show ?case by (simp add: x IH Int_Un_distrib2)
qed simp

definition has_storage :: "directory \<Rightarrow> bool" where
  "has_storage dp \<longleftrightarrow> d_addr dp \<noteq> RT_DIR_PHONY_ADDR"

definition stored_entries :: "(string \<Rightarrow> directory option) \<Rightarrow> string \<Rightarrow> directory option" where
  "stored_entries objs n =
     (case objs n of None \<Rightarrow> None | Some dp \<Rightarrow> if has_storage dp then Some dp else None)"

lemma entry_is_dp:
  assumes "dp_ok d dp" "d_namep dp = n" "d_un dp' = FileOffset (d_addr dp)" "d_len dp' = d_len dp"
    "\<not> d_inmem dp'" "d_namep dp' = n"
  shows "dp' = dp"
  using assms by (cases dp; cases dp') (auto simp: dp_ok_def)

lemma dir_objects_rescanned:
  assumes "tiles d objs os" "disk_ok (d, objs)" "low_ok d objs"
  shows "dir_objects (catalogue os 8 Map.empty) = stored_entries objs"
proof
  fix n
  have t: "images os" "all_claimed d objs os 8" "unat (dbi_eof d) = 8 + length (contents os)"
    using assms(1) by (auto simp: tiles_iff)
  have e0: "entered_below objs Map.empty 8" by (simp add: entered_below_def)
  show "dir_objects (catalogue os 8 Map.empty) n = stored_entries objs n"
  proof (cases "\<exists>dp. objs n = Some dp \<and> has_storage dp")
    case True
    then obtain dp where q: "objs n = Some dp" "d_addr dp \<noteq> RT_DIR_PHONY_ADDR" by (auto simp: has_storage_def)
    obtain os1 b r os2 where o: "os = os1 @ (b, r) # os2" "unat (d_addr dp) = 8 + length (contents os1)"
      "unat (d_len dp) = length b" "gets_entry r" "object_name r b = Some n"
      using owned_tile[OF assms q] by blast
    have l: "object_length r = of_nat (length b)" using t(1) o(1) by (auto elim: object_imageE)
    have "catalogue os 8 Map.empty n = Some (entry_for b r (8 + length (contents os1)) n)"
      using catalogue_enters[OF t(2,1)[unfolded o(1)] e0 o(4,5)] by (simp add: o(1))
    moreover have "dir_of_entry (entry_for b r (8 + length (contents os1)) n) = dp"
    proof (rule entry_is_dp[OF disk_okD(2)[OF assms(2) q(1)]])
      show "d_namep dp = n" using assms(3) q(1) by (auto simp: low_ok_def)
      show "d_un (dir_of_entry (entry_for b r (8 + length (contents os1)) n)) = FileOffset (d_addr dp)"
        unfolding dir_of_entry_for directory.simps o(2)[symmetric] by simp
      show "d_len (dir_of_entry (entry_for b r (8 + length (contents os1)) n)) = d_len dp"
        unfolding dir_of_entry_for directory.simps l o(3)[symmetric] by simp
    qed (simp_all add: dir_of_entry_for)
    ultimately show ?thesis using q by (simp add: dir_objects_def stored_entries_def has_storage_def)
  next
    case False
    have "catalogue os 8 Map.empty n = None"
    proof (rule ccontr)
      assume "catalogue os 8 Map.empty n \<noteq> None"
      then obtain e where "catalogue os 8 Map.empty n = Some e" by blast
      from catalogue_claimed[OF t(2,1) e0 _ this] obtain dp where
        dp: "objs n = Some dp" "unat (d_addr dp) < 8 + length (contents os)" by auto
      then have "unat (d_addr dp) < 2 ^ 60" using t(3) eof_small[OF assms(2)] by linarith
      then show False using False dp(1) unat_phony by (auto simp: has_storage_def)
    qed
    then show ?thesis using False by (auto simp: dir_objects_def stored_entries_def split: option.splits)
  qed
qed

lemma rescanned:
  assumes "db_whole (d, objs)" "just_opened s" "dbi_file (scan_file s) = dbi_file d"
  shows "\<exists>s'. db5_scan db5_diradd_handler raw s = Some (0, s')
    \<and> dir_objects (dir_view (scan_dirs s')) = stored_entries objs
    \<and> free_units (dbi_freep (scan_file s')) = free_units (dbi_freep d) \<and> dbi_eof (scan_file s') = dbi_eof d
    \<and> (\<forall>n dp. stored_entries objs n = Some dp \<longrightarrow> db_get_external dp (scan_file s') = db_get_external dp d)"
proof -
  obtain os where t: "tiles d objs os" and k: "disk_ok (d, objs)" "low_ok d objs"
    using assms(1) by (auto simp: db_whole_def)
  note rd = tiles_readable[OF t k(1)]
  have rs: "readable_file (dbi_file (scan_file s)) os" using rd(1) assms(3) by simp
  obtain s' where s': "db5_scan db5_diradd_handler raw s = Some (0, s')"
    "dir_view (scan_dirs s') = catalogue os 8 Map.empty" "free_units (dbi_freep (scan_file s')) = free_extents os 8"
    "dbi_eof (scan_file s') = of_nat (length (dbi_file (scan_file s)))"
    and get: "\<And>n e pre b r post. dir_view (scan_dirs s') n = Some e \<Longrightarrow> os = pre @ (b, r) # post \<Longrightarrow>
         e = entry_for b r (8 + length (contents pre)) n \<Longrightarrow>
         db_get_external (dir_of_entry e) (scan_file s') = Some (0, b)"
    using scan_result[OF assms(2) rs, of raw] by blast
  have c: "all_claimed d objs os 8" "unat (dbi_eof d) = 8 + length (contents os)" "images os"
    using t by (auto simp: tiles_iff)
  have "free_units (dbi_freep d) \<subseteq> {8..<8 + length (contents os)}"
    using k disk_okD(1)[OF k(1)] c(2) by (auto simp: low_ok_def file_ok_def)
  then have fu: "free_units (dbi_freep (scan_file s')) = free_units (dbi_freep d)"
    unfolding s'(3) free_extents_claimed[OF c(1) k(1)] by blast
  have eof: "dbi_eof (scan_file s') = dbi_eof d" unfolding s'(4) assms(3) rd(2) by simp
  note ob = dir_objects_rescanned[OF t k]
  have same: "db_get_external dp (scan_file s') = db_get_external dp d" if st: "stored_entries objs n = Some dp" for n dp
  proof -
    have q: "objs n = Some dp" "d_addr dp \<noteq> RT_DIR_PHONY_ADDR"
      using st by (auto simp: stored_entries_def has_storage_def split: option.splits if_splits)
    obtain os1 b r os2 where o: "os = os1 @ (b, r) # os2" "unat (d_addr dp) = 8 + length (contents os1)"
      "unat (d_len dp) = length b" "gets_entry r" "object_name r b = Some n"
      using owned_tile[OF t k q] by blast
    let ?e = "entry_for b r (8 + length (contents os1)) n"
    have e0: "entered_below objs Map.empty 8" by (simp add: entered_below_def)
    have at: "dir_view (scan_dirs s') n = Some ?e"
      using catalogue_enters[OF c(1,3)[unfolded o(1)] e0 o(4,5)] by (simp add: s'(2) o(1))
    have "dir_objects (dir_view (scan_dirs s')) n = Some dp" using ob st by (simp add: s'(2))
    then have dp: "dir_of_entry ?e = dp" using at by (simp add: dir_objects_def)
    have "db_get_external dp (scan_file s') = Some (0, b)" using get[OF at o(1) refl] by (simp add: dp)
    moreover have "db_get_external dp d = Some (0, b)"
    proof (rule db_get_external_stored[OF disk_okD(1)[OF k(1)] disk_okD(2)[OF k(1) q(1)] q(2)])
      show "take (unat (d_len dp)) (drop (unat (d_addr dp)) (dbi_file d)) = b"
        using t o(2,3) by (auto simp: tiles_iff o(1))
    qed (simp add: o(3))
    ultimately show ?thesis by simp
  qed
  then show ?thesis using s'(1) ob fu eof by (intro exI[of _ s']) (simp add: s'(2))
qed

section \<open>Exported objects can be stored\<close>

lemma export_image:
  assumes small: "small_section (name_section name)" "small_section (section_of attrib)"
    "small_section (section_of body)" and attr4: "attr_ok (section_of attrib)"
    and exp: "db5_export_object3 dli name hidden attrib body major minor 0 0 = Some out"
  shows "\<exists>r. object_image out r \<and> h_dli r = of_nat dli AND 3 \<and> major_type r = of_nat major \<and> minor_type r = of_nat minor
    \<and> ext_data out (rname r) = name_section name \<and> ext_data out (rattributes r) = section_of attrib
    \<and> ext_fits out (rname r) \<and> ext_fits out (rattributes r)"
proof -
  obtain len n a b pad hw where
    out: "out = [DB5HDR_MAGIC1, hflags_of hw dli (name_section name) hidden,
             section_flags (section_of attrib) 0, section_flags (section_of body) 0,
             of_nat major, of_nat minor] @ len @ n @ a @ b @ pad @ [DB5HDR_MAGIC2]"
    and enc: "db5_encode_length (of_nat (length out div 8)) hw = Some len" and hw: "hw \<le> 3"
    and fits: "fits_unsigned (of_nat (length out div 8)) hw"
    using export_object3_shape[OF small attr4, of dli hidden major minor] exp by auto
  obtain r where p: "db5_get_raw_internal_ptr raw_zero out = Some (r, Some (length out))"
    and rf: "h_dli r = of_nat dli AND 3" "major_type r = of_nat major" "minor_type r = of_nat minor"
      "ext_data out (rname r) = name_section name" "ext_data out (rattributes r) = section_of attrib"
      "ext_fits out (rname r)" "ext_fits out (rattributes r)"
    using object_read_back[OF assms(1-4), where dli = dli and hidden = hidden and major = major and minor = minor
        and rip = raw_zero and rest = "[]"] exp by auto
  obtain rc r0 where c: "crack_disk_header raw_zero out = Some (rc, r0)"
    using p by (auto simp: db5_get_raw_internal_ptr_def elim!: option_elims)
  then have "h_object_width r0 = drop_bit 6 (hflags_of hw dli (name_section name) hidden AND DB5HDR_HFLAGS_OBJECT_WIDTH_MASK)"
    by (auto simp: out)
  then have w0: "unat (h_object_width r0) = hw" using hflags_fields(1)[OF hw, of dli "name_section name" hidden] by simp
  have dec: "db5_decode_length (drop 6 out) hw = Some (of_nat (length out div 8), length len)"
  proof -
    have "drop 6 out = len @ n @ a @ b @ pad @ [DB5HDR_MAGIC2]" by (simp add: out)
    then show ?thesis using db5_decode_encode[OF fits enc, of "n @ a @ b @ pad @ [DB5HDR_MAGIC2]"] by simp
  qed
  have "rc = 0" using crack_disk_header_rc[OF c] .
  then obtain cp where "grab_sections (r0\<lparr>object_length := push_bit 3 (of_nat (length out div 8))\<rparr>) out cp
      = Some (r, Some (length out))"
    using p c dec w0 by (auto simp: db5_get_raw_internal_ptr_def sizeof_header_def Let_def split: if_splits)
  then have w: "h_object_width r = h_object_width r0" using grab_sections_again(1) by fastforce
  have "length len = lenbuf_count (h_object_width r)"
    using decode_used(1)[of "drop 6 out" "h_object_width r"] dec w w0 by simp
  moreover have "6 + length len \<le> length out" by (simp add: out)
  ultimately have "object_image out r"
    using p dec w w0 by (simp add: object_image_def sizeof_header_def out)
  then show ?thesis using rf by blast
qed

lemma ext_data_at: "ext_data b e = Some bs \<Longrightarrow> \<exists>off rest. ext_buf e = Some off \<and> drop off b = bs @ rest"
  by (auto simp: ext_data_def) (metis append_take_drop_id)

lemma absent_section:
  assumes "object_image b r" "ext_buf (rattributes r) = None" shows "ext_nbytes (rattributes r) = 0"
proof -
  obtain q cp where "grab_sections q b cp = Some (r, Some (length b))"
    using assms(1) by (auto simp: object_image_def db5_get_raw_internal_ptr_def Let_def split: if_splits elim!: option_elims)
  then show ?thesis using assms(2)
    by (auto simp: grab_sections_def grab_def Let_def BU_EXTERNAL_INIT_def split: if_splits elim!: option_elims)
qed

lemma exported_storable:
  assumes "small_section (name_section (Some n))" "small_section (section_of attrib)"
    "small_section (section_of body)" "attr_ok (section_of attrib)" "plain_name n" "no_nul n"
    and "known_type (of_nat major)" "case section_of attrib of None \<Rightarrow> True | Some ap \<Rightarrow> db5_import_attributes ap \<noteq> None"
    and "db5_export_object3 0 (Some n) hidden attrib body major minor 0 0 = Some ep"
  shows "storable raw ep n"
proof -
  obtain r where r: "object_image ep r" "h_dli r = 0" "major_type r = of_nat major"
    "ext_data ep (rname r) = name_section (Some n)" "ext_data ep (rattributes r) = section_of attrib"
    "ext_fits ep (rattributes r)"
    using export_image[OF assms(1-4,9)] by auto
  have "name_section (Some n) = Some (bytes_of n @ [0])" using assms(5) by (simp add: name_section_def plain_name_def)
  then obtain off rest where nm: "ext_buf (rname r) = Some off" "drop off ep = (bytes_of n @ [0]) @ rest"
    using ext_data_at[of ep "rname r"] r(4) by auto
  then have cs: "c_string (drop off ep) = Some (bytes_of n)" using assms(6) by simp
  have "object_name r ep = Some n" by (simp add: object_name_def nm(1) cs)
  moreover have g: "gets_entry r" by (simp add: gets_entry_def r(2) nm(1) DLI_HEADER_OBJECT_def DLI_FREE_STORAGE_def)
  moreover have "has_region r ep \<noteq> None"
  proof (cases "ext_buf (rattributes r)")
    case None
    then have "ext_nbytes (rattributes r) = 0" using r(1) by (rule absent_section[rotated])
    then show ?thesis by (simp add: has_region_def)
  next
    case (Some k)
    then have "section_of attrib = Some (take (unat (ext_nbytes (rattributes r))) (drop k ep))"
      using r(5) by (simp add: ext_data_def)
    then obtain y where "db5_import_attributes (take (unat (ext_nbytes (rattributes r))) (drop k ep)) = Some y"
      using assms(8) by auto
    moreover obtain n avs where "y = (n, avs)" by (cases y)
    ultimately show ?thesis using Some r(6) by (auto simp: has_region_def ext_copy_def ext_fits_def ex_bool_eq)
  qed
  ultimately have "stores_as ep n"
    unfolding stores_as_def using r(1,3) assms(5,7) by (intro exI[of _ r]) (simp add: readable_def)
  moreover have "db_wrap_v5_external raw ep n = Some (0, ep)"
    using image_ptr[OF r(1), of raw "[]"] by (simp add: db_wrap_v5_external_def r(2) nm(1) cs)
  ultimately show ?thesis by (simp add: storable_def)
qed

section \<open>Properties\<close>

text \<open>C1: after any sequence of entering, storing and deleting objects in which every operation
  succeeds, closing the database and opening its file again gives the same database: a scan
  enters exactly the objects that have storage, each at its address with its length and
  readable byte for byte as before, and finds the same free storage and the same end of
  file.\<close>

theorem reopen_same_database:
  assumes "(store_step build)\<^sup>*\<^sup>* (d0, objs0) (d, objs)" "db_whole (d0, objs0)"
    and "just_opened s" "dbi_file (scan_file s) = dbi_file d"
  shows "\<exists>s'. db5_scan db5_diradd_handler raw s = Some (0, s')
    \<and> dir_objects (dir_view (scan_dirs s')) = stored_entries objs
    \<and> free_units (dbi_freep (scan_file s')) = free_units (dbi_freep d) \<and> dbi_eof (scan_file s') = dbi_eof d
    \<and> (\<forall>n dp. stored_entries objs n = Some dp \<longrightarrow> db_get_external dp (scan_file s') = db_get_external dp d)"
  by (rule rescanned[OF store_steps_whole[OF assms(1,2)] assms(3,4)])

text \<open>An empty database, and the object of \<open>put_then_get\<close> stored in it.\<close>

definition reopened :: "db_i \<Rightarrow> scan_db" where
  "reopened d = sample_db\<lparr>scan_file := fresh_db\<lparr>dbi_file := dbi_file d\<rparr>\<rparr>"

lemma fresh_whole: "db_whole (fresh_db, Map.empty)"
proof -
  have "db5_header_is_valid (dbi_file fresh_db) = Some True" by code_simp
  then have "tiles fresh_db Map.empty []"
    by (simp add: tiles_iff) (simp add: fresh_db_def)
  then show ?thesis using fresh_disk_ok(2) fresh_db_ok(4)
    by (auto simp: db_whole_def low_ok_def fresh_db_def free_units_def)
qed

lemma reopened_ok: "just_opened (reopened d)" "dbi_file (scan_file (reopened d)) = dbi_file d"
  using sample_ok(1) by (simp_all add: reopened_def just_opened_def sample_db_def)

lemma reopen_same_database_witness:
  "\<exists>d dp s'. (store_step (\<lambda>d. (-1, d)))\<^sup>*\<^sup>* (fresh_db, Map.empty) (d, [''a'' \<mapsto> dp])
     \<and> db5_scan db5_diradd_handler raw_zero (reopened d) = Some (0, s')
     \<and> dir_objects (dir_view (scan_dirs s')) ''a'' = Some dp"
proof -
  let ?b = "\<lambda>d. (-1, d) :: int \<times> db_i"
  obtain d dp where p: "db_put_external5 ?b raw_zero small_object (phony_entry ''a'') fresh_db = Some (0, d, dp)"
    using small_object_put by blast
  have "stores_as small_object ''a''"
    unfolding stores_as_def by (rule exI[of _ "snd (parsed small_object)"]) code_simp
  moreover have "d_namep (phony_entry ''a'') = ''a''" by (simp add: phony_entry_def)
  ultimately have st: "storable raw_zero small_object ''a''"
    using small_object_wrap by (simp add: storable_def)
  have "store_step ?b (fresh_db, Map.empty) (fresh_db, [''a'' \<mapsto> phony_entry ''a''])"
    by (rule store_step.enter) simp
  moreover have "store_step ?b (fresh_db, [''a'' \<mapsto> phony_entry ''a'']) (d, [''a'' \<mapsto> phony_entry ''a'', ''a'' \<mapsto> dp])"
    by (rule store_step.put[OF _ small_object_bounded st p]) simp
  ultimately have steps: "(store_step ?b)\<^sup>*\<^sup>* (fresh_db, Map.empty) (d, [''a'' \<mapsto> dp])" by simp
  obtain s' where s': "db5_scan db5_diradd_handler raw_zero (reopened d) = Some (0, s')"
    "dir_objects (dir_view (scan_dirs s')) = stored_entries [''a'' \<mapsto> dp]"
    using reopen_same_database[OF steps fresh_whole reopened_ok] by blast
  have "d_addr dp \<noteq> RT_DIR_PHONY_ADDR"
  proof -
    have "case db_put_external5 ?b raw_zero small_object (phony_entry ''a'') fresh_db of
        Some (rc, d', dp') \<Rightarrow> d_addr dp' = 8 | None \<Rightarrow> False" by code_simp
    then have "d_addr dp = 8" using p by simp
    then show ?thesis by (simp add: RT_DIR_PHONY_ADDR_def)
  qed
  then have "dir_objects (dir_view (scan_dirs s')) ''a'' = Some dp"
    by (simp add: s'(2) stored_entries_def has_storage_def)
  then show ?thesis using steps s'(1) by blast
qed

end
