(* ===== verification/BuHash.thy ===== *)
theory BuHash
  imports Dictionary
begin

unbundle bit_operations_syntax

text \<open>
  Hash tables of libbu (\<open>libbu/hash.c\<close>, \<open>bu/hash.h\<close>).

  A bin is the list of the addresses of its entries, in the order of their \<open>next\<close> pointers;
  \<open>hmem\<close> is what stands at an address and \<open>hbrk\<close> the first address not used yet.  A key is
  its \<open>key_len\<close> bytes; the null pointer \<open>None\<close> is a key of length 0.  A value \<open>None\<close> is the
  null pointer.  Memory is taken to be available, and the semaphore, which makes each
  operation a single step, is left out, as is \<open>bu_hash_destroy\<close>, which only releases memory.
\<close>

record 'v bu_hash_entry =
  hkey :: "byte list"
  hvalue :: "'v option"

record 'v bu_hash_tbl =
  hmask :: "64 word"
  num_lists :: "64 word"
  num_entries :: "64 word"
  lists :: "nat \<Rightarrow> nat list"
  hmem :: "nat \<Rightarrow> 'v bu_hash_entry"
  hbrk :: nat

section \<open>Hashing and comparing keys\<close>

definition bu_hash :: "byte list option \<Rightarrow> 64 word" where
  "bu_hash key =
     (case key of None \<Rightarrow> 5381
      | Some k \<Rightarrow> foldl (\<lambda>hash c. (push_bit 5 hash + hash) + ucast c) 5381 k)"

fun nhash_keycmp :: "byte list \<Rightarrow> byte list \<Rightarrow> nat \<Rightarrow> bool" where
  "nhash_keycmp (a # k1) (b # k2) (Suc n) = (if a \<noteq> b then False else nhash_keycmp k1 k2 n)"
| "nhash_keycmp k1 k2 0 = True"
| "nhash_keycmp k1 k2 (Suc n) = False"

definition hash_bin :: "'v bu_hash_tbl \<Rightarrow> byte list option \<Rightarrow> nat" where
  "hash_bin t key = unat (bu_hash key AND hmask t)"

definition key_of :: "byte list option \<Rightarrow> byte list" where
  "key_of key = (case key of None \<Rightarrow> [] | Some k \<Rightarrow> k)"

section \<open>Operations\<close>

function table_size :: "64 word \<Rightarrow> 64 word \<Rightarrow> nat \<Rightarrow> 64 word \<times> nat" where
  "table_size tbl_size power_of_two pow =
     (if power_of_two < tbl_size \<and> pow < 63 then table_size tbl_size (push_bit 1 power_of_two) (pow + 1)
      else (power_of_two, pow))"
  by pat_completeness auto
termination by (relation "measure (\<lambda>(_, _, p). 63 - p)") auto

declare table_size.simps [simp del]

definition widest_mask :: "64 word" where
  "widest_mask = ((\<lambda>m. push_bit 1 m + 1) ^^ 62) 1"

definition bu_hash_create :: "64 word \<Rightarrow> 'v bu_hash_tbl" where
  "bu_hash_create tbl_size =
     (let (power_of_two, pow) = table_size tbl_size 64 6;
          (nlists, mask) = (if pow = 63
             then (widest_mask + 1, widest_mask)
             else (power_of_two, power_of_two - 1))
      in \<lparr>hmask = mask, num_lists = nlists, num_entries = 0, lists = (\<lambda>_. []),
          hmem = (\<lambda>_. \<lparr>hkey = [], hvalue = None\<rparr>), hbrk = 0\<rparr>)"

fun find_entry :: "(nat \<Rightarrow> 'v bu_hash_entry) \<Rightarrow> byte list \<Rightarrow> nat list \<Rightarrow> nat option" where
  "find_entry mem key [] = None"
| "find_entry mem key (e # next) =
     (if length (hkey (mem e)) \<noteq> length key then find_entry mem key next
      else if nhash_keycmp key (hkey (mem e)) (length key) then Some e
      else find_entry mem key next)"

definition bu_hash_get :: "'v bu_hash_tbl \<Rightarrow> byte list option \<Rightarrow> 'v option" where
  "bu_hash_get t key =
     (let idx = hash_bin t key in
      if idx \<ge> unat (num_lists t) then None
      else case find_entry (hmem t) (key_of key) (lists t idx) of
             None \<Rightarrow> None | Some e \<Rightarrow> hvalue (hmem t e))"

definition set_value :: "nat \<Rightarrow> 'v option \<Rightarrow> 'v bu_hash_tbl \<Rightarrow> 'v bu_hash_tbl" where
  "set_value e val t = t\<lparr>hmem := (hmem t)(e := (hmem t e)\<lparr>hvalue := val\<rparr>)\<rparr>"

definition bu_hash_set :: "'v bu_hash_tbl \<Rightarrow> byte list option \<Rightarrow> 'v option \<Rightarrow> int \<times> 'v bu_hash_tbl" where
  "bu_hash_set t key val =
     (if key = None \<or> length (key_of key) = 0 then (-1, t)
      else let k = key_of key; idx = hash_bin t key in
        case find_entry (hmem t) k (lists t idx) of
          Some e \<Rightarrow> (0, set_value e val t)
        | None \<Rightarrow>
            let e = hbrk t;
                t = t\<lparr>hmem := (hmem t)(e := \<lparr>hkey = k, hvalue = None\<rparr>), hbrk := e + 1,
                      lists := (lists t)(idx := lists t idx @ [e]), num_entries := num_entries t + 1\<rparr>
            in (1, set_value e val t))"

text \<open>The loop of \<open>bu_hash_rm\<close> over the entries \<open>prev\<close> that it has passed and those that are
  left.  \<open>Some None\<close> is the use of a null pointer; \<open>None\<close> is a loop that does not end.\<close>

partial_function (option) rm_loop ::
  "(nat \<Rightarrow> 'v bu_hash_entry) \<Rightarrow> byte list \<Rightarrow> nat list \<Rightarrow> nat list \<Rightarrow> nat list option option" where
  "rm_loop mem key prev rest =
     (case rest of
        [] \<Rightarrow> Some None
      | e # next \<Rightarrow>
          if length (hkey (mem e)) \<noteq> length key then rm_loop mem key (prev @ [e]) next
          else if nhash_keycmp key (hkey (mem e)) (length key) then Some (Some (prev @ next))
          else rm_loop mem key prev rest)"

definition bu_hash_rm :: "'v bu_hash_tbl \<Rightarrow> byte list option \<Rightarrow> 'v bu_hash_tbl option option" where
  "bu_hash_rm t key =
     (if key = None \<or> length (key_of key) = 0 then Some (Some t)
      else let idx = hash_bin t key in
        if lists t idx = [] then Some (Some t)
        else map_option (map_option (\<lambda>c. t\<lparr>lists := (lists t)(idx := c)\<rparr>))
               (rm_loop (hmem t) (key_of key) [] (lists t idx)))"

text \<open>The \<open>next\<close> pointer of an entry; \<open>None\<close> when the entry is not in the table any more.\<close>

definition entry_next :: "'v bu_hash_tbl \<Rightarrow> nat \<Rightarrow> nat option option" where
  "entry_next t e =
     (case dropWhile (\<lambda>x. x \<noteq> e) (lists t (hash_bin t (Some (hkey (hmem t e))))) of
        [] \<Rightarrow> None | [_] \<Rightarrow> Some None | _ # n # _ \<Rightarrow> Some (Some n))"

text \<open>The first entry in the \<open>n\<close> bins from \<open>l\<close> on.\<close>

fun first_entry :: "(nat \<Rightarrow> nat list) \<Rightarrow> nat \<Rightarrow> nat \<Rightarrow> nat option" where
  "first_entry ls l 0 = None"
| "first_entry ls l (Suc n) = (case ls l of e # _ \<Rightarrow> Some e | [] \<Rightarrow> first_entry ls (l + 1) n)"

definition bu_hash_next :: "'v bu_hash_tbl \<Rightarrow> nat option \<Rightarrow> nat option option" where
  "bu_hash_next t e =
     (if num_entries t = 0 then Some None
      else case e of
             None \<Rightarrow> Some (first_entry (lists t) 0 (unat (num_lists t)))
           | Some a \<Rightarrow>
               (case entry_next t a of
                  None \<Rightarrow> None
                | Some (Some n) \<Rightarrow>
                    if bu_hash_get t (Some (hkey (hmem t a))) = None
                    then Some (first_entry (lists t) 0 (unat (num_lists t))) else Some (Some n)
                | Some None \<Rightarrow>
                    let idx = hash_bin t (Some (hkey (hmem t a))) + 1
                    in Some (first_entry (lists t) idx (unat (num_lists t) - idx))))"

definition bu_hash_value :: "'v bu_hash_tbl \<Rightarrow> nat option \<Rightarrow> 'v option \<Rightarrow> 'v option \<times> 'v bu_hash_tbl" where
  "bu_hash_value t e val =
     (case e of
        None \<Rightarrow> (None, t)
      | Some a \<Rightarrow> (case val of None \<Rightarrow> (hvalue (hmem t a), t) | Some v \<Rightarrow> (Some v, set_value a val t)))"

text \<open>How the callers go through a table; the first argument bounds the number of entries
  visited.\<close>

fun hash_walk :: "nat \<Rightarrow> 'v bu_hash_tbl \<Rightarrow> nat option \<Rightarrow> nat list option" where
  "hash_walk n t None = Some []"
| "hash_walk 0 t (Some e) = None"
| "hash_walk (Suc n) t (Some e) =
     (case bu_hash_next t (Some e) of None \<Rightarrow> None | Some e' \<Rightarrow> map_option (Cons e) (hash_walk n t e'))"

section \<open>The invariant\<close>

abbreviation ekey :: "'v bu_hash_tbl \<Rightarrow> nat \<Rightarrow> byte list" where
  "ekey t e \<equiv> hkey (hmem t e)"

text \<open>Removed entries are still counted in \<open>num_entries\<close>.\<close>

definition hash_ok :: "'v bu_hash_tbl \<Rightarrow> bool" where
  "hash_ok t \<longleftrightarrow> unat (num_lists t) = Suc (unat (hmask t)) \<and> num_entries t = of_nat (hbrk t)
     \<and> (\<forall>j. distinct (map (ekey t) (lists t j)))
     \<and> (\<forall>j. \<forall>e\<in>set (lists t j). e < hbrk t \<and> ekey t e \<noteq> [] \<and> hash_bin t (Some (ekey t e)) = j)"

lemma nhash_keycmp_eq: "length k1 = n \<Longrightarrow> length k2 = n \<Longrightarrow> nhash_keycmp k1 k2 n \<longleftrightarrow> k1 = k2"
  by (induction k1 k2 n rule: nhash_keycmp.induct) auto

lemma find_entry_find: "find_entry mem k es = List.find (\<lambda>e. hkey (mem e) = k) es"
  by (induction mem k es rule: find_entry.induct) (auto simp: nhash_keycmp_eq)

lemma hash_bin_less: "hash_ok t \<Longrightarrow> hash_bin t k < unat (num_lists t)"
  using word_and_le1[of "bu_hash k" "hmask t"] by (simp add: hash_ok_def hash_bin_def word_le_nat_alt less_Suc_eq_le)

lemma hash_get_find:
  "hash_ok t \<Longrightarrow> bu_hash_get t k
    = (case List.find (\<lambda>e. ekey t e = key_of k) (lists t (hash_bin t k)) of
         None \<Rightarrow> None | Some e \<Rightarrow> hvalue (hmem t e))"
  using hash_bin_less[of t k] by (simp add: bu_hash_get_def find_entry_find Let_def)

section \<open>Creating a table\<close>

lemma table_size_spec:
  "unat p2 = 2 ^ pow \<Longrightarrow> pow \<le> 63 \<Longrightarrow>
    \<exists>k. table_size n p2 pow = (of_nat (2 ^ k), k) \<and> pow \<le> k \<and> k \<le> 63 \<and> (k < 63 \<longrightarrow> unat n \<le> 2 ^ k)"
proof (induction n p2 pow rule: table_size.induct)
  case (1 n p2 pow)
  show ?case
  proof (cases "p2 < n \<and> pow < 63")
    case True
    have "(2 :: nat) ^ Suc pow \<le> 2 ^ 63" using True by (intro power_increasing) auto
    then have "unat (push_bit 1 p2) = 2 ^ (pow + 1)"
      using 1(2) by (simp add: push_bit_eq_mult unat_word_ariths)
    from 1(1)[OF True this] True obtain k where
      "table_size n (push_bit 1 p2) (pow + 1) = (of_nat (2 ^ k), k)" "pow + 1 \<le> k" "k \<le> 63"
      "k < 63 \<longrightarrow> unat n \<le> 2 ^ k" by auto
    then show ?thesis using True by (subst table_size.simps) auto
  next
    case False
    have "of_nat (unat p2) = p2" by simp
    then have "p2 = of_nat (2 ^ pow)" unfolding 1(2) by (rule sym)
    moreover have "table_size n p2 pow = (p2, pow)" 
      unfolding table_size.simps[of n p2 pow] using False by (simp only: if_False)
    moreover have "pow < 63 \<longrightarrow> unat n \<le> 2 ^ pow" using False 1(2) by (auto simp: word_le_nat_alt not_less)
    ultimately show ?thesis using 1(3) by blast
  qed
qed

lemma ones: "widest_mask = 2 ^ 63 - 1"
  by code_simp

lemma create_size:
  assumes "t = bu_hash_create n"
  shows "\<exists>k\<ge>6. k \<le> 63 \<and> unat (num_lists t) = 2 ^ k \<and> unat (hmask t) = 2 ^ k - 1 \<and> (k < 63 \<longrightarrow> unat n \<le> 2 ^ k)"
proof -
  obtain k where k: "table_size n 64 6 = (of_nat (2 ^ k), k)" "6 \<le> k" "k \<le> 63" "k < 63 \<longrightarrow> unat n \<le> 2 ^ k"
    using table_size_spec[of 64 6 n] by auto
  have p: "(2 :: nat) ^ k \<le> 2 ^ 63" using k(3) by (intro power_increasing) auto
  have small: "unat (of_nat m :: 64 word) = m" if "m \<le> 2 ^ 63" for m using that by (simp add: unat_of_nat)
  have u: "unat (of_nat (2 ^ k) :: 64 word) = 2 ^ k" by (rule small[OF p])
  show ?thesis
  proof (cases "k = 63")
    case True
    then show ?thesis using k(1) assms by (intro exI[of _ 63]) (simp add: bu_hash_create_def ones)
  next
    case False
    have "unat (of_nat (2 ^ k) - 1 :: 64 word) = 2 ^ k - 1"
      using u by (simp add: unat_sub word_le_nat_alt)
    then show ?thesis using k u False assms
      by (intro exI[of _ k]) (simp add: bu_hash_create_def)
  qed
qed

lemma create_ok: "hash_ok (bu_hash_create n)"
proof -
  define t where "t = bu_hash_create n"
  obtain k where "unat (num_lists t) = 2 ^ k" "unat (hmask t) = 2 ^ k - 1"
    using create_size[OF t_def] by blast
  then have "unat (num_lists t) = Suc (unat (hmask t))" by simp
  then show ?thesis by (simp add: hash_ok_def t_def) (simp add: bu_hash_create_def split_def Let_def)
qed

lemma get_create: "bu_hash_get (bu_hash_create n) key = None"
  by (simp add: bu_hash_get_def bu_hash_create_def split_def Let_def)

section \<open>Setting a value\<close>

lemma ekey_set_value [simp]: "ekey (set_value e v t) a = ekey t a"
  by (simp add: set_value_def)

lemma set_value_simps [simp]:
  "lists (set_value e v t) = lists t" "num_lists (set_value e v t) = num_lists t" "hmask (set_value e v t) = hmask t"
  "num_entries (set_value e v t) = num_entries t" "hbrk (set_value e v t) = hbrk t"
  "hash_bin (set_value e v t) k = hash_bin t k"
  "hvalue (hmem (set_value e v t) a) = (if a = e then v else hvalue (hmem t a))"
  by (simp_all add: set_value_def hash_bin_def)

lemma ok_set_value [simp]: "hash_ok (set_value e v t) \<longleftrightarrow> hash_ok t"
  by (simp add: hash_ok_def)

lemma hash_okD:
  assumes "hash_ok t"
  shows "distinct (map (ekey t) (lists t j))"
    "e \<in> set (lists t j) \<Longrightarrow> e < hbrk t" "e \<in> set (lists t j) \<Longrightarrow> ekey t e \<noteq> []"
    "e \<in> set (lists t j) \<Longrightarrow> hash_bin t (Some (ekey t e)) = j"
    "e \<in> set (lists t j) \<Longrightarrow> j < unat (num_lists t)"
  using assms hash_bin_less[OF assms, of "Some (ekey t e)"] by (auto simp: hash_ok_def)

lemma bin_distinct: "hash_ok t \<Longrightarrow> distinct (lists t j)"
  using hash_okD(1) distinct_map by blast

lemma same_key_same_entry:
  assumes "hash_ok t" "a \<in> set (lists t i)" "b \<in> set (lists t j)" "ekey t a = ekey t b"
  shows "a = b"
proof -
  have "i = j" using hash_okD(4)[OF assms(1)] assms(2-4) by metis
  then show ?thesis using hash_okD(1)[OF assms(1), of j] assms(2-4) by (auto simp: distinct_map inj_on_def)
qed

lemma find_key:
  assumes "hash_ok t" "e \<in> set (lists t j)"
  shows "List.find (\<lambda>x. ekey t x = ekey t e) (lists t j) = Some e"
proof (cases "List.find (\<lambda>x. ekey t x = ekey t e) (lists t j)")
  case None
  then show ?thesis using assms(2) by (auto simp: find_None_iff)
next
  case (Some x)
  then have "x \<in> set (lists t j)" "ekey t x = ekey t e" by (auto simp: find_Some_iff)
  then show ?thesis using same_key_same_entry[OF assms(1) _ assms(2)] Some by blast
qed

text \<open>The entry of a key, wherever it is.\<close>

definition entry_of :: "'v bu_hash_tbl \<Rightarrow> byte list \<Rightarrow> nat option" where
  "entry_of t k = List.find (\<lambda>e. ekey t e = k) (lists t (hash_bin t (Some k)))"

lemma entry_of_Some:
  assumes "hash_ok t"
  shows "entry_of t k = Some e \<longleftrightarrow> ekey t e = k \<and> (\<exists>j. e \<in> set (lists t j))"
proof
  assume "entry_of t k = Some e"
  then show "ekey t e = k \<and> (\<exists>j. e \<in> set (lists t j))"
    unfolding entry_of_def find_Some_iff by (metis nth_mem)
next
  assume e: "ekey t e = k \<and> (\<exists>j. e \<in> set (lists t j))"
  then obtain j where "e \<in> set (lists t j)" by blast
  then show "entry_of t k = Some e"
    using find_key[OF assms] hash_okD(4)[OF assms] e unfolding entry_of_def by metis
qed

lemma get_entry_of:
  "hash_ok t \<Longrightarrow> bu_hash_get t (Some k) = (case entry_of t k of None \<Rightarrow> None | Some e \<Rightarrow> hvalue (hmem t e))"
  by (simp add: hash_get_find entry_of_def key_of_def)

lemma set_present:
  assumes "hash_ok t" "k \<noteq> []" "entry_of t k = Some e"
  shows "bu_hash_set t (Some k) v = (0, set_value e v t)"
  using assms by (simp add: bu_hash_set_def entry_of_def find_entry_find key_of_def)

definition add_entry :: "byte list \<Rightarrow> 'v bu_hash_tbl \<Rightarrow> 'v bu_hash_tbl" where
  "add_entry k t = t\<lparr>hmem := (hmem t)(hbrk t := \<lparr>hkey = k, hvalue = None\<rparr>), hbrk := hbrk t + 1,
     lists := (lists t)(hash_bin t (Some k) := lists t (hash_bin t (Some k)) @ [hbrk t]),
     num_entries := num_entries t + 1\<rparr>"

lemma set_absent:
  assumes "k \<noteq> []" "entry_of t k = None"
  shows "bu_hash_set t (Some k) v = (1, set_value (hbrk t) v (add_entry k t))"
  using assms by (simp add: bu_hash_set_def entry_of_def find_entry_find key_of_def add_entry_def Let_def)

lemma add_entry_facts:
  assumes "hash_ok t" "k \<noteq> []" "entry_of t k = None"
  shows "hash_ok (add_entry k t)" "entry_of (add_entry k t) k' = (if k' = k then Some (hbrk t) else entry_of t k')"
    "entry_of t k' = Some e \<Longrightarrow> e \<noteq> hbrk t \<and> hvalue (hmem (add_entry k t) e) = hvalue (hmem t e)"
proof -
  have b: "hash_bin (add_entry k t) k' = hash_bin t k'" for k' by (simp add: hash_bin_def add_entry_def)
  have old: "ekey (add_entry k t) e = ekey t e" if "e \<in> set (lists t j)" for e j
    using hash_okD(2)[OF assms(1) that] by (simp add: add_entry_def)
  have new: "ekey (add_entry k t) (hbrk t) = k" by (simp add: add_entry_def)
  have nk: "ekey t e \<noteq> k" if "e \<in> set (lists t j)" for e j
    using entry_of_Some[OF assms(1), of k e] that assms(3) by auto
  have l: "set (lists (add_entry k t) j) = set (lists t j) \<union> (if j = hash_bin t (Some k) then {hbrk t} else {})" for j
    by (simp add: add_entry_def)
  have m: "map (ekey (add_entry k t)) (lists t j) = map (ekey t) (lists t j)" for j
    using old by (intro map_cong) auto
  have "distinct (map (ekey (add_entry k t)) (lists (add_entry k t) j))" for j
  proof -
    have "map (ekey (add_entry k t)) (lists (add_entry k t) j)
        = map (ekey t) (lists t j) @ (if j = hash_bin t (Some k) then [k] else [])"
      using m new by (simp add: add_entry_def)
    moreover have "k \<notin> ekey t ` set (lists t j)" using nk by blast
    ultimately show ?thesis
      using hash_okD(1)[OF assms(1), of j] by (cases "j = hash_bin t (Some k)") simp_all
  qed
  moreover have "e < hbrk (add_entry k t) \<and> ekey (add_entry k t) e \<noteq> []
      \<and> hash_bin (add_entry k t) (Some (ekey (add_entry k t) e)) = j" if "e \<in> set (lists (add_entry k t) j)" for e j
  proof (cases "e \<in> set (lists t j)")
    case True
    then show ?thesis using hash_okD(2-4)[OF assms(1) True] old[OF True] b by (simp add: add_entry_def)
  next
    case False
    then have "e = hbrk t" "j = hash_bin t (Some k)" using that l by (auto split: if_splits)
    then show ?thesis using new assms(2) b by (simp add: add_entry_def)
  qed
  moreover have "num_entries (add_entry k t) = of_nat (hbrk (add_entry k t))"
    "num_lists (add_entry k t) = num_lists t" "hmask (add_entry k t) = hmask t"
    using assms(1) by (simp_all add: hash_ok_def add_entry_def)
  ultimately show ok: "hash_ok (add_entry k t)" using assms(1) by (simp add: hash_ok_def)
  have mem: "(\<exists>j. e \<in> set (lists (add_entry k t) j)) \<longleftrightarrow> e = hbrk t \<or> (\<exists>j. e \<in> set (lists t j))" for e
    unfolding l Un_iff by (metis empty_iff insert_iff)
  show "entry_of (add_entry k t) k' = (if k' = k then Some (hbrk t) else entry_of t k')"
  proof (cases "k' = k")
    case True
    then show ?thesis using entry_of_Some[OF ok, of k "hbrk t"] new mem by simp
  next
    case False
    have "entry_of (add_entry k t) k' = Some e \<longleftrightarrow> entry_of t k' = Some e" for e
      using entry_of_Some[OF ok, of k' e] entry_of_Some[OF assms(1), of k' e] old new mem False nk by metis
    then show ?thesis using False by (metis option.exhaust)
  qed
  show "entry_of t k' = Some e \<Longrightarrow> e \<noteq> hbrk t \<and> hvalue (hmem (add_entry k t) e) = hvalue (hmem t e)"
    using entry_of_Some[OF assms(1), of k' e] hash_okD(2)[OF assms(1)] by (auto simp: add_entry_def)
qed

lemma entry_of_set_value [simp]: "entry_of (set_value e v t) k = entry_of t k"
  by (simp add: entry_of_def)

lemma hash_set:
  assumes "hash_ok t" "k \<noteq> []"
  shows "hash_ok (snd (bu_hash_set t (Some k) v))"
    "bu_hash_get (snd (bu_hash_set t (Some k) v)) (Some k') = (if k' = k then v else bu_hash_get t (Some k'))"
proof -
  have diff: "k1 = k2" if "entry_of t k1 = Some e" "entry_of t k2 = Some e" for e k1 k2
    using that entry_of_Some[OF assms(1)] by auto
  show "hash_ok (snd (bu_hash_set t (Some k) v))"
  proof (cases "entry_of t k")
    case None
    then show ?thesis using set_absent[OF assms(2) None, of v] add_entry_facts(1)[OF assms None] by simp
  qed (use set_present[OF assms] assms(1) in simp)
  show "bu_hash_get (snd (bu_hash_set t (Some k) v)) (Some k') = (if k' = k then v else bu_hash_get t (Some k'))"
  proof (cases "entry_of t k")
    case None
    note a = add_entry_facts[OF assms None]
    show ?thesis using a(2)[of k'] a(3)[of k'] set_absent[OF assms(2) None, of v] a(1) assms(1)
      by (auto simp: get_entry_of split: option.splits)
  next
    case (Some e)
    have "bu_hash_get (set_value e v t) (Some k')
        = (case entry_of t k' of None \<Rightarrow> None | Some x \<Rightarrow> if x = e then v else hvalue (hmem t x))"
      using assms(1) by (simp add: get_entry_of split: option.split)
    also have "\<dots> = (if k' = k then v else bu_hash_get t (Some k'))"
      using Some diff[OF Some, of k'] get_entry_of[OF assms(1), of k'] by (cases "entry_of t k'") auto
    finally show ?thesis using set_present[OF assms Some, of v] by simp
  qed
qed

interpretation hash: dictionary "\<lambda>t k. bu_hash_get t (Some k)" "\<lambda>k v t. snd (bu_hash_set t (Some k) (Some v))"
  hash_ok "\<lambda>k. k \<noteq> []"
  by unfold_locales (simp_all add: hash_set)

section \<open>Walking through a table\<close>

definition all_entries :: "'v bu_hash_tbl \<Rightarrow> nat list" where
  "all_entries t = concat (map (lists t) [0..<unat (num_lists t)])"

definition from_bin :: "'v bu_hash_tbl \<Rightarrow> nat \<Rightarrow> nat list" where
  "from_bin t j = concat (map (lists t) [j..<unat (num_lists t)])"

definition hd_opt :: "'a list \<Rightarrow> 'a option" where
  "hd_opt xs = (case xs of [] \<Rightarrow> None | x # _ \<Rightarrow> Some x)"

lemma hd_opt_simps [simp]: "hd_opt [] = None" "hd_opt (x # xs) = Some x"
  by (simp_all add: hd_opt_def)

lemma from_bin_step: "j < unat (num_lists t) \<Longrightarrow> from_bin t j = lists t j @ from_bin t (Suc j)"
  by (simp add: from_bin_def upt_conv_Cons)

lemma from_bin_end: "unat (num_lists t) \<le> j \<Longrightarrow> from_bin t j = []"
  by (simp add: from_bin_def)

lemma first_entry_hd: "first_entry ls l n = hd_opt (concat (map ls [l..<l + n]))"
proof (induction ls l n rule: first_entry.induct)
  case (2 ls l n)
  have "[l..<l + Suc n] = l # [l + 1..<l + 1 + n]" by (simp add: upt_conv_Cons)
  then show ?case using 2 by (cases "ls l") simp_all
qed simp

lemma first_entry_from:
  "first_entry (lists t) j (unat (num_lists t) - j) = hd_opt (from_bin t j)"
  by (cases "j \<le> unat (num_lists t)") (simp_all add: first_entry_hd from_bin_def)

text \<open>A place in the walk: entry \<open>e\<close> and what follows it.\<close>

definition at :: "'v bu_hash_tbl \<Rightarrow> nat \<Rightarrow> nat list \<Rightarrow> bool" where
  "at t e rest \<longleftrightarrow> (\<exists>j xs ys. lists t j = xs @ e # ys \<and> j < unat (num_lists t) \<and> rest = ys @ from_bin t (Suc j))"

lemma from_bin_at: "from_bin t j = e # rest \<Longrightarrow> at t e rest"
proof (induction "unat (num_lists t) - j" arbitrary: j)
  case 0
  then show ?case by (simp add: from_bin_end)
next
  case (Suc n)
  then have j: "j < unat (num_lists t)" by simp
  show ?case
  proof (cases "lists t j")
    case Nil
    then have "from_bin t (Suc j) = e # rest" using Suc(3) from_bin_step[OF j] by simp
    moreover have "n = unat (num_lists t) - Suc j" using Suc(2) by simp
    ultimately show ?thesis using Suc(1) by blast
  next
    case (Cons a ys)
    then have "lists t j = [] @ e # ys \<and> rest = ys @ from_bin t (Suc j)"
      using Suc(3) from_bin_step[OF j] by simp
    then show ?thesis using j unfolding at_def by blast
  qed
qed

lemma at_next: "at t e (e' # rest) \<Longrightarrow> at t e' rest"
proof -
  assume "at t e (e' # rest)"
  then obtain j xs ys where j: "lists t j = xs @ e # ys" "j < unat (num_lists t)" "e' # rest = ys @ from_bin t (Suc j)"
    by (auto simp: at_def)
  show ?thesis
  proof (cases ys)
    case Nil
    then show ?thesis using j(3) from_bin_at[of t "Suc j" e' rest] by simp
  next
    case (Cons y zs)
    then have "lists t j = (xs @ [e]) @ e' # zs \<and> rest = zs @ from_bin t (Suc j)" using j by simp
    then show ?thesis using j(2) unfolding at_def by blast
  qed
qed

text \<open>An entry with a null value that is not the last of its bin sends the walk back to the
  start.\<close>

definition stuck :: "'v bu_hash_tbl \<Rightarrow> nat \<Rightarrow> bool" where
  "stuck t e \<longleftrightarrow> hvalue (hmem t e) = None \<and> (\<exists>j xs n ys. lists t j = xs @ e # n # ys)"

lemma next_at:
  assumes "hash_ok t" "num_entries t \<noteq> 0" "at t e rest"
  shows "bu_hash_next t (Some e) = Some (if stuck t e then hd_opt (all_entries t) else hd_opt rest)"
proof -
  obtain j xs ys where j: "lists t j = xs @ e # ys" "j < unat (num_lists t)" "rest = ys @ from_bin t (Suc j)"
    using assms(3) by (auto simp: at_def)
  have m: "e \<in> set (lists t j)" using j(1) by simp
  have b: "hash_bin t (Some (ekey t e)) = j" by (rule hash_okD(4)[OF assms(1) m])
  have g: "bu_hash_get t (Some (ekey t e)) = hvalue (hmem t e)"
    using entry_of_Some[OF assms(1), of "ekey t e" e] m get_entry_of[OF assms(1)] by auto
  have d: "distinct (xs @ e # ys)" using bin_distinct[OF assms(1), of j] j(1) by simp
  then have dw: "dropWhile (\<lambda>x. x \<noteq> e) (lists t j) = e # ys"
    unfolding j(1) by (subst dropWhile_append2) auto
  have first: "first_entry (lists t) 0 (unat (num_lists t)) = hd_opt (all_entries t)"
    using first_entry_from[of t 0] by (simp add: from_bin_def all_entries_def)
  have s: "stuck t e \<longleftrightarrow> hvalue (hmem t e) = None \<and> ys \<noteq> []"
  proof
    assume "stuck t e"
    then obtain i us n vs where i: "hvalue (hmem t e) = None" "lists t i = us @ e # n # vs"
      by (auto simp: stuck_def)
    then have "i = j" using hash_okD(4)[OF assms(1), of e i] b by simp
    then have "dropWhile (\<lambda>x. x \<noteq> e) (us @ e # n # vs) = e # ys" using dw i(2) by simp
    moreover have "distinct (us @ e # n # vs)" using bin_distinct[OF assms(1), of i] i(2) by simp
    then have "dropWhile (\<lambda>x. x \<noteq> e) (us @ e # n # vs) = e # n # vs" by (subst dropWhile_append2) auto
    ultimately show "hvalue (hmem t e) = None \<and> ys \<noteq> []" using i(1) by auto
  next
    assume "hvalue (hmem t e) = None \<and> ys \<noteq> []"
    then show "stuck t e" using j(1) unfolding stuck_def by (metis list.exhaust)
  qed
  show ?thesis
  proof (cases ys)
    case Nil
    then show ?thesis using assms(2) b dw j(3) s first_entry_from[of t "Suc j"]
      by (simp add: bu_hash_next_def entry_next_def)
  next
    case (Cons n zs)
    then show ?thesis using assms(2) b dw j(3) s g first
      by (simp add: bu_hash_next_def entry_next_def)
  qed
qed

lemma next_start:
  "bu_hash_next t None = Some (if num_entries t = 0 then None else hd_opt (all_entries t))"
  using first_entry_from[of t 0] by (simp add: bu_hash_next_def from_bin_def all_entries_def)

lemma walk_all:
  assumes "hash_ok t" "num_entries t \<noteq> 0" "\<forall>e\<in>set (e # rest). \<not> stuck t e"
  shows "at t e rest \<Longrightarrow> length rest < n \<Longrightarrow> hash_walk n t (Some e) = Some (e # rest)"
  using assms(3)
proof (induction rest arbitrary: e n)
  case Nil
  then obtain m where "n = Suc m" by (cases n) auto
  then show ?case using next_at[OF assms(1,2) Nil(1)] Nil(3) by simp
next
  case (Cons e' rest)
  then obtain m where m: "n = Suc m" by (cases n) auto
  have "hash_walk m t (Some e') = Some (e' # rest)"
    using Cons.IH[OF at_next[OF Cons.prems(1)]] Cons.prems(2,3) m by simp
  then show ?case using next_at[OF assms(1,2) Cons.prems(1)] Cons.prems(3) m by simp
qed

lemma at_start: "all_entries t = e # rest \<Longrightarrow> at t e rest"
  using from_bin_at[of t 0] by (simp add: from_bin_def all_entries_def)

lemma walk_stuck:
  assumes "hash_ok t" "num_entries t \<noteq> 0" "stuck t b" "at t e rest" "b \<in> set (e # rest)"
  shows "hash_walk n t (Some e) = None"
  using assms(4,5)
proof (induction n arbitrary: e rest)
  case (Suc n)
  have "b \<in> set (all_entries t)"
  proof -
    obtain j xs m ys where "lists t j = xs @ b # m # ys" using assms(3) by (auto simp: stuck_def)
    then have "b \<in> set (lists t j)" by simp
    then show ?thesis using hash_okD(5)[OF assms(1)] unfolding all_entries_def by auto
  qed
  then obtain s ss where s: "all_entries t = s # ss" "b \<in> set (s # ss)" by (cases "all_entries t") auto
  show ?case
  proof (cases "stuck t e")
    case True
    then show ?thesis using next_at[OF assms(1,2) Suc.prems(1)] Suc.IH[OF at_start[OF s(1)] s(2)] s(1) by simp
  next
    case False
    then have "b \<in> set rest" using Suc.prems(2) assms(3) by auto
    then obtain e' rest' where "rest = e' # rest'" by (cases rest) auto
    then show ?thesis
      using next_at[OF assms(1,2) Suc.prems(1)] False Suc.IH[OF at_next] Suc.prems(1) \<open>b \<in> set rest\<close> by simp
  qed
qed simp

section \<open>Removing an entry\<close>

lemma rm_loop_cases:
  "rm_loop mem k prev [] = Some None"
  "length (hkey (mem e)) \<noteq> length k \<Longrightarrow> rm_loop mem k prev (e # es) = rm_loop mem k (prev @ [e]) es"
  "hkey (mem e) = k \<Longrightarrow> rm_loop mem k prev (e # es) = Some (Some (prev @ es))"
  by (subst rm_loop.simps; simp add: nhash_keycmp_eq)+

lemma rm_loop_steps:
  "\<forall>e\<in>set xs. length (hkey (mem e)) \<noteq> length k \<Longrightarrow> rm_loop mem k prev (xs @ rest) = rm_loop mem k (prev @ xs) rest"
  by (induction xs arbitrary: prev) (simp_all add: rm_loop_cases(2))

lemma rm_loop_forever:
  assumes "length (hkey (mem e)) = length k" "hkey (mem e) \<noteq> k"
  shows "rm_loop mem k prev (e # rest) = None"
proof -
  define P where "P m k' p r y \<longleftrightarrow> \<not> (r = e # rest \<and> k' = k \<and> m = mem)"
    for m k' and p :: "nat list" and r and y :: "nat list option"
  have "P mem' k' prev' rest' y" if "rm_loop mem' k' prev' rest' = Some y" for mem' k' prev' rest' y
  proof (rule rm_loop.raw_induct[OF _ that, of P])
    fix lp m k' p r y
    assume IH: "\<And>m k' p r y. lp m k' p r = Some y \<Longrightarrow> P m k' p r y"
      and eq: "(case r of [] \<Rightarrow> Some None
        | e # next \<Rightarrow> if length (hkey (m e)) \<noteq> length k' then lp m k' (p @ [e]) next
                      else if nhash_keycmp k' (hkey (m e)) (length k') then Some (Some (p @ next))
                      else lp m k' p r) = Some y"
    show "P m k' p r y"
    proof (rule ccontr)
      assume "\<not> P m k' p r y"
      then have q: "r = e # rest" "k' = k" "m = mem" by (simp_all add: P_def)
      then have "lp mem k p (e # rest) = Some y" using eq assms by (simp add: nhash_keycmp_eq)
      from IH[OF this] show False by (simp add: P_def)
    qed
  qed
  then have "\<not> rm_loop mem k prev (e # rest) = Some y" for y unfolding P_def by blast
  then show ?thesis by (metis option.exhaust)
qed

text \<open>What happens depends on the first entry of the bin whose key has the same length.\<close>

lemma rm_loop_result:
  "rm_loop mem k [] es =
    (case dropWhile (\<lambda>e. length (hkey (mem e)) \<noteq> length k) es of
       [] \<Rightarrow> Some None
     | e # next \<Rightarrow> if hkey (mem e) = k
                   then Some (Some (takeWhile (\<lambda>e. length (hkey (mem e)) \<noteq> length k) es @ next)) else None)"
proof -
  let ?P = "\<lambda>e. length (hkey (mem e)) \<noteq> length k"
  have "rm_loop mem k [] es = rm_loop mem k [] (takeWhile ?P es @ dropWhile ?P es)" by simp
  also have "\<dots> = rm_loop mem k (takeWhile ?P es) (dropWhile ?P es)"
    by (subst rm_loop_steps) (auto dest: set_takeWhileD)
  finally have r: "rm_loop mem k [] es = rm_loop mem k (takeWhile ?P es) (dropWhile ?P es)" .
  show ?thesis
  proof (cases "dropWhile ?P es")
    case Nil
    show ?thesis unfolding r Nil by (simp add: rm_loop_cases(1))
  next
    case (Cons e es')
    then have l: "length (hkey (mem e)) = length k" using hd_dropWhile[of ?P es] by simp
    show ?thesis
    proof (cases "hkey (mem e) = k")
      case True
      then show ?thesis unfolding r Cons by (simp add: rm_loop_cases(3))
    next
      case False
      then show ?thesis unfolding r Cons using rm_loop_forever[where mem = mem and e = e, OF l False] by simp
    qed
  qed
qed

lemma filter_dropWhile: "filter (\<lambda>x. \<not> P x) xs = (case dropWhile P xs of [] \<Rightarrow> [] | e # es \<Rightarrow> e # filter (\<lambda>x. \<not> P x) es)"
  by (induction xs) auto

lemma hash_unlink:
  assumes "hash_ok t" "lists t i = xs @ e # ys"
  defines "t' \<equiv> t\<lparr>lists := (lists t)(i := xs @ ys)\<rparr>"
  shows "hash_ok t'" "bu_hash_get t' (Some k) = (if k = ekey t e then None else bu_hash_get t (Some k))"
proof -
  have m: "(\<exists>j. a \<in> set (lists t' j)) \<longleftrightarrow> a \<noteq> e \<and> (\<exists>j. a \<in> set (lists t j))" for a
  proof -
    have "e \<notin> set (lists t' j)" for j
    proof
      assume e: "e \<in> set (lists t' j)"
      have "j \<noteq> i"
        using e bin_distinct[OF assms(1), of i] assms(2) by (auto simp: t'_def)
      moreover have "e \<in> set (lists t i)" using assms(2) by simp
      ultimately show False using hash_okD(4)[OF assms(1)] e by (auto simp: t'_def)
    qed
    moreover have "a \<in> set (lists t' j) \<longleftrightarrow> a \<in> set (lists t j)" if "a \<noteq> e" for j
      using that assms(2) by (auto simp: t'_def)
    ultimately show ?thesis by blast
  qed
  have s: "set (lists t' j) \<subseteq> set (lists t j)" for j using assms(2) by (auto simp: t'_def)
  have "distinct (map (ekey t) (lists t' j))" for j
    using hash_okD(1)[OF assms(1), of j] hash_okD(1)[OF assms(1), of i] assms(2) by (auto simp: t'_def)
  moreover have same: "ekey t' = ekey t" "hash_bin t' = hash_bin t" "hbrk t' = hbrk t" "num_lists t' = num_lists t"
    "hmask t' = hmask t" "num_entries t' = num_entries t" "hmem t' = hmem t"
    by (auto simp: t'_def hash_bin_def)
  ultimately show ok: "hash_ok t'" using assms(1) s unfolding hash_ok_def same by blast
  have "entry_of t' k = Some a \<longleftrightarrow> a \<noteq> e \<and> entry_of t k = Some a" for a
    unfolding entry_of_Some[OF ok] entry_of_Some[OF assms(1)] m same(7) by blast
  moreover have "entry_of t (ekey t e) = Some e" "entry_of t k = Some e \<Longrightarrow> k = ekey t e"
    using entry_of_Some[OF assms(1), of "ekey t e" e] entry_of_Some[OF assms(1), of k e]
      arg_cong[OF assms(2), of set] by auto
  ultimately have "entry_of t' k = (if k = ekey t e then None else entry_of t k)"
    by (metis (full_types) option.exhaust option.inject)
  then show "bu_hash_get t' (Some k) = (if k = ekey t e then None else bu_hash_get t (Some k))"
    using get_entry_of[OF ok, of k] get_entry_of[OF assms(1), of k] same(7) by (simp split: option.split)
qed

text \<open>Tables for the examples: the one-byte keys 1 and 65 share a bin.\<close>

definition two_keys :: "string option \<Rightarrow> string option \<Rightarrow> string bu_hash_tbl" where
  "two_keys v w = snd (bu_hash_set (snd (bu_hash_set (bu_hash_create 0) (Some [1]) v)) (Some [65]) w)"

lemma two_keys_facts:
  "hash_ok (two_keys v w)" "hbrk (two_keys v w) = 2" "lists (two_keys v w) 38 = [0, 1]"
  "hash_bin (two_keys v w) (Some [1]) = 38" "hash_bin (two_keys v w) (Some [65]) = 38"
  "ekey (two_keys v w) 0 = [1]" "ekey (two_keys v w) 1 = [65]"
  "hvalue (hmem (two_keys v w) 0) = v" "hvalue (hmem (two_keys v w) 1) = w"
  "j \<noteq> 38 \<Longrightarrow> lists (two_keys v w) j = []"
proof -
  show "hash_ok (two_keys v w)" unfolding two_keys_def by (intro hash_set(1) create_ok) simp_all
  show "hbrk (two_keys v w) = 2" "lists (two_keys v w) 38 = [0, 1]"
  "hash_bin (two_keys v w) (Some [1]) = 38" "hash_bin (two_keys v w) (Some [65]) = 38"
  "ekey (two_keys v w) 0 = [1]" "ekey (two_keys v w) 1 = [65]"
  "hvalue (hmem (two_keys v w) 0) = v" "hvalue (hmem (two_keys v w) 1) = w" by code_simp+
  show "j \<noteq> 38 \<Longrightarrow> lists (two_keys v w) j = []" by (code_simp, auto)
qed

section \<open>Properties\<close>

text \<open>\<open>bu_hash_create\<close> makes an empty table of \<open>2 ^ k\<close> bins, at least 64 and at least as many
  as asked for as far as that is below \<open>2 ^ 63\<close>; its mask selects exactly the bins.\<close>

theorem hash_create_bins:
  "let t = bu_hash_create n in hash_ok t \<and> (\<forall>key. bu_hash_get t key = None)
    \<and> (\<exists>k\<ge>6. k \<le> 63 \<and> unat (num_lists t) = 2 ^ k \<and> unat (hmask t) = 2 ^ k - 1
           \<and> min (unat n) (2 ^ 63) \<le> 2 ^ k)"
proof -
  have "\<exists>k\<ge>6. k \<le> 63 \<and> unat (num_lists t) = 2 ^ k \<and> unat (hmask t) = 2 ^ k - 1 \<and> min (unat n) (2 ^ 63) \<le> 2 ^ k"
    if t: "t = bu_hash_create n" for t :: "'a bu_hash_tbl"
  proof -
    obtain k where k: "k \<ge> 6" "k \<le> 63" "unat (num_lists t) = 2 ^ k" "unat (hmask t) = 2 ^ k - 1"
      "k < 63 \<longrightarrow> unat n \<le> 2 ^ k"
      using create_size[OF t] by blast
    moreover have "min (unat n) (2 ^ 63) \<le> 2 ^ k" using k(2,5) by (cases "k = 63") auto
    ultimately show ?thesis by blast
  qed
  from this[OF refl] show ?thesis unfolding Let_def using create_ok get_create by blast
qed

definition store_all :: "(byte list \<times> 'v) list \<Rightarrow> 'v bu_hash_tbl \<Rightarrow> 'v bu_hash_tbl" where
  "store_all kvs t = fold (\<lambda>(k, v) t. snd (bu_hash_set t (Some k) (Some v))) kvs t"

lemma store_all_put: "store_all kvs t = hash.put_all kvs t"
  by (induction kvs t rule: hash.put_all.induct) (simp_all add: store_all_def)

text \<open>C30: a hash table is a finite map: whatever pairs are stored in a new table one after the
  other, under any keys but the empty one, a lookup finds the value that was stored last
  under its key, and nothing under a key that was never stored; no key is in the table
  twice.\<close>

theorem hash_table_is_map:
  assumes "\<forall>(k, v)\<in>set kvs. k \<noteq> []"
  shows "bu_hash_get (store_all kvs (bu_hash_create n)) (Some k) = map_of (rev kvs) k
    \<and> hash_ok (store_all kvs (bu_hash_create n))"
  using hash.find_put_all[OF create_ok assms] hash.inv_put_all[OF create_ok assms]
  by (simp add: store_all_put get_create split: option.split)

lemma hash_table_is_map_witness:
  "bu_hash_get (store_all [([1], ''a''), ([65], ''b''), ([1], ''c'')] (bu_hash_create 10)) (Some [1]) = Some ''c''"
  using hash_table_is_map[of "[([1], ''a''), ([65], ''b''), ([1], ''c'')]" 10 "[1]"] by simp

lemma no_entries:
  assumes "hash_ok t" "hbrk t < 2 ^ 64" "num_entries t = 0"
  shows "all_entries t = []"
proof -
  have "unat (num_entries t) = hbrk t" using assms(1,2) by (simp add: hash_ok_def unat_of_nat)
  then have "hbrk t = 0" using assms(3) by simp
  then have "e \<notin> set (lists t j)" for e j using hash_okD(2)[OF assms(1), of e j] by linarith
  then have "lists t j = []" for j by (metis list.set_intros(1) neq_Nil_conv)
  then show ?thesis by (simp add: all_entries_def)
qed

lemma all_entries_set:
  assumes "hash_ok t"
  shows "distinct (all_entries t)" "e \<in> set (all_entries t) \<longleftrightarrow> (\<exists>j. e \<in> set (lists t j))"
    "length (all_entries t) \<le> hbrk t"
proof -
  show mem: "e \<in> set (all_entries t) \<longleftrightarrow> (\<exists>j. e \<in> set (lists t j))" for e
    using hash_okD(5)[OF assms] by (auto simp: all_entries_def)
  have "distinct (concat (map (lists t) js))" if "distinct js" for js
    using that
  proof (induction js)
    case (Cons j js)
    have "set (lists t j) \<inter> set (lists t i) = {}" if "i \<noteq> j" for i
      using hash_okD(4)[OF assms, of _ j] hash_okD(4)[OF assms, of _ i] that by blast
    then have "set (lists t j) \<inter> set (concat (map (lists t) js)) = {}" using Cons.prems by fastforce
    then show ?case using Cons bin_distinct[OF assms, of j] by simp
  qed simp
  then show d: "distinct (all_entries t)" by (simp add: all_entries_def)
  have "set (all_entries t) \<subseteq> {..<hbrk t}" using mem hash_okD(2)[OF assms] by auto
  then show "length (all_entries t) \<le> hbrk t"
    using distinct_card[OF d] card_mono[of "{..<hbrk t}" "set (all_entries t)"] by simp
qed

text \<open>C31: going through a table with \<open>bu_hash_next\<close> as all its callers do ends, after at most as
  many steps as entries were ever made, and visits each key with a value exactly once,
  provided that no value is a null pointer.\<close>

theorem hash_walk_complete:
  assumes "hash_ok t" "hbrk t < 2 ^ 64" "\<forall>j. \<forall>e\<in>set (lists t j). hvalue (hmem t e) \<noteq> None"
  shows "\<exists>e es. bu_hash_next t None = Some e \<and> hash_walk (hbrk t) t e = Some es \<and> distinct (map (ekey t) es)
    \<and> (\<forall>k v. (\<exists>e\<in>set es. ekey t e = k \<and> hvalue (hmem t e) = Some v) \<longleftrightarrow> bu_hash_get t (Some k) = Some v)"
proof -
  note a = all_entries_set[OF assms(1)]
  have w: "\<exists>e. bu_hash_next t None = Some e \<and> hash_walk (hbrk t) t e = Some (all_entries t)"
  proof (cases "all_entries t")
    case Nil
    then show ?thesis by (simp add: next_start)
  next
    case (Cons e rest)
    then have "num_entries t \<noteq> 0" using no_entries[OF assms(1,2)] by auto
    moreover have "\<not> stuck t x" for x
    proof
      assume "stuck t x"
      then obtain j xs n ys where "hvalue (hmem t x) = None" "lists t j = xs @ x # n # ys" by (auto simp: stuck_def)
      then show False using spec[OF assms(3), of j] by simp
    qed
    moreover have "length rest < hbrk t" using a(3) Cons by simp
    ultimately show ?thesis using walk_all[OF assms(1) _ _ at_start[OF Cons], of "hbrk t"] Cons
      by (simp add: next_start)
  qed
  have inj: "inj_on (ekey t) (set (all_entries t))"
    using same_key_same_entry[OF assms(1)] a(2) by (fastforce intro: inj_onI)
  then have "distinct (map (ekey t) (all_entries t))" using a(1) by (simp add: distinct_map)
  moreover have "(\<exists>e\<in>set (all_entries t). ekey t e = k \<and> hvalue (hmem t e) = Some v)
      \<longleftrightarrow> bu_hash_get t (Some k) = Some v" for k v
  proof -
    have "(\<exists>e\<in>set (all_entries t). ekey t e = k \<and> hvalue (hmem t e) = Some v)
        \<longleftrightarrow> (\<exists>e. entry_of t k = Some e \<and> hvalue (hmem t e) = Some v)"
      unfolding Bex_def a(2) entry_of_Some[OF assms(1)] by blast
    also have "\<dots> \<longleftrightarrow> bu_hash_get t (Some k) = Some v"
      using get_entry_of[OF assms(1), of k] by (cases "entry_of t k") auto
    finally show ?thesis .
  qed
  ultimately show ?thesis using w by blast
qed

lemma hash_walk_complete_witness:
  "\<exists>e es. bu_hash_next (two_keys (Some ''a'') (Some ''b'')) None = Some e
    \<and> hash_walk 2 (two_keys (Some ''a'') (Some ''b'')) e = Some es"
proof -
  let ?t = "two_keys (Some ''a'') (Some ''b'')"
  have "\<forall>e\<in>set (lists ?t j). hvalue (hmem ?t e) \<noteq> None" for j
    using two_keys_facts(3,8,9,10) by (cases "j = 38") auto
  then have v: "\<forall>j. \<forall>e\<in>set (lists ?t j). hvalue (hmem ?t e) \<noteq> None" by blast
  from hash_walk_complete[OF two_keys_facts(1) _ v] show ?thesis by (auto simp: two_keys_facts(2))
qed

text \<open>C32: an entry whose value is a null pointer and that is not the last of its bin sends the
  walk back to the first entry: a caller that goes through such a table never ends.\<close>

theorem hash_walk_null_value:
  assumes "hash_ok t" "hbrk t < 2 ^ 64" "lists t j = xs @ e # n # ys" "hvalue (hmem t e) = None"
  shows "\<exists>s. bu_hash_next t None = Some s \<and> (\<forall>m. hash_walk m t s = None)"
proof -
  have st: "stuck t e" using assms(3,4) by (auto simp: stuck_def)
  have "e \<in> set (all_entries t)" using all_entries_set(2)[OF assms(1)] assms(3) by (metis in_set_conv_decomp)
  then obtain s ss where s: "all_entries t = s # ss" "e \<in> set (s # ss)" by (cases "all_entries t") auto
  then have "num_entries t \<noteq> 0" using no_entries[OF assms(1,2)] by auto
  then show ?thesis
    using walk_stuck[OF assms(1) _ st at_start[OF s(1)] s(2)] s(1) by (simp add: next_start)
qed

lemma hash_walk_null_value_witness:
  "\<exists>s. bu_hash_next (two_keys None (Some ''b'')) None = Some s \<and> hash_walk 1000 (two_keys None (Some ''b'')) s = None"
  using hash_walk_null_value[OF two_keys_facts(1), of None "Some ''b''" 38 "[]" 0 1 "[]"]
    two_keys_facts(2,3,8)[of None "Some ''b''"] by auto

text \<open>C33: \<open>bu_hash_rm\<close> works only when the entry is the first one of its bin with a key of that
  length, and then removes just this key; when another key of the same length comes first
  it never returns, and when the bin holds no key of that length it follows a null
  pointer.\<close>

theorem hash_rm_outcome:
  assumes "hash_ok t" "k \<noteq> []"
  defines "es \<equiv> lists t (hash_bin t (Some k))"
  defines "same \<equiv> filter (\<lambda>e. length (ekey t e) = length k) es"
  shows "(es = [] \<longrightarrow> bu_hash_rm t (Some k) = Some (Some t))
    \<and> (es \<noteq> [] \<and> same = [] \<longrightarrow> bu_hash_rm t (Some k) = Some None)
    \<and> (same \<noteq> [] \<and> ekey t (hd same) \<noteq> k \<longrightarrow> bu_hash_rm t (Some k) = None)
    \<and> (same \<noteq> [] \<and> ekey t (hd same) = k \<longrightarrow>
        (\<exists>t'. bu_hash_rm t (Some k) = Some (Some t') \<and> hash_ok t'
          \<and> (\<forall>k'. bu_hash_get t' (Some k') = (if k' = k then None else bu_hash_get t (Some k')))))"
proof -
  let ?P = "\<lambda>e. length (ekey t e) \<noteq> length k"
  have rm: "bu_hash_rm t (Some k) = (if es = [] then Some (Some t)
      else map_option (map_option (\<lambda>c. t\<lparr>lists := (lists t)(hash_bin t (Some k) := c)\<rparr>)) (rm_loop (hmem t) k [] es))"
    using assms(2) by (simp add: bu_hash_rm_def key_of_def es_def Let_def)
  have same: "same = (case dropWhile ?P es of [] \<Rightarrow> [] | e # es' \<Rightarrow> e # filter (\<lambda>e. length (ekey t e) = length k) es')"
    using filter_dropWhile[of ?P es] unfolding same_def not_not .
  show ?thesis
  proof (cases "dropWhile ?P es")
    case Nil
    have "same = []" unfolding same Nil by simp
    moreover have "rm_loop (hmem t) k [] es = Some None"
      unfolding rm_loop_result Nil by simp
    ultimately show ?thesis using rm by simp
  next
    case (Cons e es')
    then have ne: "es \<noteq> []" and hd: "same \<noteq> [] \<and> hd same = e" using same by auto
    show ?thesis
    proof (cases "ekey t e = k")
      case False
      then have "rm_loop (hmem t) k [] es = None" unfolding rm_loop_result Cons by simp
      then show ?thesis using rm ne hd False by simp
    next
      case True
      then have "rm_loop (hmem t) k [] es = Some (Some (takeWhile ?P es @ es'))" unfolding rm_loop_result Cons by simp
      moreover have split: "lists t (hash_bin t (Some k)) = takeWhile ?P es @ e # es'"
        using takeWhile_dropWhile_id[of ?P es, unfolded Cons, symmetric] unfolding es_def .
      ultimately show ?thesis using rm ne hd True hash_unlink[OF assms(1) split] by simp
    qed
  qed
qed

lemma hash_rm_outcome_witness:
  "bu_hash_rm (two_keys (Some ''a'') (Some ''b'')) (Some [65]) = None"
  using hash_rm_outcome[OF two_keys_facts(1), of "[65]" "Some ''a''" "Some ''b''"]
    two_keys_facts(3,5,6,7)[of "Some ''a''" "Some ''b''"] by simp

end
