(* ===== verification/CsgGift.thy ===== *)
theory CsgGift
  imports CsgTree
begin

text \<open>
  The conversions between boolean trees and the flat member lists of the GIFT-style
  v4 format (\<open>librt/comb/db_comb.c\<close>): \<open>db_tree_nleaves\<close>, \<open>db_flatten_tree\<close>,
  \<open>db_ck_left_heavy_tree\<close>, \<open>db_ck_v4gift_tree\<close>, \<open>db_mkbool_tree\<close> and
  \<open>db_mkgift_tree\<close>.  An \<open>rt_tree_array\<close> entry is a pair of operator and tree
  pointer, \<open>None\<close> being \<open>TREE_NULL\<close>; the array a routine is given is the list of
  its entries from the pointer on.
\<close>

type_synonym 'm tree_array = "(binop \<times> 'm tree option) list"

section \<open>Flattening and checking\<close>

fun db_tree_nleaves :: "'m tree option \<Rightarrow> nat option" where
  "db_tree_nleaves None = Some 0"
| "db_tree_nleaves (Some OP_NOP) = Some 0"
| "db_tree_nleaves (Some (Leaf (OP_NMG_TESS n r))) = None"
| "db_tree_nleaves (Some (Leaf l)) = Some 1"
| "db_tree_nleaves (Some (Unary u t)) = db_tree_nleaves (Some t)"
| "db_tree_nleaves (Some (Binary b l r)) =
     do { x \<leftarrow> db_tree_nleaves (Some l);
          y \<leftarrow> db_tree_nleaves (Some r);
          Some (x + y) }"

fun db_flatten_tree :: "'m tree \<Rightarrow> binop \<Rightarrow> 'm tree_array option" where
  "db_flatten_tree (Leaf (OP_DB_LEAF n m)) op = Some [(op, Some (Leaf (OP_DB_LEAF n m)))]"
| "db_flatten_tree (Binary OP_XOR l r) op = None"
| "db_flatten_tree (Binary b l r) op =
     do { xs \<leftarrow> db_flatten_tree l op;
          ys \<leftarrow> db_flatten_tree r b;
          Some (xs @ ys) }"
| "db_flatten_tree _ op = None"

fun db_ck_left_heavy_tree :: "'m tree \<Rightarrow> bool \<Rightarrow> int option" where
  "db_ck_left_heavy_tree (Leaf (OP_DB_LEAF n m)) no_unions = Some 0"
| "db_ck_left_heavy_tree (Binary b l r) no_unions =
     (if b = OP_UNION \<and> no_unions then Some (- 1)
      else do { rc \<leftarrow> db_ck_left_heavy_tree r no_unions;
                (if rc < 0 then Some (- 1) else db_ck_left_heavy_tree l no_unions) })"
| "db_ck_left_heavy_tree _ no_unions = None"

fun db_ck_v4gift_tree :: "'m tree \<Rightarrow> int option" where
  "db_ck_v4gift_tree (Leaf (OP_DB_LEAF n m)) = Some 0"
| "db_ck_v4gift_tree (Binary OP_UNION l r) =
     do { rc \<leftarrow> db_ck_v4gift_tree l;
          (if rc < 0 then Some (- 1) else db_ck_v4gift_tree r) }"
| "db_ck_v4gift_tree (Binary b l r) = db_ck_left_heavy_tree (Binary b l r) True"
| "db_ck_v4gift_tree _ = None"

section \<open>Building a tree from a list\<close>

fun mkbool_rest :: "'m tree \<Rightarrow> 'm tree_array \<Rightarrow> 'm tree" where
  "mkbool_rest curtree [] = curtree"
| "mkbool_rest curtree ((op, None) # tlp) = mkbool_rest curtree tlp"
| "mkbool_rest curtree ((op, Some t) # tlp) = mkbool_rest (Binary op curtree t) tlp"

definition in_use :: "'m tree_array \<Rightarrow> nat" where
  "in_use slots = length (filter (\<lambda>s. snd s \<noteq> None) slots)"

definition empty_slot :: "binop \<times> 'm tree option \<Rightarrow> binop \<times> 'm tree option" where
  "empty_slot s = (fst s, None)"

text \<open>The first \<open>howfar\<close> entries are the argument; the result is the tree and those
  entries afterwards: each tree that was used is replaced by \<open>TREE_NULL\<close>.\<close>

fun db_mkbool_tree :: "'m tree_array \<Rightarrow> 'm tree option \<times> 'm tree_array" where
  "db_mkbool_tree [] = (None, [])"
| "db_mkbool_tree ((op, None) # slots) =
     (let (t, slots') = db_mkbool_tree slots in (t, (op, None) # slots'))"
| "db_mkbool_tree ((op, Some t) # slots) =
     (if in_use slots = 0 then (Some t, (op, None) # slots)
      else (Some (mkbool_rest t slots), (OP_UNION, None) # map empty_slot slots))"

text \<open>The loop of \<open>db_mkgift_tree\<close>: \<open>i + 1\<close> iterations are left; \<open>tstart\<close> and
  \<open>tnext\<close> are indices into \<open>trees\<close>.\<close>

fun mkgift_loop :: "nat \<Rightarrow> 'm tree_array \<Rightarrow> nat \<Rightarrow> nat \<Rightarrow> 'm tree_array" where
  "mkgift_loop 0 trees tstart tnext = trees"
| "mkgift_loop (Suc i) trees tstart tnext =
     (if i > 0 \<and> fst (trees ! tnext) \<noteq> OP_UNION then mkgift_loop i trees tstart (tnext + 1)
      else let j = tnext - tstart in
           if j = 0 then mkgift_loop i trees tstart (tnext + 1)
           else let (curtree, slots) = db_mkbool_tree (take j (drop tstart trees));
                    trees = take tstart trees @ slots @ drop tnext trees
                in mkgift_loop i (trees[tstart := (OP_UNION, curtree)]) tnext (tnext + 1))"

definition db_mkgift_tree :: "'m tree_array \<Rightarrow> 'm tree option" where
  "db_mkgift_tree trees = fst (db_mkbool_tree (mkgift_loop (length trees) trees 0 1))"

section \<open>How GIFT reads a list\<close>

text \<open>Expressions between unions are evaluated first, from left to right.\<close>

fun gift_terms :: "'m tree \<Rightarrow> (binop \<times> 'm tree) list \<Rightarrow> 'm tree list" where
  "gift_terms cur [] = [cur]"
| "gift_terms cur ((op, t) # ms) =
     (if op = OP_UNION then cur # gift_terms t ms else gift_terms (Binary op cur t) ms)"

fun union_all :: "'m tree \<Rightarrow> 'm tree list \<Rightarrow> 'm tree" where
  "union_all cur [] = cur"
| "union_all cur (t # ts) = union_all (Binary OP_UNION cur t) ts"

definition slot_of :: "binop \<times> 'm tree \<Rightarrow> binop \<times> 'm tree option" where
  "slot_of m = (fst m, Some (snd m))"

lemma length_mkbool_slots [simp]: "length (snd (db_mkbool_tree slots)) = length slots"
  by (induction slots rule: db_mkbool_tree.induct) (auto split: prod.splits)

lemma in_use_slots [simp]: "in_use (map slot_of ms) = length ms"
  by (induction ms) (auto simp: in_use_def slot_of_def)

text \<open>What the loop leaves in the array, group by group.\<close>

definition squash :: "'m tree_array \<Rightarrow> 'm tree_array" where
  "squash g = (case db_mkbool_tree g of (t, slots) \<Rightarrow> slots[0 := (OP_UNION, t)])"

fun regroup :: "'m tree_array \<Rightarrow> 'm tree_array \<Rightarrow> 'm tree_array" where
  "regroup g [] = squash g"
| "regroup g (s # r) =
     (if fst s \<noteq> OP_UNION then regroup (g @ [s]) r else squash g @ regroup [s] r)"

lemma length_squash [simp]: "length (squash g) = length g"
  by (simp add: squash_def split: prod.splits) (metis length_mkbool_slots snd_conv)

lemma mkgift_loop_regroup:
  "g \<noteq> [] \<Longrightarrow> mkgift_loop (Suc (length r)) (d @ g @ r) (length d) (length d + length g)
     = d @ regroup g r"
proof (induction r arbitrary: d g)
  case Nil
  obtain t slots where m: "db_mkbool_tree g = (t, slots)" by fastforce
  then have "length slots = length g" by (metis length_mkbool_slots snd_conv)
  with Nil show ?case by (simp add: m squash_def list_update_append Let_def)
next
  case (Cons s r)
  show ?case
  proof (cases "fst s = OP_UNION")
    case False
    have "mkgift_loop (Suc (length r)) (d @ (g @ [s]) @ r) (length d) (length d + length (g @ [s]))
        = d @ regroup (g @ [s]) r"
      by (rule Cons.IH) simp
    with False show ?thesis by (simp add: nth_append)
  next
    case True
    obtain t slots where m: "db_mkbool_tree g = (t, slots)" by fastforce
    then have l: "length slots = length g" by (metis length_mkbool_slots snd_conv)
    have "mkgift_loop (Suc (length (s # r))) (d @ g @ s # r) (length d) (length d + length g)
        = mkgift_loop (length (s # r)) ((d @ slots @ s # r)[length d := (OP_UNION, t)])
            (length d + length g) (length d + length g + 1)"
      using True Cons.prems m by (subst mkgift_loop.simps(2)) (simp add: nth_append Let_def)
    moreover have "mkgift_loop (Suc (length r)) ((d @ squash g) @ [s] @ r) (length (d @ squash g))
        (length (d @ squash g) + length [s]) = (d @ squash g) @ regroup [s] r"
      by (rule Cons.IH) simp
    moreover have "(d @ slots @ s # r)[length d := (OP_UNION, t)] = (d @ squash g) @ [s] @ r"
      using Cons.prems l by (cases slots) (simp_all add: m squash_def list_update_append)
    ultimately show ?thesis using True by (simp del: mkgift_loop.simps)
  qed
qed

lemma mkbool_rest_append: "mkbool_rest c (xs @ ys) = mkbool_rest (mkbool_rest c xs) ys"
  by (induction c xs rule: mkbool_rest.induct) auto

lemma mkbool_rest_empty: "mkbool_rest c (map empty_slot xs) = c"
  by (induction xs) (auto simp: empty_slot_def)

lemma mkbool_rest_empty' [simp]: "mkbool_rest c (map (empty_slot \<circ> f) xs) = c"
  using mkbool_rest_empty[of c "map f xs"] by simp

lemma mkbool_members:
  "db_mkbool_tree (slot_of (op, t) # map slot_of ms) =
     (Some (mkbool_rest t (map slot_of ms)),
      (if ms = [] then op else OP_UNION, None) # map empty_slot (map slot_of ms))"
  by (cases ms) (auto simp: slot_of_def in_use_def)

lemma squash_members:
  "squash (slot_of (op, t) # map slot_of ms) =
     (OP_UNION, Some (mkbool_rest t (map slot_of ms))) # map empty_slot (map slot_of ms)"
  by (simp only: squash_def mkbool_members) simp

lemma mkbool_rest_regroup:
  "mkbool_rest c (regroup (map slot_of ((op, t) # g)) (map slot_of r)) =
     union_all c (gift_terms (mkbool_rest t (map slot_of g)) r)"
proof (induction r arbitrary: c op t g)
  case Nil
  then show ?case by (simp add: squash_members mkbool_rest_empty)
next
  case (Cons m r)
  obtain op' t' where m: "m = (op', t')" by fastforce
  show ?case
  proof (cases "op' = OP_UNION")
    case True
    have "mkbool_rest c (regroup (map slot_of ((op, t) # g)) (map slot_of (m # r)))
        = mkbool_rest (mkbool_rest c (squash (map slot_of ((op, t) # g))))
            (regroup (map slot_of [(op', t')]) (map slot_of r))"
      using True by (simp add: m slot_of_def mkbool_rest_append)
    then show ?thesis
      using True Cons.IH[of _ op' t' "[]"]
      by (simp add: m squash_members mkbool_rest_empty)
  next
    case False
    have "regroup (map slot_of ((op, t) # g)) (map slot_of (m # r))
        = regroup (map slot_of ((op, t) # (g @ [m]))) (map slot_of r)"
      using False by (simp add: m slot_of_def)
    then show ?thesis
      using False by (simp only: Cons.IH) (simp add: m slot_of_def mkbool_rest_append)
  qed
qed

lemma regroup_first:
  "\<exists>rest. regroup (map slot_of ((op, t) # g)) (map slot_of r) =
     (OP_UNION, Some (hd (gift_terms (mkbool_rest t (map slot_of g)) r))) # rest
   \<and> mkbool_rest (hd (gift_terms (mkbool_rest t (map slot_of g)) r)) rest =
       union_all (hd (gift_terms (mkbool_rest t (map slot_of g)) r))
         (tl (gift_terms (mkbool_rest t (map slot_of g)) r))"
proof (induction r arbitrary: g)
  case Nil
  then show ?case by (simp add: squash_members mkbool_rest_empty)
next
  case (Cons m r)
  obtain op' t' where m: "m = (op', t')" by fastforce
  show ?case
  proof (cases "op' = OP_UNION")
    case True
    have "regroup (map slot_of ((op, t) # g)) (map slot_of (m # r))
        = squash (map slot_of ((op, t) # g)) @ regroup (map slot_of [(op', t')]) (map slot_of r)"
      using True by (simp add: m slot_of_def)
    then show ?thesis
      using True mkbool_rest_regroup[of _ op' t' "[]" r]
      by (simp add: squash_members m mkbool_rest_append mkbool_rest_empty)
  next
    case False
    have "regroup (map slot_of ((op, t) # g)) (map slot_of (m # r))
        = regroup (map slot_of ((op, t) # (g @ [m]))) (map slot_of r)"
      using False by (simp add: m slot_of_def)
    then show ?thesis
      using False Cons.IH[of "g @ [m]"] by (simp add: m slot_of_def mkbool_rest_append)
  qed
qed

lemma db_mkbool_tree_value:
  "fst (db_mkbool_tree ((op, Some t) # slots)) = Some (mkbool_rest t slots)"
proof -
  have "in_use slots = 0 \<Longrightarrow> mkbool_rest t slots = t"
    by (induction t slots rule: mkbool_rest.induct) (auto simp: in_use_def)
  then show ?thesis by simp
qed

lemma db_mkgift_tree_terms:
  "db_mkgift_tree (map slot_of ((op, t) # ms))
     = Some (union_all (hd (gift_terms t ms)) (tl (gift_terms t ms)))"
proof -
  have "mkgift_loop (length (map slot_of ((op, t) # ms))) (map slot_of ((op, t) # ms)) 0 1
      = regroup (map slot_of [(op, t)]) (map slot_of ms)"
    using mkgift_loop_regroup[of "map slot_of [(op, t)]" "map slot_of ms" "[]"] by simp
  then show ?thesis
    using regroup_first[of op t "[]" ms]
    by (auto simp: db_mkgift_tree_def db_mkbool_tree_value simp del: db_mkbool_tree.simps)
qed


section \<open>Trees in GIFT form\<close>

text \<open>What the comment on \<open>db_ck_v4gift_tree\<close> asks for: unions at the root only, and
  nothing but leaves on the right of any other operator.\<close>

fun gift_term :: "'m tree \<Rightarrow> bool" where
  "gift_term (Leaf (OP_DB_LEAF n m)) = True"
| "gift_term (Binary b l (Leaf (OP_DB_LEAF n m))) =
     ((b = OP_INTERSECT \<or> b = OP_SUBTRACT) \<and> gift_term l)"
| "gift_term _ = False"

fun gift_tree :: "'m tree \<Rightarrow> bool" where
  "gift_tree (Binary OP_UNION l r) = (gift_tree l \<and> gift_tree r)"
| "gift_tree t = gift_term t"

definition union_inside :: "('m leaf \<Rightarrow> bool) \<Rightarrow> 'm tree list \<Rightarrow> bool" where
  "union_inside \<rho> ts \<longleftrightarrow> (\<exists>t\<in>set ts. inside \<rho> t)"

lemma union_all_inside: "inside \<rho> (union_all c ts) \<longleftrightarrow> inside \<rho> c \<or> union_inside \<rho> ts"
  by (induction c ts rule: union_all.induct) (auto simp: union_inside_def)

lemma union_all_leaves: "leaves (union_all c ts) = leaves c @ concat (map leaves ts)"
  by (induction c ts rule: union_all.induct) auto

lemma gift_terms_nonempty: "gift_terms t ms \<noteq> []"
  by (induction t ms rule: gift_terms.induct) auto

lemma gift_terms_leaves:
  "concat (map leaves (gift_terms t ms)) = leaves t @ concat (map (leaves \<circ> snd) ms)"
  by (induction t ms rule: gift_terms.induct) auto

lemma gift_terms_append_union:
  "gift_terms t (xs @ (OP_UNION, u) # ys) = gift_terms t xs @ gift_terms u ys"
  by (induction t xs rule: gift_terms.induct) auto

text \<open>Flattening a term appends a chain of members whose operators are not unions.\<close>

lemma flatten_term:
  "gift_term t \<Longrightarrow> \<exists>u ms. db_flatten_tree t op = Some (map slot_of ((op, u) # ms))
     \<and> (\<forall>m\<in>set ms. fst m \<noteq> OP_UNION) \<and> foldl (\<lambda>c m. Binary (fst m) c (snd m)) u ms = t"
proof (induction t rule: gift_term.induct)
  case (2 b l n m)
  then obtain u ms where ih: "db_flatten_tree l op = Some (map slot_of ((op, u) # ms))"
    "\<forall>m\<in>set ms. fst m \<noteq> OP_UNION" "foldl (\<lambda>c m. Binary (fst m) c (snd m)) u ms = l" by auto
  have "db_flatten_tree (Binary b l (Leaf (OP_DB_LEAF n m))) op
      = Some (map slot_of ((op, u) # (ms @ [(b, Leaf (OP_DB_LEAF n m))])))"
    using 2 ih(1) by (cases b) (auto simp: slot_of_def)
  moreover have "\<forall>m\<in>set (ms @ [(b, Leaf (OP_DB_LEAF n m))]). fst m \<noteq> OP_UNION"
    using 2 ih(2) by auto
  ultimately show ?case using ih(3) by (intro exI[of _ u] exI[of _ "ms @ [(b, Leaf (OP_DB_LEAF n m))]"]) auto
qed (auto simp: slot_of_def intro!: exI[of _ "[]"])

lemma gift_terms_chain:
  "\<forall>m\<in>set ms. fst m \<noteq> OP_UNION \<Longrightarrow> gift_terms t ms = [foldl (\<lambda>c m. Binary (fst m) c (snd m)) t ms]"
  by (induction t ms rule: gift_terms.induct) auto

lemma leaves_chain:
  "leaves (foldl (\<lambda>c m. Binary (fst m) c (snd m)) u ms) = leaves u @ concat (map (leaves \<circ> snd) ms)"
  by (induction ms arbitrary: u) auto

lemma flatten_gift_term:
  assumes "gift_term t"
  shows "\<exists>u ms. db_flatten_tree t OP_UNION = Some (map slot_of ((OP_UNION, u) # ms))
     \<and> (\<forall>\<rho>. union_inside \<rho> (gift_terms u ms) = inside \<rho> t)
     \<and> leaves u @ concat (map (leaves \<circ> snd) ms) = leaves t"
proof -
  obtain u ms where f: "db_flatten_tree t OP_UNION = Some (map slot_of ((OP_UNION, u) # ms))"
    "\<forall>m\<in>set ms. fst m \<noteq> OP_UNION" "foldl (\<lambda>c m. Binary (fst m) c (snd m)) u ms = t"
    using flatten_term[OF assms] by blast
  have "union_inside \<rho> (gift_terms u ms) = inside \<rho> t" for \<rho>
    by (simp add: gift_terms_chain[OF f(2)] f(3) union_inside_def)
  moreover have "leaves u @ concat (map (leaves \<circ> snd) ms) = leaves t"
    using leaves_chain[of u ms] f(3) by simp
  ultimately show ?thesis using f(1) by blast
qed

lemma flatten_gift:
  "gift_tree t \<Longrightarrow> \<exists>u ms. db_flatten_tree t OP_UNION = Some (map slot_of ((OP_UNION, u) # ms))
     \<and> (\<forall>\<rho>. union_inside \<rho> (gift_terms u ms) = inside \<rho> t)
     \<and> leaves u @ concat (map (leaves \<circ> snd) ms) = leaves t"
proof (induction t rule: gift_tree.induct)
  case (1 l r)
  obtain u ms where l: "db_flatten_tree l OP_UNION = Some (map slot_of ((OP_UNION, u) # ms))"
    "\<And>\<rho>. union_inside \<rho> (gift_terms u ms) = inside \<rho> l"
    "leaves u @ concat (map (leaves \<circ> snd) ms) = leaves l"
    using "1.IH"(1) "1.prems" by (metis gift_tree.simps(1))
  obtain v ns where r: "db_flatten_tree r OP_UNION = Some (map slot_of ((OP_UNION, v) # ns))"
    "\<And>\<rho>. union_inside \<rho> (gift_terms v ns) = inside \<rho> r"
    "leaves v @ concat (map (leaves \<circ> snd) ns) = leaves r"
    using "1.IH"(2) "1.prems" by (metis gift_tree.simps(1))
  have "db_flatten_tree (Binary OP_UNION l r) OP_UNION
      = Some (map slot_of ((OP_UNION, u) # (ms @ (OP_UNION, v) # ns)))"
    using l(1) r(1) by simp
  moreover have "union_inside \<rho> (gift_terms u (ms @ (OP_UNION, v) # ns))
      = inside \<rho> (Binary OP_UNION l r)" for \<rho>
    using l(2)[of \<rho>] r(2)[of \<rho>] by (auto simp: gift_terms_append_union union_inside_def)
  moreover have "leaves u @ concat (map (leaves \<circ> snd) (ms @ (OP_UNION, v) # ns))
      = leaves (Binary OP_UNION l r)"
    by (simp add: l(3)[symmetric] r(3)[symmetric])
  ultimately show ?case by blast
qed (simp_all only: gift_tree.simps, (erule flatten_gift_term)+)


lemma gift_term_checked: "gift_term t \<Longrightarrow> db_ck_left_heavy_tree t True = Some 0"
  by (induction t rule: gift_term.induct) auto

lemma gift_tree_checked: "gift_tree t \<Longrightarrow> db_ck_v4gift_tree t = Some 0"
proof (induction t rule: gift_tree.induct
    [case_names union nop leaf unary intersect subtract xor])
  case (leaf v) then show ?case by (cases v) auto
qed (auto dest: gift_term_checked)

section \<open>Properties\<close>

text \<open>C18: a tree in GIFT form (unions at the root, only leaves on the right of other
  operators) passes \<open>db_ck_v4gift_tree\<close>, and flattening it and building a tree from the
  list gives a tree with the same leaves in the same order and the same points.\<close>

theorem gift_roundtrip:
  assumes "gift_tree t"
  shows "\<exists>ms t'. db_ck_v4gift_tree t = Some 0 \<and> db_flatten_tree t OP_UNION = Some ms
     \<and> db_mkgift_tree ms = Some t' \<and> leaves t' = leaves t
     \<and> (\<forall>\<rho>. inside \<rho> t' = inside \<rho> t)"
proof -
  obtain u ms where f: "db_flatten_tree t OP_UNION = Some (map slot_of ((OP_UNION, u) # ms))"
    "\<And>\<rho>. union_inside \<rho> (gift_terms u ms) = inside \<rho> t"
    "leaves u @ concat (map (leaves \<circ> snd) ms) = leaves t"
    using flatten_gift[OF assms] by blast
  obtain c cs where terms: "gift_terms u ms = c # cs"
    using gift_terms_nonempty by (cases "gift_terms u ms") auto
  have "db_mkgift_tree (map slot_of ((OP_UNION, u) # ms)) = Some (union_all c cs)"
    by (simp only: db_mkgift_tree_terms terms list.sel)
  moreover have "inside \<rho> (union_all c cs) = inside \<rho> t" for \<rho>
    using f(2)[of \<rho>] by (simp add: terms union_all_inside union_inside_def)
  moreover have "leaves (union_all c cs) = leaves t"
    using gift_terms_leaves[of u ms] f(3) by (simp add: terms union_all_leaves)
  ultimately show ?thesis using f(1) gift_tree_checked[OF assms] by blast
qed

lemma gift_roundtrip_witness:
  "\<exists>ms t'. db_flatten_tree (Binary OP_UNION (Leaf (OP_DB_LEAF ''a'' (None :: nat option)))
        (Binary OP_SUBTRACT (Leaf (OP_DB_LEAF ''b'' None)) (Leaf (OP_DB_LEAF ''c'' None)))) OP_UNION
      = Some ms \<and> db_mkgift_tree ms = Some t'"
proof -
  have "gift_tree (Binary OP_UNION (Leaf (OP_DB_LEAF ''a'' (None :: nat option)))
        (Binary OP_SUBTRACT (Leaf (OP_DB_LEAF ''b'' None)) (Leaf (OP_DB_LEAF ''c'' None))))" by simp
  from gift_roundtrip[OF this] show ?thesis by blast
qed

text \<open>\<open>db_mkgift_tree\<close> computes the GIFT reading of every member list: the
  members between two unions are combined from left to right, the results united.\<close>

theorem mkgift_reads_gift:
  "db_mkgift_tree (map slot_of ((op, t) # ms))
     = Some (union_all (hd (gift_terms t ms)) (tl (gift_terms t ms)))"
  by (rule db_mkgift_tree_terms)

text \<open>\<open>db_ck_v4gift_tree\<close> is documented to reject trees with anything but leaves on
  the right of an intersection or a subtraction, but it accepts \<open>a - (b - c)\<close>; the list
  made from it means \<open>(a - b) - c\<close>.\<close>

theorem ck_v4gift_accepts_right_heavy:
  "\<exists>(t :: nat tree) ms t'. db_ck_v4gift_tree t = Some 0 \<and> \<not> gift_tree t
     \<and> db_flatten_tree t OP_UNION = Some ms \<and> db_mkgift_tree ms = Some t'
     \<and> (\<exists>\<rho>. inside \<rho> t \<noteq> inside \<rho> t')"
proof -
  let ?a = "OP_DB_LEAF ''a'' None :: nat leaf"
  let ?t = "Binary OP_SUBTRACT (Leaf ?a)
    (Binary OP_SUBTRACT (Leaf (OP_DB_LEAF ''b'' None)) (Leaf (OP_DB_LEAF ''c'' None))) :: nat tree"
  let ?ms = "map slot_of [(OP_UNION, Leaf ?a), (OP_SUBTRACT, Leaf (OP_DB_LEAF ''b'' None)),
    (OP_SUBTRACT, Leaf (OP_DB_LEAF ''c'' None))]"
  have "db_flatten_tree ?t OP_UNION = Some ?ms" by (simp add: slot_of_def)
  moreover have "db_mkgift_tree ?ms = Some (Binary OP_SUBTRACT (Binary OP_SUBTRACT (Leaf ?a)
      (Leaf (OP_DB_LEAF ''b'' None))) (Leaf (OP_DB_LEAF ''c'' None)))"
    by (subst db_mkgift_tree_terms) simp
  moreover have "db_ck_v4gift_tree ?t = Some 0" "\<not> gift_tree ?t" by simp_all
  moreover have "inside (\<lambda>_. True) ?t \<noteq> inside (\<lambda>_. True) (Binary OP_SUBTRACT
      (Binary OP_SUBTRACT (Leaf ?a) (Leaf (OP_DB_LEAF ''b'' None))) (Leaf (OP_DB_LEAF ''c'' None)))"
    by simp
  ultimately show ?thesis by blast
qed

end
