(* ===== verification/CsgEval.thy ===== *)
theory CsgEval
  imports CsgTree "HOL-Library.While_Combinator"
begin

text \<open>
  Evaluation of boolean trees over a partition of a ray (\<open>librt/bool.c\<close>): the stack
  machine \<open>bool_eval\<close>, the readiness test \<open>bool_test_tree\<close>, \<open>bool_max_raynum\<close> and the
  comparison of overlap tables.

  A solid is named by a number (\<open>OP_SOLID\<close>).  A partition contributes the list of its
  segments, each with the solid it belongs to and the index of its ray.  A state of
  \<open>bool_eval\<close> is the point it is at (\<open>stack:\<close> or \<open>pop:\<close>), the stack above the null
  pointer it starts with, and the size \<open>re_boolslen\<close> of the stack array.
\<close>

section \<open>Readiness\<close>

record seg =
  seg_stp :: nat
  seg_index :: int

text \<open>\<open>None\<close> is \<open>bu_bomb\<close>: the tests are for the trees of regions, without special nodes.\<close>

fun bool_test_tree :: "'m tree \<Rightarrow> (nat \<Rightarrow> bool) \<Rightarrow> bool option" where
  "bool_test_tree OP_NOP solidbits = Some True"
| "bool_test_tree (Leaf (OP_SOLID stp)) solidbits = Some (solidbits stp)"
| "bool_test_tree (Unary OP_NOT t) solidbits = map_option Not (bool_test_tree t solidbits)"
| "bool_test_tree (Binary op l r) solidbits =
     do { ready \<leftarrow> bool_test_tree l solidbits;
          if \<not> ready then Some False else bool_test_tree r solidbits }"
| "bool_test_tree _ solidbits = None"

fun bool_partition_eligible :: "'m tree list \<Rightarrow> (nat \<Rightarrow> bool) \<Rightarrow> bool option" where
  "bool_partition_eligible [] solidbits = Some True"
| "bool_partition_eligible (treetop # regs) solidbits =
     do { ready \<leftarrow> bool_test_tree treetop solidbits;
          if \<not> ready then Some False else bool_partition_eligible regs solidbits }"

fun find_seg :: "seg list \<Rightarrow> nat \<Rightarrow> seg option" where
  "find_seg [] stp = None"
| "find_seg (s # segs) stp = (if seg_stp s \<noteq> stp then find_seg segs stp else Some s)"

fun bool_max_raynum :: "'m tree \<Rightarrow> seg list \<Rightarrow> int option" where
  "bool_max_raynum OP_NOP segs = Some (-1)"
| "bool_max_raynum (Leaf (OP_SOLID stp)) segs =
     Some (case find_seg segs stp of None \<Rightarrow> -1 | Some s \<Rightarrow> seg_index s)"
| "bool_max_raynum (Unary OP_NOT t) segs = bool_max_raynum t segs"
| "bool_max_raynum (Binary op l r) segs =
     do { a \<leftarrow> bool_max_raynum l segs; b \<leftarrow> bool_max_raynum r segs; Some (if a > b then a else b) }"
| "bool_max_raynum _ segs = None"

text \<open>Overlap tables: null, or an array of regions up to the null that ends it.\<close>

definition bool_equal_overlap_tables :: "nat list option \<Rightarrow> nat list option \<Rightarrow> int" where
  "bool_equal_overlap_tables a b =
     (case (a, b) of
        (None, None) \<Rightarrow> 1
      | (Some as, Some bs) \<Rightarrow>
          if length as \<noteq> length bs then 0
          else if list_all (\<lambda>t. List.member bs t) as then 1 else 0
      | _ \<Rightarrow> 0)"

section \<open>The stack machine\<close>

datatype 'm entry = Tree "'m tree" | Special unop

datatype 'm bool_state =
    Stack "'m tree" "'m entry list" nat
  | Pop int "'m entry list" nat
  | Return int
  | Overflow

definition rt_bool_growstack :: "nat \<Rightarrow> nat" where
  "rt_bool_growstack boolslen = (if boolslen = 0 then 128 else 2 * boolslen)"

text \<open>Storing at the position of the stack pointer, \<open>1 + length stk\<close>.\<close>

definition room :: "'m entry list \<Rightarrow> nat \<Rightarrow> bool" where
  "room stk boolslen \<longleftrightarrow> 1 + length stk < boolslen"

fun bool_stack :: "seg list \<Rightarrow> 'm tree \<Rightarrow> 'm entry list \<Rightarrow> nat \<Rightarrow> 'm bool_state" where
  "bool_stack segs OP_NOP stk boolslen = Pop 0 stk boolslen"
| "bool_stack segs (Leaf (OP_SOLID stp)) stk boolslen =
     Pop (if find_seg segs stp \<noteq> None then 1 else 0) stk boolslen"
| "bool_stack segs (Binary op l r) stk boolslen =
     (if \<not> room stk boolslen then Overflow
      else let stk = Tree (Binary op l r) # stk
           in Stack l stk (if 1 + length stk \<ge> boolslen then rt_bool_growstack boolslen else boolslen))"
| "bool_stack segs _ stk boolslen = Return 1"

fun bool_pop :: "int \<Rightarrow> 'm entry list \<Rightarrow> nat \<Rightarrow> 'm bool_state" where
  "bool_pop ret [] boolslen = Return ret"
| "bool_pop ret (Tree (Binary OP_UNION l r) # stk) boolslen =
     (if ret \<noteq> 0 then Pop ret stk boolslen else Stack r stk boolslen)"
| "bool_pop ret (Tree (Binary OP_INTERSECT l r) # stk) boolslen =
     (if ret = 0 then Pop 0 stk boolslen else Stack r stk boolslen)"
| "bool_pop ret (Tree (Binary OP_SUBTRACT l r) # stk) boolslen =
     (if ret = 0 then Pop ret stk boolslen
      else if \<not> room stk boolslen then Overflow
      else Stack r (Special OP_NOT # stk) boolslen)"
| "bool_pop ret (Special OP_NOT # stk) boolslen = Pop (if ret = 0 then 1 else 0) stk boolslen"
| "bool_pop ret (Tree (Binary OP_XOR l r) # stk) boolslen =
     (if \<not> room (Tree r # stk) boolslen then Overflow
      else Stack r (Special (if ret \<noteq> 0 then OP_GUARD else OP_XNOP) # Tree r # stk) boolslen)"
| "bool_pop ret (Special OP_GUARD # stk) boolslen =
     (if ret \<noteq> 0 then Return (-1) else Pop 1 (tl stk) boolslen)"
| "bool_pop ret (Special OP_XNOP # stk) boolslen = Pop ret (tl stk) boolslen"
| "bool_pop ret _ boolslen = Return 1"

fun bool_step :: "seg list \<Rightarrow> 'm bool_state \<Rightarrow> 'm bool_state" where
  "bool_step segs (Stack t stk boolslen) = bool_stack segs t stk boolslen"
| "bool_step segs (Pop ret stk boolslen) = bool_pop ret stk boolslen"
| "bool_step segs s = s"

fun running :: "'m bool_state \<Rightarrow> bool" where
  "running (Return ret) = False"
| "running Overflow = False"
| "running _ = True"

text \<open>\<open>None\<close>: the machine does not stop.\<close>

definition bool_eval :: "'m tree \<Rightarrow> seg list \<Rightarrow> nat \<Rightarrow> 'm bool_state option" where
  "bool_eval treep segs boolslen =
     while_option running (bool_step segs)
       (Stack treep [] (if boolslen = 0 then rt_bool_growstack boolslen else boolslen))"

section \<open>The meaning it is to compute\<close>

text \<open>Operands are evaluated from the left, and the right one only when it matters; a
  point in both operands of an exclusive or is an error.\<close>

fun bool_value :: "(nat \<Rightarrow> bool) \<Rightarrow> 'm tree \<Rightarrow> bool option" where
  "bool_value hit OP_NOP = Some False"
| "bool_value hit (Leaf (OP_SOLID stp)) = Some (hit stp)"
| "bool_value hit (Binary op l r) =
     do { a \<leftarrow> bool_value hit l;
          (case op of
             OP_UNION \<Rightarrow> if a then Some True else bool_value hit r
           | OP_INTERSECT \<Rightarrow> if \<not> a then Some False else bool_value hit r
           | OP_SUBTRACT \<Rightarrow> if \<not> a then Some False else map_option Not (bool_value hit r)
           | OP_XOR \<Rightarrow> do { b \<leftarrow> bool_value hit r; if a \<and> b then None else Some (a \<or> b) }) }"
| "bool_value hit _ = None"

text \<open>The trees of regions: binary operators over solids and empty nodes.\<close>

fun region_tree :: "'m tree \<Rightarrow> bool" where
  "region_tree OP_NOP = True"
| "region_tree (Leaf l) = (case l of OP_SOLID stp \<Rightarrow> True | _ \<Rightarrow> False)"
| "region_tree (Unary op t) = False"
| "region_tree (Binary op l r) = (region_tree l \<and> region_tree r)"

fun solid_inside :: "(nat \<Rightarrow> bool) \<Rightarrow> 'm leaf \<Rightarrow> bool" where
  "solid_inside hit (OP_SOLID stp) = hit stp"
| "solid_inside hit _ = False"

lemma bool_value_inside:
  "region_tree t \<Longrightarrow> bool_value hit t = Some b \<Longrightarrow> b = inside (solid_inside hit) t"
proof (induction t arbitrary: b)
  case (Leaf l)
  then show ?case by (cases l) auto
next
  case (Binary op l r)
  then show ?case
    by (cases op) (auto split: if_splits elim!: option_elims)
qed auto

fun no_xor :: "'m tree \<Rightarrow> bool" where
  "no_xor (Binary op l r) = (op \<noteq> OP_XOR \<and> no_xor l \<and> no_xor r)"
| "no_xor _ = True"

lemma bool_value_total:
  "region_tree t \<Longrightarrow> no_xor t \<Longrightarrow> bool_value hit t \<noteq> None"
proof (induction t)
  case (Leaf l)
  then show ?case by (cases l) auto
next
  case (Binary op l r)
  then show ?case by (cases op) (auto split: if_splits)
qed auto

section \<open>Running the machine\<close>

definition steps :: "seg list \<Rightarrow> 'm bool_state \<Rightarrow> 'm bool_state \<Rightarrow> bool" where
  "steps segs s t \<longleftrightarrow> (\<exists>k. (bool_step segs ^^ k) s = t)"

lemma steps_refl [simp]: "steps segs s s"
  by (auto simp: steps_def intro: exI[of _ 0])

lemma steps_step: "steps segs (bool_step segs s) t \<Longrightarrow> steps segs s t"
  unfolding steps_def by (metis funpow_simps_right(2) o_apply)

lemma steps_trans:
  assumes "steps segs s t" "steps segs t u"
  shows "steps segs s u"
proof -
  obtain j k where "(bool_step segs ^^ j) s = t" "(bool_step segs ^^ k) t = u"
    using assms by (auto simp: steps_def)
  then have "(bool_step segs ^^ (k + j)) s = u" by (simp add: funpow_add)
  then show ?thesis unfolding steps_def by blast
qed

lemma while_option_steps:
  assumes "(c ^^ k) s = t" "\<not> b t" "\<And>x. \<not> b x \<Longrightarrow> c x = x"
  shows "while_option b c s = Some t"
  using assms(1)
proof (induction k arbitrary: s)
  case 0
  then have "s = t" by simp
  moreover have "while_option b c t = (if b t then while_option b c (c t) else Some t)"
    by (rule while_option_unfold)
  ultimately show ?case using assms(2) by (simp only: if_False)
next
  case (Suc k)
  then have w: "while_option b c (c s) = Some t" by (simp add: funpow_swap1)
  show ?case
  proof (cases "b s")
    case True
    then show ?thesis by (rule trans[OF while_option_unfold trans[OF if_P w]])
  next
    case False
    from w show ?thesis unfolding assms(3)[OF False] .
  qed
qed

lemma bool_eval_steps:
  assumes "steps segs (Stack t [] (if cap = 0 then rt_bool_growstack cap else cap)) s" "\<not> running s"
  shows "bool_eval t segs cap = Some s"
proof -
  obtain k where k: "(bool_step segs ^^ k)
      (Stack t [] (if cap = 0 then rt_bool_growstack cap else cap)) = s"
    using assms(1) unfolding steps_def by blast
  have "bool_step segs x = x" if "\<not> running x" for x using that by (cases x) auto
  from while_option_steps[where b = running and c = "bool_step segs", OF k assms(2) this]
  show ?thesis by (simp add: bool_eval_def)
qed

section \<open>Room on the stack\<close>

text \<open>The entries a tree needs at most, and the trees for which growing on a push is
  enough: those in which no exclusive or has an operator on its right.\<close>

fun stack_need :: "'m tree \<Rightarrow> nat" where
  "stack_need (Binary op l r) =
     max (1 + stack_need l)
       ((case op of OP_SUBTRACT \<Rightarrow> 1 | OP_XOR \<Rightarrow> 2 | _ \<Rightarrow> 0) + stack_need r)"
| "stack_need _ = 0"

fun xor_leafy :: "'m tree \<Rightarrow> bool" where
  "xor_leafy (Binary op l r) = (xor_leafy l \<and> xor_leafy r \<and> (op = OP_XOR \<longrightarrow> stack_need r = 0))"
| "xor_leafy _ = True"

definition fits :: "nat \<Rightarrow> 'm tree \<Rightarrow> nat \<Rightarrow> bool" where
  "fits n t boolslen \<longleftrightarrow> n + stack_need t \<le> boolslen \<or> xor_leafy t \<and> n < boolslen"

definition runs_to :: "seg list \<Rightarrow> 'm tree \<Rightarrow> 'm entry list \<Rightarrow> nat \<Rightarrow> bool option \<Rightarrow> bool" where
  "runs_to segs t stk cap v \<longleftrightarrow>
     (case v of
        None \<Rightarrow> steps segs (Stack t stk cap) (Return (-1))
      | Some b \<Rightarrow> \<exists>cap'\<ge>cap. steps segs (Stack t stk cap) (Pop (of_bool b) stk cap'))"

lemma runs_to_step:
  assumes "runs_to segs l stk' cap0 v"
    and "bool_step segs (Stack t stk cap) = Stack l stk' cap0"
    and "v = None \<Longrightarrow> w = None"
    and "\<And>a cap1. v = Some a \<Longrightarrow> cap0 \<le> cap1 \<Longrightarrow>
      steps segs (Pop (of_bool a) stk' cap1) (Return (-1)) \<and> w = None
      \<or> (\<exists>b cap'. cap \<le> cap' \<and> w = Some b \<and> steps segs (Pop (of_bool a) stk' cap1) (Pop (of_bool b) stk cap'))"
  shows "runs_to segs t stk cap w"
proof (cases v)
  case None
  then show ?thesis using assms(1-3) by (auto simp: runs_to_def intro!: steps_step[of _ "Stack t stk cap"])
next
  case (Some a)
  then obtain cap1 where c: "cap0 \<le> cap1" "steps segs (Stack l stk' cap0) (Pop (of_bool a) stk' cap1)"
    using assms(1) by (auto simp: runs_to_def)
  then have s: "steps segs (Stack t stk cap) (Pop (of_bool a) stk' cap1)"
    using assms(2) by (auto intro: steps_step)
  from assms(4)[OF Some c(1)] show ?thesis
  proof (elim disjE exE conjE)
    fix b cap'
    assume c': "cap \<le> cap'" and w: "w = Some b"
      and "steps segs (Pop (of_bool a) stk' cap1) (Pop (of_bool b) stk cap')"
    from steps_trans[OF s this(3)] c' show ?thesis unfolding runs_to_def w option.case by blast
  qed (use steps_trans[OF s] in \<open>simp add: runs_to_def\<close>)
qed

text \<open>Handing over to the right operand, with or without an entry that acts on its result.\<close>

lemma pop_then:
  assumes "runs_to segs r stk' cap v" "bool_pop ret top_stk cap = Stack r stk' cap"
    and "\<And>b cap'. v = Some b \<Longrightarrow> cap \<le> cap' \<Longrightarrow>
      steps segs (Pop (of_bool b) stk' cap') (Return (-1)) \<and> w = None
      \<or> (\<exists>b'. w = Some b' \<and> steps segs (Pop (of_bool b) stk' cap') (Pop (of_bool b') stk cap'))"
    and "v = None \<Longrightarrow> w = None"
  shows "steps segs (Pop ret top_stk cap) (Return (-1)) \<and> w = None
    \<or> (\<exists>b cap'. cap \<le> cap' \<and> w = Some b \<and> steps segs (Pop ret top_stk cap) (Pop (of_bool b) stk cap'))"
proof (cases v)
  case None
  then show ?thesis using assms(1,2,4) by (auto simp: runs_to_def intro!: steps_step[of _ "Pop ret top_stk cap"])
next
  case (Some b)
  then obtain cap' where c: "cap \<le> cap'" "steps segs (Stack r stk' cap) (Pop (of_bool b) stk' cap')"
    using assms(1) by (auto simp: runs_to_def)
  then have "steps segs (Pop ret top_stk cap) (Pop (of_bool b) stk' cap')"
    using assms(2) by (auto intro: steps_step)
  then show ?thesis using assms(3)[OF Some c(1)] c(1) by (blast intro: steps_trans)
qed

lemma one_step: "steps segs s (bool_step segs s)"
  by (rule steps_step) simp

lemma eval_runs:
  assumes "region_tree t" "fits (1 + length stk) t cap"
  shows "runs_to segs t stk cap (bool_value (\<lambda>stp. find_seg segs stp \<noteq> None) t)"
  using assms
proof (induction t arbitrary: stk cap)
  case OP_NOP
  then show ?case using one_step[of segs "Stack OP_NOP stk cap"] by (auto simp: runs_to_def)
next
  case (Leaf l)
  then obtain stp where "l = OP_SOLID stp" by (cases l) auto
  then show ?case using one_step[of segs "Stack (Leaf l) stk cap"]
    by (auto simp: runs_to_def of_bool_def)
next
  case (Binary op l r)
  let ?hit = "\<lambda>stp. find_seg segs stp \<noteq> None" and ?n = "1 + length stk"
  let ?stk' = "Tree (Binary op l r) # stk"
  let ?cap0 = "if 1 + length ?stk' \<ge> cap then rt_bool_growstack cap else cap"
  have lr: "region_tree l" "region_tree r" using Binary.prems(1) by auto
  have rm: "room stk cap" using Binary.prems(2) by (auto simp: fits_def room_def)
  have push: "bool_step segs (Stack (Binary op l r) stk cap) = Stack l ?stk' ?cap0"
    using rm by (simp add: Let_def)
  have grown: "cap \<le> ?cap0"
    using rm by (auto simp: rt_bool_growstack_def room_def)
  have cap0: "?n + 1 < ?cap0" using rm by (auto simp: rt_bool_growstack_def room_def)
  have fl: "fits (1 + length ?stk') l ?cap0"
    using Binary.prems(2) cap0 grown by (auto simp: fits_def)
  have fr: "fits (?n + (case op of OP_SUBTRACT \<Rightarrow> 1 | OP_XOR \<Rightarrow> 2 | _ \<Rightarrow> 0)) r cap1"
    if "?cap0 \<le> cap1" for cap1
  proof -
    have "?n + 1 < cap1" "cap \<le> cap1"
      using less_le_trans[OF cap0 that] order_trans[OF grown that] by blast+
    then show ?thesis using Binary.prems(2) by (cases op) (auto simp: fits_def)
  qed
  note IHl = Binary.IH(1)[OF lr(1) fl] and IHr = Binary.IH(2)[OF lr(2)]
  show ?case
  proof (rule runs_to_step[OF IHl push])
    show "bool_value ?hit (Binary op l r) = None" if "bool_value ?hit l = None" using that by simp
    fix a cap1
    assume a: "bool_value ?hit l = Some a" and c: "?cap0 \<le> cap1"
    let ?goal = "steps segs (Pop (of_bool a) ?stk' cap1) (Return (-1)) \<and> bool_value ?hit (Binary op l r) = None
      \<or> (\<exists>b cap'. cap \<le> cap' \<and> bool_value ?hit (Binary op l r) = Some b
            \<and> steps segs (Pop (of_bool a) ?stk' cap1) (Pop (of_bool b) stk cap'))"
    have cc: "cap \<le> cap1" "?n + 1 < cap1" using c grown cap0 by linarith+
    note frc = fr[OF c]
    have skip: ?goal if "bool_pop (of_bool a) ?stk' cap1 = Pop (of_bool b) stk cap1"
      "bool_value ?hit (Binary op l r) = Some b" for b
      using that one_step[of segs "Pop (of_bool a) ?stk' cap1"] cc(1) by auto
    have rest: ?goal
      if "runs_to segs r stk2 cap1 (bool_value ?hit r)" "bool_pop (of_bool a) ?stk' cap1 = Stack r stk2 cap1"
        "\<And>b cap'. bool_value ?hit r = Some b \<Longrightarrow> cap1 \<le> cap' \<Longrightarrow>
          steps segs (Pop (of_bool b) stk2 cap') (Return (-1)) \<and> bool_value ?hit (Binary op l r) = None
          \<or> (\<exists>b'. bool_value ?hit (Binary op l r) = Some b'
                \<and> steps segs (Pop (of_bool b) stk2 cap') (Pop (of_bool b') stk cap'))"
        "bool_value ?hit r = None \<Longrightarrow> bool_value ?hit (Binary op l r) = None" for stk2
      using pop_then[OF that] cc(1) by (meson order_trans)
    show ?goal
    proof (cases op)
      case OP_UNION
      then show ?thesis using skip[of True] rest[OF IHr[of stk cap1]] frc a
        by (cases a) (auto intro: steps_refl)
    next
      case OP_INTERSECT
      then show ?thesis using skip[of False] rest[OF IHr[of stk cap1]] frc a
        by (cases a) (auto intro: steps_refl)
    next
      case OP_SUBTRACT
      show ?thesis
      proof (cases a)
        case True
        show ?thesis
        proof (rule rest[OF IHr[of "Special OP_NOT # stk" cap1]])
          show "fits (1 + length (Special OP_NOT # stk)) r cap1" using frc OP_SUBTRACT by simp
          show "bool_pop (of_bool a) ?stk' cap1 = Stack r (Special OP_NOT # stk) cap1"
            using OP_SUBTRACT True cc(2) by (simp add: room_def)
          fix b cap' assume b: "bool_value ?hit r = Some b" "cap1 \<le> cap'"
          show "steps segs (Pop (of_bool b) (Special OP_NOT # stk) cap') (Return (-1))
              \<and> bool_value ?hit (Binary op l r) = None
            \<or> (\<exists>b'. bool_value ?hit (Binary op l r) = Some b'
              \<and> steps segs (Pop (of_bool b) (Special OP_NOT # stk) cap') (Pop (of_bool b') stk cap'))"
            using one_step[of segs "Pop (of_bool b) (Special OP_NOT # stk) cap'"] b a True OP_SUBTRACT
            by (auto simp: of_bool_def split: if_splits)
        qed (use a OP_SUBTRACT True in simp)
      qed (use skip[of False] a OP_SUBTRACT in auto)
    next
      case OP_XOR
      let ?sp = "if of_bool a \<noteq> (0::int) then OP_GUARD else OP_XNOP"
      show ?thesis
      proof (rule rest[OF IHr[of "Special ?sp # Tree r # stk" cap1]])
        show "fits (1 + length (Special ?sp # Tree r # stk)) r cap1" using frc OP_XOR by simp
        show "bool_pop (of_bool a) ?stk' cap1 = Stack r (Special ?sp # Tree r # stk) cap1"
          using OP_XOR cc(2) by (simp add: room_def)
        fix b cap' assume b: "bool_value ?hit r = Some b" "cap1 \<le> cap'"
        show "steps segs (Pop (of_bool b) (Special ?sp # Tree r # stk) cap') (Return (-1))
            \<and> bool_value ?hit (Binary op l r) = None
          \<or> (\<exists>b'. bool_value ?hit (Binary op l r) = Some b'
            \<and> steps segs (Pop (of_bool b) (Special ?sp # Tree r # stk) cap') (Pop (of_bool b') stk cap'))"
          using one_step[of segs "Pop (of_bool b) (Special ?sp # Tree r # stk) cap'"] b a OP_XOR
          by (cases a; cases b) auto
      qed (use a OP_XOR in simp)
    qed
  qed
qed simp

section \<open>Termination\<close>

fun nodes :: "'m tree \<Rightarrow> nat" where
  "nodes (Unary op t) = 1 + nodes t"
| "nodes (Binary op l r) = 1 + nodes l + nodes r"
| "nodes _ = 1"

fun pending :: "'m entry list \<Rightarrow> nat" where
  "pending [] = 0"
| "pending (Special OP_NOT # stk) = 1 + pending stk"
| "pending (Special op # x # stk) = 1 + pending stk"
| "pending (Special op # []) = 1"
| "pending (Tree (Binary op l r) # stk) = 4 * nodes r + 3 + pending stk"
| "pending (Tree t # stk) = 1 + pending stk"

fun work :: "'m bool_state \<Rightarrow> nat" where
  "work (Stack t stk boolslen) = 4 * nodes t + pending stk + 2"
| "work (Pop ret stk boolslen) = pending stk + 1"
| "work _ = 0"

lemma nodes_pos: "0 < nodes t"
  by (cases t) auto

lemma work_stack: "work (bool_stack segs t stk cap) < 4 * nodes t + pending stk + 2"
  by (cases "(segs, t, stk, cap)" rule: bool_stack.cases) (auto simp: Let_def)

lemma work_pop: "work (bool_pop ret stk cap) < pending stk + 1"
proof (cases "(ret, stk, cap)" rule: bool_pop.cases)
  case (7 ret stk cap)
  then show ?thesis by (cases stk) auto
next
  case (8 ret stk cap)
  then show ?thesis by (cases stk) auto
qed (auto simp: Let_def)

lemma work_decreases: "running s \<Longrightarrow> work (bool_step segs s) < work s"
  using work_stack work_pop by (cases s) (auto simp: algebra_simps)

section \<open>Properties\<close>

text \<open>C28: the stack machine \<open>bool_eval\<close> computes the value of the tree, evaluating from the
  left and only as far as needed: 1 or 0, or -1 when a point lies in both operands of an
  exclusive or.  The stack array, grown on demand, suffices when it holds the entries the
  tree needs, or when no exclusive or has an operator as its right operand.\<close>

theorem bool_eval_correct:
  assumes "region_tree t" "0 < cap" "fits 1 t cap"
  shows "bool_eval t segs cap = Some (Return
    (case bool_value (\<lambda>stp. find_seg segs stp \<noteq> None) t of None \<Rightarrow> -1 | Some b \<Rightarrow> of_bool b))"
proof -
  have init: "(if cap = 0 then rt_bool_growstack cap else cap) = cap" using assms(2) by simp
  have r: "runs_to segs t [] cap (bool_value (\<lambda>stp. find_seg segs stp \<noteq> None) t)"
    using eval_runs[OF assms(1), of "[]"] assms(3) by simp
  show ?thesis
  proof (cases "bool_value (\<lambda>stp. find_seg segs stp \<noteq> None) t")
    case None
    then have "steps segs (Stack t [] cap) (Return (-1))" using r by (simp add: runs_to_def)
    then show ?thesis using None by (intro bool_eval_steps) (simp_all add: init)
  next
    case (Some b)
    then obtain cap' where "steps segs (Stack t [] cap) (Pop (of_bool b) [] cap')"
      using r unfolding runs_to_def by auto
    then have "steps segs (Stack t [] cap) (Return (of_bool b))"
      using one_step[of segs "Pop (of_bool b) [] cap'"] by (auto intro: steps_trans)
    then show ?thesis using Some by (intro bool_eval_steps) (simp_all add: init)
  qed
qed

lemma bool_eval_correct_witness:
  "bool_eval (Binary OP_SUBTRACT (Leaf (OP_SOLID 1)) (Leaf (OP_SOLID 2)))
     [\<lparr>seg_stp = 1, seg_index = 0\<rparr>] 128 = Some (Return 1)"
  using bool_eval_correct[of "Binary OP_SUBTRACT (Leaf (OP_SOLID 1)) (Leaf (OP_SOLID 2))" 128
      "[\<lparr>seg_stp = 1, seg_index = 0\<rparr>]"]
  by (simp add: fits_def)

text \<open>Without exclusive or, \<open>bool_eval\<close> decides whether the point is inside the set the
  tree stands for, whatever the size of the tree and of the stack it starts with.\<close>

theorem bool_eval_inside:
  assumes "region_tree t" "no_xor t" "1 < cap"
  shows "bool_eval t segs cap
    = Some (Return (of_bool (inside (solid_inside (\<lambda>stp. find_seg segs stp \<noteq> None)) t)))"
proof -
  let ?hit = "\<lambda>stp. find_seg segs stp \<noteq> None"
  obtain b where b: "bool_value ?hit t = Some b" using bool_value_total[OF assms(1,2)] by blast
  have "xor_leafy t" using assms(2) by (induction t) auto
  then have "fits 1 t cap" using assms(3) by (simp add: fits_def)
  moreover have "0 < cap" using assms(3) by simp
  ultimately have r: "runs_to segs t [] cap (Some b)" using eval_runs[OF assms(1), of "[]" cap segs] b by simp
  then obtain cap' where "steps segs (Stack t [] cap) (Pop (of_bool b) [] cap')"
    unfolding runs_to_def by auto
  then have "steps segs (Stack t [] cap) (Return (of_bool b))"
    using one_step[of segs "Pop (of_bool b) [] cap'"] by (auto intro: steps_trans)
  then show ?thesis using bool_value_inside[OF assms(1) b] \<open>0 < cap\<close> by (intro bool_eval_steps) simp_all
qed

lemma bool_eval_inside_witness:
  "bool_eval (Binary OP_UNION OP_NOP (Leaf (OP_SOLID 3))) [] 2 = Some (Return 0)"
  using bool_eval_inside[of "Binary OP_UNION OP_NOP (Leaf (OP_SOLID 3))" 2 "[]"] by simp

text \<open>\<open>bool_eval\<close> always stops, on every tree, special nodes included, and with every
  initial stack.\<close>

theorem bool_eval_terminates:
  "\<exists>s. bool_eval t segs cap = Some s \<and> \<not> running s"
proof -
  obtain s where s: "bool_eval t segs cap = Some s"
    unfolding bool_eval_def
    using measure_while_option_Some[of "\<lambda>_. True" running "bool_step segs" work] work_decreases by blast
  then have "\<not> running s" unfolding bool_eval_def by (rule while_option_stop)
  with s show ?thesis by blast
qed

text \<open>Unions nested \<open>k\<close> deep to the left of an exclusive or with an operator on its right.\<close>

fun xor_under :: "nat \<Rightarrow> 'm tree" where
  "xor_under 0 = Binary OP_XOR (Leaf (OP_SOLID 1)) (Binary OP_UNION (Leaf (OP_SOLID 2)) (Leaf (OP_SOLID 3)))"
| "xor_under (Suc k) = Binary OP_UNION (xor_under k) OP_NOP"

lemma xor_under_overflow:
  "length stk + k + 3 = cap \<Longrightarrow> steps segs (Stack (xor_under k) stk cap) Overflow"
proof (induction k arbitrary: stk)
  case 0
  let ?r = "Binary OP_UNION (Leaf (OP_SOLID 2)) (Leaf (OP_SOLID 3))"
  let ?x = "Tree (xor_under 0) # stk"
  define a :: int where "a = (if find_seg segs 1 \<noteq> None then 1 else 0)"
  define sp where "sp = (if a \<noteq> 0 then OP_GUARD else OP_XNOP)"
  have s1: "bool_step segs (Stack (xor_under 0) stk cap) = Stack (Leaf (OP_SOLID 1)) ?x cap"
    using 0 by (simp add: room_def Let_def)
  have s2: "bool_step segs (Stack (Leaf (OP_SOLID 1)) ?x cap) = Pop a ?x cap" by (simp add: a_def)
  have s3: "bool_step segs (Pop a ?x cap) = Stack ?r (Special sp # Tree ?r # stk) cap"
    using 0 by (simp add: room_def sp_def)
  have s4: "bool_step segs (Stack ?r (Special sp # Tree ?r # stk) cap) = Overflow"
    using 0 by (simp add: room_def)
  show ?case
    by (rule steps_step, unfold s1, rule steps_step, unfold s2, rule steps_step, unfold s3,
        rule steps_step, unfold s4, rule steps_refl)
next
  case (Suc k)
  then show ?case by (intro steps_step[of segs "Stack (xor_under (Suc k)) stk cap"]) (simp add: room_def Let_def)
qed

text \<open>C29: an exclusive or pushes two entries where it popped one and does not look whether
  there is room.  For every size of the stack array from 3 on, unions nested that deep,
  less three, over an exclusive or whose right operand is an operator write one entry past
  the end of the array.\<close>

theorem bool_eval_xor_overflow:
  assumes "3 \<le> cap"
  shows "bool_eval (xor_under (cap - 3)) segs cap = Some Overflow"
  using assms xor_under_overflow[of "[]" "cap - 3" cap segs] by (intro bool_eval_steps) simp_all

lemma bool_eval_xor_overflow_witness:
  "bool_eval (xor_under 125) [] (rt_bool_growstack 0) = Some Overflow"
  using bool_eval_xor_overflow[of 128 "[]"] by (simp add: rt_bool_growstack_def)

lemma bool_test_tree_solids:
  "region_tree t \<Longrightarrow> bool_test_tree t bits
     = Some (\<forall>l\<in>set (leaves t). solid_inside bits l)"
proof (induction t)
  case (Leaf l)
  then show ?case by (cases l) auto
qed auto

text \<open>A partition is eligible exactly when every solid of every region over it has been
  shot.\<close>

lemma partition_eligible_iff:
  assumes "list_all region_tree regs"
  shows "bool_partition_eligible regs bits
    = Some (list_all (\<lambda>t. list_all (solid_inside bits) (leaves t)) regs)"
  using assms by (induction regs) (auto simp: bool_test_tree_solids list_all_iff)

end
