(* ===== verification/DbPathProof.thy ===== *)
theory DbPathProof
  imports DbDirProof
begin

text \<open>
  Paths through the directory: writing a path as a string and reading it back, the
  containment and cycle tests of \<open>librt/db_fullpath.c\<close>.
\<close>

section \<open>Splitting at slashes\<close>

lemma takeWhile_slash: "CHR ''/'' \<notin> set n \<Longrightarrow> takeWhile (\<lambda>c. c \<noteq> CHR ''/'') n = n"
  by (auto simp: takeWhile_eq_all_conv)

lemma split_slash_concat:
  "\<forall>n\<in>set (n # ns). plain_name n \<Longrightarrow> split_slash (n @ concat (map (Cons (CHR ''/'')) ns)) = n # ns"
proof (induction ns arbitrary: n)
  case Nil
  then have n: "n \<noteq> []" "CHR ''/'' \<notin> set n" by (auto simp: plain_name_def)
  then have e: "dropWhile (\<lambda>c. c \<noteq> CHR ''/'') n = []" by (auto simp: dropWhile_eq_Nil_conv)
  have "split_slash [] = []" by (simp add: split_slash.simps)
  then show ?case
    using n by (subst split_slash.simps) (simp add: takeWhile_slash e del: dropWhile_eq_Nil_conv)
next
  case (Cons m ms)
  then have n: "n \<noteq> []" "\<And>c. c \<in> set n \<Longrightarrow> c \<noteq> CHR ''/''" by (auto simp: plain_name_def)
  have "split_slash (m @ concat (map (Cons (CHR ''/'')) ms)) = m # ms" using Cons by simp
  then show ?case using n by (subst split_slash.simps) (simp add: takeWhile_append2 dropWhile_append2)
qed

lemma path_chars_concat:
  "path_chars d (map Some ps) = concat (map (Cons (CHR ''/'')) (map (name_of d) ps))"
  by (induction ps) (simp_all add: name_of_def)

lemma last_plain:
  "ns \<noteq> [] \<Longrightarrow> \<forall>n\<in>set ns. plain_name n \<Longrightarrow>
     \<exists>s c. concat (map (Cons (CHR ''/'')) ns) = s @ [c] \<and> c \<noteq> CHR ''/''"
proof (induction ns rule: rev_induct)
  case (snoc n ns)
  then have "n \<noteq> []" "CHR ''/'' \<notin> set n" by (auto simp: plain_name_def)
  then have "n = butlast n @ [last n]" "last n \<noteq> CHR ''/''" using last_in_set[of n] by (simp, metis)
  then show ?case by (intro exI[of _ "concat (map (Cons (CHR ''/'')) ns) @ CHR ''/'' # butlast n"] exI[of _ "last n"]) simp
qed simp

lemma strip_slashes_last: "s \<noteq> [] \<Longrightarrow> last s \<noteq> CHR ''/'' \<Longrightarrow> strip_slashes s = s"
  by (cases s rule: rev_cases) (simp_all add: strip_slashes_def)

lemma path_split:
  assumes "ns \<noteq> []" "\<forall>n\<in>set ns. plain_name n"
  shows "split_slash (strip_slashes (dropWhile (\<lambda>c. c = CHR ''/'') (concat (map (Cons (CHR ''/'')) ns)))) = ns"
    "dropWhile (\<lambda>c. c = CHR ''/'') (concat (map (Cons (CHR ''/'')) ns)) \<noteq> []"
proof -
  obtain m ms where ns: "ns = m # ms" using assms(1) by (cases ns) auto
  have m: "m \<noteq> []" "hd m \<noteq> CHR ''/''" using assms(2) ns by (auto simp: plain_name_def neq_Nil_conv)
  let ?s = "m @ concat (map (Cons (CHR ''/'')) ms)"
  have lead: "dropWhile (\<lambda>c. c = CHR ''/'') (concat (map (Cons (CHR ''/'')) ns)) = ?s"
    using m by (cases m) (auto simp: ns)
  obtain s c where l: "concat (map (Cons (CHR ''/'')) ns) = s @ [c]" "c \<noteq> CHR ''/''"
    using last_plain[OF assms] by blast
  have "?s \<noteq> []" using m by simp
  moreover have "last ?s = c" using arg_cong[OF l(1), of last] m(1) by (simp add: ns)
  ultimately have "strip_slashes ?s = ?s" using strip_slashes_last l(2) by metis
  then show "split_slash (strip_slashes (dropWhile (\<lambda>c. c = CHR ''/'') (concat (map (Cons (CHR ''/'')) ns)))) = ns"
    unfolding lead using split_slash_concat[of m ms] assms(2) by (simp add: ns)
  show "dropWhile (\<lambda>c. c = CHR ''/'') (concat (map (Cons (CHR ''/'')) ns)) \<noteq> []"
    using m by (simp add: lead)
qed

lemma lookup_entry:
  assumes "dir_ok d" "names_unique d" "p \<in> entries d" "plain_name (name_of d p)"
  shows "lookup_name d (name_of d p) = Some p"
proof -
  have "dir_abs d (name_of d p) = Some p" using dir_abs_iff[OF assms(1,2)] assms(3) by blast
  then show ?thesis using assms(4) by (simp add: lookup_name_def plain_name_def dir_abs_def hash_of_def)
qed

lemma path_roundtrip_entries:
  assumes "dir_ok d" "names_unique d" "\<forall>p\<in>set ps. p \<in> entries d \<and> plain_name (name_of d p)"
    and "fp_names pp = map Some ps"
  shows "db_string_to_path d (Some (db_path_to_string d pp))
    = (0, \<lparr>fp_names = fp_names pp, fp_maxlen = length (fp_names pp)\<rparr>)"
proof (cases "ps = []")
  case True
  then show ?thesis by (simp add: assms(4) db_path_to_string_def db_string_to_path_def db_full_path_init_def)
next
  case False
  let ?ns = "map (name_of d) ps"
  have "map (lookup_name d) ?ns = map Some ps" using assms(3) lookup_entry[OF assms(1,2)] by simp
  moreover have ns: "?ns \<noteq> []" "\<forall>n\<in>set ?ns. plain_name n" using False assms(3) by auto
  ultimately show ?thesis
    using path_split[OF ns]
    by (auto simp: db_string_to_path_def db_path_to_string_def assms(4) path_chars_concat Let_def)
qed

section \<open>Containment\<close>

lemma subset_loop_spec:
  assumes "b \<noteq> []"
  shows "i + left = length a \<Longrightarrow>
    subset_loop a b i left = Some (if sublist b (drop i a) then 1 else 0)"
proof (induction left arbitrary: i)
  case 0
  then show ?case using assms by simp
next
  case (Suc left)
  let ?t = "drop i a"
  have i: "i < length a" using Suc.prems by simp
  then have step: "?t = a ! i # drop (i + 1) a" by (simp add: Cons_nth_drop_Suc)
  have IH: "subset_loop a b (i + 1) left = Some (if sublist b (drop (i + 1) a) then 1 else 0)"
    using Suc by simp
  have split: "sublist b ?t \<longleftrightarrow> prefix b ?t \<or> sublist b (drop (i + 1) a)"
    unfolding step by (simp add: sublist_Cons_right)
  show ?case
  proof (cases "a ! i = b ! 0")
    case False
    then have "\<not> prefix b ?t" using assms step by (cases b) auto
    then show ?thesis using False assms IH split by simp
  next
    case True
    show ?thesis
    proof (cases "length b > length a - i")
      case long: True
      then have "\<not> sublist b ?t" using sublist_length_le[of b ?t] by auto
      then show ?thesis using assms True long by simp
    next
      case False
      have "prefix b ?t \<longleftrightarrow> b = take (length b) ?t"
        using False by (metis append_eq_conv_conj prefix_def take_is_prefix)
      also have "\<dots> \<longleftrightarrow> (\<forall>j<length b. a ! (i + j) = b ! j)"
        using False i by (auto simp: list_eq_iff_nth_eq)
      also have "\<dots> \<longleftrightarrow> list_all (\<lambda>j. a ! (i + j) = b ! j) [1..<length b]"
      proof
        assume r: "list_all (\<lambda>j. a ! (i + j) = b ! j) [1..<length b]"
        show "\<forall>j<length b. a ! (i + j) = b ! j"
        proof (intro allI impI)
          fix j
          assume "j < length b"
          then show "a ! (i + j) = b ! j" using r True by (cases "j = 0") (auto simp: list_all_iff)
        qed
      qed (auto simp: list_all_iff)
      finally show ?thesis using True False assms IH split by simp
    qed
  qed
qed

lemma subset_spec:
  assumes "fp_names b \<noteq> []"
  shows "db_full_path_subset a b skip
    = Some (if sublist (fp_names b) (drop (if skip then 1 else 0) (fp_names a)) then 1 else 0)"
proof (cases "length (fp_names b) > length (fp_names a)")
  case True
  then have "\<not> sublist (fp_names b) (drop i (fp_names a))" for i
    using sublist_length_le[of "fp_names b" "drop i (fp_names a)"] by auto
  then show ?thesis using True by (simp add: db_full_path_subset_def)
next
  case False
  then have "length (fp_names a) > 0" using assms by auto
  then show ?thesis using False subset_loop_spec[OF assms] by (simp add: db_full_path_subset_def)
qed

section \<open>Cycles\<close>

lemma cyclic_path_spec:
  "\<forall>i<k. names ! i \<noteq> None \<Longrightarrow>
     cyclic_path d names (Some t) k
     = Some (if \<exists>i<k. dir_namep (dir_mem d (the (names ! i))) = t then 1 else 0)"
  by (induction k) (auto simp: less_Suc_eq split: option.splits)

lemma cyclic_full_spec:
  "k < length names \<Longrightarrow> None \<notin> set names \<Longrightarrow>
     cyclic_full d names lname k
     = Some (case lname of None \<Rightarrow> 0
             | Some t \<Rightarrow> if \<exists>i<k. dir_namep (dir_mem d (the (names ! i))) = t then 1 else 0)"
proof (induction k)
  case (Suc k)
  have ne: "names ! i \<noteq> None" if "i < length names" for i
    using Suc.prems(2) that by (metis nth_mem)
  have "\<forall>i<Suc k. names ! i \<noteq> None" using ne Suc.prems(1) by auto
  note cp = cyclic_path_spec[OF this]
  obtain p where "names ! Suc k = Some p" using ne Suc.prems(1) by blast
  then show ?case using Suc cp by (cases lname) (auto simp: less_Suc_eq)
qed (auto split: option.splits)

section \<open>Names with slashes\<close>

lemma split_slash_plain: "n \<in> set (split_slash s) \<Longrightarrow> CHR ''/'' \<notin> set n"
proof (induction s rule: split_slash.induct)
  case (1 cp)
  show ?case
  proof (cases "cp = []")
    case False
    then have "n = takeWhile (\<lambda>c. c \<noteq> CHR ''/'') cp
        \<or> n \<in> set (split_slash (drop 1 (dropWhile (\<lambda>c. c \<noteq> CHR ''/'') cp)))"
      using 1(2) by (subst (asm) split_slash.simps) simp
    then show ?thesis using 1(1)[OF False] by (auto dest: set_takeWhileD)
  qed (use 1(2) in \<open>simp add: split_slash.simps\<close>)
qed

lemma lookup_name_Some: "lookup_name d n = Some p \<Longrightarrow> name_of d p = n"
  using chain_find_Some by (fastforce simp: lookup_name_def name_of_def split: if_splits)

lemma string_to_path_names:
  assumes "db_string_to_path d (Some s) = (r, fp)" "fp_names fp \<noteq> []"
  shows "\<exists>t. fp_names fp = map (lookup_name d) (split_slash t)"
proof -
  let ?s = "dropWhile (\<lambda>c. c = CHR ''/'') s"
  have "fp_names fp = (if ?s = [] then [] else map (lookup_name d) (split_slash (strip_slashes ?s)))"
    using arg_cong[OF assms(1), of "\<lambda>x. fp_names (snd x)"]
    by (cases "?s = []") (simp_all add: db_string_to_path_def db_full_path_init_def Let_def del: dropWhile_eq_Nil_conv)
  then show ?thesis using assms(2) by metis
qed

lemma lookup_root: "db_lookup d (Some ''/'') = None"
  by (simp add: db_lookup_def db_string_to_path_def db_full_path_init_def)

lemma lookup_result_plain:
  assumes "db_lookup d (Some n) = Some (Some p)"
  shows "CHR ''/'' \<notin> set (name_of d p)"
proof (cases "CHR ''/'' \<in> set n")
  case False
  then show ?thesis using assms lookup_name_Some by (auto simp: db_lookup_def split: if_splits)
next
  case True
  then have "n \<noteq> []" by auto
  obtain r fp where r: "db_string_to_path d (Some n) = (r, fp)" by fastforce
  then have fp: "fp_names fp \<noteq> []" "last (fp_names fp) = Some p"
    using assms True \<open>n \<noteq> []\<close> by (simp_all add: db_lookup_def split: if_splits)
  from string_to_path_names[OF r fp(1)]
  obtain s where "fp_names fp = map (lookup_name d) (split_slash s)" by blast
  then have "lookup_name d (last (split_slash s)) = Some p" "split_slash s \<noteq> []"
    using fp by (auto simp: last_map)
  then show ?thesis using split_slash_plain lookup_name_Some by (metis last_in_set)
qed

section \<open>Properties\<close>

text \<open>C37: a path of objects written as a string is read back as the same path.\<close>

theorem path_roundtrip:
  assumes "dir_ok d" "names_unique d" "\<forall>p\<in>set ps. p \<in> entries d \<and> plain_name (name_of d p)"
    and "fp_names pp = map Some ps"
  shows "db_string_to_path d (Some (db_path_to_string d pp))
    = (0, \<lparr>fp_names = fp_names pp, fp_maxlen = length (fp_names pp)\<rparr>)"
  using assms by (rule path_roundtrip_entries)

theorem path_roundtrip_witness:
  "db_path_to_string ball_dir \<lparr>fp_names = [Some 1023, Some 1023], fp_maxlen = 32\<rparr> = ''/ball/ball''
    \<and> db_string_to_path ball_dir (Some ''/ball/ball'') = (0, \<lparr>fp_names = [Some 1023, Some 1023], fp_maxlen = 2\<rparr>)"
proof -
  have s: "db_path_to_string ball_dir \<lparr>fp_names = [Some 1023, Some 1023], fp_maxlen = 32\<rparr> = ''/ball/ball''"
    using ball_dir(5) by (simp add: db_path_to_string_def name_of_def)
  then show ?thesis
    using path_roundtrip[OF ball_dir(2,3), of "[1023, 1023]" "\<lparr>fp_names = [Some 1023, Some 1023], fp_maxlen = 32\<rparr>"]
      ball_dir(4,5) by (simp add: plain_name_def)
qed

text \<open>In a database of version 5 an object whose name has a slash is added, but no lookup
  finds it again, under whatever name; and a lookup of the root path reads outside the path's
  entries.\<close>

theorem slash_name_lost:
  assumes "dir_ok d" "5 \<le> dbi_version d" "ptr \<noteq> None" "CHR ''/'' \<in> set name" "dir_abs d name = None"
  shows "(\<exists>dp d'. db_diradd d name laddr len flags ptr = (Some dp, d') \<and> name_of d' dp = name
      \<and> (\<forall>n. db_lookup d' (Some n) \<noteq> Some (Some dp)))
    \<and> db_lookup d (Some ''/'') = None"
proof -
  have st: "stored_name d name = name" using assms(2) by (simp add: stored_name_def)
  have "db_dircheck d (stored_name d name) = Some (name, hash_of name)"
    using assms(5) by (simp add: st db_dircheck_def dir_abs_def hash_of_def)
  then obtain dp d' where d': "db_diradd d name laddr len flags ptr = (Some dp, d')"
    "dir_abs d' = (dir_abs d)(name \<mapsto> dp)"
    using diradd_chosen[OF assms(1) _ _ _ assms(5), of name ptr laddr len flags] assms(2,3) by auto
  then have "name_of d' dp = name" using dir_abs_entry[of d' name dp] by simp
  moreover from this have "\<forall>n. db_lookup d' (Some n) \<noteq> Some (Some dp)"
    using lookup_result_plain[of d' _ dp] assms(4) by auto
  ultimately show ?thesis using d'(1) lookup_root by blast
qed

theorem slash_name_lost_witness:
  "\<exists>dp d'. db_diradd ball_dir ''a/b'' 64 80 0 (Some 1) = (Some dp, d')
     \<and> db_lookup d' (Some ''a/b'') \<noteq> Some (Some dp)"
  using slash_name_lost[OF ball_dir(2), where name = "''a/b''" and ptr = "Some 1" and laddr = 64 and len = 80 and flags = 0] ball_dir(6,7) by auto

text \<open>One path is found in another exactly when its entries stand there one after the
  other, the first entry left out on request.\<close>

theorem path_subset_sublist:
  assumes "fp_names b \<noteq> []"
  shows "db_full_path_subset a b skip
    = Some (if sublist (fp_names b) (drop (if skip then 1 else 0) (fp_names a)) then 1 else 0)"
  by (rule subset_spec[OF assms])

theorem path_subset_sublist_witness:
  "db_full_path_subset \<lparr>fp_names = [Some 1, Some 1, Some 2], fp_maxlen = 3\<rparr>
     \<lparr>fp_names = [Some 1, Some 2], fp_maxlen = 2\<rparr> True = Some 1"
  by (subst path_subset_sublist) (simp_all add: sublist_def prefix_def)

text \<open>A given name, or by default the last one, is looked for among the entries before; but
  the full check, which is meant to take the name of every entry, finds no cycle unless a
  name is given.\<close>

theorem path_cyclic_checks:
  assumes "fp_names pp = map Some (ps @ [p])"
  shows "db_full_path_cyclic d (Some pp) (Some t) full
      = Some (if t \<in> name_of d ` set (ps @ [p]) then 1 else 0)
    \<and> db_full_path_cyclic d (Some pp) None False
      = Some (if name_of d p \<in> name_of d ` set ps then 1 else 0)
    \<and> db_full_path_cyclic d (Some pp) None True = Some 0"
proof -
  define qs where "qs = ps @ [p]"
  let ?n = "map Some qs"
  have ne: "None \<notin> set ?n" "\<And>k. k \<le> length ?n \<Longrightarrow> \<forall>i<k. ?n ! i \<noteq> None" by auto
  have ex: "(\<exists>i<k. dir_namep (dir_mem d (the (?n ! i))) = t) \<longleftrightarrow> t \<in> name_of d ` set (take k qs)"
    if k: "k \<le> length ?n" for k t
  proof
    assume "\<exists>i<k. dir_namep (dir_mem d (the (?n ! i))) = t"
    then obtain i where "i < k" "name_of d (qs ! i) = t" using k by (auto simp: name_of_def)
    moreover from this k have "qs ! i \<in> set (take k qs)" by (auto simp: in_set_conv_nth)
    ultimately show "t \<in> name_of d ` set (take k qs)" by auto
  next
    assume "t \<in> name_of d ` set (take k qs)"
    then obtain i where "i < k" "name_of d (qs ! i) = t" using k by (auto simp: in_set_conv_nth)
    then show "\<exists>i<k. dir_namep (dir_mem d (the (?n ! i))) = t" using k by (auto simp: name_of_def)
  qed
  have cp: "cyclic_path d ?n (Some t) k = Some (if t \<in> name_of d ` set (take k qs) then 1 else 0)"
    if "k \<le> length ?n" for k t
    using cyclic_path_spec[OF ne(2)[OF that], of d t] ex[OF that, of t] by simp
  have cf: "cyclic_full d ?n (Some t) (length ps)
      = Some (if t \<in> name_of d ` set (take (length ps) qs) then 1 else 0)"
    "cyclic_full d ?n None (length ps) = Some 0" for t
    using cyclic_full_spec[OF _ ne(1), of "length ps"] ex[of "length ps" t] by (simp_all add: qs_def)
  show ?thesis
    using cp[of "length ps" "name_of d p"] cp[of "Suc (length ps)" t] cf
    by (cases full) (simp_all add: db_full_path_cyclic_def assms name_of_def qs_def Let_def)
qed

theorem path_cyclic_checks_witness:
  "db_full_path_cyclic ball_dir (Some \<lparr>fp_names = [Some 1023, Some 1023], fp_maxlen = 2\<rparr>) None True = Some 0
    \<and> db_full_path_cyclic ball_dir (Some \<lparr>fp_names = [Some 1023, Some 1023], fp_maxlen = 2\<rparr>) None False = Some 1"
  using path_cyclic_checks[of "\<lparr>fp_names = [Some 1023, Some 1023], fp_maxlen = 2\<rparr>" "[1023]" 1023 ball_dir]
  by simp

end
