(* ===== verification/CombSync.thy ===== *)
theory CombSync
  imports CombAttrProof Db5Scan
begin

text \<open>
  \<open>db5_sync_attr_to_comb\<close> of \<open>librt/db5_attr.c\<close>, which the tree walker calls on every combination:
  the fields of a combination taken from its attributes once more, with numbers read by
  \<open>strtol\<close> in the base that their first characters name, and the flag \<open>RT_DIR_REGION\<close> of the
  directory entry.
\<close>

section \<open>Numbers in base 8, 10 and 16\<close>

definition xdigit :: "char \<Rightarrow> nat option" where
  "xdigit c =
     (if isdigit c then Some (code c - 48)
      else if 97 \<le> code c \<and> code c \<le> 102 then Some (code c - 87)
      else if 65 \<le> code c \<and> code c \<le> 70 then Some (code c - 55) else None)"

fun base_digits :: "nat \<Rightarrow> nat \<Rightarrow> string \<Rightarrow> nat \<times> string" where
  "base_digits b acc [] = (acc, [])"
| "base_digits b acc (c # s) =
     (case xdigit c of
        Some k \<Rightarrow> if k < b then base_digits b (acc * b + k) s else (acc, c # s)
      | None \<Rightarrow> (acc, c # s))"

definition is_digit_in :: "nat \<Rightarrow> string \<Rightarrow> bool" where
  "is_digit_in b s = (case s of [] \<Rightarrow> False | c # _ \<Rightarrow> (case xdigit c of Some k \<Rightarrow> k < b | None \<Rightarrow> False))"

definition hex_prefix :: "string \<Rightarrow> bool" where
  "hex_prefix s \<longleftrightarrow> take 2 s = ''0x'' \<or> take 2 s = ''0X''"

text \<open>An unsigned number without a base given: its value and the rest, \<open>None\<close> when there is no digit.\<close>

definition any_base :: "string \<Rightarrow> (nat \<times> string) option" where
  "any_base s =
     (if hex_prefix s \<and> is_digit_in 16 (drop 2 s) then Some (base_digits 16 0 (drop 2 s))
      else if take 1 s = ''0'' then Some (base_digits 8 0 s)
      else if is_digit_in 10 s then Some (base_digits 10 0 s) else None)"

definition signed :: "(string \<Rightarrow> (nat \<times> string) option) \<Rightarrow> string \<Rightarrow> (int \<times> string) option" where
  "signed scan s =
     (case s of
        [] \<Rightarrow> None
      | c # t \<Rightarrow> if c = CHR ''-'' then map_option (\<lambda>(n, r). (- int n, r)) (scan t)
                 else if c = CHR ''+'' then map_option (\<lambda>(n, r). (int n, r)) (scan t)
                 else map_option (\<lambda>(n, r). (int n, r)) (scan (c # t)))"

text \<open>The value and what follows the number.\<close>

definition strtol0 :: "string \<Rightarrow> int \<times> string" where
  "strtol0 s =
     (case signed any_base (dropWhile isspace s) of
        None \<Rightarrow> (0, s)
      | Some (v, r) \<Rightarrow> (if v > LONG_MAX then LONG_MAX else if v < LONG_MIN then LONG_MIN else v, r))"

text \<open>\<open>sscanf\<close> with \<open>"%3i%*c%3i%*c%3i"\<close>: a field of at most three characters after white space, where
  a hexadecimal prefix without a digit is a failure; the numbers assigned.\<close>

definition field_base :: "string \<Rightarrow> (nat \<times> string) option" where
  "field_base s = (if hex_prefix s \<and> \<not> is_digit_in 16 (drop 2 s) then None else any_base s)"

definition scan_3i :: "string \<Rightarrow> (int \<times> string) option" where
  "scan_3i s =
     (let t = dropWhile isspace s in
      case signed field_base (take 3 t) of None \<Rightarrow> None | Some (v, r) \<Rightarrow> Some (v, r @ drop 3 t))"

fun sscanf_3i :: "nat \<Rightarrow> string \<Rightarrow> int list" where
  "sscanf_3i 0 s = []"
| "sscanf_3i (Suc n) s = (case scan_3i s of None \<Rightarrow> [] | Some (v, r) \<Rightarrow> v # (if r = [] then [] else sscanf_3i n (tl r)))"

section \<open>The fields\<close>

text \<open>The attribute printed by \<open>"%s"\<close>, without white space around it.\<close>

definition attr_text :: "bu_avs \<Rightarrow> nat \<Rightarrow> string" where
  "attr_text avs t = (case bu_avs_get avs (db5_standard_attribute t) of None \<Rightarrow> ''(null)'' | Some v \<Rightarrow> v)"

definition attr_given :: "string \<Rightarrow> bool" where
  "attr_given newval \<longleftrightarrow> length newval \<noteq> 0 \<and> \<not> BU_STR_EQUAL (Some newval) (Some ''(null)'') \<and> \<not> BU_STR_EQUAL (Some newval) (Some ''del'')"

definition sync_number :: "bu_avs \<Rightarrow> nat \<Rightarrow> 64 word \<Rightarrow> 64 word" where
  "sync_number avs t old =
     (let newval = trimspace (attr_text avs t) in
      if attr_given newval
      then (let (n, endptr) = strtol0 newval in if endptr = [] then word_of_int n else old)
      else 0)"

definition sync_color :: "bu_avs \<Rightarrow> byte \<times> (byte \<times> byte \<times> byte) \<Rightarrow> byte \<times> (byte \<times> byte \<times> byte)" where
  "sync_color avs old =
     (let newval = trimspace (attr_text avs ATTR_COLOR) in
      if attr_given newval
      then (case sscanf_3i 3 newval of
              [r, g, b] \<Rightarrow> if r < 0 \<or> g < 0 \<or> b < 0 then (0, snd old)
                          else (1, word_of_int (min r 255), word_of_int (min g 255), word_of_int (min b 255))
            | [r] \<Rightarrow> if r < 0 then (0, snd old) else old
            | _ \<Rightarrow> old)
      else (0, snd old))"

text \<open>The combination and the flags of its directory entry.\<close>

definition db5_sync_attr_to_comb :: "rt_comb_internal \<Rightarrow> bu_avs \<Rightarrow> 32 word \<Rightarrow> rt_comb_internal \<times> 32 word" where
  "db5_sync_attr_to_comb comb avs d_flags =
     (let region = bu_str_true (Some (trimspace (attr_text avs ATTR_REGION))) \<noteq> 0;
          col = sync_color avs (rgb_valid comb, rgb comb) in
      (comb\<lparr>region_flag := (if region then 1 else 0),
        region_id := sync_number avs ATTR_REGION_ID (region_id comb),
        GIFTmater := sync_number avs ATTR_MATERIAL_ID (GIFTmater comb),
        aircode := sync_number avs ATTR_AIR (aircode comb),
        los := sync_number avs ATTR_LOS (los comb),
        rgb_valid := fst col, rgb := snd col,
        shader := (if attr_given (trimspace (attr_text avs ATTR_SHADER)) then attr_text avs ATTR_SHADER else []),
        inherit_flag := (if bu_str_true (Some (attr_text avs ATTR_INHERIT)) \<noteq> 0 then 1 else 0)\<rparr>,
       if region then d_flags OR RT_DIR_REGION else d_flags AND NOT RT_DIR_REGION))"

text \<open>The fields that always survive.\<close>

definition same_fields :: "rt_comb_internal \<Rightarrow> rt_comb_internal \<Rightarrow> bool" where
  "same_fields c' c \<longleftrightarrow> aircode c' = aircode c \<and> GIFTmater c' = GIFTmater c \<and> los c' = los c
    \<and> (region_flag c' \<noteq> 0 \<longleftrightarrow> region_flag c \<noteq> 0) \<and> (inherit_flag c' \<noteq> 0 \<longleftrightarrow> inherit_flag c \<noteq> 0)
    \<and> (rgb_valid c' \<noteq> 0 \<longleftrightarrow> rgb_valid c \<noteq> 0) \<and> (rgb_valid c \<noteq> 0 \<longrightarrow> rgb c' = rgb c)"

section \<open>Numbers that were printed\<close>

lemma xdigit_char: "k < 10 \<Longrightarrow> xdigit (char_of (48 + k)) = Some k"
  using digit_char[of k] by (simp add: xdigit_def)

lemma xdigit_digit: "isdigit c \<Longrightarrow> xdigit c = Some (code c - 48) \<and> code c - 48 < 10"
  by (auto simp: xdigit_def isdigit_def)

lemma base10_digits_val: "\<forall>c\<in>set s. isdigit c \<Longrightarrow> base_digits 10 acc s = digits_val acc s"
  using xdigit_digit by (induction s arbitrary: acc) auto

lemma slash_no_digit: "xdigit (CHR ''/'') = None" "\<not> isdigit (CHR ''/'')"
  by (simp_all add: xdigit_def isdigit_def code_def)

lemma zero_char48: "char_of (48 :: nat) = CHR ''0''"
  by code_simp

lemma any_base_print:
  assumes "r = [] \<or> hd r = CHR ''/''"
  shows "any_base (print_nat n @ r) = Some (n, r)"
proof -
  obtain c ds where p: "print_nat n = c # ds" using print_nat_ne[of n] by (cases "print_nat n") auto
  have d: "isdigit c" "\<forall>c\<in>set ds. isdigit c" using print_nat_digits[of n] p by auto
  have nd: "no_digit r" using assms slash_no_digit by (cases r) (auto simp: no_digit_def)
  have val: "base_digits 10 0 (print_nat n @ r) = (n, r)"
  proof -
    have b: "base_digits 10 acc (s @ r) = digits_val acc (s @ r)" if "\<forall>c\<in>set s. isdigit c" for acc s
      using that xdigit_digit assms slash_no_digit by (induction s arbitrary: acc) (cases r; auto)+
    have "digits_val 0 (print_nat n @ r) = (n, r)"
      using scan_digits_print[OF nd, of n] d(1) by (simp add: scan_digits_def p)
    then show ?thesis using b[OF print_nat_digits] by simp
  qed
  show ?thesis
  proof (cases "n = 0")
    case True
    then have "print_nat n = ''0''" by (subst print_nat.simps) (simp add: zero_char48)
    then show ?thesis using True assms slash_no_digit
      by (cases r) (auto simp: any_base_def hex_prefix_def xdigit_def isdigit_def code_def)
  next
    case False
    then have "c \<noteq> CHR ''0''" using print_nat_first[of n] p by simp
    then show ?thesis using val p d(1) xdigit_digit[of c]
      by (auto simp: any_base_def hex_prefix_def is_digit_in_def split: option.splits)
  qed
qed

lemma digit_or_minus: "print_long i = c # s \<Longrightarrow> isdigit c \<or> c = CHR ''-''"
  using print_nat_digits print_nat_ne by (auto simp: print_long_def split: if_splits) (metis list.set_intros(1))

lemma print_long_start: "dropWhile isspace (print_long i @ r) = print_long i @ r"
  using print_ok(3)[of i] digit_or_minus[of i] digit_not_space
  by (cases "print_long i") (auto simp: isspace_def code_def)

lemma signed_print:
  assumes "r = [] \<or> hd r = CHR ''/''" "\<And>n. scan (print_nat n @ r) = Some (n, r)"
  shows "signed scan (print_long i @ r) = Some (i, r)"
proof (cases "i < 0")
  case True
  then show ?thesis using assms(2) by (simp add: signed_def print_long_def)
next
  case False
  obtain c ds where p: "print_nat (nat i) = c # ds" using print_nat_ne[of "nat i"] by (cases "print_nat (nat i)") auto
  then have "isdigit c" using print_nat_digits[of "nat i"] by simp
  then show ?thesis using False assms(2)[of "nat i"] p digit_not_space[of c] by (simp add: signed_def print_long_def)
qed

lemma strtol0_print: "strtol0 (print_long (sint (w :: 64 word))) = (sint w, [])"
proof -
  have "signed any_base (dropWhile isspace (print_long (sint w))) = Some (sint w, [])"
    using signed_print[of "[]" any_base "sint w"] any_base_print[of "[]"] print_long_start[of "sint w" "[]"] by simp
  moreover have "sint w \<le> LONG_MAX" "LONG_MIN \<le> sint w"
    using sint_range_size[of w] by (simp_all add: LONG_MAX_def LONG_MIN_def word_size)
  ultimately show ?thesis by (simp add: strtol0_def)
qed

lemma trimspace_solid: "s \<noteq> [] \<Longrightarrow> \<not> isspace (hd s) \<Longrightarrow> \<not> isspace (last s) \<Longrightarrow> trimspace s = s"
  by (cases s rule: rev_cases) (auto simp: trimspace_def dropWhile_eq_self_iff hd_append)

lemma print_nat_last: "isdigit (last (print_nat n))"
  using print_nat_digits[of n] print_nat_ne[of n] by simp

lemma print_long_given: "trimspace (print_long i) = print_long i" "attr_given (print_long i)"
proof -
  obtain c s where p: "print_long i = c # s" using print_ok(3)[of i] by (cases "print_long i") auto
  have c: "isdigit c \<or> c = CHR ''-''" by (rule digit_or_minus[OF p])
  have "isdigit (last (print_long i))" using print_nat_last print_nat_ne by (simp add: print_long_def)
  then show "trimspace (print_long i) = print_long i"
    using c p digit_not_space by (intro trimspace_solid) (auto simp: isspace_def code_def)
  show "attr_given (print_long i)"
    using c p by (auto simp: attr_given_def BU_STR_EQUAL_def or_empty_def isdigit_def code_def)
qed

lemma null_not_given: "\<not> attr_given (trimspace ''(null)'')"
  by code_simp

lemma nothing_not_given: "\<not> attr_given (trimspace [])"
  by code_simp

text \<open>Any number but 0 that a \<open>char\<close> can hold is printed as something true.\<close>

lemma printed_start:
  assumes "print_long i = c # s"
  shows "code (tolower c) < 58" "\<not> isspace c" "byte_of c \<noteq> 0"
proof -
  have c: "45 \<le> code c" "code c < 58" using digit_or_minus[OF assms] by (auto simp: isdigit_def code_def)
  then show "code (tolower c) < 58" "\<not> isspace c" by (auto simp: tolower_def isspace_def code_def)
  show "byte_of c \<noteq> 0" using c(1) by (auto simp: byte_of_eq_0 code_def)
qed

lemma printed_true:
  assumes "w \<noteq> 0"
  shows "bu_str_true (Some (print_long (sint (w :: byte)))) \<noteq> 0"
proof -
  let ?p = "print_long (sint w)"
  obtain c s where p: "?p = c # s" using print_ok(3) by (cases ?p) auto
  have w: "sint w \<noteq> 0" "sint w \<le> LONG_MAX" "LONG_MIN \<le> sint w"
    using sint_range_size[of w] assms by (simp_all add: LONG_MAX_def LONG_MIN_def word_size signed_eq_0_iff)
  have v: "strtol10 ?p = (sint w, False, [])"
    using scan_int_print[of "[]" "sint w"] w(2,3) by (simp add: no_digit_def strtol10_def)
  have "\<not> BU_STR_EQUIV (Some ?p) (Some ''n'')" "\<not> BU_STR_EQUIV (Some ?p) (Some ''no'')"
    "\<not> BU_STR_EQUIV (Some ?p) (Some ''false'')" "\<not> BU_STR_EQUIV (Some ?p) (Some ''off'')"
    using printed_start(1)[OF p] by (auto simp: BU_STR_EQUIV_def or_empty_def p) (auto simp: tolower_def code_def)
  moreover have "\<not> BU_STR_EQUIV (Some ?p) (Some ''(null)'')"
    using digit_or_minus[OF p] by (auto simp: BU_STR_EQUIV_def or_empty_def p isdigit_def tolower_def code_def)
  moreover have "sint (byte_of (hd ?p)) \<noteq> 0" using printed_start(3)[OF p] by (simp add: p signed_eq_0_iff)
  moreover have "trimspace ?p = ?p" "?p \<noteq> []" by (rule print_long_given(1), rule print_ok(3))
  ultimately show ?thesis using v w(1) by (simp add: bu_str_true_def Let_def)
qed

lemma attr_text_find: "t < ATTR_NULL \<Longrightarrow> attr_text avs t = (case avs_find avs (std_name t) of None \<Rightarrow> ''(null)'' | Some v \<Rightarrow> v)"
  using std_table(3)[of t] by (simp add: attr_text_def avs_find_def db5_standard_attribute_def bu_avs_get_def)

lemma sync_number_print:
  assumes "t < ATTR_NULL" "avs_find avs (std_name t) = (if b then Some (print_long (sint w)) else None)"
  shows "sync_number avs t old = (if b then w else 0)"
  using assms print_long_given[of "sint w"] strtol0_print[of w] null_not_given
  by (simp add: sync_number_def attr_text_find Let_def)


section \<open>A color that was printed\<close>

lemma short_number: "n < 256 \<Longrightarrow> length (print_nat n) \<le> 3"
proof -
  assume "n < 256"
  then have "n div 10 div 10 < 10" by simp
  then have "length (print_nat (n div 10 div 10)) \<le> 1" by (subst print_nat.simps) simp
  then have "length (print_nat (n div 10)) \<le> 2" by (subst print_nat.simps) simp
  then show ?thesis by (subst print_nat.simps) simp
qed

lemma scan_3i_print:
  assumes "n < 256" "r = [] \<or> hd r = CHR ''/''"
  shows "scan_3i (print_long (int n) @ r) = Some (int n, r)"
proof -
  let ?k = "3 - length (print_nat n)"
  have t: "take 3 (print_long (int n) @ r) = print_long (int n) @ take ?k r" "drop 3 (print_long (int n) @ r) = drop ?k r"
    using short_number[OF assms(1)] by (simp_all add: print_long_def)
  have h: "take ?k r = [] \<or> hd (take ?k r) = CHR ''/''" using assms(2) by (cases r; cases ?k) auto
  have "\<not> (hex_prefix (print_nat m @ take ?k r) \<and> \<not> is_digit_in 16 (drop 2 (print_nat m @ take ?k r)))" for m
  proof -
    have "''x'' = [CHR ''x'']" by simp
    obtain c ds where p: "print_nat m = c # ds" using print_nat_ne[of m] by (cases "print_nat m") auto
    have "\<forall>c\<in>set ds. isdigit c" using print_nat_digits[of m] p by auto
    moreover have "\<not> isdigit (CHR ''x'')" "\<not> isdigit (CHR ''X'')" by (simp_all add: isdigit_def code_def)
    ultimately show ?thesis using h p by (cases ds; cases "take ?k r") (auto simp: hex_prefix_def)
  qed
  then have "field_base (print_nat m @ take ?k r) = Some (m, take ?k r)" for m
    using any_base_print[OF h, of m] by (auto simp: field_base_def)
  then have "signed field_base (print_long (int n) @ take ?k r) = Some (int n, take ?k r)"
    using signed_print[OF h] by blast
  moreover have "take ?k r @ drop 3 (print_long (int n) @ r) = r" using t(2) by simp
  ultimately show ?thesis by (simp only: scan_3i_def print_long_start t(1) Let_def option.case prod.case)
qed

lemma sscanf_3i_rgb: "sscanf_3i 3 (print_rgb (r, g, b)) = [uint r, uint g, uint b]"
proof -
  have s: "scan_3i (print_long (uint x) @ s) = Some (uint x, s)" if "s = [] \<or> hd s = CHR ''/''" for x :: byte and s
    using scan_3i_print[of "unat x" s] that unsigned_less[of x] by simp
  show ?thesis using s[of "[]" b] s[of "CHR ''/'' # print_long (uint b)" g] s[of "CHR ''/'' # print_long (uint g) @ CHR ''/'' # print_long (uint b)" r]
    by (simp add: print_rgb_def numeral_3_eq_3)
qed

lemma print_rgb_given: "trimspace (print_rgb c) = print_rgb c" "attr_given (print_rgb c)"
proof -
  obtain r g b where c: "c = (r, g, b)" by (cases c)
  have l: "isdigit (last (print_long (uint b)))" "print_long (uint b) \<noteq> []" using print_nat_last print_nat_ne by (simp_all add: print_long_def)
  obtain d s where p: "print_long (uint r) = d # s" using print_ok(3)[of "uint r"] by (cases "print_long (uint r)") auto
  then have d: "isdigit d" using print_nat_digits[of "nat (uint r)"] by (simp add: print_long_def)
  show "trimspace (print_rgb c) = print_rgb c"
    using l d digit_not_space by (intro trimspace_solid) (auto simp: print_rgb_def c p)
  show "attr_given (print_rgb c)"
    using d by (auto simp: attr_given_def BU_STR_EQUAL_def or_empty_def isdigit_def code_def print_rgb_def c p)
qed

lemma flag_bit: "(x OR RT_DIR_REGION) AND RT_DIR_REGION \<noteq> 0" "(x AND NOT RT_DIR_REGION) AND RT_DIR_REGION = 0"
  by (simp_all add: RT_DIR_REGION_def bit.conj_disj_distrib2 and.assoc)

text \<open>What each standard name has decides the fields.\<close>

lemma sync_fields:
  assumes "avs_find S ''region'' = (if region_flag c \<noteq> 0 then Some ''R'' else None)"
    and "avs_find S ''inherit'' = (if inherit_flag c \<noteq> 0 then Some m else None)" "bu_str_true (Some m) \<noteq> 0"
    and "avs_find S ''color'' = (if rgb_valid c \<noteq> 0 then Some (print_rgb (rgb c)) else None)"
    and "avs_find S ''shader'' = (if shader c \<noteq> [] then Some (shader c) else None)"
    and "avs_find S ''region_id'' = (if n then Some (print_long (sint (region_id c))) else None)"
    and "avs_find S ''aircode'' = (if aircode c \<noteq> 0 then Some (print_long (sint (aircode c))) else None)"
    and "avs_find S ''material_id'' = (if GIFTmater c \<noteq> 0 then Some (print_long (sint (GIFTmater c))) else None)"
    and "avs_find S ''los'' = (if los c \<noteq> 0 then Some (print_long (sint (los c))) else None)"
    and "db5_sync_attr_to_comb c0 S fl = (c', fl')"
  shows "region_id c' = (if n then region_id c else 0) \<and> same_fields c' c
    \<and> shader c' = (if attr_given (trimspace (shader c)) then shader c else [])
    \<and> is_fastgen c' = is_fastgen c0 \<and> material c' = material c0 \<and> ctree c' = ctree c0
    \<and> (fl' AND RT_DIR_REGION \<noteq> 0 \<longleftrightarrow> region_flag c \<noteq> 0)"
proof -
  have num: "sync_number S ATTR_REGION_ID old = (if n then region_id c else 0)" "sync_number S ATTR_AIR old = aircode c"
    "sync_number S ATTR_MATERIAL_ID old = GIFTmater c" "sync_number S ATTR_LOS old = los c" for old
    using assms(6-9) sync_number_print[of _ S n "region_id c"] sync_number_print[of _ S "aircode c \<noteq> 0" "aircode c"]
      sync_number_print[of _ S "GIFTmater c \<noteq> 0" "GIFTmater c"] sync_number_print[of _ S "los c \<noteq> 0" "los c"] attr_null
    by (simp_all split: if_splits)
  have nt: "bu_str_true (Some (trimspace ''(null)'')) = 0" "bu_str_true (Some ''(null)'') = 0"
    "bu_str_true (Some (trimspace ''R'')) \<noteq> 0" by code_simp+
  have fl: "bu_str_true (Some (trimspace (attr_text S ATTR_REGION))) \<noteq> 0 \<longleftrightarrow> region_flag c \<noteq> 0"
    "bu_str_true (Some (attr_text S ATTR_INHERIT)) \<noteq> 0 \<longleftrightarrow> inherit_flag c \<noteq> 0"
    using assms(1-3) nt attr_null by (auto simp: attr_text_find std_names)
  have sh: "(if attr_given (trimspace (attr_text S ATTR_SHADER)) then attr_text S ATTR_SHADER else [])
      = (if attr_given (trimspace (shader c)) then shader c else [])"
    using assms(5) null_not_given nothing_not_given attr_null by (auto simp: attr_text_find std_names)
  obtain r g b where rgb: "rgb c = (r, g, b)" by (cases "rgb c")
  have "uint x \<le> 255" for x :: byte using uint_lt2p[of x] by simp
  then have "word_of_int (min (uint x) 255) = x" for x :: byte by (simp add: min_absorb1)
  then have "sync_color S (rgb_valid c0, rgb c0) = (if rgb_valid c \<noteq> 0 then (1, rgb c) else (0, rgb c0))"
    using assms(4) null_not_given attr_null print_rgb_given[of "rgb c"] sscanf_3i_rgb[of r g b]
    by (simp add: sync_color_def attr_text_find std_names rgb Let_def)
  moreover have "fl' AND RT_DIR_REGION \<noteq> 0 \<longleftrightarrow> region_flag c \<noteq> 0"
    using fl(1) assms(10) flag_bit(1,2)[of fl] by (auto simp: Let_def db5_sync_attr_to_comb_def)
  moreover have "c' = fst (db5_sync_attr_to_comb c0 S fl)" using assms(10) by simp
  ultimately show ?thesis using num fl sh by (simp add: Let_def db5_sync_attr_to_comb_def same_fields_def)
qed

section \<open>Properties\<close>

text \<open>C38: a combination \<open>c\<close> synchronized into attributes, which may hold anything else before, and from them
  into a combination \<open>c0\<close>: the numbers, the color, the region flag and the inheritance of \<open>c\<close> are there
  again, with the flag \<open>RT_DIR_REGION\<close> of the directory entry.  The region id is lost when \<open>c\<close> is no
  region, and the shader when it is blank, \<open>del\<close> or \<open>(null)\<close>; the FASTGEN type, the material and the tree
  are not part of the exchange and stay those of \<open>c0\<close>.\<close>

theorem sync_roundtrip:
  assumes "avs_full A"
    and "db5_sync_attr_to_comb c0 (db5_sync_comb_to_attr A c) fl = (c', fl')"
  shows "region_id c' = (if region_flag c \<noteq> 0 then region_id c else 0) \<and> same_fields c' c
    \<and> shader c' = (if attr_given (trimspace (shader c)) then shader c else [])
    \<and> is_fastgen c' = is_fastgen c0 \<and> material c' = material c0 \<and> ctree c' = ctree c0
    \<and> (fl' AND RT_DIR_REGION \<noteq> 0 \<longleftrightarrow> region_flag c \<noteq> 0)"
proof (cases "inherit_flag c = 0")
  note d = db5_sync_comb_to_attr_def add_or_remove Let_def std_names[unfolded std_name_def]
  case True
  then show ?thesis
    by (intro sync_fields[where m = "''1''", OF _ _ _ _ _ _ _ _ _ assms(2)]) (use assms(1) true_marks in \<open>auto simp: d\<close>)
next
  note d = db5_sync_comb_to_attr_def add_or_remove Let_def std_names[unfolded std_name_def]
  case False
  then show ?thesis
    by (intro sync_fields[where m = "print_long (sint (inherit_flag c))", OF _ _ _ _ _ _ _ _ _ assms(2)])
      (use assms(1) printed_true[OF False] in \<open>auto simp: d\<close>)
qed

text \<open>The same for the attributes of an exported combination, standardized: there the region id of a
  combination that is no region is kept too.\<close>

theorem sync_exported:
  assumes "avs_wf A" "avp A = avp (comb_export_attributes c None)"
    and "db5_sync_attr_to_comb c0 (snd (db5_standardize_avs A)) fl = (c', fl')"
  shows "region_id c' = region_id c \<and> same_fields c' c"
proof -
  have full: "avs_full A" using assms(1,2) export_full[of c] by (simp add: avs_full_def)
  note f = fresh_export_find[OF full same_avp[OF assms(2)]]
  have "(if region_id c \<noteq> 0 then region_id c else 0) = region_id c" by simp
  then show ?thesis
    using sync_fields[OF f(1,2) true_marks(4) f(3,4,5,6,7,8) assms(3)] by simp
qed

definition a_region :: rt_comb_internal where
  "a_region = RT_COMB_INTERNAL_INIT\<lparr>region_flag := 1, region_id := 1010, aircode := 2, los := 100, rgb_valid := 1,
     rgb := (255, 128, 0), shader := ''plastic'', inherit_flag := 1\<rparr>"

theorem sync_roundtrip_witness:
  "let c' = fst (db5_sync_attr_to_comb RT_COMB_INTERNAL_INIT (db5_sync_comb_to_attr (bu_avs_init 4) a_region) 0)
   in region_id c' = 1010 \<and> shader c' = ''plastic'' \<and> same_fields c' a_region"
proof -
  have "avs_full (bu_avs_init 4)" "region_flag a_region \<noteq> 0" "region_id a_region = 1010" "shader a_region = ''plastic''"
    using full_init by (simp_all add: a_region_def)
  moreover have "attr_given (trimspace ''plastic'')" by code_simp
  ultimately show ?thesis
    using sync_roundtrip[OF _ surjective_pairing, of "bu_avs_init 4" RT_COMB_INTERNAL_INIT a_region 0] by (simp add: Let_def)
qed

text \<open>A number with a leading zero is read in base 10 when the combination is read from the
  database and in base 8 when the tree walker takes it from the same attributes: the region of id
  \<open>010\<close> is region 10 for the one and region 8 for the other; one of \<open>08\<close> keeps what it had.\<close>

definition octal_attrs :: "string \<Rightarrow> bu_avs" where
  "octal_attrs v = fold (\<lambda>(n, v) a. snd (bu_avs_add a (Some n) (Some v))) [(''region'', ''R''), (''region_id'', v)] (bu_avs_init 4)"

theorem number_bases_differ:
  "region_id (comb_import_attributes (Some (octal_attrs ''010'')) RT_COMB_INTERNAL_INIT) = 10
   \<and> region_id (fst (db5_sync_attr_to_comb c (octal_attrs ''010'') fl)) = 8
   \<and> region_id (comb_import_attributes (Some (octal_attrs ''08'')) RT_COMB_INTERNAL_INIT) = 8
   \<and> region_id (fst (db5_sync_attr_to_comb c (octal_attrs ''08'') fl)) = region_id c"
proof -
  have i: "region_id (comb_import_attributes (Some (octal_attrs ''010'')) RT_COMB_INTERNAL_INIT) = 10"
    "region_id (comb_import_attributes (Some (octal_attrs ''08'')) RT_COMB_INTERNAL_INIT) = 8" by code_simp+
  have t: "trimspace (attr_text (octal_attrs ''010'') ATTR_REGION_ID) = ''010''"
    "trimspace (attr_text (octal_attrs ''08'') ATTR_REGION_ID) = ''08''" by code_simp+
  have g: "attr_given ''010''" "attr_given ''08''" "strtol0 ''010'' = (8, [])" "strtol0 ''08'' = (0, ''8'')" by code_simp+
  show ?thesis using i by (simp add: db5_sync_attr_to_comb_def sync_number_def t g Let_def)
qed

end
