(* ===== verification/BuB64.thy ===== *)
theory BuB64
  imports BrlPrelude
begin

text \<open>
  Base64 (\<open>libbu/b64.c\<close>).  The encoder and the decoder are state machines that can be fed a block
  at a time: the code enters its endless loop through a \<open>switch\<close> on the state that the last block
  left.  Here the states are constructors and the loop is a recursion on the bytes of the block.
  A \<open>signed char\<close> is a byte whose comparisons are signed.
\<close>

unbundle bit_operations_syntax

section \<open>Encoding\<close>

datatype encodestep = step_A | step_B | step_C

record encodestate =
  es_step :: encodestep
  es_result :: byte
  es_stepcount :: "32 word"

definition CHARS_PER_LINE :: "32 word" where "CHARS_PER_LINE = 72"

definition bu_b64_init_encodestate :: encodestate where
  "bu_b64_init_encodestate = \<lparr>es_step = step_A, es_result = 0, es_stepcount = 0\<rparr>"

definition encoding :: "byte list" where
  "encoding = bytes_of ''ABCDEFGHIJKLMNOPQRSTUVWXYZabcdefghijklmnopqrstuvwxyz0123456789+/''"

text \<open>An index outside the string is \<open>None\<close>.\<close>

definition bu_b64_encode_value :: "byte \<Rightarrow> byte option" where
  "bu_b64_encode_value v =
     (if 63 <s v then Some (byte_of (CHR ''=''))
      else if v <s 0 then None else Some (encoding ! unat v))"

text \<open>What the loop does with one character from each of its labels: the characters written and
  the state.\<close>

definition encode_char :: "byte \<Rightarrow> encodestate \<Rightarrow> (byte list \<times> encodestate) option" where
  "encode_char fragment s =
     (case es_step s of
        step_A \<Rightarrow> do {
          c \<leftarrow> bu_b64_encode_value (drop_bit 2 (fragment AND 0xfc));
          Some ([c], s\<lparr>es_step := step_B, es_result := push_bit 4 (fragment AND 0x03)\<rparr>) }
      | step_B \<Rightarrow> do {
          c \<leftarrow> bu_b64_encode_value (es_result s OR drop_bit 4 (fragment AND 0xf0));
          Some ([c], s\<lparr>es_step := step_C, es_result := push_bit 2 (fragment AND 0x0f)\<rparr>) }
      | step_C \<Rightarrow> do {
          c \<leftarrow> bu_b64_encode_value (es_result s OR drop_bit 6 (fragment AND 0xc0));
          let result = fragment AND 0x3f;
          d \<leftarrow> bu_b64_encode_value result;
          let s = s\<lparr>es_step := step_A, es_result := result, es_stepcount := es_stepcount s + 1\<rparr>;
          Some (if es_stepcount s = CHARS_PER_LINE div 4 then ([c, d, 10], s\<lparr>es_stepcount := 0\<rparr>)
                else ([c, d], s)) })"

fun bu_b64_encode_block_internal :: "byte list \<Rightarrow> encodestate \<Rightarrow> (byte list \<times> encodestate) option" where
  "bu_b64_encode_block_internal [] s = Some ([], s)"
| "bu_b64_encode_block_internal (fragment # plain) s =
     do { (cs, s) \<leftarrow> encode_char fragment s;
          (ds, s) \<leftarrow> bu_b64_encode_block_internal plain s;
          Some (cs @ ds, s) }"

definition bu_b64_encode_blockend :: "encodestate \<Rightarrow> byte list option" where
  "bu_b64_encode_blockend s =
     (let pad = byte_of (CHR ''='') in
      case es_step s of
        step_B \<Rightarrow> do { c \<leftarrow> bu_b64_encode_value (es_result s); Some [c, pad, pad, 10] }
      | step_C \<Rightarrow> do { c \<leftarrow> bu_b64_encode_value (es_result s); Some [c, pad, 10] }
      | step_A \<Rightarrow> Some [10])"

text \<open>The block that \<open>bu_calloc\<close> returns for an estimated number of characters: the number is
  computed as a \<open>size_t\<close>, cast to \<open>int\<close>, increased by 4 and taken 8 times.  \<open>None\<close> is an overflow
  of the \<open>int\<close>, and the bomb of \<open>bu_calloc\<close> when there is nothing to allocate or more than an
  object can have.\<close>

definition calloc_bytes :: "size_t \<Rightarrow> nat option" where
  "calloc_bytes est =
     (let n = (ucast est :: 32 word); bytes = 8 * uint (scast (n + 4) :: size_t) in
      if 0x7ffffffb <s n \<or> bytes = 0 \<or> bytes \<ge> 2 ^ 63 then None else Some (nat bytes))"

text \<open>Writing behind the block is \<open>None\<close>.\<close>

definition store_into :: "nat \<Rightarrow> byte list \<Rightarrow> byte list option" where
  "store_into bytes bs = (if length bs \<le> bytes then Some (bs @ replicate (bytes - length bs) 0) else None)"

definition bu_b64_encode_block :: "byte list \<Rightarrow> byte list option" where
  "bu_b64_encode_block input =
     do { bytes \<leftarrow> calloc_bytes (4 * of_nat (length input) div 3);
          (cs, s) \<leftarrow> bu_b64_encode_block_internal input bu_b64_init_encodestate;
          ds \<leftarrow> bu_b64_encode_blockend s;
          store_into bytes (cs @ ds @ [0]) }"

definition bu_b64_encode :: "byte list \<Rightarrow> byte list option" where
  "bu_b64_encode input = do { s \<leftarrow> c_string input; bu_b64_encode_block s }"

section \<open>Decoding\<close>

datatype decodestep = step_a | step_b | step_c | step_d

record decodestate =
  ds_step :: decodestep
  ds_plainchar :: byte

definition decoding :: "byte list" where
  "decoding = [62,-1,-1,-1,63,52,53,54,55,56,57,58,59,60,61,-1,-1,-1,-2,-1,-1,-1,0,1,2,3,4,5,6,7,8,9,10,
     11,12,13,14,15,16,17,18,19,20,21,22,23,24,25,-1,-1,-1,-1,-1,-1,26,27,28,29,30,31,32,33,34,35,36,37,
     38,39,40,41,42,43,44,45,46,47,48,49,50,51]"

definition bu_b64_decode_value :: "byte \<Rightarrow> byte" where
  "bu_b64_decode_value value_in =
     (let v = value_in - 43 in
      if v <s 0 \<or> of_nat (length decoding) \<le>s v then -1 else decoding ! unat v)"

definition bu_b64_init_decodestate :: decodestate where
  "bu_b64_init_decodestate = \<lparr>ds_step = step_a, ds_plainchar = 0\<rparr>"

text \<open>One character from each label of the loop: the bytes that are finished and the state, which
  holds the unfinished one; the code keeps that at the end of its output, where a new block has
  zeroes.\<close>

definition decode_char :: "byte \<Rightarrow> decodestate \<Rightarrow> byte list \<times> decodestate" where
  "decode_char codechar s =
     (let fragment = bu_b64_decode_value codechar; plainchar = ds_plainchar s in
      if fragment <s 0 then ([], s)
      else case ds_step s of
        step_a \<Rightarrow> ([], \<lparr>ds_step = step_b, ds_plainchar = push_bit 2 (fragment AND 0x3f)\<rparr>)
      | step_b \<Rightarrow> ([plainchar OR drop_bit 4 (fragment AND 0x30)],
                   \<lparr>ds_step = step_c, ds_plainchar = push_bit 4 (fragment AND 0x0f)\<rparr>)
      | step_c \<Rightarrow> ([plainchar OR drop_bit 2 (fragment AND 0x3c)],
                   \<lparr>ds_step = step_d, ds_plainchar = push_bit 6 (fragment AND 0x03)\<rparr>)
      | step_d \<Rightarrow> ([plainchar OR (fragment AND 0x3f)], \<lparr>ds_step = step_a, ds_plainchar = 0\<rparr>))"

fun bu_b64_decode_block_internal :: "byte list \<Rightarrow> decodestate \<Rightarrow> byte list \<times> decodestate" where
  "bu_b64_decode_block_internal [] s = ([], s)"
| "bu_b64_decode_block_internal (codechar # code) s =
     (let (ps, s) = decode_char codechar s; (qs, s) = bu_b64_decode_block_internal code s in (ps @ qs, s))"

text \<open>The number of bytes decoded and the buffer; without a place to put it the result is -1.\<close>

definition bu_b64_decode_block :: "bool \<Rightarrow> byte list \<Rightarrow> (int \<times> byte list) option" where
  "bu_b64_decode_block output input =
     (if \<not> output then Some (-1, [])
      else do { bytes \<leftarrow> calloc_bytes (3 * of_nat (length input) div 4);
                let (ps, s) = bu_b64_decode_block_internal input bu_b64_init_decodestate;
                out \<leftarrow> store_into bytes (ps @ [0]);
                Some (sint (of_nat (length ps) :: 32 word), out) })"

definition bu_b64_decode :: "bool \<Rightarrow> byte list \<Rightarrow> (int \<times> byte list) option" where
  "bu_b64_decode output input = do { s \<leftarrow> c_string input; bu_b64_decode_block output s }"

section \<open>A block at a time\<close>

lemma encode_append:
  "bu_b64_encode_block_internal (xs @ ys) s =
     do { (cs, s') \<leftarrow> bu_b64_encode_block_internal xs s;
          (ds, s'') \<leftarrow> bu_b64_encode_block_internal ys s';
          Some (cs @ ds, s'') }"
proof (induction xs arbitrary: s)
  case Nil
  then show ?case by (cases "bu_b64_encode_block_internal ys s") auto
next
  case (Cons x xs)
  then show ?case by (auto split: Option.bind_split)
qed

lemma decode_block_append:
  "bu_b64_decode_block_internal (xs @ ys) s =
     (let (ps, s') = bu_b64_decode_block_internal xs s; (qs, s'') = bu_b64_decode_block_internal ys s'
      in (ps @ qs, s''))"
  by (induction xs arbitrary: s) (auto simp: Let_def split: prod.splits)

section \<open>Digits\<close>

lemma encoding_codes:
  "encoding = [65,66,67,68,69,70,71,72,73,74,75,76,77,78,79,80,81,82,83,84,85,86,87,88,89,90,97,98,99,
     100,101,102,103,104,105,106,107,108,109,110,111,112,113,114,115,116,117,118,119,120,121,122,
     48,49,50,51,52,53,54,55,56,57,43,47]"
  by code_simp

definition digit :: "byte \<Rightarrow> byte" where "digit v = encoding ! unat v"

definition digit_ok :: "byte \<Rightarrow> bool" where
  "digit_ok v \<longleftrightarrow> bu_b64_encode_value v = Some (digit v)
     \<and> bu_b64_decode_value (digit v) = v \<and> digit v \<noteq> 0 \<and> \<not> v <s 0"

lemma digits_ok: "list_all digit_ok (map of_nat [0..<64])"
  unfolding digit_ok_def digit_def bu_b64_encode_value_def encoding_codes by code_simp

lemma digit_facts:
  assumes "v < 64"
  shows "bu_b64_encode_value v = Some (digit v)" "bu_b64_decode_value (digit v) = v" "digit v \<noteq> 0" "\<not> v <s 0"
proof -
  have "unat v \<in> {0..<64}" using assms by (simp add: word_less_nat_alt)
  then have "digit_ok (of_nat (unat v))" using digits_ok unfolding list_all_iff set_map set_upt by blast
  then show "bu_b64_encode_value v = Some (digit v)" "bu_b64_decode_value (digit v) = v" "digit v \<noteq> 0" "\<not> v <s 0"
    by (simp_all add: digit_ok_def)
qed

lemma skipped: "bu_b64_decode_value 10 <s 0" "bu_b64_decode_value (byte_of (CHR ''='')) <s 0"
  by code_simp+

section \<open>The bits of three bytes\<close>

lemma byte_eqI:
  assumes "\<And>n. n \<in> {0, 1, 2, 3, 4, 5, 6, 7} \<Longrightarrow> bit (x :: byte) n = bit y n" shows "x = y"
proof (rule bit_word_eqI)
  fix n assume "n < LENGTH(8)"
  then have "n \<in> {0, 1, 2, 3, 4, 5, 6, 7}" by (simp; arith)
  then show "bit x n = bit y n" by (rule assms)
qed

lemma masked_small: "z AND 0x3f = z \<Longrightarrow> z < (64 :: byte)"
proof -
  assume "z AND 0x3f = z"
  then have "unat z = unat (z AND mask 6)" by (simp add: mask_eq_exp_minus_1)
  also have "\<dots> < 64"
    using take_bit_nat_less_exp[of 6 "unat z"] by (simp add: take_bit_eq_mask[symmetric] unsigned_take_bit_eq)
  finally show ?thesis by (simp add: word_less_nat_alt)
qed

lemma six_bits:
  "drop_bit 2 (x AND 0xfc) < (64 :: byte)"
  "push_bit 4 (x AND 0x03) OR drop_bit 4 (y AND 0xf0) < (64 :: byte)"
  "push_bit 2 (x AND 0x0f) OR drop_bit 6 (y AND 0xc0) < (64 :: byte)"
  "push_bit 4 (x AND 0x03) < (64 :: byte)" "push_bit 2 (x AND 0x0f) < (64 :: byte)"
  "x AND 0x3f < (64 :: byte)"
  by (rule masked_small, rule byte_eqI, force simp: bit_simps)+

text \<open>What the decoder makes of them.\<close>

lemma first_byte:
  "push_bit 2 (drop_bit 2 (x AND 0xfc) AND 0x3f) = (x AND 0xfc :: byte)"
  "(x AND 0xfc) OR drop_bit 4 ((push_bit 4 (x AND 0x03) OR drop_bit 4 (y AND 0xf0)) AND 0x30) = (x :: byte)"
  by (rule byte_eqI, force simp: bit_simps simp flip: numeral_2_eq_2)+

lemma second_byte:
  "push_bit 4 ((push_bit 4 (x AND 0x03) OR drop_bit 4 (y AND 0xf0)) AND 0x0f) = (y AND 0xf0 :: byte)"
  "(y AND 0xf0) OR drop_bit 2 ((push_bit 2 (y AND 0x0f) OR drop_bit 6 (z AND 0xc0)) AND 0x3c) = (y :: byte)"
  by (rule byte_eqI, force simp: bit_simps simp flip: numeral_2_eq_2)+

lemma third_byte:
  "push_bit 6 ((push_bit 2 (y AND 0x0f) OR drop_bit 6 (z AND 0xc0)) AND 0x03) OR (z AND 0x3f) = (z :: byte)"
  by (rule byte_eqI, force simp: bit_simps simp flip: numeral_2_eq_2)

lemma last_byte:
  "(x AND 0xfc) OR drop_bit 4 (push_bit 4 (x AND 0x03) AND 0x30) = (x :: byte)"
  "(y AND 0xf0) OR drop_bit 2 (push_bit 2 (y AND 0x0f) AND 0x3c) = (y :: byte)"
  by (rule byte_eqI, force simp: bit_simps simp flip: numeral_2_eq_2)+

section \<open>Encoder and decoder in step\<close>

text \<open>The byte that the encoder has taken and the decoder has not finished.\<close>

definition in_step :: "encodestate \<Rightarrow> decodestate \<Rightarrow> byte list \<Rightarrow> bool" where
  "in_step s d ps \<longleftrightarrow>
     (case es_step s of
        step_A \<Rightarrow> ps = [] \<and> ds_step d = step_a
      | step_B \<Rightarrow> (\<exists>x. ps = [x] \<and> es_result s = push_bit 4 (x AND 0x03) \<and> d = \<lparr>ds_step = step_b, ds_plainchar = x AND 0xfc\<rparr>)
      | step_C \<Rightarrow> (\<exists>y. ps = [y] \<and> es_result s = push_bit 2 (y AND 0x0f) \<and> d = \<lparr>ds_step = step_c, ds_plainchar = y AND 0xf0\<rparr>))"

lemma decode_digit:
  assumes "v < 64"
  shows "decode_char (digit v) d =
     (case ds_step d of
        step_a \<Rightarrow> ([], \<lparr>ds_step = step_b, ds_plainchar = push_bit 2 (v AND 0x3f)\<rparr>)
      | step_b \<Rightarrow> ([ds_plainchar d OR drop_bit 4 (v AND 0x30)],
                   \<lparr>ds_step = step_c, ds_plainchar = push_bit 4 (v AND 0x0f)\<rparr>)
      | step_c \<Rightarrow> ([ds_plainchar d OR drop_bit 2 (v AND 0x3c)],
                   \<lparr>ds_step = step_d, ds_plainchar = push_bit 6 (v AND 0x03)\<rparr>)
      | step_d \<Rightarrow> ([ds_plainchar d OR (v AND 0x3f)], \<lparr>ds_step = step_a, ds_plainchar = 0\<rparr>))"
  using digit_facts(2,4)[OF assms] by (simp add: decode_char_def Let_def)

lemma decode_skipped: "decode_char 10 d = ([], d)" "decode_char (byte_of (CHR ''='')) d = ([], d)"
  using skipped by (simp_all add: decode_char_def)

lemma encode_char_in_step:
  assumes "in_step s d ps"
  shows "\<exists>cs s' qs d' ps'. encode_char x s = Some (cs, s') \<and> 0 \<notin> set cs
    \<and> bu_b64_decode_block_internal cs d = (qs, d') \<and> in_step s' d' ps' \<and> ps @ [x] = qs @ ps'"
proof (cases "es_step s")
  case step_A
  then show ?thesis using assms
    by (auto simp: in_step_def encode_char_def digit_facts six_bits decode_digit first_byte(1) simp del: push_bit_and drop_bit_and)
next
  case step_B
  then show ?thesis using assms
    by (auto simp: in_step_def encode_char_def digit_facts six_bits decode_digit first_byte(2) second_byte(1) simp del: push_bit_and drop_bit_and)
next
  case step_C
  then obtain y where y: "ps = [y]" "es_result s = push_bit 2 (y AND 0x0f)"
    "d = \<lparr>ds_step = step_c, ds_plainchar = y AND 0xf0\<rparr>" using assms by (auto simp: in_step_def)
  show ?thesis
    by (auto simp: in_step_def encode_char_def digit_facts six_bits decode_digit second_byte(2) third_byte step_C y Let_def decode_skipped simp del: push_bit_and drop_bit_and)
qed


lemma encode_in_step:
  assumes "in_step s d ps"
  shows "\<exists>cs s' qs d' ps'. bu_b64_encode_block_internal xs s = Some (cs, s') \<and> 0 \<notin> set cs
    \<and> bu_b64_decode_block_internal cs d = (qs, d') \<and> in_step s' d' ps' \<and> ps @ xs = qs @ ps'"
  using assms
proof (induction xs arbitrary: s d ps)
  case (Cons x xs)
  obtain cs s' qs d' ps' where c: "encode_char x s = Some (cs, s')" "0 \<notin> set cs"
    "bu_b64_decode_block_internal cs d = (qs, d')" "in_step s' d' ps'" "ps @ [x] = qs @ ps'"
    using encode_char_in_step[OF Cons.prems] by blast
  obtain cs2 s2 qs2 d2 ps2 where r: "bu_b64_encode_block_internal xs s' = Some (cs2, s2)" "0 \<notin> set cs2"
    "bu_b64_decode_block_internal cs2 d' = (qs2, d2)" "in_step s2 d2 ps2" "ps' @ xs = qs2 @ ps2"
    using Cons.IH[OF c(4)] by blast
  have "ps @ x # xs = (qs @ qs2) @ ps2" using c(5) r(5) by (metis append.assoc append_Cons append_Nil)
  then show ?case using c(1-3) r(1-4) by (auto simp: decode_block_append)
qed simp

lemma blockend_in_step:
  assumes "in_step s d ps"
  shows "\<exists>cs d'. bu_b64_encode_blockend s = Some cs \<and> 0 \<notin> set cs \<and> length cs \<le> 4
    \<and> bu_b64_decode_block_internal cs d = (ps, d')"
proof (cases "es_step s")
  case step_A
  then show ?thesis using assms by (auto simp: in_step_def bu_b64_encode_blockend_def decode_skipped)
next
  case step_B
  then show ?thesis using assms
    by (auto simp: in_step_def bu_b64_encode_blockend_def decode_skipped decode_digit digit_facts six_bits last_byte Let_def byte_of_eq_0 simp del: push_bit_and drop_bit_and)
next
  case step_C
  then show ?thesis using assms
    by (auto simp: in_step_def bu_b64_encode_blockend_def decode_skipped decode_digit digit_facts six_bits last_byte Let_def byte_of_eq_0 simp del: push_bit_and drop_bit_and)
qed

section \<open>The size of the text\<close>

definition pending_chars :: "encodestate \<Rightarrow> nat" where
  "pending_chars s = (case es_step s of step_A \<Rightarrow> 0 | step_B \<Rightarrow> 1 | step_C \<Rightarrow> 2)"

lemma encode_char_length:
  assumes "encode_char x s = Some (cs, s')"
  shows "length cs + pending_chars s' \<le> 2 + pending_chars s" "1 \<le> length cs"
  using assms by (auto simp: encode_char_def pending_chars_def Let_def split: encodestep.splits if_splits elim!: option_elims)

lemma encode_length:
  "bu_b64_encode_block_internal xs s = Some (cs, s') \<Longrightarrow>
     length xs \<le> length cs \<and> length cs + pending_chars s' \<le> 2 * length xs + pending_chars s"
proof (induction xs arbitrary: s cs)
  case (Cons x xs)
  then obtain c s1 cs1 where c: "encode_char x s = Some (c, s1)" "bu_b64_encode_block_internal xs s1 = Some (cs1, s')"
    "cs = c @ cs1" by (auto elim!: option_elims)
  show ?case using encode_char_length[OF c(1)] Cons.IH[OF c(2)] by (simp add: c(3))
qed simp

lemma decode_length: "length (fst (bu_b64_decode_block_internal cs d)) \<le> length cs"
proof (induction cs arbitrary: d)
  case (Cons c cs)
  have "length (fst (decode_char c d)) \<le> 1" by (auto simp: decode_char_def Let_def split: decodestep.splits)
  then show ?case using Cons.IH[of "snd (decode_char c d)"] by (auto split: prod.splits)
qed simp

lemma calloc_small:
  assumes "n + 4 < 2 ^ 31"
  shows "calloc_bytes (of_nat n) = Some (8 * (n + 4))"
proof -
  have s: "sint (of_nat k :: 32 word) = int k" if "k < 2 ^ 31" for k
    using that by (simp add: sint_uint signed_take_bit_int_eq_self unsigned_of_nat take_bit_nat_eq_self)
  have e: "(ucast (of_nat n :: size_t) :: 32 word) = of_nat n"
    using assms by (simp add: unsigned_of_nat take_bit_nat_eq_self)
  have a: "(of_nat n + 4 :: 32 word) = of_nat (n + 4)" by simp
  have "uint (scast (of_nat (n + 4) :: 32 word) :: size_t) = int (n + 4)"
    unfolding scast_eq s[OF assms] using assms by (simp add: unsigned_of_nat take_bit_nat_eq_self del: of_nat_add)
  then show ?thesis using s[of n] assms unfolding calloc_bytes_def e a
    by (simp add: word_sless_alt Let_def nat_mult_distrib)
qed

lemma block_fits:
  fixes m n :: nat
  shows "m \<le> 2 * n + 4 \<Longrightarrow> m + 1 \<le> 8 * (4 * n div 3 + 4)" "n \<le> m \<Longrightarrow> n + 1 \<le> 8 * (3 * m div 4 + 4)"
proof -
  have a: "4 * n \<le> 3 * q + 2 \<Longrightarrow> m \<le> 2 * n + 4 \<Longrightarrow> m + 1 \<le> 8 * (q + 4)" for q :: nat by simp
  have b: "3 * m \<le> 4 * q + 3 \<Longrightarrow> n \<le> m \<Longrightarrow> n + 1 \<le> 8 * (q + 4)" for q :: nat by simp
  have "4 * n \<le> 3 * (4 * n div 3) + 2" by simp
  then show "m + 1 \<le> 8 * (4 * n div 3 + 4)" if "m \<le> 2 * n + 4" using that by (rule a)
  have "3 * m \<le> 4 * (3 * m div 4) + 3" by simp
  then show "n + 1 \<le> 8 * (3 * m div 4 + 4)" if "n \<le> m" using that by (rule b)
qed

text \<open>A number of characters that the cast to \<open>int\<close> makes small.\<close>

lemma calloc_wraps: "calloc_bytes (of_nat (2 ^ 32)) = Some 32"
  by (simp add: calloc_bytes_def)

section \<open>Properties\<close>

text \<open>C13: base64 text of up to a gigabyte fits into the block allocated for it, ends with a zero, and
  is decoded to exactly the bytes that were encoded, whatever line breaks and padding it has.\<close>

theorem b64_roundtrip:
  assumes "length input < 2 ^ 30"
  shows "\<exists>text rest rest'. bu_b64_encode_block input = Some (text @ 0 # rest) \<and> 0 \<notin> set text
    \<and> bu_b64_decode True (text @ 0 # rest) = Some (int (length input), input @ 0 # rest')"
proof -
  let ?n = "length input"
  have "in_step bu_b64_init_encodestate bu_b64_init_decodestate []"
    by (simp add: in_step_def bu_b64_init_encodestate_def bu_b64_init_decodestate_def)
  then obtain cs s d qs ps where e: "bu_b64_encode_block_internal input bu_b64_init_encodestate = Some (cs, s)" "0 \<notin> set cs"
    "bu_b64_decode_block_internal cs bu_b64_init_decodestate = (qs, d)" "in_step s d ps" "input = qs @ ps"
    using encode_in_step[of bu_b64_init_encodestate bu_b64_init_decodestate "[]" input] by auto
  obtain ds d' where b: "bu_b64_encode_blockend s = Some ds" "0 \<notin> set ds" "length ds \<le> 4"
    "bu_b64_decode_block_internal ds d = (ps, d')" using blockend_in_step[OF e(4)] by blast
  let ?t = "cs @ ds"
  have dec: "bu_b64_decode_block_internal ?t bu_b64_init_decodestate = (input, d')"
    by (simp add: decode_block_append e(3,5) b(4))
  have len: "?n \<le> length ?t" "length ?t \<le> 2 * ?n + 4"
    using encode_length[OF e(1)] b(3) by (auto simp: pending_chars_def bu_b64_init_encodestate_def)
  have est: "(4 * of_nat ?n div 3 :: size_t) = of_nat (4 * ?n div 3)" "(3 * of_nat (length ?t) div 4 :: size_t) = of_nat (3 * length ?t div 4)"
    using assms len(2) by (simp_all add: word_arith_nat_div unat_word_ariths unsigned_of_nat take_bit_nat_eq_self)
  have c1: "calloc_bytes (4 * of_nat ?n div 3) = Some (8 * (4 * ?n div 3 + 4))"
    unfolding est using assms by (intro calloc_small) simp
  have c2: "calloc_bytes (3 * of_nat (length ?t) div 4) = Some (8 * (3 * length ?t div 4 + 4))"
    unfolding est using assms len(2) by (intro calloc_small) simp
  have "length ?t + 1 \<le> 8 * (4 * ?n div 3 + 4)" using block_fits(1)[OF len(2)] .
  then obtain r where o1: "bu_b64_encode_block input = Some (?t @ 0 # r)"
    using c1 e(1) b(1) by (simp add: bu_b64_encode_block_def store_into_def)
  have "?n + 1 \<le> 8 * (3 * length ?t div 4 + 4)" using block_fits(2)[OF len(1)] .
  moreover have "sint (of_nat ?n :: 32 word) = int ?n"
    using assms by (simp add: sint_uint signed_take_bit_int_eq_self unsigned_of_nat take_bit_nat_eq_self)
  moreover have "c_string (?t @ 0 # r) = Some ?t" using e(2) b(2) by (intro c_string_append) simp
  ultimately have "\<exists>r'. bu_b64_decode True (?t @ 0 # r) = Some (int ?n, input @ 0 # r')"
    using c2 dec by (simp add: bu_b64_decode_def bu_b64_decode_block_def store_into_def)
  then show ?thesis using o1 e(2) b(2) by (metis Un_iff set_append)
qed

lemma b64_roundtrip_witness:
  "\<exists>text rest rest'. bu_b64_encode_block [77, 0, 255, 10] = Some (text @ 0 # rest) \<and> 0 \<notin> set text
    \<and> bu_b64_decode True (text @ 0 # rest) = Some (4, [77, 0, 255, 10] @ 0 # rest')"
  using b64_roundtrip[of "[77, 0, 255, 10]"] by simp

text \<open>C14: for three gigabytes the number of characters is cast to the \<open>int\<close> zero, so that 32 bytes
  are allocated, and the encoder writes its four gigabytes of text behind them.\<close>

theorem b64_huge_overflow:
  assumes "length input = 3 * 2 ^ 30"
  shows "calloc_bytes (4 * of_nat (length input) div 3) = Some 32 \<and> bu_b64_encode_block input = None"
proof -
  have c: "calloc_bytes (4 * of_nat (length input) div 3) = Some 32"
    using calloc_wraps by (simp add: assms)
  have "bu_b64_encode_block input = None" if "bu_b64_encode_block_internal input bu_b64_init_encodestate = Some (cs, s)" for cs s
    using encode_length[OF that] c assms
    by (auto simp: bu_b64_encode_block_def that store_into_def split: Option.bind_split)
  then show ?thesis using c
    by (cases "bu_b64_encode_block_internal input bu_b64_init_encodestate") (auto simp: bu_b64_encode_block_def)
qed

lemma b64_huge_overflow_witness:
  "bu_b64_encode_block (replicate (3 * 2 ^ 30) 65) = None"
  using b64_huge_overflow[of "replicate (3 * 2 ^ 30) 65"] by simp

end
