(* ===== verification/CMemory.thy ===== *)
theory CMemory
  imports BrlPrelude
begin

text \<open>
  Blocks of memory as the routines of libbu get them from \<open>libbu/malloc.c\<close>.  A block is a list of
  cells; a cell that has not been written since the block was allocated is \<open>None\<close>.  Reading such a
  cell, reading or writing outside the block, and \<open>bu_bomb\<close> all make the result \<open>None\<close>.
\<close>

section \<open>Cells\<close>

definition mem_blit :: "nat \<Rightarrow> 'a option list \<Rightarrow> 'a option list \<Rightarrow> 'a option list option" where
  "mem_blit i cs m = (if i + length cs \<le> length m then Some (take i m @ cs @ drop (i + length cs) m) else None)"

definition mem_put :: "nat \<Rightarrow> 'a list \<Rightarrow> 'a option list \<Rightarrow> 'a option list option" where
  "mem_put i xs m = mem_blit i (map Some xs) m"

definition mem_cells :: "nat \<Rightarrow> nat \<Rightarrow> 'a option list \<Rightarrow> 'a option list option" where
  "mem_cells i n m = (if i + n \<le> length m then Some (take n (drop i m)) else None)"

definition mem_at :: "nat \<Rightarrow> 'a option list \<Rightarrow> 'a option" where
  "mem_at i m = (if i < length m then m ! i else None)"

text \<open>The string at a pointer: what stands before the first zero.\<close>

fun c_str :: "byte option list \<Rightarrow> byte list option" where
  "c_str [] = None"
| "c_str (None # m) = None"
| "c_str (Some b # m) = (if b = 0 then Some [] else map_option (Cons b) (c_str m))"

lemma mem_blit_length: "mem_blit i cs m = Some m' \<Longrightarrow> length m' = length m"
  by (auto simp: mem_blit_def split: if_splits)

lemma mem_put_length: "mem_put i xs m = Some m' \<Longrightarrow> length m' = length m"
  unfolding mem_put_def by (rule mem_blit_length)

lemma mem_put_some: "i + length xs \<le> length m \<Longrightarrow> mem_put i xs m = Some (take i m @ map Some xs @ drop (i + length xs) m)"
  by (simp add: mem_put_def mem_blit_def)

lemma c_str_append: "0 \<notin> set s \<Longrightarrow> c_str (map Some s @ Some 0 # m) = Some s"
  by (induction s) auto

section \<open>Allocation\<close>

text \<open>\<open>alloc\<close> bombs when nothing or more than an object can have is asked for, and hands out at least
  as many bytes as a pointer has.\<close>

definition MINSIZE :: nat where "MINSIZE = 8"

definition bu_malloc :: "size_t \<Rightarrow> 'a option list option" where
  "bu_malloc n = (if n = 0 \<or> n \<ge> 2 ^ 63 then None else Some (replicate (max (unat n) MINSIZE) None))"

definition resize :: "nat \<Rightarrow> 'a option list \<Rightarrow> 'a option list" where
  "resize n m = take n m @ replicate (n - length m) None"

definition bu_realloc :: "'a option list option \<Rightarrow> size_t \<Rightarrow> 'a option list option" where
  "bu_realloc ptr siz =
     (case ptr of
        None \<Rightarrow> if siz = 0 then None else bu_malloc siz
      | Some m \<Rightarrow> if siz = 0 then bu_malloc (of_nat MINSIZE)
                 else if siz \<ge> 2 ^ 63 then None else Some (resize (max (unat siz) MINSIZE) m))"

lemma bu_malloc_some: "n \<noteq> 0 \<Longrightarrow> unat n < 2 ^ 63 \<Longrightarrow> bu_malloc n = Some (replicate (max (unat n) MINSIZE) None)"
  by (simp add: bu_malloc_def word_le_nat_alt)

lemma bu_realloc_some: "siz \<noteq> 0 \<Longrightarrow> unat siz < 2 ^ 63 \<Longrightarrow> bu_realloc (Some m) siz = Some (resize (max (unat siz) MINSIZE) m)"
  by (simp add: bu_realloc_def word_le_nat_alt)

lemma resize_grow: "length m \<le> n \<Longrightarrow> resize n m = m @ replicate (n - length m) None"
  by (simp add: resize_def)

end
