(* ===== verification/BuVls.thy ===== *)
theory BuVls
  imports CMemory CStrings
begin

text \<open>
  Variable-length strings (\<open>bu/vls.h\<close>, \<open>libbu/vls.c\<close>): a buffer that grows, the number of
  characters at its start that have been nibbled off, and the length of the string after them.
  An argument of type \<open>const char *\<close> is the string it points to, the bytes before its zero.
  An argument that is a pointer and may be null is an option.
\<close>

record bu_vls =
  vls_str :: "byte option list option"
  vls_offset :: size_t
  vls_len :: size_t
  vls_max :: size_t

definition VLS_ALLOC_MIN :: size_t where "VLS_ALLOC_MIN = 32"
definition VLS_ALLOC_STEP :: size_t where "VLS_ALLOC_STEP = 128"

section \<open>The buffer\<close>

definition bu_vls_init :: bu_vls where
  "bu_vls_init = \<lparr>vls_str = None, vls_offset = 0, vls_len = 0, vls_max = 0\<rparr>"

text \<open>The pointer returned is the part of the buffer from it on.\<close>

definition bu_vls_addr :: "bu_vls \<Rightarrow> byte option list option" where
  "bu_vls_addr vp =
     (case vls_str vp of
        None \<Rightarrow> Some [Some 0, Some 0, Some 0, Some 0]
      | Some buf \<Rightarrow>
          if vls_max vp = 0 then Some [Some 0, Some 0, Some 0, Some 0]
          else if vls_len vp + vls_offset vp \<ge> vls_max vp then None
          else Some (drop (unat (vls_offset vp)) buf))"

definition bu_vls_cstr :: "bu_vls \<Rightarrow> byte option list option" where
  "bu_vls_cstr vp = bu_vls_addr vp"

text \<open>Growth in steps.\<close>

definition rounded :: "size_t \<Rightarrow> size_t" where
  "rounded extra =
     (if extra < VLS_ALLOC_STEP then VLS_ALLOC_STEP
      else if extra mod VLS_ALLOC_STEP \<noteq> 0 then extra + (VLS_ALLOC_STEP - extra mod VLS_ALLOC_STEP) else extra)"

definition bu_vls_extend :: "size_t \<Rightarrow> bu_vls \<Rightarrow> bu_vls option" where
  "bu_vls_extend extra vp =
     (let extra = max VLS_ALLOC_MIN extra in
      if vls_max vp = 0 \<or> vls_str vp = None then do {
        buf \<leftarrow> bu_malloc extra;
        buf \<leftarrow> mem_put 0 [0] buf;
        Some \<lparr>vls_str = Some buf, vls_offset = 0, vls_len = 0, vls_max = extra\<rparr> }
      else if vls_offset vp + vls_len vp + rounded extra \<ge> vls_max vp then do {
        buf \<leftarrow> bu_realloc (vls_str vp) (vls_max vp + rounded extra);
        Some (vp\<lparr>vls_str := Some buf, vls_max := vls_max vp + rounded extra\<rparr>) }
      else Some vp)"

definition bu_vls_setlen :: "size_t \<Rightarrow> bu_vls \<Rightarrow> bu_vls option" where
  "bu_vls_setlen newlen vp =
     (if vls_len vp \<ge> newlen then Some vp
      else do { vp \<leftarrow> bu_vls_extend (ucast (ucast newlen :: 32 word) - vls_len vp) vp;
                Some (vp\<lparr>vls_len := newlen\<rparr>) })"

definition bu_vls_strlen :: "bu_vls \<Rightarrow> size_t" where
  "bu_vls_strlen vp = vls_len vp"

text \<open>Storing into the buffer; without one the pointer is null.\<close>

definition vls_put :: "size_t \<Rightarrow> byte list \<Rightarrow> bu_vls \<Rightarrow> bu_vls option" where
  "vls_put i bs vp = do { buf \<leftarrow> vls_str vp; buf \<leftarrow> mem_put (unat i) bs buf; Some (vp\<lparr>vls_str := Some buf\<rparr>) }"

text \<open>The length is an \<open>int\<close>; a negative one counts from the end, and the sum overflows below the
  smallest \<open>int\<close>.\<close>

definition absolute_len :: "bu_vls \<Rightarrow> 32 word \<Rightarrow> 32 word option" where
  "absolute_len vp len =
     (if len <s 0
      then (let k = sint (ucast (vls_len vp) :: 32 word) + sint len in
            if k < - (2 ^ 31) then None else Some (word_of_int k))
      else Some len)"

definition bu_vls_trunc :: "bu_vls \<Rightarrow> 32 word \<Rightarrow> bu_vls option" where
  "bu_vls_trunc vp len =
     do { len \<leftarrow> absolute_len vp len;
          if vls_len vp \<le> scast len then Some vp
          else do {
            let vp = (if len = 0 then vp\<lparr>vls_offset := 0\<rparr> else vp);
            vp \<leftarrow> (if vls_str vp = None then Some vp else vls_put (scast len + vls_offset vp) [0] vp);
            Some (vp\<lparr>vls_len := scast len\<rparr>) } }"

definition bu_vls_nibble :: "off_t \<Rightarrow> bu_vls \<Rightarrow> bu_vls option" where
  "bu_vls_nibble len vp =
     (if 0 <s len \<and> len \<ge> vls_len vp then bu_vls_trunc vp 0
      else if len <s 0 \<and> - len > vls_offset vp
      then Some (vp\<lparr>vls_len := vls_len vp + vls_offset vp, vls_offset := 0\<rparr>)
      else if len <s 0
      then Some (vp\<lparr>vls_len := vls_len vp + - len, vls_offset := vls_offset vp - - len\<rparr>)
      else Some (vp\<lparr>vls_len := vls_len vp - len, vls_offset := vls_offset vp + len\<rparr>))"

definition bu_vls_free :: "bu_vls \<Rightarrow> bu_vls" where
  "bu_vls_free vp =
     (let vp = (if vls_str vp \<noteq> None \<and> vls_max vp > 0 then vp\<lparr>vls_str := None\<rparr> else vp)
      in vp\<lparr>vls_offset := 0, vls_len := 0, vls_max := 0\<rparr>)"

section \<open>Copies\<close>

text \<open>\<open>bu_strlcpy\<close> to a new block of the given size.\<close>

definition bu_strlcpy_new :: "byte list \<Rightarrow> size_t \<Rightarrow> byte option list option" where
  "bu_strlcpy_new src bytes =
     do { blk \<leftarrow> bu_malloc bytes; mem_put 0 (take (unat bytes - 1) src @ [0]) blk }"

definition bu_vls_strdup :: "bu_vls \<Rightarrow> byte option list option" where
  "bu_vls_strdup vp =
     do { p \<leftarrow> bu_vls_addr vp; s \<leftarrow> c_str p; bu_strlcpy_new s (bu_vls_strlen vp + 1) }"

definition bu_vls_strgrab :: "bu_vls \<Rightarrow> (byte option list \<times> bu_vls) option" where
  "bu_vls_strgrab vp =
     (if vls_offset vp \<noteq> 0 \<or> vls_str vp = None
      then do { str \<leftarrow> bu_vls_strdup vp; Some (str, bu_vls_free vp) }
      else do { str \<leftarrow> bu_vls_addr vp; Some (str, bu_vls_init) })"

definition bu_vls_strcpy :: "byte list option \<Rightarrow> bu_vls \<Rightarrow> bu_vls option" where
  "bu_vls_strcpy s vp =
     (case s of None \<Rightarrow> Some vp | Some s \<Rightarrow>
      if s = [] then
        (let vp = vp\<lparr>vls_len := 0, vls_offset := 0\<rparr> in
         if vls_max vp > 0 then vls_put 0 [0] vp else Some vp)
      else do {
        let len = of_nat (length s);
        let vp = vp\<lparr>vls_offset := 0\<rparr>;
        vp \<leftarrow> (if len + 1 \<ge> vls_max vp then bu_vls_extend (len + 1) vp else Some vp);
        vp \<leftarrow> vls_put 0 (s @ [0]) vp;
        Some (vp\<lparr>vls_len := len\<rparr>) })"

text \<open>The first \<open>n\<close> characters of \<open>s\<close>: the code computes their number as the minimum of \<open>n\<close> and the
  length.\<close>

definition bu_vls_strncpy :: "byte list option \<Rightarrow> size_t \<Rightarrow> bu_vls \<Rightarrow> bu_vls option" where
  "bu_vls_strncpy s n vp =
     (case s of None \<Rightarrow> Some vp | Some s \<Rightarrow>
      let s = take (unat n) s; len = of_nat (length s) in
      if s = [] then Some (vp\<lparr>vls_len := 0\<rparr>)
      else do {
        let vp = vp\<lparr>vls_offset := 0\<rparr>;
        vp \<leftarrow> (if len + 1 \<ge> vls_max vp then bu_vls_extend (len + 1) vp else Some vp);
        vp \<leftarrow> vls_put 0 (s @ [0]) vp;
        Some (vp\<lparr>vls_len := len\<rparr>) })"

text \<open>Room for some more characters and a zero.\<close>

definition reserve :: "size_t \<Rightarrow> bu_vls \<Rightarrow> bu_vls option" where
  "reserve len vp = (if vls_offset vp + vls_len vp + len + 1 \<ge> vls_max vp then bu_vls_extend (len + 1) vp else Some vp)"

definition bu_vls_strcat :: "byte list option \<Rightarrow> bu_vls \<Rightarrow> bu_vls option" where
  "bu_vls_strcat s vp =
     (case s of None \<Rightarrow> Some vp | Some s \<Rightarrow>
      if s = [] then Some vp
      else do {
        let len = of_nat (length s);
        vp \<leftarrow> reserve len vp;
        vp \<leftarrow> vls_put (vls_offset vp + vls_len vp) (s @ [0]) vp;
        Some (vp\<lparr>vls_len := vls_len vp + len\<rparr>) })"

definition bu_vls_strncat :: "byte list option \<Rightarrow> size_t \<Rightarrow> bu_vls \<Rightarrow> bu_vls option" where
  "bu_vls_strncat s n vp =
     (case s of None \<Rightarrow> Some vp | Some s \<Rightarrow>
      let s = take (unat n) s; len = of_nat (length s) in
      if s = [] then Some vp
      else do {
        vp \<leftarrow> reserve len vp;
        vp \<leftarrow> vls_put (vls_offset vp + vls_len vp) s vp;
        let vp = vp\<lparr>vls_len := vls_len vp + len\<rparr>;
        vls_put (vls_offset vp + vls_len vp) [0] vp })"

text \<open>The source is another string; its zero is copied as it stands there.\<close>

definition bu_vls_vlscat :: "bu_vls \<Rightarrow> bu_vls \<Rightarrow> bu_vls option" where
  "bu_vls_vlscat src dest =
     (if vls_len src = 0 then Some dest
      else do {
        dest \<leftarrow> reserve (vls_len src) dest;
        sbuf \<leftarrow> vls_str src;
        cells \<leftarrow> mem_cells (unat (vls_offset src)) (unat (vls_len src + 1)) sbuf;
        buf \<leftarrow> vls_str dest;
        buf \<leftarrow> mem_blit (unat (vls_offset dest + vls_len dest)) cells buf;
        Some (dest\<lparr>vls_str := Some buf, vls_len := vls_len dest + vls_len src\<rparr>) })"

text \<open>The two strings after it, the destination first.\<close>

definition bu_vls_vlscatzap :: "bu_vls \<Rightarrow> bu_vls \<Rightarrow> (bu_vls \<times> bu_vls) option" where
  "bu_vls_vlscatzap src dest =
     (if vls_len src = 0 then Some (dest, src)
      else do { dest \<leftarrow> bu_vls_vlscat src dest; src \<leftarrow> bu_vls_trunc src 0; Some (dest, src) })"

definition bu_vls_putc :: "byte \<Rightarrow> bu_vls \<Rightarrow> bu_vls option" where
  "bu_vls_putc c vp =
     do { vp \<leftarrow> (if vls_offset vp + vls_len vp + 1 \<ge> vls_max vp then bu_vls_extend VLS_ALLOC_STEP vp else Some vp);
          vp \<leftarrow> vls_put (vls_offset vp + vls_len vp) [c] vp;
          let vp = vp\<lparr>vls_len := vls_len vp + 1\<rparr>;
          vls_put (vls_offset vp + vls_len vp) [0] vp }"

section \<open>Loops over the characters\<close>

text \<open>The loops of \<open>bu_vls_trimspace\<close> call \<open>bu_vls_trunc\<close>, which does nothing when the length does not
  fit an \<open>int\<close>; a loop that does not end is \<open>None\<close> as well.\<close>

partial_function (option) trim_trailing :: "bu_vls \<Rightarrow> bu_vls option" where
  "trim_trailing vp =
     (if vls_len vp > 0 then do {
        p \<leftarrow> bu_vls_addr vp;
        c \<leftarrow> mem_at (unat (bu_vls_strlen vp - 1)) p;
        if isspace (char_of_byte c) then do { vp \<leftarrow> bu_vls_trunc vp (- 1); trim_trailing vp } else Some vp }
      else Some vp)"

partial_function (option) trim_leading :: "bu_vls \<Rightarrow> bu_vls option" where
  "trim_leading vp =
     (if vls_len vp > 0 then do {
        p \<leftarrow> bu_vls_addr vp;
        c \<leftarrow> mem_at 0 p;
        if isspace (char_of_byte c) then do { vp \<leftarrow> bu_vls_nibble 1 vp; trim_leading vp } else Some vp }
      else Some vp)"

definition bu_vls_trimspace :: "bu_vls \<Rightarrow> bu_vls option" where
  "bu_vls_trimspace vp = do { vp \<leftarrow> trim_trailing vp; trim_leading vp }"

definition bu_vls_spaces :: "size_t \<Rightarrow> bu_vls \<Rightarrow> bu_vls option" where
  "bu_vls_spaces cnt vp =
     (if cnt = 0 then Some vp
      else do {
        vp \<leftarrow> (if vls_offset vp + vls_len vp + cnt + 1 \<ge> vls_max vp then bu_vls_extend cnt vp else Some vp);
        vp \<leftarrow> vls_put (vls_offset vp + vls_len vp) (replicate (unat cnt) 32) vp;
        Some (vp\<lparr>vls_len := vls_len vp + cnt\<rparr>) })"

text \<open>The columns that a string takes, from a given one on.\<close>

fun positions_used :: "byte list \<Rightarrow> size_t \<Rightarrow> size_t" where
  "positions_used [] used = used"
| "positions_used (c # s) used = positions_used s (if c = 9 then used + (8 - used mod 8) else used + 1)"

text \<open>\<open>strrchr\<close>: the string from the last occurrence on.\<close>

fun strrchr :: "byte \<Rightarrow> byte list \<Rightarrow> byte list option" where
  "strrchr c [] = None"
| "strrchr c (b # s) = (case strrchr c s of Some r \<Rightarrow> Some r | None \<Rightarrow> if b = c then Some (b # s) else None)"

definition bu_vls_print_positions_used :: "bu_vls \<Rightarrow> size_t option" where
  "bu_vls_print_positions_used vp =
     do { p \<leftarrow> bu_vls_addr vp; s \<leftarrow> c_str p;
          Some (positions_used (case strrchr 10 s of None \<Rightarrow> s | Some start \<Rightarrow> start) 0) }"

fun detab_loop :: "byte list \<Rightarrow> size_t \<Rightarrow> bu_vls \<Rightarrow> bu_vls option" where
  "detab_loop [] used vp = Some vp"
| "detab_loop (c # s) used vp =
     (if c = 9 then (let todo = 8 - used mod 8 in do { vp \<leftarrow> bu_vls_spaces todo vp; detab_loop s (used + todo) vp })
      else if c = 10 then do { vp \<leftarrow> bu_vls_putc 10 vp; detab_loop s 0 vp }
      else do { vp \<leftarrow> bu_vls_putc c vp; detab_loop s (used + 1) vp })"

definition bu_vls_detab :: "bu_vls \<Rightarrow> bu_vls option" where
  "bu_vls_detab vp =
     do { (src, vp) \<leftarrow> bu_vls_vlscatzap vp bu_vls_init;
          vp \<leftarrow> bu_vls_extend (bu_vls_strlen src + VLS_ALLOC_STEP) vp;
          p \<leftarrow> bu_vls_addr src;
          s \<leftarrow> c_str p;
          detab_loop s 0 vp }"

definition bu_vls_prepend :: "byte list \<Rightarrow> bu_vls \<Rightarrow> bu_vls option" where
  "bu_vls_prepend str vp =
     do { let len = of_nat (length str);
          vp \<leftarrow> bu_vls_extend len vp;
          buf \<leftarrow> vls_str vp;
          cells \<leftarrow> mem_cells (unat (vls_offset vp)) (unat (vls_len vp + 1)) buf;
          buf \<leftarrow> mem_blit (unat (vls_offset vp + len)) cells buf;
          buf \<leftarrow> mem_put (unat (vls_offset vp)) str buf;
          Some (vp\<lparr>vls_str := Some buf, vls_len := vls_len vp + len\<rparr>) }"

text \<open>Copying the characters of \<open>src\<close> at the indices given.\<close>

fun substr_loop :: "nat list \<Rightarrow> bu_vls \<Rightarrow> bu_vls \<Rightarrow> bu_vls option" where
  "substr_loop [] src dest = Some dest"
| "substr_loop (i # is) src dest =
     do { p \<leftarrow> bu_vls_cstr src; c \<leftarrow> mem_at i p; dest \<leftarrow> bu_vls_putc c dest; substr_loop is src dest }"

definition bu_vls_substr :: "bu_vls \<Rightarrow> size_t \<Rightarrow> size_t \<Rightarrow> bu_vls \<Rightarrow> bu_vls option" where
  "bu_vls_substr src begin nchars dest =
     (let len = vls_len src in
      if len = 0 \<or> begin > len \<or> nchars = 0 then Some dest
      else do {
        let nchars = (if nchars > len then len else nchars);
        dest \<leftarrow> bu_vls_trunc dest 0;
        dest \<leftarrow> bu_vls_extend (nchars + 1) dest;
        let stop = (if begin + nchars > len then len else begin + nchars);
        dest \<leftarrow> substr_loop [unat begin..<unat stop] src dest;
        bu_vls_putc 0 dest })"

text \<open>Only the sign of the result of \<open>strcmp\<close> is known; characters are compared as \<open>unsigned char\<close>.\<close>

fun strcmp :: "byte list \<Rightarrow> byte list \<Rightarrow> int" where
  "strcmp [] [] = 0"
| "strcmp [] (b # t) = - 1"
| "strcmp (a # s) [] = 1"
| "strcmp (a # s) (b # t) = (if a = b then strcmp s t else if a < b then - 1 else 1)"

text \<open>A string without a buffer gets one, so that it ends with a zero.\<close>

definition with_buffer :: "bu_vls \<Rightarrow> bu_vls option" where
  "with_buffer s = (if vls_max s = 0 \<or> vls_str s = None then bu_vls_extend 1 s else Some s)"

definition buffer_str :: "bu_vls \<Rightarrow> byte list option" where
  "buffer_str s = do { buf \<leftarrow> vls_str s; c_str (drop (unat (vls_offset s)) buf) }"

definition bu_vls_strcmp :: "bu_vls \<Rightarrow> bu_vls \<Rightarrow> (int \<times> bu_vls \<times> bu_vls) option" where
  "bu_vls_strcmp s1 s2 =
     do { s1 \<leftarrow> with_buffer s1; s2 \<leftarrow> with_buffer s2;
          a \<leftarrow> buffer_str s1; b \<leftarrow> buffer_str s2;
          Some (strcmp a b, s1, s2) }"

fun bu_vls_from_argv :: "nat \<Rightarrow> byte list option list \<Rightarrow> bu_vls \<Rightarrow> bu_vls option" where
  "bu_vls_from_argv 0 argv vp = Some vp"
| "bu_vls_from_argv (Suc argc) argv vp =
     (case argv of
        [] \<Rightarrow> None
      | arg # argv \<Rightarrow> do {
          vp \<leftarrow> bu_vls_strcat arg vp;
          vp \<leftarrow> (if Suc argc > 1 then bu_vls_strcat (Some [32]) vp else Some vp);
          bu_vls_from_argv argc argv vp })"

end
