(* ===== verification/BuVlsProof.thy ===== *)
theory BuVlsProof
  imports BuVls
begin

text \<open>
  What a string of \<open>BuVls\<close> stands for: the characters nibbled off and the ones after them.  The
  operations are those on these two lists as long as the buffer can grow.
\<close>

section \<open>A string and its buffer\<close>

definition vls_at :: "byte list \<Rightarrow> byte list \<Rightarrow> byte option list \<Rightarrow> bu_vls" where
  "vls_at pre con rest =
     \<lparr>vls_str = Some (map Some pre @ map Some con @ rest), vls_offset = of_nat (length pre),
      vls_len = of_nat (length con), vls_max = of_nat (length pre + length con + length rest)\<rparr>"

abbreviation extent :: "byte list \<Rightarrow> byte list \<Rightarrow> byte option list \<Rightarrow> nat" where
  "extent pre con rest \<equiv> length pre + length con + length rest"

definition fits :: "byte list \<Rightarrow> byte list \<Rightarrow> byte option list \<Rightarrow> bool" where
  "fits pre con rest \<longleftrightarrow> rest \<noteq> [] \<and> 32 \<le> extent pre con rest \<and> extent pre con rest < 2 ^ 63"

definition vls_wf :: "bu_vls \<Rightarrow> bool" where
  "vls_wf v \<longleftrightarrow> v = bu_vls_init \<or> (\<exists>pre con rest. v = vls_at pre con rest \<and> fits pre con rest)"

text \<open>With a zero behind the characters.\<close>

definition vls_ok :: "bu_vls \<Rightarrow> bool" where
  "vls_ok v \<longleftrightarrow> v = bu_vls_init \<or> (\<exists>pre con rest. v = vls_at pre con (Some 0 # rest) \<and> fits pre con (Some 0 # rest))"

definition vls_view :: "bu_vls \<Rightarrow> byte list \<times> byte list" where
  "vls_view v =
     (case vls_str v of
        None \<Rightarrow> ([], [])
      | Some buf \<Rightarrow> (map the (take (unat (vls_offset v)) buf),
                     map the (take (unat (vls_len v)) (drop (unat (vls_offset v)) buf))))"

abbreviation "content v \<equiv> snd (vls_view v)"

lemma small_word: "n < 2 ^ 63 \<Longrightarrow> unat (of_nat n :: size_t) = n"
  by (simp add: unsigned_of_nat take_bit_nat_eq_self)

lemma vls_at_fields [simp]:
  "vls_str (vls_at pre con rest) = Some (map Some pre @ map Some con @ rest)"
  "vls_offset (vls_at pre con rest) = of_nat (length pre)" "vls_len (vls_at pre con rest) = of_nat (length con)"
  by (simp_all add: vls_at_def)

lemma vls_max_at: "vls_max (vls_at pre con rest) = of_nat (extent pre con rest)"
  by (simp add: vls_at_def)

lemma unat_max_at [simp]: "fits pre con rest \<Longrightarrow> unat (vls_max (vls_at pre con rest)) = extent pre con rest"
  unfolding vls_max_at fits_def by (intro small_word) simp

lemma vls_init_fields [simp]:
  "vls_str bu_vls_init = None" "vls_offset bu_vls_init = 0" "vls_len bu_vls_init = 0" "vls_max bu_vls_init = 0"
  by (simp_all add: bu_vls_init_def)

lemma vls_init_rewound [simp]: "bu_vls_init\<lparr>vls_offset := 0\<rparr> = bu_vls_init"
  by (simp add: bu_vls_init_def)

lemma vls_view_at: "fits pre con rest \<Longrightarrow> vls_view (vls_at pre con rest) = (pre, con)"
  by (simp add: vls_view_def fits_def small_word comp_def)

lemma vls_view_init [simp]: "vls_view bu_vls_init = ([], [])"
  by (simp add: vls_view_def)

lemma vls_ok_wf: "vls_ok v \<Longrightarrow> vls_wf v"
  by (auto simp: vls_ok_def vls_wf_def)

lemma vls_wf_cases [consumes 1, case_names init at]:
  assumes "vls_wf v"
  obtains "v = bu_vls_init" | rest where "v = vls_at (fst (vls_view v)) (content v) rest" "fits (fst (vls_view v)) (content v) rest"
  using assms by (auto simp: vls_wf_def vls_view_at)

lemma vls_ok_cases [consumes 1, case_names init at]:
  assumes "vls_ok v"
  obtains "v = bu_vls_init"
    | rest where "v = vls_at (fst (vls_view v)) (content v) (Some 0 # rest)" "fits (fst (vls_view v)) (content v) (Some 0 # rest)"
  using assms by (auto simp: vls_ok_def vls_view_at)

lemma vls_at_ok: "fits pre con (Some 0 # rest) \<Longrightarrow> vls_ok (vls_at pre con (Some 0 # rest))"
  by (auto simp: vls_ok_def)

text \<open>The same as a test of the fields.\<close>

text \<open>Storing characters and a zero behind the string.\<close>

lemma vls_at_eqI:
  assumes "vls_str v = Some (map Some pre @ map Some con @ rest)" "vls_offset v = of_nat (length pre)"
    "vls_len v = of_nat (length con)" "vls_max v = of_nat (extent pre con rest)"
  shows "v = vls_at pre con rest"
  using assms by (simp add: vls_at_def)

lemma vls_ok_code [code]:
  "vls_ok v \<longleftrightarrow> v = bu_vls_init \<or>
     (case vls_str v of
        None \<Rightarrow> False
      | Some buf \<Rightarrow>
          (let n = unat (vls_offset v) + unat (vls_len v) in
           n < length buf \<and> 32 \<le> length buf \<and> length buf < 2 ^ 63 \<and> vls_max v = of_nat (length buf)
           \<and> buf ! n = Some 0 \<and> None \<notin> set (take n buf)))"
  (is "_ \<longleftrightarrow> _ \<or> ?t")
proof
  assume "vls_ok v"
  then show "v = bu_vls_init \<or> ?t"
    by (auto simp: vls_ok_def fits_def small_word Let_def nth_append vls_max_at)
next
  assume a: "v = bu_vls_init \<or> ?t"
  show "vls_ok v"
  proof (cases "v = bu_vls_init")
    case False
    then obtain buf where b: "vls_str v = Some buf" and t: "unat (vls_offset v) + unat (vls_len v) < length buf" "32 \<le> length buf"
      "length buf < 2 ^ 63" "vls_max v = of_nat (length buf)" "buf ! (unat (vls_offset v) + unat (vls_len v)) = Some 0"
      "None \<notin> set (take (unat (vls_offset v) + unat (vls_len v)) buf)"
      using a by (auto simp: Let_def split: option.splits)
    let ?o = "unat (vls_offset v)" and ?l = "unat (vls_len v)"
    let ?p = "map the (take ?o buf)" and ?c = "map the (take ?l (drop ?o buf))" and ?r = "drop (Suc (?o + ?l)) buf"
    have some: "map Some (map the xs) = xs" if "None \<notin> set xs" for xs :: "byte option list"
      using that by (induction xs) auto
    have s: "take (?o + ?l) buf = take ?o buf @ take ?l (drop ?o buf)" by (rule take_add)
    then have "None \<notin> set (take ?o buf)" "None \<notin> set (take ?l (drop ?o buf))" using t(6) by auto
    then have "buf = map Some ?p @ map Some ?c @ Some 0 # ?r"
      using id_take_nth_drop[OF t(1)] t(5) s by (simp add: some del: map_map)
    moreover have "length ?p = ?o" "length ?c = ?l" using t(1) by simp_all
    ultimately have "v = vls_at ?p ?c (Some 0 # ?r)" "fits ?p ?c (Some 0 # ?r)"
      using b t by (auto simp: fits_def intro!: vls_at_eqI)
    then show ?thesis unfolding vls_ok_def by blast
  qed (simp add: vls_ok_def)
qed

lemma vls_ok_rest:
  assumes "vls_ok (vls_at pre con rest)" "fits pre con rest" shows "\<exists>r. rest = Some 0 # r"
  using assms(1)
proof (cases rule: vls_ok_cases)
  case init
  then show ?thesis by (simp add: vls_at_def bu_vls_init_def)
next
  case (at r)
  then have "vls_at pre con rest = vls_at pre con (Some 0 # r)" by (simp only: vls_view_at[OF assms(2)] fst_conv snd_conv)
  then have "vls_str (vls_at pre con rest) = vls_str (vls_at pre con (Some 0 # r))" by (rule arg_cong)
  then show ?thesis by simp
qed

section \<open>Growing\<close>

lemma rounded_bounds:
  assumes "unat extra < 2 ^ 63"
  shows "unat extra \<le> unat (rounded extra)" "unat (rounded extra) \<le> unat extra + 128" "0 < unat (rounded extra)"
proof -
  have m: "unat (extra mod 128) = unat extra mod 128" by (simp add: unat_mod_distrib)
  have "unat (128 - extra mod 128) = 128 - unat extra mod 128"
    by (simp add: unat_sub word_le_nat_alt m order_less_imp_le)
  then have a: "unat (extra + (128 - extra mod 128)) = unat extra + (128 - unat extra mod 128)"
    using assms by (simp add: unat_word_ariths)
  show "unat extra \<le> unat (rounded extra)" "unat (rounded extra) \<le> unat extra + 128" "0 < unat (rounded extra)"
    using a by (auto simp: rounded_def VLS_ALLOC_STEP_def word_less_nat_alt)
qed

lemma rounded_min: "rounded (max VLS_ALLOC_MIN extra) = rounded extra"
proof (cases "extra < 32")
  case True
  then have "extra < 128" by (rule order.strict_trans) simp
  then show ?thesis using True by (simp add: rounded_def VLS_ALLOC_MIN_def VLS_ALLOC_STEP_def max_def)
qed (simp add: VLS_ALLOC_MIN_def max_def not_less)

lemma extend_at:
  assumes f: "fits pre con rest" and k: "extent pre con rest + unat extra + 128 < 2 ^ 63"
  shows "\<exists>more. bu_vls_extend extra (vls_at pre con rest) = Some (vls_at pre con (rest @ more))
     \<and> fits pre con (rest @ more) \<and> length pre + length con + unat extra < extent pre con (rest @ more)
     \<and> length more \<le> unat extra + 128"
proof -
  let ?v = "vls_at pre con rest" and ?r = "rounded extra" and ?n = "extent pre con rest"
  have r: "unat extra \<le> unat ?r" "unat ?r \<le> unat extra + 128" "0 < unat ?r"
    using rounded_bounds[of extra] k by simp_all
  have "vls_max ?v \<noteq> 0" using unat_max_at[OF f] f by (metis fits_def not_numeral_le_zero unat_0)
  then have ext: "bu_vls_extend extra ?v =
      (if vls_offset ?v + vls_len ?v + ?r \<ge> vls_max ?v
       then do { buf \<leftarrow> bu_realloc (vls_str ?v) (vls_max ?v + ?r);
                 Some (?v\<lparr>vls_str := Some buf, vls_max := vls_max ?v + ?r\<rparr>) } else Some ?v)"
    by (simp add: bu_vls_extend_def rounded_min)
  have max: "unat (vls_max ?v + ?r) = ?n + unat ?r" 
    using f r k unat_max_at[OF f] by (simp add: fits_def unat_word_ariths)
  have len: "unat (vls_offset ?v + vls_len ?v + ?r) = length pre + length con + unat ?r"
    using f r k by (simp add: fits_def unat_word_ariths unsigned_of_nat take_bit_nat_eq_self)
  show ?thesis
  proof (cases "vls_offset ?v + vls_len ?v + ?r \<ge> vls_max ?v")
    case True
    let ?more = "replicate (unat ?r) (None :: byte option)"
    have "bu_realloc (vls_str ?v) (vls_max ?v + ?r) = Some (map Some pre @ map Some con @ rest @ ?more)"
    proof -
      have "vls_max ?v + ?r \<noteq> 0" using max f by (metis add_is_0 fits_def not_numeral_le_zero unat_0)
      then show ?thesis using bu_realloc_some[of "vls_max ?v + ?r" "map Some pre @ map Some con @ rest"] max f r k
        by (simp add: resize_grow MINSIZE_def fits_def)
    qed
    then have "bu_vls_extend extra ?v = Some (vls_at pre con (rest @ ?more))"
      using True by (simp add: ext del: vls_at_fields(1)) (simp add: vls_at_def )
    moreover obtain c rest' where "rest = c # rest'" using f by (cases rest) (auto simp: fits_def)
    ultimately show ?thesis using f r k by (intro exI[of _ ?more]) (auto simp: fits_def)
  next
    case False
    then have "length pre + length con + unat ?r < ?n"
      using len unat_max_at[OF f] by (simp add: word_le_nat_alt)
    then show ?thesis using False f r ext by (intro exI[of _ "[]"]) (auto simp: fits_def)
  qed
qed

lemma extend_init:
  assumes "unat extra < 2 ^ 63"
  shows "\<exists>more. bu_vls_extend extra bu_vls_init = Some (vls_at [] [] (Some 0 # more))
     \<and> fits [] [] (Some 0 # more) \<and> length more + 1 = max (unat extra) 32"
proof -
  let ?e = "max VLS_ALLOC_MIN extra"
  have e: "unat ?e = max (unat extra) 32" by (auto simp: word_le_nat_alt VLS_ALLOC_MIN_def max_def)
  have "?e \<noteq> 0" using e by auto
  then have m: "bu_malloc ?e = Some (replicate (max (unat extra) 32) (None :: byte option))"
    using bu_malloc_some[of ?e] e assms by (auto simp: MINSIZE_def)
  obtain n where n: "max (unat extra) 32 = Suc n" by (metis max.bounded_iff not0_implies_Suc not_numeral_le_zero le_refl)
  have "of_nat (unat ?e) = ?e" by simp
  then have "?e = of_nat (Suc n)" unfolding e n by simp
  then have "bu_vls_extend extra bu_vls_init = Some (vls_at [] [] (Some 0 # replicate n None))"
    using m \<open>?e = of_nat (Suc n)\<close> by (simp add: bu_vls_extend_def mem_put_def mem_blit_def vls_at_def n)
  moreover have "fits [] [] (Some 0 # replicate n None)" using n assms by (auto simp: fits_def)
  ultimately show ?thesis using n by (intro exI[of _ "replicate n None"]) simp
qed

text \<open>Room for \<open>k\<close> characters and a zero, in a string that has a buffer and in one that has none.\<close>

lemma vls_room:
  assumes "vls_wf v" "vls_view v = (pre, con)" "unat (vls_max v) + k + 256 < 2 ^ 63" "0 < k"
  shows "\<exists>rest. reserve (of_nat k) v = Some (vls_at pre con rest) \<and> fits pre con rest \<and> k < length rest
    \<and> extent pre con rest \<le> unat (vls_max v) + k + 256"
  using assms(1)
proof (cases rule: vls_wf_cases)
  case init
  have u: "unat (of_nat k + 1 :: size_t) = k + 1" using assms(3) by (simp add: unat_word_ariths small_word)
  have pc: "pre = []" "con = []" using assms(2) init by simp_all
  obtain more where m: "bu_vls_extend (of_nat k + 1) bu_vls_init = Some (vls_at [] [] (Some 0 # more))"
    "fits [] [] (Some 0 # more)" "length more + 1 = max (k + 1) 32"
    using extend_init[of "of_nat k + 1"] u assms(3) by auto
  then show ?thesis using init by (intro exI[of _ "Some 0 # more"]) (auto simp: reserve_def pc)
next
  case (at rest)
  then have v: "v = vls_at pre con rest" "fits pre con rest" using assms(2) by simp_all
  then have n: "unat (vls_max v) = extent pre con rest" by simp
  have u: "unat (of_nat k + 1 :: size_t) = k + 1" using assms(3) by (simp add: unat_word_ariths small_word)
  have w: "unat (vls_offset v + vls_len v + of_nat k + 1) = length pre + length con + k + 1"
    using v n assms(3) by (simp add: fits_def unat_word_ariths unsigned_of_nat take_bit_nat_eq_self)
  show ?thesis
  proof (cases "vls_offset v + vls_len v + of_nat k + 1 \<ge> vls_max v")
    case True
    obtain more where m: "bu_vls_extend (of_nat k + 1) (vls_at pre con rest) = Some (vls_at pre con (rest @ more))"
      "fits pre con (rest @ more)" "length pre + length con + (k + 1) < extent pre con (rest @ more)" "length more \<le> k + 1 + 128"
      using extend_at[OF v(2), of "of_nat k + 1"] u assms(3) n by auto
    then show ?thesis using True n by (intro exI[of _ "rest @ more"]) (auto simp: reserve_def v(1))
  next
    case False
    then show ?thesis using v n w by (intro exI[of _ rest]) (auto simp: reserve_def word_le_nat_alt)
  qed
qed

text \<open>Characters stored behind the string.\<close>

lemma vls_put_behind:
  assumes "fits pre con rest" "length s \<le> length rest" "s \<noteq> []"
  shows "vls_put (of_nat (length pre) + of_nat (length con)) s (vls_at pre con rest)
    = Some (vls_at pre con (map Some s @ drop (length s) rest))"
  using assms small_word[of "length pre + length con"]
  by (simp add: vls_put_def mem_put_def mem_blit_def fits_def vls_at_def)

lemma vls_at_longer:
  assumes "fits pre con (map Some s @ rest)" "rest \<noteq> []"
  shows "(vls_at pre con (map Some s @ rest))\<lparr>vls_len := of_nat (length con + length s)\<rparr> = vls_at pre (con @ s) rest"
    "fits pre (con @ s) rest"
  using assms by (simp_all add: vls_at_def fits_def add.assoc)

lemma strcat_room:
  assumes "vls_wf v" "unat (vls_max v) + length s + 256 < 2 ^ 63" "s \<noteq> []"
  shows "\<exists>v'. bu_vls_strcat (Some s) v = Some v' \<and> vls_ok v' \<and> vls_view v' = (fst (vls_view v), content v @ s)
    \<and> unat (vls_max v') \<le> unat (vls_max v) + length s + 256"
proof -
  obtain pre con where vw: "vls_view v = (pre, con)" by (cases "vls_view v")
  obtain rest where r: "reserve (of_nat (length s)) v = Some (vls_at pre con rest)" "fits pre con rest"
    "length s < length rest" "extent pre con rest \<le> unat (vls_max v) + length s + 256"
    using vls_room[OF assms(1) vw assms(2)] assms(3) by auto
  let ?rest = "drop (Suc (length s)) rest"
  have p: "vls_put (of_nat (length pre) + of_nat (length con)) (s @ [0]) (vls_at pre con rest)
      = Some (vls_at pre con (map Some s @ Some 0 # ?rest))"
    using vls_put_behind[of pre con rest "s @ [0]"] r by simp
  have "fits pre con (map Some s @ Some 0 # ?rest)" using r by (simp add: fits_def)
  note l = vls_at_longer[OF this]
  have "bu_vls_strcat (Some s) v = Some (vls_at pre (con @ s) (Some 0 # ?rest))"
    using r(1) p l assms(3) by (simp add: bu_vls_strcat_def Let_def)
  then show ?thesis using l(2) r(3,4) vw by (auto simp: vls_at_ok vls_view_at)
qed

lemma vls_wf_at: "fits pre con rest \<Longrightarrow> vls_wf (vls_at pre con rest)"
  by (auto simp: vls_wf_def)

lemma putc_room:
  assumes "vls_wf v" "unat (vls_max v) + 257 < 2 ^ 63"
  shows "\<exists>v'. bu_vls_putc c v = Some v' \<and> vls_ok v' \<and> vls_view v' = (fst (vls_view v), content v @ [c])
    \<and> unat (vls_max v') \<le> unat (vls_max v) + 257"
proof -
  obtain pre con where vw: "vls_view v = (pre, con)" by (cases "vls_view v")
  have "\<exists>rest. (if vls_offset v + vls_len v + 1 \<ge> vls_max v then bu_vls_extend VLS_ALLOC_STEP v else Some v)
      = Some (vls_at pre con rest) \<and> fits pre con rest \<and> 1 < length rest
      \<and> extent pre con rest \<le> unat (vls_max v) + 257" (is "\<exists>rest. ?e = _ \<and> _")
    using assms(1)
  proof (cases rule: vls_wf_cases)
    case init
    then show ?thesis using vw extend_init[of VLS_ALLOC_STEP] by (auto simp: VLS_ALLOC_STEP_def)
  next
    case (at rest)
    then have v: "v = vls_at pre con rest" "fits pre con rest" using vw by simp_all
    have w: "unat (vls_offset v + vls_len v + 1) = length pre + length con + 1"
      using v assms(2) by (simp add: fits_def unat_word_ariths unsigned_of_nat take_bit_nat_eq_self)
    show ?thesis
    proof (cases "vls_offset v + vls_len v + 1 \<ge> vls_max v")
      case True
      obtain more where m: "bu_vls_extend VLS_ALLOC_STEP (vls_at pre con rest) = Some (vls_at pre con (rest @ more))"
        "fits pre con (rest @ more)" "length pre + length con + 128 < extent pre con (rest @ more)" "length more \<le> 256"
        using extend_at[OF v(2), of VLS_ALLOC_STEP] assms(2) v by (auto simp: VLS_ALLOC_STEP_def)
      then show ?thesis using True v by (intro exI[of _ "rest @ more"]) auto
    next
      case False
      then show ?thesis using v w by (intro exI[of _ rest]) (auto simp: word_le_nat_alt)
    qed
  qed
  then obtain rest where r: "?e = Some (vls_at pre con rest)" "fits pre con rest" "1 < length rest"
    "extent pre con rest \<le> unat (vls_max v) + 257" by blast
  obtain x y rest' where rest: "rest = x # y # rest'" using r(3) by (cases rest; cases "tl rest") auto
  have p: "vls_put (of_nat (length pre) + of_nat (length con)) [c] (vls_at pre con rest)
      = Some (vls_at pre con (Some c # y # rest'))"
    using vls_put_behind[of pre con rest "[c]"] r(2) by (simp add: rest)
  have f: "fits pre con (map Some [c] @ y # rest')" "fits pre (con @ [c]) (Some 0 # rest')" using r(2) by (simp_all add: fits_def rest)
  have l: "(vls_at pre con (Some c # y # rest'))\<lparr>vls_len := of_nat (length con) + 1\<rparr> = vls_at pre (con @ [c]) (y # rest')"
    using vls_at_longer(1)[OF f(1)] by (simp add: add.commute)
  have "vls_put (of_nat (length pre) + of_nat (length (con @ [c]))) [0] (vls_at pre (con @ [c]) (y # rest'))
      = Some (vls_at pre (con @ [c]) (Some 0 # rest'))"
    using vls_put_behind[of pre "con @ [c]" "y # rest'" "[0]"] f(2) by (simp add: fits_def)
  then have "bu_vls_putc c v = Some (vls_at pre (con @ [c]) (Some 0 # rest'))"
    using r(1) p l by (simp add: bu_vls_putc_def ac_simps)
  then show ?thesis using f(2) r(4) vw by (auto simp: vls_at_ok vls_view_at rest)
qed

section \<open>Shortening\<close>

definition trunc_spec :: "int \<Rightarrow> byte list \<times> byte list \<Rightarrow> byte list \<times> byte list" where
  "trunc_spec k pc =
     (let n = (if k < 0 then int (length (snd pc)) + k else k) in
      if n < 0 \<or> int (length (snd pc)) \<le> n then pc
      else if n = 0 then ([], []) else (fst pc, take (nat n) (snd pc)))"

definition nibble_spec :: "int \<Rightarrow> byte list \<times> byte list \<Rightarrow> byte list \<times> byte list" where
  "nibble_spec k pc =
     (let (pre, con) = pc in
      if 0 < k \<and> int (length con) \<le> k then trunc_spec 0 pc
      else if 0 \<le> k then (pre @ take (nat k) con, drop (nat k) con)
      else (let n = length pre - nat (- k) in (take n pre, drop n pre @ con)))"

lemma int_arg: "- (2 ^ 31) \<le> k \<Longrightarrow> k < 2 ^ 31 \<Longrightarrow> sint (word_of_int k :: 32 word) = k"
  by (simp add: sint_sbintrunc' signed_take_bit_int_eq_self)

lemma size_arg: "0 \<le> k \<Longrightarrow> k < 2 ^ 31 \<Longrightarrow> (scast (word_of_int k :: 32 word) :: size_t) = of_nat (nat k)"
  using int_arg[of k] by (simp add: scast_eq)

lemma size_of_int: "(scast (word_of_int n :: 32 word) :: size_t) = word_of_int n" if "- (2 ^ 31) \<le> n" "n < 2 ^ 31"
  using int_arg[OF that] by (simp add: scast_eq)

text \<open>The length that is asked for, as the code computes it.\<close>

lemma trunc_word:
  assumes "length con < 2 ^ 31" "- (2 ^ 31) \<le> k" "k < 2 ^ 31" "n = (if k < 0 then int (length con) + k else k)"
  shows "absolute_len (vls_at pre con rest) (word_of_int k) = Some (word_of_int n)"
proof -
  have "(ucast (of_nat (length con) :: size_t) :: 32 word) = word_of_int (int (length con))"
    using assms(1) by (simp add: unsigned_of_nat take_bit_nat_eq_self)
  then have "sint (ucast (of_nat (length con) :: size_t) :: 32 word) = int (length con)"
    using int_arg[of "int (length con)"] assms(1) by simp
  then show ?thesis using int_arg[OF assms(2,3)] assms by (auto simp: absolute_len_def word_sless_alt Let_def)
qed

lemma len64: "LENGTH(64) = 64" by simp

lemma size_compare:
  assumes "- (2 ^ 31) \<le> n" "n < 2 ^ 31" "m < 2 ^ 63"
  shows "(of_nat m :: size_t) \<le> word_of_int n \<longleftrightarrow> n < 0 \<or> int m \<le> n"
proof -
  have m: "uint (of_nat m :: size_t) = int m" using small_word[OF assms(3)] by (simp only: uint_nat)
  show ?thesis
  proof (cases "n < 0")
    case True
    have "take_bit 64 (- (- n)) = 2 ^ 64 - (- n)" using assms(1) True by (intro take_bit_minus_small_eq) auto
    then have "take_bit LENGTH(64) n = n + 2 ^ 64" by (simp only: minus_minus diff_minus_eq_add add.commute len64)
    then have u: "uint (word_of_int n :: size_t) = n + 2 ^ 64" by (simp only: uint_word_of_int_eq)
    have "int m < 2 ^ 63" using assms(3) by simp
    then show ?thesis unfolding word_le_def m u using True assms(1) by simp
  next
    case False
    then have u: "uint (word_of_int n :: size_t) = n"
      using assms by (simp add: uint_word_of_int_eq take_bit_int_eq_self)
    show ?thesis unfolding word_le_def m u using False by simp
  qed
qed

lemma trunc_at:
  assumes f: "fits pre con rest" and small: "length con < 2 ^ 31" "- (2 ^ 31) \<le> k" "k < 2 ^ 31"
    and s: "trunc_spec k (pre, con) = (pre', con')"
  shows "\<exists>rest'. bu_vls_trunc (vls_at pre con rest) (word_of_int k) = Some (vls_at pre' con' rest')
     \<and> fits pre' con' rest' \<and> extent pre' con' rest' = extent pre con rest
     \<and> ((\<exists>r. rest = Some 0 # r) \<or> (pre', con') \<noteq> (pre, con) \<longrightarrow> (\<exists>r. rest' = Some 0 # r))"
proof -
  define n where "n = (if k < 0 then int (length con) + k else k)"
  have nb: "- (2 ^ 31) \<le> n" "n < 2 ^ 31" using small by (auto simp: n_def)
  have sp: "(pre', con') = (if n < 0 \<or> int (length con) \<le> n then (pre, con)
      else if n = 0 then ([], []) else (pre, take (nat n) con))"
    unfolding s[symmetric] by (simp add: trunc_spec_def n_def Let_def)
  let ?v = "vls_at pre con rest"
  let ?w = "word_of_int n :: 32 word"
  have step: "bu_vls_trunc ?v (word_of_int k) =
     (if n < 0 \<or> int (length con) \<le> n then Some ?v
      else do { let v = (if ?w = 0 then ?v\<lparr>vls_offset := 0\<rparr> else ?v);
                v \<leftarrow> vls_put (scast ?w + vls_offset v) [0] v;
                Some (v\<lparr>vls_len := scast ?w\<rparr>) })"
    using trunc_word[OF small n_def, of pre rest] size_compare[OF nb, of "length con"] small(1)
    by (simp add: bu_vls_trunc_def size_of_int[OF nb] Let_def)
  show ?thesis
  proof (cases "n < 0 \<or> int (length con) \<le> n")
    case True
    then have "pre' = pre" "con' = con" using sp by auto
    then show ?thesis using True step f by auto
  next
    case False
    then have w: "scast ?w = (of_nat (nat n) :: size_t)" "?w = 0 \<longleftrightarrow> n = 0"
      using nb int_arg[OF nb] by (auto simp: size_of_int)
    show ?thesis
    proof (cases "n = 0")
      case True
      then have pc: "pre' = []" "con' = []" using sp False by auto
      let ?buf = "map Some pre @ map Some con @ rest"
      obtain x buf' where buf: "?buf = x # buf'" using f by (cases ?buf) (auto simp: fits_def)
      have l: "extent pre con rest = Suc (length buf')" using arg_cong[OF buf, of length] by simp
      have "bu_vls_trunc ?v (word_of_int k) = Some (vls_at [] [] (Some 0 # buf'))"
        using step False w True
        by (simp add: vls_put_def buf mem_put_def mem_blit_def) (simp add: vls_at_def l)
      then show ?thesis using l f by (intro exI[of _ "Some 0 # buf'"]) (auto simp: pc fits_def)
    next
      case nz: False
      then have pc: "pre' = pre" "con' = take (nat n) con" and n: "0 < nat n" "nat n < length con"
        using sp False by auto
      let ?rest = "Some 0 # map Some (drop (Suc (nat n)) con) @ rest"
      have u: "unat (of_nat (nat n) + of_nat (length pre) :: size_t) = nat n + length pre"
        using n f small_word[of "nat n + length pre"] by (simp add: fits_def)
      have "bu_vls_trunc ?v (word_of_int k) = Some (vls_at pre' con' ?rest)"
        using step False w nz n u
        by (simp add: vls_put_def mem_put_def mem_blit_def) (simp add: vls_at_def pc take_map drop_map)
      then show ?thesis using n f by (intro exI[of _ ?rest]) (auto simp: pc fits_def)
    qed
  qed
qed

text \<open>A string without a buffer is left alone.\<close>

lemma trunc_init:
  assumes "- (2 ^ 31) \<le> k" "k < 2 ^ 31"
  shows "bu_vls_trunc bu_vls_init (word_of_int k) = Some bu_vls_init"
proof -
  have "k + 2 ^ 31 \<ge> 0" using assms(1) by simp
  then show ?thesis using int_arg[OF assms]
    by (auto simp: bu_vls_trunc_def absolute_len_def word_sless_alt Let_def)
qed

lemma trunc_refines:
  assumes "vls_wf v" "length (content v) < 2 ^ 31" "- (2 ^ 31) \<le> k" "k < 2 ^ 31"
  shows "\<exists>v'. bu_vls_trunc v (word_of_int k) = Some v' \<and> vls_wf v' \<and> vls_view v' = trunc_spec k (vls_view v)
    \<and> vls_max v' = vls_max v \<and> (vls_ok v \<or> vls_view v' \<noteq> vls_view v \<longrightarrow> vls_ok v')"
  using assms(1)
proof (cases rule: vls_wf_cases)
  case init
  then show ?thesis using trunc_init[OF assms(3,4)] by (auto simp: trunc_spec_def Let_def vls_wf_def)
next
  case (at rest)
  obtain pre con where vw: "vls_view v = (pre, con)" by (cases "vls_view v")
  then have v: "v = vls_at pre con rest" "fits pre con rest" using at by simp_all
  obtain pre' con' where s: "trunc_spec k (pre, con) = (pre', con')" by (cases "trunc_spec k (pre, con)")
  obtain rest' where t: "bu_vls_trunc v (word_of_int k) = Some (vls_at pre' con' rest')" "fits pre' con' rest'"
    "extent pre' con' rest' = extent pre con rest"
    "(\<exists>r. rest = Some 0 # r) \<or> (pre', con') \<noteq> (pre, con) \<longrightarrow> (\<exists>r. rest' = Some 0 # r)"
    using trunc_at[OF v(2) _ assms(3,4) s] assms(2) vw v(1) by auto
  have "vls_ok v \<Longrightarrow> \<exists>r. rest = Some 0 # r" using vls_ok_rest v by simp
  moreover have "vls_max (vls_at pre' con' rest') = vls_max v" unfolding v(1) vls_max_at t(3) by (rule refl)
  ultimately show ?thesis using t s vw by (auto simp: vls_view_at vls_wf_at intro: vls_at_ok)
qed

section \<open>Nibbling\<close>

lemma sint_small: "n < 2 ^ 63 \<Longrightarrow> sint (of_nat n :: size_t) = int n"
  by (simp add: sint_uint signed_take_bit_int_eq_self unsigned_of_nat take_bit_nat_eq_self)

lemma nibble_at:
  assumes f: "fits pre con rest" and k: "- (2 ^ 63) < k" "k < 2 ^ 63" and small: "length con < 2 ^ 31"
    and s: "nibble_spec k (pre, con) = (pre', con')"
  shows "\<exists>rest'. bu_vls_nibble (word_of_int k) (vls_at pre con rest) = Some (vls_at pre' con' rest')
     \<and> fits pre' con' rest' \<and> extent pre' con' rest' = extent pre con rest
     \<and> ((\<exists>r. rest = Some 0 # r) \<longrightarrow> (\<exists>r. rest' = Some 0 # r))"
proof -
  let ?v = "vls_at pre con rest" and ?w = "word_of_int k :: off_t"
  have si: "sint ?w = k" using k by (simp add: sint_sbintrunc' signed_take_bit_int_eq_self)
  consider (all) "0 < k" "int (length con) \<le> k" | (some) "0 \<le> k" "k < int (length con) \<or> k = 0" | (unroll) "k < 0" by linarith
  then show ?thesis
  proof cases
    case all
    then have "?w = of_nat (nat k)" by simp
    then have "vls_len ?v \<le> ?w" using all k f by (simp add: word_le_nat_alt small_word fits_def del: of_nat_nat)
    then have "bu_vls_nibble ?w ?v = bu_vls_trunc ?v (word_of_int 0)"
      using all si by (simp add: bu_vls_nibble_def word_sless_alt)
    moreover have "trunc_spec 0 (pre, con) = (pre', con')" using s all by (simp add: nibble_spec_def)
    ultimately show ?thesis using trunc_at[OF f small, of 0 pre' con'] by auto
  next
    case some
    then have w: "?w = of_nat (nat k)" by simp
    have "nat k \<le> length con" using some by auto
    then have e: "con = take (nat k) con @ drop (nat k) con" "length (take (nat k) con) = nat k" by simp_all
    have "\<not> (0 < k \<and> vls_len ?v \<le> ?w)"
      using some k f w small_word[of "nat k"] by (auto simp: word_le_nat_alt small_word fits_def simp del: of_nat_nat)
    then have "bu_vls_nibble ?w ?v = Some (?v\<lparr>vls_len := vls_len ?v - ?w, vls_offset := vls_offset ?v + ?w\<rparr>)"
      using some si by (auto simp: bu_vls_nibble_def word_sless_alt)
    moreover have pc: "pre' = pre @ take (nat k) con" "con' = drop (nat k) con"
      using s some by (auto simp: nibble_spec_def)
    have "?v\<lparr>vls_len := vls_len ?v - ?w, vls_offset := vls_offset ?v + ?w\<rparr> = vls_at pre' con' rest"
    proof (rule vls_at_eqI)
      have "map Some con = map Some (take (nat k) con) @ map Some (drop (nat k) con)" by (metis e(1) map_append)
      then show "vls_str (?v\<lparr>vls_len := vls_len ?v - ?w, vls_offset := vls_offset ?v + ?w\<rparr>)
          = Some (map Some pre' @ map Some con' @ rest)" by (simp add: pc)
    qed (use \<open>nat k \<le> length con\<close> in \<open>simp_all add: pc w vls_max_at of_nat_diff del: of_nat_nat\<close>)
    ultimately show ?thesis using f \<open>nat k \<le> length con\<close> by (auto simp: pc fits_def)
  next
    case unroll
    let ?m = "nat (- k)" and ?n = "length pre - nat (- k)"
    have w: "- ?w = of_nat ?m" using unroll by simp
    have ml: "?m < 2 ^ 63" using k by auto
    have pc: "pre' = take ?n pre" "con' = drop ?n pre @ con"
      using s unroll by (auto simp: nibble_spec_def Let_def)
    have cmp: "vls_offset ?v < - ?w \<longleftrightarrow> length pre < ?m"
      unfolding w using f small_word[OF ml] by (simp add: word_less_nat_alt small_word fits_def)
    have e: "pre = take ?n pre @ drop ?n pre" by simp
    have buf: "map Some pre @ map Some con @ rest = map Some pre' @ map Some con' @ rest"
      by (subst e) (simp add: pc del: append_take_drop_id)
    have "bu_vls_nibble ?w ?v = Some (vls_at pre' con' rest)"
    proof (cases "length pre < ?m")
      case True
      have "?v\<lparr>vls_len := vls_len ?v + vls_offset ?v, vls_offset := 0\<rparr> = vls_at pre' con' rest"
        by (rule vls_at_eqI) (use True buf in \<open>simp_all add: pc vls_max_at\<close>)
      then show ?thesis using True cmp unroll si by (simp add: bu_vls_nibble_def word_sless_alt)
    next
      case False
      have "?v\<lparr>vls_len := vls_len ?v + - ?w, vls_offset := vls_offset ?v - - ?w\<rparr> = vls_at pre' con' rest"
        by (rule vls_at_eqI) (use False buf in \<open>simp_all only: w, simp_all add: pc vls_max_at of_nat_diff\<close>)
      then show ?thesis using False cmp unroll si by (simp add: bu_vls_nibble_def word_sless_alt)
    qed
    then show ?thesis using f by (auto simp: pc fits_def)
  qed
qed

lemma nibble_init:
  assumes "- (2 ^ 63) < k" "k < 2 ^ 63"
  shows "bu_vls_nibble (word_of_int k) bu_vls_init = Some bu_vls_init"
proof -
  have si: "sint (word_of_int k :: off_t) = k" using assms by (simp add: sint_sbintrunc' signed_take_bit_int_eq_self)
  show ?thesis
  proof (cases "0 < k")
    case True
    then show ?thesis using si trunc_init[of 0] by (simp add: bu_vls_nibble_def word_sless_alt)
  next
    case False
    show ?thesis
    proof (cases "k = 0")
      case True
      then show ?thesis by (simp add: bu_vls_nibble_def)
    next
      case nz: False
      then have "(- word_of_int k :: off_t) \<noteq> 0" using si by auto
      then have "(0 :: off_t) < - word_of_int k" by (simp only: word_neq_0_conv)
      then show ?thesis using si nz False
        by (simp add: bu_vls_nibble_def word_sless_alt)
    qed
  qed
qed

lemma nibble_refines:
  assumes "vls_wf v" "length (content v) < 2 ^ 31" "- (2 ^ 63) < k" "k < 2 ^ 63"
  shows "\<exists>v'. bu_vls_nibble (word_of_int k) v = Some v' \<and> vls_wf v' \<and> vls_view v' = nibble_spec k (vls_view v)
    \<and> vls_max v' = vls_max v \<and> (vls_ok v \<longrightarrow> vls_ok v')"
  using assms(1)
proof (cases rule: vls_wf_cases)
  case init
  then show ?thesis using nibble_init[OF assms(3,4)] by (auto simp: nibble_spec_def trunc_spec_def Let_def vls_wf_def)
next
  case (at rest)
  obtain pre con where vw: "vls_view v = (pre, con)" by (cases "vls_view v")
  then have v: "v = vls_at pre con rest" "fits pre con rest" using at by simp_all
  obtain pre' con' where s: "nibble_spec k (pre, con) = (pre', con')" by (cases "nibble_spec k (pre, con)")
  obtain rest' where t: "bu_vls_nibble (word_of_int k) v = Some (vls_at pre' con' rest')" "fits pre' con' rest'"
    "extent pre' con' rest' = extent pre con rest"
    "(\<exists>r. rest = Some 0 # r) \<longrightarrow> (\<exists>r. rest' = Some 0 # r)"
    using nibble_at[OF v(2) assms(3,4) _ s] assms(2) vw v(1) by auto
  have "vls_max (vls_at pre' con' rest') = vls_max v" unfolding v(1) vls_max_at t(3) by (rule refl)
  then show ?thesis using t s vw vls_ok_rest[of pre con rest] v
    by (auto simp: vls_view_at vls_wf_at intro: vls_at_ok)
qed

section \<open>Copies\<close>

lemma put_front:
  assumes "fits [] con rest" "length s < length con + length rest"
  shows "\<exists>rest'. map_option (\<lambda>v. v\<lparr>vls_len := of_nat (length s)\<rparr>) (vls_put 0 (s @ [0]) (vls_at [] con rest))
       = Some (vls_at [] s (Some 0 # rest')) \<and> fits [] s (Some 0 # rest')
     \<and> Suc (length s + length rest') = length con + length rest"
proof -
  let ?r = "drop (Suc (length s)) (map Some con @ rest)"
  have l: "Suc (length s + length ?r) = length con + length rest" using assms(2) by simp
  have "map_option (\<lambda>v. v\<lparr>vls_len := of_nat (length s)\<rparr>) (vls_put 0 (s @ [0]) (vls_at [] con rest))
      = Some (vls_at [] s (Some 0 # ?r))"
    using assms(2) arg_cong[OF l, of "of_nat :: nat \<Rightarrow> size_t"]
    by (simp add: vls_put_def mem_put_def mem_blit_def vls_at_def)
  then show ?thesis using assms(1) l by (intro exI[of _ ?r]) (auto simp: fits_def)
qed

text \<open>Setting the offset to zero.\<close>

lemma vls_at_rewound:
  assumes "fits pre con rest"
  obtains con' rest' where "(vls_at pre con rest)\<lparr>vls_offset := 0\<rparr> = vls_at [] con' rest'" "fits [] con' rest'"
    "length con' = length con" "length con' + length rest' = extent pre con rest"
proof
  let ?c = "take (length con) (pre @ con)" and ?d = "drop (length con) (pre @ con)"
  have "map Some pre @ map Some con = map (Some :: byte \<Rightarrow> byte option) ?c @ map Some ?d"
    unfolding map_append[symmetric] append_take_drop_id ..
  then show "(vls_at pre con rest)\<lparr>vls_offset := 0\<rparr> = vls_at [] ?c (map Some ?d @ rest)"
    by (intro vls_at_eqI) (simp_all add: vls_max_at ac_simps del: take_append drop_append)
  have "length ?c + length ?d = length pre + length con" by (simp del: take_append drop_append)
  then show "fits [] ?c (map Some ?d @ rest)" using assms by (simp add: fits_def del: take_append drop_append)
qed simp_all

lemma strcpy_room:
  assumes "vls_wf v" "unat (vls_max v) + length s + 256 < 2 ^ 63"
  shows "\<exists>v'. bu_vls_strcpy (Some s) v = Some v' \<and> vls_ok v' \<and> vls_view v' = ([], s)
    \<and> unat (vls_max v') \<le> unat (vls_max v) + length s + 256"
proof (cases "s = []")
  case True
  from assms(1) show ?thesis
  proof (cases rule: vls_wf_cases)
    case init
    then have "bu_vls_strcpy (Some s) v = Some bu_vls_init"
      by (simp add: True bu_vls_strcpy_def Let_def)
    then show ?thesis using True by (auto simp: vls_ok_def)
  next
    case (at rest)
    then obtain pre con where v: "v = vls_at pre con rest" "fits pre con rest" by metis
    have "vls_max v \<noteq> 0" using v unat_max_at[OF v(2)] by (metis fits_def not_numeral_le_zero unat_0)
    then have pos: "vls_max v > 0" by (simp add: word_neq_0_conv)
    let ?buf = "map Some pre @ map Some con @ rest"
    obtain x buf' where buf: "?buf = x # buf'" using v by (cases ?buf) (auto simp: fits_def)
    have l: "extent pre con rest = Suc (length buf')" using arg_cong[OF buf, of length] by simp
    have "bu_vls_strcpy (Some s) v = Some (vls_at [] [] (Some 0 # buf'))"
      using pos buf by (simp add: True bu_vls_strcpy_def Let_def v(1) vls_put_def mem_put_def mem_blit_def)
        (simp add: vls_at_def l flip: of_nat_add)
    moreover have "fits [] [] (Some 0 # buf')" using v(2) l by (simp add: fits_def)
    ultimately show ?thesis using True l v by (auto simp: vls_at_ok vls_view_at)
  qed
next
  case False
  have u: "unat (of_nat (length s) + 1 :: size_t) = length s + 1" using assms(2) by (simp add: unat_word_ariths small_word)
  have "\<exists>con rest. (if of_nat (length s) + 1 \<ge> vls_max v then bu_vls_extend (of_nat (length s) + 1) (v\<lparr>vls_offset := 0\<rparr>) else Some (v\<lparr>vls_offset := 0\<rparr>))
      = Some (vls_at [] con rest) \<and> fits [] con rest \<and> length s < length con + length rest
      \<and> length con + length rest \<le> unat (vls_max v) + length s + 256"
    using assms(1)
  proof (cases rule: vls_wf_cases)
    case init
    obtain more where "bu_vls_extend (of_nat (length s) + 1) bu_vls_init = Some (vls_at [] [] (Some 0 # more))"
      "fits [] [] (Some 0 # more)" "length more + 1 = max (length s + 1) 32"
      using extend_init[of "of_nat (length s) + 1"] u assms(2) by auto
    then show ?thesis using init
      by (intro exI[of _ "[]"] exI[of _ "Some 0 # more"]) auto
  next
    case (at rest)
    then obtain pre con where v: "v = vls_at pre con rest" "fits pre con rest" by metis
    obtain con' rest' where w: "v\<lparr>vls_offset := 0\<rparr> = vls_at [] con' rest'" "fits [] con' rest'"
      "length con' = length con" "length con' + length rest' = extent pre con rest"
      using vls_at_rewound[OF v(2)] v(1) by metis
    have m: "unat (vls_max v) = length con' + length rest'" using v w(4) by simp
    show ?thesis
    proof (cases "of_nat (length s) + 1 \<ge> vls_max v")
      case True
      obtain more where e: "bu_vls_extend (of_nat (length s) + 1) (vls_at [] con' rest') = Some (vls_at [] con' (rest' @ more))"
        "fits [] con' (rest' @ more)" "length con' + (length s + 1) < length con' + length (rest' @ more)" "length more \<le> length s + 1 + 128"
        using extend_at[OF w(2), of "of_nat (length s) + 1"] u assms(2) m by auto
      then show ?thesis using True w m by (intro exI[of _ con'] exI[of _ "rest' @ more"]) auto
    next
      case False
      then show ?thesis using w m u by (intro exI[of _ con'] exI[of _ rest']) (auto simp: word_le_nat_alt)
    qed
  qed
  then obtain con rest where r: "(if of_nat (length s) + 1 \<ge> vls_max v then bu_vls_extend (of_nat (length s) + 1) (v\<lparr>vls_offset := 0\<rparr>) else Some (v\<lparr>vls_offset := 0\<rparr>))
      = Some (vls_at [] con rest)" "fits [] con rest" "length s < length con + length rest"
      "length con + length rest \<le> unat (vls_max v) + length s + 256" by blast
  obtain rest' where p: "map_option (\<lambda>v. v\<lparr>vls_len := of_nat (length s)\<rparr>) (vls_put 0 (s @ [0]) (vls_at [] con rest))
       = Some (vls_at [] s (Some 0 # rest'))" "fits [] s (Some 0 # rest')" "Suc (length s + length rest') = length con + length rest"
    using put_front[OF r(2,3)] by blast
  have "bu_vls_strcpy (Some s) v = Some (vls_at [] s (Some 0 # rest'))"
    using r(1) p(1) False by (auto simp: bu_vls_strcpy_def Let_def)
  then show ?thesis using p(2,3) r(4) by (auto simp: vls_at_ok vls_view_at)
qed

lemma strncpy_strcpy:
  assumes "take (unat n) s \<noteq> []"
  shows "bu_vls_strncpy (Some s) n v = bu_vls_strcpy (Some (take (unat n) s)) v"
  using assms by (simp add: bu_vls_strncpy_def bu_vls_strcpy_def Let_def)

text \<open>Without characters to copy the buffer keeps the old ones.\<close>

lemma strncpy_nothing:
  "take (unat n) s = [] \<Longrightarrow> bu_vls_strncpy (Some s) n v = Some (v\<lparr>vls_len := 0\<rparr>)"
  by (simp add: bu_vls_strncpy_def Let_def)

lemma strncat_room:
  assumes "vls_wf v" "unat (vls_max v) + length s + 256 < 2 ^ 63" "s \<noteq> []" "s = take (unat n) cs"
  shows "\<exists>v'. bu_vls_strncat (Some cs) n v = Some v' \<and> vls_ok v' \<and> vls_view v' = (fst (vls_view v), content v @ s)
    \<and> unat (vls_max v') \<le> unat (vls_max v) + length s + 256"
proof -
  obtain pre con where vw: "vls_view v = (pre, con)" by (cases "vls_view v")
  obtain rest where r: "reserve (of_nat (length s)) v = Some (vls_at pre con rest)" "fits pre con rest"
    "length s < length rest" "extent pre con rest \<le> unat (vls_max v) + length s + 256"
    using vls_room[OF assms(1) vw assms(2)] assms(3) by auto
  obtain x rest' where d: "drop (length s) rest = x # rest'" using r(3) by (cases "drop (length s) rest") auto
  have n: "length rest = Suc (length s + length rest')" using arg_cong[OF d, of length] r(3) by simp
  have p: "vls_put (of_nat (length pre) + of_nat (length con)) s (vls_at pre con rest)
      = Some (vls_at pre con (map Some s @ x # rest'))"
    using vls_put_behind[of pre con rest s] r(2,3) assms(3) by (simp add: d)
  have "fits pre con (map Some s @ x # rest')" using r(2) n by (simp add: fits_def)
  note l = vls_at_longer[OF this, simplified]
  have f: "fits pre (con @ s) (Some 0 # rest')" using l(2) by (simp add: fits_def)
  have "vls_put (of_nat (length pre) + of_nat (length (con @ s))) [0] (vls_at pre (con @ s) (x # rest'))
      = Some (vls_at pre (con @ s) (Some 0 # rest'))"
    using vls_put_behind[of pre "con @ s" "x # rest'" "[0]"] l(2) by simp
  then have "bu_vls_strncat (Some cs) n v = Some (vls_at pre (con @ s) (Some 0 # rest'))"
    using r(1) p l(1) assms(3) by (simp add: bu_vls_strncat_def Let_def ac_simps flip: assms(4))
  then show ?thesis using f r(4) vw n by (auto simp: vls_at_ok vls_view_at)
qed

text \<open>Appending another string.\<close>

lemma vlscat_strcat:
  assumes "vls_ok src"
  shows "bu_vls_vlscat src dest = bu_vls_strcat (Some (content src)) dest"
  using assms
proof (cases rule: vls_ok_cases)
  case init
  then show ?thesis by (simp add: bu_vls_vlscat_def bu_vls_strcat_def)
next
  case (at rest)
  obtain pre con where vw: "vls_view src = (pre, con)" by (cases "vls_view src")
  then have v: "src = vls_at pre con (Some 0 # rest)" "fits pre con (Some 0 # rest)" using at by simp_all
  have n: "length pre + length con + 1 < 2 ^ 63" using v(2) by (auto simp: fits_def)
  have u: "unat (of_nat (length con) + 1 :: size_t) = Suc (length con)" "unat (of_nat (length pre) :: size_t) = length pre"
    "unat (of_nat (length con) :: size_t) = length con"
    using n small_word[of "Suc (length con)"] by (simp_all add: small_word add.commute)
  show ?thesis
  proof (cases "con = []")
    case True
    then show ?thesis using v vw by (simp add: bu_vls_vlscat_def bu_vls_strcat_def)
  next
    case False
    then have "(of_nat (length con) :: size_t) \<noteq> 0" using u(3) by (metis length_0_conv unat_0)
    then show ?thesis using False u n
      by (simp add: bu_vls_vlscat_def bu_vls_strcat_def v(1) vls_view_at[OF v(2)] mem_cells_def vls_put_def mem_put_def Let_def)
  qed
qed

section \<open>In front\<close>

text \<open>The buffer of a string that had none before is exactly as long as the text in front of it, when
  that has 32 characters or more; there is no room for the zero.\<close>

lemma prepend_at:
  assumes f: "fits pre con (x # rest)" and room: "length pre + length con + length s < extent pre con (x # rest)"
  shows "\<exists>rest'. do { buf \<leftarrow> vls_str (vls_at pre con (x # rest));
        cells \<leftarrow> mem_cells (length pre) (Suc (length con)) buf;
        buf \<leftarrow> mem_blit (length pre + length s) cells buf;
        buf \<leftarrow> mem_put (length pre) s buf;
        Some ((vls_at pre con (x # rest))\<lparr>vls_str := Some buf, vls_len := of_nat (length con) + of_nat (length s)\<rparr>) }
      = Some (vls_at pre (s @ con) (x # rest')) \<and> fits pre (s @ con) (x # rest')
    \<and> Suc (length s + length rest') = length (x # rest)"
proof -
  let ?r = "drop (length s) rest"
  let ?buf = "map Some pre @ map Some con @ x # rest"
  have l: "length s \<le> length rest" using room by simp
  have c: "mem_cells (length pre) (Suc (length con)) ?buf = Some (map Some con @ [x])" by (simp add: mem_cells_def)
  obtain gap where b: "mem_blit (length pre + length s) (map Some con @ [x]) ?buf
      = Some (map Some pre @ gap @ map Some con @ x # ?r)" "length gap = length s"
  proof
    let ?gap = "take (length s) (map Some con @ x # rest)"
    have "drop (Suc (length s + length con)) (map Some con @ x # rest) = ?r" using l by simp
    then show "mem_blit (length pre + length s) (map Some con @ [x]) ?buf
      = Some (map Some pre @ ?gap @ map Some con @ x # ?r)" using l by (simp add: mem_blit_def)
    show "length ?gap = length s" using l by simp
  qed
  have p: "mem_put (length pre) s (map Some pre @ gap @ map Some con @ x # ?r)
      = Some (map Some pre @ map Some s @ map Some con @ x # ?r)"
    using b(2) by (simp add: mem_put_def mem_blit_def)
  have n: "extent pre con (x # rest) = extent pre (s @ con) (x # ?r)" using l by simp
  have mx: "vls_max (vls_at pre con (x # rest)) = of_nat (extent pre (s @ con) (x # ?r))" unfolding vls_max_at n ..
  have "(vls_at pre con (x # rest))\<lparr>vls_str := Some (map Some pre @ map Some s @ map Some con @ x # ?r),
      vls_len := of_nat (length con) + of_nat (length s)\<rparr> = vls_at pre (s @ con) (x # ?r)"
    by (rule vls_at_eqI) (simp_all add: mx)
  then show ?thesis using c b(1) p n f l by (intro exI[of _ ?r]) (auto simp: fits_def)
qed

lemma prepend_room:
  assumes "vls_wf v" "unat (vls_max v) + length s + 256 < 2 ^ 63" "v = bu_vls_init \<longrightarrow> length s < 32"
  shows "\<exists>v'. bu_vls_prepend s v = Some v' \<and> vls_wf v' \<and> (vls_ok v \<longrightarrow> vls_ok v') \<and> vls_view v' = (fst (vls_view v), s @ content v)
    \<and> unat (vls_max v') \<le> unat (vls_max v) + length s + 256"
proof -
  obtain pre con where vw: "vls_view v = (pre, con)" by (cases "vls_view v")
  have u: "unat (of_nat (length s) :: size_t) = length s" using assms(2) by (simp add: small_word)
  have "\<exists>x rest. bu_vls_extend (of_nat (length s)) v = Some (vls_at pre con (x # rest)) \<and> fits pre con (x # rest)
      \<and> (vls_ok v \<longrightarrow> x = Some 0) \<and> length pre + length con + length s < extent pre con (x # rest)
      \<and> extent pre con (x # rest) \<le> unat (vls_max v) + length s + 256"
    using assms(1)
  proof (cases rule: vls_wf_cases)
    case init
    then obtain more where "bu_vls_extend (of_nat (length s)) v = Some (vls_at pre con (Some 0 # more))"
      "fits pre con (Some 0 # more)" "length more + 1 = max (length s) 32" "pre = []" "con = []"
      using vw extend_init[of "of_nat (length s)"] u assms by auto
    then show ?thesis using init assms(3) by (intro exI[of _ "Some 0"] exI[of _ more]) auto
  next
    case (at rest)
    then have v: "v = vls_at pre con rest" "fits pre con rest" using vw by simp_all
    obtain x rest0 where x: "rest = x # rest0" using v(2) by (cases rest) (auto simp: fits_def)
    have "vls_ok v \<longrightarrow> x = Some 0" using vls_ok_rest v x by fastforce
    moreover obtain more where m: "bu_vls_extend (of_nat (length s)) (vls_at pre con rest) = Some (vls_at pre con (rest @ more))"
      "fits pre con (rest @ more)" "length pre + length con + length s < extent pre con (rest @ more)" "length more \<le> length s + 128"
      using extend_at[OF v(2), of "of_nat (length s)"] assms(2) v u by auto
    ultimately show ?thesis using v x by (intro exI[of _ x] exI[of _ "rest0 @ more"]) auto
  qed
  then obtain x rest where r: "bu_vls_extend (of_nat (length s)) v = Some (vls_at pre con (x # rest))" "fits pre con (x # rest)"
      "vls_ok v \<longrightarrow> x = Some 0" "length pre + length con + length s < extent pre con (x # rest)"
      "extent pre con (x # rest) \<le> unat (vls_max v) + length s + 256" by blast
  have w: "unat (of_nat (length pre) :: size_t) = length pre" "unat (of_nat (length con) + 1 :: size_t) = Suc (length con)"
    "unat (of_nat (length pre) + of_nat (length s) :: size_t) = length pre + length s"
    using r(2,4) small_word[of "Suc (length con)"] small_word[of "length pre + length s"]
    by (simp_all add: fits_def small_word add.commute)
  obtain rest' where p: "bu_vls_prepend s v = Some (vls_at pre (s @ con) (x # rest'))" "fits pre (s @ con) (x # rest')"
    "Suc (length s + length rest') = length (x # rest)"
    using prepend_at[OF r(2,4)] r(1) w by (auto simp: bu_vls_prepend_def)
  then show ?thesis using r(3,5) vw by (auto simp: vls_view_at vls_wf_at vls_at_ok)
qed

lemma prepend_overflows:
  assumes "32 \<le> length s" "length s < 2 ^ 63"
  shows "bu_vls_prepend s bu_vls_init = None"
proof -
  have u: "unat (of_nat (length s) :: size_t) = length s" using assms(2) by (rule small_word)
  obtain more where m: "bu_vls_extend (of_nat (length s)) bu_vls_init = Some (vls_at [] [] (Some 0 # more))"
    "length more + 1 = length s" using extend_init[of "of_nat (length s)"] u assms by (auto simp: max_def)
  then show ?thesis using u by (simp add: bu_vls_prepend_def mem_cells_def mem_blit_def)
qed

section \<open>Spaces\<close>

text \<open>No zero is written behind the spaces.\<close>

lemma spaces_room:
  assumes "vls_wf v" "unat (vls_max v) + unat cnt + 256 < 2 ^ 63" "v = bu_vls_init \<longrightarrow> unat cnt < 32"
  shows "\<exists>v'. bu_vls_spaces cnt v = Some v' \<and> vls_wf v'
    \<and> vls_view v' = (fst (vls_view v), content v @ replicate (unat cnt) 32)
    \<and> unat (vls_max v') \<le> unat (vls_max v) + unat cnt + 256"
proof (cases "cnt = 0")
  case True
  then show ?thesis using assms(1) by (simp add: bu_vls_spaces_def)
next
  case False
  then have pos: "0 < unat cnt" by (simp add: unat_gt_0)
  obtain pre con where vw: "vls_view v = (pre, con)" by (cases "vls_view v")
  have "\<exists>rest. (if vls_offset v + vls_len v + cnt + 1 \<ge> vls_max v then bu_vls_extend cnt v else Some v) = Some (vls_at pre con rest)
      \<and> fits pre con rest \<and> unat cnt < length rest \<and> extent pre con rest \<le> unat (vls_max v) + unat cnt + 256"
    using assms(1)
  proof (cases rule: vls_wf_cases)
    case init
    then obtain more where "bu_vls_extend cnt v = Some (vls_at pre con (Some 0 # more))"
      "fits pre con (Some 0 # more)" "length more + 1 = max (unat cnt) 32" "pre = []" "con = []"
      using vw extend_init[of cnt] assms by auto
    then show ?thesis using init assms(3) by (intro exI[of _ "Some 0 # more"]) auto
  next
    case (at rest)
    then have v: "v = vls_at pre con rest" "fits pre con rest" using vw by simp_all
    have w: "unat (vls_offset v + vls_len v + cnt + 1) = length pre + length con + unat cnt + 1"
      using v assms(2) by (simp add: fits_def unat_word_ariths unsigned_of_nat take_bit_nat_eq_self)
    show ?thesis
    proof (cases "vls_offset v + vls_len v + cnt + 1 \<ge> vls_max v")
      case True
      obtain more where m: "bu_vls_extend cnt (vls_at pre con rest) = Some (vls_at pre con (rest @ more))"
        "fits pre con (rest @ more)" "length pre + length con + unat cnt < extent pre con (rest @ more)" "length more \<le> unat cnt + 128"
        using extend_at[OF v(2), of cnt] assms(2) v by auto
      then show ?thesis using True v by (intro exI[of _ "rest @ more"]) auto
    next
      case False
      then show ?thesis using v w by (intro exI[of _ rest]) (auto simp: word_le_nat_alt)
    qed
  qed
  then obtain rest where r: "(if vls_offset v + vls_len v + cnt + 1 \<ge> vls_max v then bu_vls_extend cnt v else Some v) = Some (vls_at pre con rest)"
    "fits pre con rest" "unat cnt < length rest" "extent pre con rest \<le> unat (vls_max v) + unat cnt + 256" by blast
  let ?s = "replicate (unat cnt) (32 :: byte)"
  have p: "vls_put (of_nat (length pre) + of_nat (length con)) ?s (vls_at pre con rest)
      = Some (vls_at pre con (map Some ?s @ drop (unat cnt) rest))"
    using vls_put_behind[of pre con rest ?s] r(2,3) pos by simp
  have "fits pre con (map Some ?s @ drop (unat cnt) rest)" using r(2,3) by (simp add: fits_def)
  note l = vls_at_longer[OF this]
  have "bu_vls_spaces cnt v = Some (vls_at pre (con @ ?s) (drop (unat cnt) rest))"
    using r(1,3) p l(1) False by (simp add: bu_vls_spaces_def Let_def)
  then show ?thesis using l(2) r(3,4) vw by (auto simp: vls_wf_at vls_view_at)
qed

text \<open>The first allocation has no room for a zero, and \<open>bu_vls_addr\<close> bombs.\<close>

lemma spaces_fill:
  assumes "32 \<le> unat cnt" "unat cnt < 2 ^ 63"
  shows "\<exists>v. bu_vls_spaces cnt bu_vls_init = Some v \<and> bu_vls_addr v = None"
proof -
  obtain more where m: "bu_vls_extend cnt bu_vls_init = Some (vls_at [] [] (Some 0 # more))"
    "length more + 1 = unat cnt" using extend_init[of cnt] assms by (auto simp: max_def)
  let ?v = "vls_at [] (replicate (unat cnt) 32) []"
  have z: "cnt \<noteq> 0" using assms(1) by auto
  have "of_nat (length more + 1) = cnt" unfolding m(2) by simp
  then have c: "unat cnt = Suc (length more)" "cnt = 1 + of_nat (length more)" using m(2) by (simp_all add: add.commute)
  have "bu_vls_spaces cnt bu_vls_init = Some ?v"
    using m(1) z by (simp add: bu_vls_spaces_def vls_put_def mem_put_def mem_blit_def c(1)) (simp add: vls_at_def c)
  moreover have "bu_vls_addr ?v = None" using z by (simp add: bu_vls_addr_def vls_max_at)
  ultimately show ?thesis by blast
qed

section \<open>Reading\<close>

lemma addr_at: "fits pre con rest \<Longrightarrow> bu_vls_addr (vls_at pre con rest) = Some (map Some con @ rest)"
proof -
  assume f: "fits pre con rest"
  have u: "unat (vls_len (vls_at pre con rest) + vls_offset (vls_at pre con rest)) = length con + length pre"
    using f small_word[of "length con + length pre"] by (simp add: fits_def)
  have "vls_max (vls_at pre con rest) \<noteq> 0" using unat_max_at[OF f] f by (metis fits_def not_numeral_le_zero unat_0)
  moreover have "\<not> vls_len (vls_at pre con rest) + vls_offset (vls_at pre con rest) \<ge> vls_max (vls_at pre con rest)"
    using f by (simp only: word_le_nat_alt u unat_max_at) (simp add: fits_def)
  ultimately show ?thesis using f by (simp add: bu_vls_addr_def fits_def small_word)
qed

text \<open>The C string is what stands before the first zero among the characters.\<close>

lemma c_str_content: "c_str (map Some con @ Some 0 # rest) = Some (takeWhile (\<lambda>b. b \<noteq> 0) con)"
  by (induction con) auto

lemma addr_ok:
  assumes "vls_ok v"
  obtains p where "bu_vls_addr v = Some p" "c_str p = Some (takeWhile (\<lambda>b. b \<noteq> 0) (content v))"
proof -
  from assms show ?thesis
  proof (cases rule: vls_ok_cases)
    case init
    then show ?thesis using that by (auto simp: bu_vls_addr_def)
  next
    case (at rest)
    then show ?thesis using that addr_at[OF at(2)] by (metis c_str_content)
  qed
qed

lemma addr_wf:
  assumes "vls_wf v"
  obtains p where "bu_vls_addr v = Some p" "\<And>i. i < length (content v) \<Longrightarrow> mem_at i p = Some (content v ! i)"
proof -
  from assms show ?thesis
  proof (cases rule: vls_wf_cases)
    case init
    then show ?thesis using that by (auto simp: bu_vls_addr_def)
  next
    case (at rest)
    have "bu_vls_addr v = Some (map Some (content v) @ rest)" using addr_at[OF at(2)] at(1) by metis
    then show ?thesis by (rule that) (simp add: mem_at_def nth_append)
  qed
qed

lemma len_wf: "vls_wf v \<Longrightarrow> unat (vls_len v) = length (content v)"
  by (erule vls_wf_cases, simp)
    (metis add_leE fits_def leD linorder_le_less_linear order_le_less_trans small_word vls_at_fields(3) le_add2 le_add1 add.assoc)

section \<open>Trimming\<close>

definition space :: "byte \<Rightarrow> bool" where "space b = isspace (char_of_byte b)"

definition trim_end :: "byte list \<times> byte list \<Rightarrow> byte list \<times> byte list" where
  "trim_end pc = (let c = rev (dropWhile space (rev (snd pc))) in
     if c = [] \<and> snd pc \<noteq> [] then ([], []) else (fst pc, c))"

definition trim_start :: "byte list \<times> byte list \<Rightarrow> byte list \<times> byte list" where
  "trim_start pc = (fst pc @ takeWhile space (snd pc), dropWhile space (snd pc))"

lemma trim_end_snoc: "trim_end (p, c @ [x]) =
    (if space x then if c = [] then ([], []) else trim_end (p, c) else (p, c @ [x]))"
  by (auto simp: trim_end_def Let_def)

lemma trim_trailing_refines:
  assumes "vls_wf v" "length (content v) < 2 ^ 31"
  shows "\<exists>v'. trim_trailing v = Some v' \<and> vls_wf v' \<and> vls_view v' = trim_end (vls_view v)
    \<and> vls_max v' = vls_max v \<and> (vls_ok v \<longrightarrow> vls_ok v')"
  using assms
proof (induction "length (content v)" arbitrary: v rule: less_induct)
  case less
  obtain p c where vw: "vls_view v = (p, c)" by (cases "vls_view v")
  have len: "unat (vls_len v) = length c" using len_wf[OF less.prems(1)] vw by simp
  obtain a where a: "bu_vls_addr v = Some a" "\<And>i. i < length c \<Longrightarrow> mem_at i a = Some (c ! i)"
    using addr_wf[OF less.prems(1)] vw by (metis snd_conv)
  show ?case
  proof (cases c rule: rev_cases)
    case Nil
    then have "vls_len v = 0" using len by (simp add: unat_eq_0)
    then show ?thesis using less.prems(1) vw Nil
      by (subst trim_trailing.simps) (simp add: trim_end_def)
  next
    case (snoc c' x)
    then have pos: "vls_len v > 0" using len by (simp add: word_neq_0_conv[symmetric] unat_eq_0[symmetric] del: word_neq_0_conv)
    have "unat (vls_len v - 1) = length c - 1" using len pos by (simp add: unat_minus_one word_neq_0_conv)
    then have x: "mem_at (unat (bu_vls_strlen v - 1)) a = Some x"
      using a(2)[of "length c - 1"] snoc by (simp add: bu_vls_strlen_def)
    show ?thesis
    proof (cases "space x")
      case False
      then have "trim_trailing v = Some v"
        using pos a(1) x by (subst trim_trailing.simps) (simp add: space_def)
      then show ?thesis using less.prems(1) vw False snoc by (simp add: trim_end_snoc)
    next
      case True
      obtain v1 where t: "bu_vls_trunc v (- 1) = Some v1" "vls_wf v1" "vls_view v1 = trunc_spec (- 1) (vls_view v)"
        "vls_max v1 = vls_max v" "vls_ok v \<or> vls_view v1 \<noteq> vls_view v \<longrightarrow> vls_ok v1"
        using trunc_refines[OF less.prems, of "- 1"] by auto
      have ts: "trunc_spec (- 1) (p, c) = (if c' = [] then ([], []) else (p, c'))"
        by (simp add: trunc_spec_def snoc)
      have step: "trim_trailing v = trim_trailing v1"
        using pos a(1) x t(1) True by (subst trim_trailing.simps) (simp add: space_def)
      have sm: "length (content v1) < length (content v)" using t(3) vw ts snoc by simp
      then obtain v' where "trim_trailing v1 = Some v'" "vls_wf v'" "vls_view v' = trim_end (vls_view v1)"
        "vls_max v' = vls_max v1" "vls_ok v1 \<longrightarrow> vls_ok v'" using less.hyps[OF sm t(2)] less.prems(2) by auto
      moreover have "trim_end (vls_view v1) = trim_end (vls_view v)"
        using t(3) vw ts snoc True by (simp add: trim_end_snoc) (simp add: trim_end_def)
      ultimately show ?thesis using step t(4,5) by auto
    qed
  qed
qed

lemma trim_leading_refines:
  assumes "vls_wf v" "length (content v) < 2 ^ 31" "content v = [] \<or> (\<exists>b\<in>set (content v). \<not> space b)"
  shows "\<exists>v'. trim_leading v = Some v' \<and> vls_wf v' \<and> vls_view v' = trim_start (vls_view v)
    \<and> vls_max v' = vls_max v \<and> (vls_ok v \<longrightarrow> vls_ok v')"
  using assms
proof (induction "length (content v)" arbitrary: v rule: less_induct)
  case less
  obtain p c where vw: "vls_view v = (p, c)" by (cases "vls_view v")
  have len: "unat (vls_len v) = length c" using len_wf[OF less.prems(1)] vw by simp
  obtain a where a: "bu_vls_addr v = Some a" "\<And>i. i < length c \<Longrightarrow> mem_at i a = Some (c ! i)"
    using addr_wf[OF less.prems(1)] vw by (metis snd_conv)
  show ?case
  proof (cases c)
    case Nil
    then have "vls_len v = 0" using len by (simp add: unat_eq_0)
    then show ?thesis using less.prems(1) vw Nil
      by (subst trim_leading.simps) (simp add: trim_start_def)
  next
    case (Cons x c')
    then have pos: "vls_len v > 0" using len by (simp add: word_neq_0_conv[symmetric] unat_eq_0[symmetric] del: word_neq_0_conv)
    have x: "mem_at 0 a = Some x" using a(2)[of 0] Cons by simp
    show ?thesis
    proof (cases "space x")
      case False
      then have "trim_leading v = Some v"
        using pos a(1) x by (subst trim_leading.simps) (simp add: space_def)
      then show ?thesis using less.prems(1) vw False Cons by (simp add: trim_start_def)
    next
      case True
      then have ne: "c' \<noteq> []" "\<exists>b\<in>set c'. \<not> space b" using less.prems(3) vw Cons by auto
      obtain v1 where t: "bu_vls_nibble 1 v = Some v1" "vls_wf v1" "vls_view v1 = nibble_spec 1 (vls_view v)"
        "vls_max v1 = vls_max v" "vls_ok v \<longrightarrow> vls_ok v1"
        using nibble_refines[OF less.prems(1,2), of 1] by auto
      have ns: "vls_view v1 = (p @ [x], c')" using t(3) vw ne(1) Cons by (cases c') (auto simp: nibble_spec_def)
      have step: "trim_leading v = trim_leading v1"
        using pos a(1) x t(1) True by (subst trim_leading.simps) (simp add: space_def)
      have sm: "length (content v1) < length (content v)" using ns vw Cons by simp
      then obtain v' where "trim_leading v1 = Some v'" "vls_wf v'" "vls_view v' = trim_start (vls_view v1)"
        "vls_max v' = vls_max v1" "vls_ok v1 \<longrightarrow> vls_ok v'" using less.hyps[OF sm t(2)] less.prems(2) ns ne(2) by auto
      moreover have "trim_start (vls_view v1) = trim_start (vls_view v)"
        using ns vw Cons True by (simp add: trim_start_def)
      ultimately show ?thesis using step t(4,5) by auto
    qed
  qed
qed

definition trim_spec :: "byte list \<times> byte list \<Rightarrow> byte list \<times> byte list" where
  "trim_spec pc = trim_start (trim_end pc)"

lemma trimspace_refines:
  assumes "vls_wf v" "length (content v) < 2 ^ 31"
  shows "\<exists>v'. bu_vls_trimspace v = Some v' \<and> vls_wf v' \<and> vls_view v' = trim_spec (vls_view v)
    \<and> vls_max v' = vls_max v \<and> (vls_ok v \<longrightarrow> vls_ok v')"
proof -
  obtain v1 where t: "trim_trailing v = Some v1" "vls_wf v1" "vls_view v1 = trim_end (vls_view v)"
    "vls_max v1 = vls_max v" "vls_ok v \<longrightarrow> vls_ok v1" using trim_trailing_refines[OF assms] by blast
  have le: "length (snd (trim_end pc)) \<le> length (snd pc)" for pc
    using length_dropWhile_le[of space "rev (snd pc)"] by (auto simp: trim_end_def Let_def)
  have "content v1 = [] \<or> (\<exists>b\<in>set (content v1). \<not> space b)"
  proof (cases "dropWhile space (rev (content v))")
    case (Cons b bs)
    then have "\<not> space b" by (metis hd_dropWhile list.distinct(1) list.sel(1))
    then show ?thesis using Cons by (simp add: t(3) trim_end_def Let_def)
  qed (simp add: t(3) trim_end_def Let_def)
  moreover have "length (content v1) < 2 ^ 31" using le[of "vls_view v"] assms(2) t(3) by simp
  ultimately obtain v2 where "trim_leading v1 = Some v2" "vls_wf v2" "vls_view v2 = trim_start (vls_view v1)"
    "vls_max v2 = vls_max v1" "vls_ok v1 \<longrightarrow> vls_ok v2"
    using trim_leading_refines[OF t(2)] by blast
  then show ?thesis using t by (auto simp: bu_vls_trimspace_def trim_spec_def)
qed

text \<open>A string of four gigabytes: the length as an \<open>int\<close> is zero, nothing is cut off, and the loop
  goes on for ever.\<close>

lemma trim_never:
  assumes "fits pre con rest" "length con = 2 ^ 32" "space (last con)"
  shows "trim_trailing (vls_at pre con rest) = None"
proof -
  let ?v = "vls_at pre con rest"
  have wf: "vls_wf ?v" and vw: "vls_view ?v = (pre, con)" using assms(1) by (simp_all add: vls_wf_at vls_view_at)
  have len: "vls_len ?v = 2 ^ 32" using assms(2) by simp
  have "absolute_len ?v (- 1) = Some (- 1)" by (simp add: absolute_len_def len del: vls_at_fields(3))
  then have same: "bu_vls_trunc ?v (- 1) = Some ?v"
    by (simp add: bu_vls_trunc_def len del: vls_at_fields(3))
  obtain a where a: "bu_vls_addr ?v = Some a" "\<And>i. i < length con \<Longrightarrow> mem_at i a = Some (con ! i)"
    using addr_wf[OF wf] vw by (metis snd_conv)
  have "con \<noteq> []" using assms(2) by auto
  then have x: "mem_at (unat (bu_vls_strlen ?v - 1)) a = Some (last con)"
    using a(2)[of "2 ^ 32 - 1"] assms(2) by (simp add: bu_vls_strlen_def len last_conv_nth del: vls_at_fields(3))
  have "u \<noteq> ?v" if "trim_trailing u = Some y" for u y
  proof (rule trim_trailing.raw_induct[where P = "\<lambda>u w. u \<noteq> ?v", OF _ that])
    fix f u w
    assume ih: "\<And>u w. f u = Some w \<Longrightarrow> u \<noteq> ?v"
      and body: "(if 0 < vls_len u
         then do { p \<leftarrow> bu_vls_addr u; c \<leftarrow> mem_at (unat (bu_vls_strlen u - 1)) p;
                   if isspace (char_of_byte c) then do { vp \<leftarrow> bu_vls_trunc u (- 1); f vp } else Some u }
         else Some u) = Some w"
    show "u \<noteq> ?v"
    proof
      assume "u = ?v"
      then have "f ?v = Some w" using body a(1) x same assms(3)
        by (simp add: len space_def del: vls_at_fields(3))
      then show False using ih by blast
    qed
  qed
  then show ?thesis by (cases "trim_trailing ?v") auto
qed

section \<open>Sequences of operations\<close>

datatype vls_op =
  Strcat "byte list" | Strncat "byte list" size_t | Putc byte | Strcpy "byte list" | Strncpy "byte list" size_t
  | Vlscat bu_vls | Prepend "byte list" | Spaces size_t | Trunc int | Nibble int | Trimspace

definition run_op :: "vls_op \<Rightarrow> bu_vls \<Rightarrow> bu_vls option" where
  "run_op op v =
     (case op of
        Strcat s \<Rightarrow> bu_vls_strcat (Some s) v
      | Strncat s n \<Rightarrow> bu_vls_strncat (Some s) n v
      | Putc c \<Rightarrow> bu_vls_putc c v
      | Strcpy s \<Rightarrow> bu_vls_strcpy (Some s) v
      | Strncpy s n \<Rightarrow> bu_vls_strncpy (Some s) n v
      | Vlscat w \<Rightarrow> bu_vls_vlscat w v
      | Prepend s \<Rightarrow> bu_vls_prepend s v
      | Spaces n \<Rightarrow> bu_vls_spaces n v
      | Trunc k \<Rightarrow> bu_vls_trunc v (word_of_int k)
      | Nibble k \<Rightarrow> bu_vls_nibble (word_of_int k) v
      | Trimspace \<Rightarrow> bu_vls_trimspace v)"

definition added :: "vls_op \<Rightarrow> byte list" where
  "added op =
     (case op of
        Strcat s \<Rightarrow> s | Strncat s n \<Rightarrow> take (unat n) s | Putc c \<Rightarrow> [c] | Strcpy s \<Rightarrow> s | Strncpy s n \<Rightarrow> take (unat n) s
      | Vlscat w \<Rightarrow> content w | Prepend s \<Rightarrow> s | Spaces n \<Rightarrow> replicate (unat n) 32
      | Trunc k \<Rightarrow> [] | Nibble k \<Rightarrow> [] | Trimspace \<Rightarrow> [])"

text \<open>What the operation does to the characters nibbled off and to those of the string.\<close>

definition spec_op :: "vls_op \<Rightarrow> byte list \<times> byte list \<Rightarrow> byte list \<times> byte list" where
  "spec_op op pc =
     (case op of
        Strcpy s \<Rightarrow> ([], s) | Strncpy s n \<Rightarrow> ([], take (unat n) s) | Prepend s \<Rightarrow> (fst pc, s @ snd pc)
      | Trunc k \<Rightarrow> trunc_spec k pc | Nibble k \<Rightarrow> nibble_spec k pc | Trimspace \<Rightarrow> trim_spec pc
      | _ \<Rightarrow> (fst pc, snd pc @ added op))"

definition cost :: "vls_op \<Rightarrow> nat" where "cost op = length (added op) + 257"

text \<open>The cases in which an operation does what it should: the string appended ends with a zero,
  there is something to copy, the number fits its type, and text in front or spaces are not the
  first to need a buffer, or short.\<close>

definition op_ok :: "bool \<Rightarrow> vls_op \<Rightarrow> bool" where
  "op_ok buffer op \<longleftrightarrow>
     (case op of
        Strncpy s n \<Rightarrow> take (unat n) s \<noteq> [] | Vlscat w \<Rightarrow> vls_ok w
      | Prepend s \<Rightarrow> buffer \<or> length s < 32 | Spaces n \<Rightarrow> buffer \<or> unat n < 32
      | Trunc k \<Rightarrow> - (2 ^ 31) \<le> k \<and> k < 2 ^ 31 | Nibble k \<Rightarrow> - (2 ^ 63) < k \<and> k < 2 ^ 63
      | _ \<Rightarrow> True)"

lemma strncat_nothing: "take (unat n) s = [] \<Longrightarrow> bu_vls_strncat (Some s) n v = Some v"
  by (simp add: bu_vls_strncat_def Let_def)

lemma run_op_refines:
  assumes "vls_wf v" "op_ok (vls_view v \<noteq> ([], [])) op" "unat (vls_max v) + cost op < 2 ^ 63" "length (content v) < 2 ^ 31"
  shows "\<exists>v'. run_op op v = Some v' \<and> vls_wf v' \<and> vls_view v' = spec_op op (vls_view v)
    \<and> unat (vls_max v') \<le> unat (vls_max v) + cost op \<and> (vls_ok v \<longrightarrow> (\<exists>n. op = Spaces n) \<or> vls_ok v')"
proof (cases op)
  case (Strcat s)
  show ?thesis
  proof (cases "s = []")
    case True
    then show ?thesis using assms(1) by (simp add: Strcat run_op_def spec_op_def added_def bu_vls_strcat_def)
  next
    case False
    then show ?thesis using strcat_room[OF assms(1), of s] assms(3) vls_ok_wf
      by (fastforce simp: Strcat run_op_def spec_op_def added_def cost_def)
  qed
next
  case (Strncat s n)
  show ?thesis
  proof (cases "take (unat n) s = []")
    case True
    then show ?thesis using assms(1) strncat_nothing[OF True, of v]
      by (simp add: Strncat run_op_def spec_op_def added_def del: take_eq_Nil)
  next
    case False
    then show ?thesis using strncat_room[OF assms(1) _ False refl] assms(3) vls_ok_wf
      by (fastforce simp: Strncat run_op_def spec_op_def added_def cost_def)
  qed
next
  case (Putc c)
  then show ?thesis using putc_room[OF assms(1), of c] assms(3) vls_ok_wf
    by (fastforce simp: run_op_def spec_op_def added_def cost_def)
next
  case (Strcpy s)
  then show ?thesis using strcpy_room[OF assms(1), of s] assms(3) vls_ok_wf
    by (fastforce simp: run_op_def spec_op_def added_def cost_def)
next
  case (Strncpy s n)
  then have ne: "take (unat n) s \<noteq> []" using assms(2) by (simp add: op_ok_def)
  then show ?thesis using strcpy_room[OF assms(1), of "take (unat n) s"] assms(3) vls_ok_wf
    by (fastforce simp: Strncpy run_op_def spec_op_def added_def cost_def strncpy_strcpy[OF ne])
next
  case (Vlscat w)
  then have w: "vls_ok w" using assms(2) by (simp add: op_ok_def)
  show ?thesis
  proof (cases "content w = []")
    case True
    then show ?thesis using assms(1)
      by (simp add: Vlscat run_op_def spec_op_def added_def vlscat_strcat[OF w] bu_vls_strcat_def)
  next
    case False
    then show ?thesis using strcat_room[OF assms(1), of "content w"] assms(3) vls_ok_wf
      by (fastforce simp: Vlscat run_op_def spec_op_def added_def cost_def vlscat_strcat[OF w])
  qed
next
  case (Prepend s)
  then have "v = bu_vls_init \<longrightarrow> length s < 32" using assms(2) by (auto simp: op_ok_def)
  then show ?thesis using prepend_room[OF assms(1), of s] assms(3)
    by (fastforce simp: Prepend run_op_def spec_op_def added_def cost_def)
next
  case (Spaces n)
  then have "v = bu_vls_init \<longrightarrow> unat n < 32" using assms(2) by (auto simp: op_ok_def)
  then show ?thesis using spaces_room[OF assms(1), of n] assms(3)
    by (fastforce simp: Spaces run_op_def spec_op_def added_def cost_def)
next
  case (Trunc k)
  then show ?thesis using trunc_refines[OF assms(1,4), of k] assms(2)
    by (fastforce simp: run_op_def spec_op_def op_ok_def)
next
  case (Nibble k)
  then show ?thesis using nibble_refines[OF assms(1,4), of k] assms(2)
    by (fastforce simp: run_op_def spec_op_def op_ok_def)
next
  case Trimspace
  then show ?thesis using trimspace_refines[OF assms(1,4)]
    by (fastforce simp: run_op_def spec_op_def)
qed

text \<open>A sequence of operations.\<close>

fun run_ops :: "vls_op list \<Rightarrow> bu_vls \<Rightarrow> bu_vls option" where
  "run_ops [] v = Some v"
| "run_ops (op # ops) v = do { v \<leftarrow> run_op op v; run_ops ops v }"

lemma trim_size: "length (fst (trim_spec pc)) + length (snd (trim_spec pc)) \<le> length (fst pc) + length (snd pc)"
proof -
  have e: "length (fst (trim_end pc)) + length (snd (trim_end pc)) \<le> length (fst pc) + length (snd pc)"
    using length_dropWhile_le[of space "rev (snd pc)"] by (auto simp: trim_end_def Let_def)
  have "length (takeWhile space c) + length (dropWhile space c) = length c" for c
    by (metis length_append takeWhile_dropWhile_id)
  then show ?thesis using e by (simp add: trim_spec_def trim_start_def add.assoc)
qed

lemma nibble_size: "length (fst (nibble_spec k pc)) + length (snd (nibble_spec k pc)) \<le> length (fst pc) + length (snd pc)"
  by (cases pc) (auto simp: nibble_spec_def trunc_spec_def Let_def)

lemma spec_op_size:
  "length (fst (spec_op op pc)) + length (snd (spec_op op pc)) \<le> length (fst pc) + length (snd pc) + cost op"
proof (cases op)
  case (Nibble k)
  then show ?thesis using nibble_size[of k pc] by (simp add: spec_op_def)
next
  case Trimspace
  then show ?thesis using trim_size[of pc] by (simp add: spec_op_def)
next
  case (Trunc k)
  then show ?thesis by (auto simp: spec_op_def trunc_spec_def Let_def)
qed (simp_all add: spec_op_def cost_def added_def)

text \<open>The conditions along a sequence, on the characters that the operations should give.\<close>

fun ops_ok :: "vls_op list \<Rightarrow> byte list \<times> byte list \<Rightarrow> bool" where
  "ops_ok [] pc = True"
| "ops_ok (op # ops) pc \<longleftrightarrow> op_ok (pc \<noteq> ([], [])) op \<and> ops_ok ops (spec_op op pc)"

lemma run_ops_refine:
  assumes "vls_wf v" "ops_ok ops (vls_view v)"
    and "unat (vls_max v) + sum_list (map cost ops) < 2 ^ 63"
    and "length (fst (vls_view v)) + length (content v) + sum_list (map cost ops) < 2 ^ 31"
  shows "\<exists>v'. run_ops ops v = Some v' \<and> vls_wf v' \<and> vls_view v' = fold spec_op ops (vls_view v)"
  using assms
proof (induction ops arbitrary: v)
  case (Cons op ops)
  obtain v1 where r: "run_op op v = Some v1" "vls_wf v1" "vls_view v1 = spec_op op (vls_view v)"
    "unat (vls_max v1) \<le> unat (vls_max v) + cost op"
    using run_op_refines[of v op] Cons.prems by auto
  have "ops_ok ops (vls_view v1)" using Cons.prems(2) r(3) by simp
  then obtain v' where "run_ops ops v1 = Some v'" "vls_wf v'" "vls_view v' = fold spec_op ops (vls_view v1)"
    using Cons.IH[OF r(2)] Cons.prems(3,4) r(3,4) spec_op_size[of op "vls_view v"] by force
  then show ?case using r(1,3) by simp
qed simp

section \<open>Tabs\<close>

lemma extend_refines:
  assumes "vls_wf v" "unat (vls_max v) + unat extra + 128 < 2 ^ 63"
  shows "\<exists>v'. bu_vls_extend extra v = Some v' \<and> vls_wf v' \<and> vls_view v' = vls_view v
    \<and> unat (vls_max v') \<le> unat (vls_max v) + unat extra + 128 \<and> (vls_ok v \<longrightarrow> vls_ok v')"
  using assms(1)
proof (cases rule: vls_wf_cases)
  case init
  obtain more where "bu_vls_extend extra bu_vls_init = Some (vls_at [] [] (Some 0 # more))"
    "fits [] [] (Some 0 # more)" "length more + 1 = max (unat extra) 32" using extend_init[of extra] assms(2) by auto
  then show ?thesis using init by (auto simp: vls_wf_at vls_view_at vls_at_ok)
next
  case (at rest)
  obtain pre con where vw: "vls_view v = (pre, con)" by (cases "vls_view v")
  then have v: "v = vls_at pre con rest" "fits pre con rest" using at by simp_all
  obtain more where "bu_vls_extend extra (vls_at pre con rest) = Some (vls_at pre con (rest @ more))"
    "fits pre con (rest @ more)" "length more \<le> unat extra + 128"
    using extend_at[OF v(2), of extra] assms(2) v by auto
  moreover have "vls_ok v \<Longrightarrow> \<exists>r. rest = Some 0 # r" using vls_ok_rest v by simp
  ultimately show ?thesis using v by (auto simp: vls_wf_at vls_view_at intro!: vls_at_ok)
qed

text \<open>Tabs as spaces up to the next multiple of eight columns.\<close>

fun expand :: "byte list \<Rightarrow> nat \<Rightarrow> byte list" where
  "expand [] col = []"
| "expand (c # s) col =
     (if c = 9 then replicate (8 - col mod 8) 32 @ expand s (col + (8 - col mod 8))
      else if c = 10 then 10 # expand s 0 else c # expand s (col + 1))"

lemma tab_word:
  assumes "col + 8 < 2 ^ 63"
  shows "(8 :: size_t) - of_nat col mod 8 = of_nat (8 - col mod 8)"
proof -
  have "unat (of_nat col mod 8 :: size_t) = col mod 8" using assms by (simp add: unat_mod_distrib small_word)
  then have "of_nat (col mod 8) = (of_nat col mod 8 :: size_t)" by (metis of_nat_unat ucast_id)
  then show ?thesis by (simp add: of_nat_diff)
qed

lemma detab_loop_refines:
  assumes "vls_wf v" "v \<noteq> bu_vls_init" "unat (vls_max v) + 264 * length s < 2 ^ 63" "col + 8 * length s < 2 ^ 63"
  shows "\<exists>v'. detab_loop s (of_nat col) v = Some v' \<and> vls_wf v' \<and> vls_view v' = (fst (vls_view v), content v @ expand s col)"
  using assms
proof (induction s arbitrary: v col)
  case Nil
  then show ?case by simp
next
  case (Cons c s)
  have ne: "w \<noteq> bu_vls_init" if "vls_view w = (p, q @ r)" "r \<noteq> []" for w p q r using that by auto
  consider (tab) "c = 9" | (newline) "c = 10" | (other) "c \<noteq> 9" "c \<noteq> 10" by blast
  then show ?case
  proof cases
    case tab
    define n where "n = 8 - col mod 8"
    have n: "n \<le> 8" "0 < n" by (simp_all add: n_def)
    have w: "(8 :: size_t) - of_nat col mod 8 = of_nat n"
      unfolding n_def using Cons.prems(4) by (intro tab_word) simp
    have u: "unat (of_nat n :: size_t) = n" using n by (intro small_word) simp
    obtain v1 where v1: "bu_vls_spaces (of_nat n) v = Some v1" "vls_wf v1"
      "vls_view v1 = (fst (vls_view v), content v @ replicate n 32)" "unat (vls_max v1) \<le> unat (vls_max v) + n + 256"
      using spaces_room[OF Cons.prems(1), of "of_nat n"] Cons.prems(2,3) u n by auto
    have "v1 \<noteq> bu_vls_init" using ne[OF v1(3)] n(2) by simp
    then obtain v' where "detab_loop s (of_nat (col + n)) v1 = Some v'" "vls_wf v'"
      "vls_view v' = (fst (vls_view v1), content v1 @ expand s (col + n))"
      using Cons.IH[OF v1(2), of "col + n"] v1(4) n(1) Cons.prems(3,4) by auto
    then show ?thesis using v1(1,3) tab by (simp add: Let_def w n_def[symmetric])
  next
    case newline
    obtain v1 where v1: "bu_vls_putc 10 v = Some v1" "vls_ok v1" "vls_view v1 = (fst (vls_view v), content v @ [10])"
      "unat (vls_max v1) \<le> unat (vls_max v) + 257" using putc_room[OF Cons.prems(1), of 10] Cons.prems(3) by auto
    then obtain v' where "detab_loop s (of_nat 0) v1 = Some v'" "vls_wf v'"
      "vls_view v' = (fst (vls_view v1), content v1 @ expand s 0)"
      using Cons.IH[OF vls_ok_wf[OF v1(2)] ne[OF v1(3)], of 0] Cons.prems(3,4) by auto
    then show ?thesis using v1(1,3) newline by simp
  next
    case other
    obtain v1 where v1: "bu_vls_putc c v = Some v1" "vls_ok v1" "vls_view v1 = (fst (vls_view v), content v @ [c])"
      "unat (vls_max v1) \<le> unat (vls_max v) + 257" using putc_room[OF Cons.prems(1), of c] Cons.prems(3) by auto
    then obtain v' where "detab_loop s (of_nat (col + 1)) v1 = Some v'" "vls_wf v'"
      "vls_view v' = (fst (vls_view v1), content v1 @ expand s (col + 1))"
      using Cons.IH[OF vls_ok_wf[OF v1(2)] ne[OF v1(3)], of "col + 1"] Cons.prems(3,4) by auto
    then show ?thesis using v1(1,3) other by (simp add: add.commute)
  qed
qed

lemma detab_refines:
  assumes "vls_ok v" "0 \<notin> set (content v)" "content v \<noteq> []" "unat (vls_max v) + 265 * length (content v) + 512 < 2 ^ 63"
    and "length (content v) < 2 ^ 31"
  shows "\<exists>v'. bu_vls_detab v = Some v' \<and> vls_wf v' \<and> vls_view v' = ([], expand (content v) 0)"
proof -
  let ?s = "content v"
  note wf = vls_ok_wf[OF assms(1)]
  have ln: "vls_len v \<noteq> 0" using len_wf[OF wf] assms(3) by (metis length_0_conv unat_0)
  obtain src where s: "bu_vls_vlscat v bu_vls_init = Some src" "vls_ok src" "content src = ?s"
    using strcat_room[of bu_vls_init ?s] assms(3,4) by (auto simp: vlscat_strcat[OF assms(1)] vls_wf_def)
  obtain v1 where v1: "bu_vls_trunc v 0 = Some v1" "vls_wf v1" "vls_view v1 = ([], [])" "vls_max v1 = vls_max v"
    using trunc_refines[OF wf assms(5), of 0] assms(3) by (auto simp: trunc_spec_def)
  have ns: "unat (bu_vls_strlen src + VLS_ALLOC_STEP) = length ?s + 128"
    using len_wf[OF vls_ok_wf[OF s(2)]] s(3) assms(4) by (simp add: bu_vls_strlen_def VLS_ALLOC_STEP_def unat_word_ariths)
  obtain v2 where v2: "bu_vls_extend (bu_vls_strlen src + VLS_ALLOC_STEP) v1 = Some v2" "vls_wf v2" "vls_view v2 = ([], [])"
    "unat (vls_max v2) \<le> unat (vls_max v) + length ?s + 256"
    using extend_refines[OF v1(2), of "bu_vls_strlen src + VLS_ALLOC_STEP"] ns v1(3,4) assms(4) by auto
  have "vls_str v2 \<noteq> None"
    using v2(1) by (auto simp: bu_vls_extend_def Let_def split: if_splits elim!: option_elims)
  then have "v2 \<noteq> bu_vls_init" by auto
  moreover have "unat (vls_max v2) + 264 * length ?s < 2 ^ 63" "0 + 8 * length ?s < 2 ^ 63"
    using v2(4) assms(4) by simp_all
  ultimately obtain v' where d: "detab_loop ?s (of_nat 0) v2 = Some v'" "vls_wf v'"
    "vls_view v' = (fst (vls_view v2), content v2 @ expand ?s 0)"
    using detab_loop_refines[OF v2(2), of ?s 0] by blast
  have tw: "takeWhile (\<lambda>b. b \<noteq> 0) ?s = ?s" using assms(2) by (auto simp: takeWhile_eq_all_conv)
  obtain p where "bu_vls_addr src = Some p" "c_str p = Some ?s" using addr_ok[OF s(2)] unfolding s(3) tw .
  then show ?thesis using d v2(1,3) s(1) v1(1) ln by (simp add: bu_vls_detab_def bu_vls_vlscatzap_def)
qed

lemma positions_expand:
  assumes "10 \<notin> set s" "col + 8 * length s < 2 ^ 63"
  shows "positions_used s (of_nat col) = of_nat (col + length (expand s col))"
  using assms
proof (induction s arbitrary: col)
  case (Cons c s)
  define n where "n = 8 - col mod 8"
  have w: "(8 :: size_t) - of_nat col mod 8 = of_nat n"
    unfolding n_def using Cons.prems(2) by (intro tab_word) simp
  have "n \<le> 8" by (simp add: n_def)
  then show ?case
    using Cons.IH[of "col + n"] Cons.IH[of "col + 1"] Cons.prems
    by (auto simp: w n_def[symmetric] add.assoc add.commute)
qed simp

section \<open>Properties\<close>

lemma run_ops_terminated:
  assumes "vls_ok v" "ops_ok ops (vls_view v)" "\<forall>n. Spaces n \<notin> set ops"
    and "unat (vls_max v) + sum_list (map cost ops) < 2 ^ 63"
    and "length (fst (vls_view v)) + length (content v) + sum_list (map cost ops) < 2 ^ 31"
    and "run_ops ops v = Some v'"
  shows "vls_ok v'"
  using assms
proof (induction ops arbitrary: v)
  case (Cons op ops)
  obtain v1 where r: "run_op op v = Some v1" "vls_view v1 = spec_op op (vls_view v)"
    "unat (vls_max v1) \<le> unat (vls_max v) + cost op" "vls_ok v1"
    using run_op_refines[OF vls_ok_wf[OF Cons.prems(1)], of op] Cons.prems by auto
  have "length (fst (vls_view v1)) + length (content v1) \<le> length (fst (vls_view v)) + length (content v) + cost op"
    unfolding r(2) by (rule spec_op_size)
  then show ?case using Cons.IH[OF r(4)] Cons.prems r(1-3) by simp
qed simp

text \<open>C8: a variable-length string is the pair of the characters nibbled off and the ones after them.
  A sequence of operations that meets \<open>ops_ok\<close> does to the buffer what it does to that pair, and no
  access goes outside the buffer: text put in front and spaces have less than 32 characters where the string has none
  yet (otherwise the buffer overflows, see \<open>vls_length_errors\<close>), \<open>bu_vls_strncpy\<close> has something to
  copy, a string that is appended is terminated, numbers fit their types, and all the characters together are less than
  \<open>2 ^ 31\<close>.  If \<open>bu_vls_spaces\<close>, which writes no zero, is not among them, the string is terminated at the
  end: \<open>bu_vls_addr\<close> gives a C string of its characters up to the first zero.\<close>

theorem vls_ops_refine:
  assumes "vls_ok v" "ops_ok ops (vls_view v)"
    and "unat (vls_max v) + sum_list (map cost ops) < 2 ^ 63"
    and "length (fst (vls_view v)) + length (content v) + sum_list (map cost ops) < 2 ^ 31"
  shows "\<exists>v'. run_ops ops v = Some v' \<and> vls_view v' = fold spec_op ops (vls_view v)
    \<and> ((\<forall>n. Spaces n \<notin> set ops) \<longrightarrow>
        (\<exists>p. bu_vls_addr v' = Some p \<and> c_str p = Some (takeWhile (\<lambda>b. b \<noteq> 0) (content v'))))"
proof -
  obtain v' where r: "run_ops ops v = Some v'" "vls_view v' = fold spec_op ops (vls_view v)"
    using run_ops_refine[OF vls_ok_wf[OF assms(1)] assms(2-4)] by blast
  have "vls_ok v'" if "\<forall>n. Spaces n \<notin> set ops"
    using run_ops_terminated[OF assms(1,2) that assms(3,4) r(1)] .
  then show ?thesis using r addr_ok by blast
qed

definition sample_ops :: "vls_op list" where
  "sample_ops = [Strcat (bytes_of ''  cube.s ''), Trimspace, Nibble 4, Prepend (bytes_of ''x''), Nibble (- 3), Trunc (- 1)]"

lemma vls_ops_refine_witness:
  "\<exists>v'. run_ops sample_ops bu_vls_init = Some v' \<and> content v' = bytes_of ''ubex.''"
proof -
  have "ops_ok sample_ops ([], []) \<and> sum_list (map cost sample_ops) < 3000
    \<and> fold spec_op sample_ops ([], []) = (bytes_of ''  c'', bytes_of ''ubex.'')" by code_simp
  then show ?thesis using vls_ops_refine[of bu_vls_init sample_ops] by (auto simp: vls_ok_def)
qed

text \<open>C12: three operations fail on a string that is too long or has no buffer yet: text of 32
  characters or more put in front of an empty string is moved behind the end of its new buffer, as
  many spaces fill that buffer without room for a zero, so that \<open>bu_vls_addr\<close> bombs, and the
  removal of trailing white space from four gigabytes never ends.\<close>

theorem vls_length_errors:
  assumes "32 \<le> length s" "length s < 2 ^ 63" "32 \<le> unat n" "unat n < 2 ^ 63"
    and "fits pre con rest" "length con = 2 ^ 32" "space (last con)"
  shows "bu_vls_prepend s bu_vls_init = None
    \<and> (\<exists>v. bu_vls_spaces n bu_vls_init = Some v \<and> bu_vls_addr v = None)
    \<and> bu_vls_trimspace (vls_at pre con rest) = None"
  using prepend_overflows[OF assms(1,2)] spaces_fill[OF assms(3,4)] trim_never[OF assms(5-7)]
  by (simp add: bu_vls_trimspace_def)

lemma vls_length_errors_witness:
  "bu_vls_prepend (replicate 32 65) bu_vls_init = None
    \<and> (\<exists>v. bu_vls_spaces 40 bu_vls_init = Some v \<and> bu_vls_addr v = None)
    \<and> bu_vls_trimspace (vls_at [] (replicate (2 ^ 32) 32) [Some 0]) = None"
proof -
  have "fits [] (replicate (2 ^ 32) 32) [Some 0]" by (simp add: fits_def)
  moreover have "space (last (replicate (2 ^ 32) 32))"
    by (simp add: space_def isspace_def code_def char_of_byte_def last_replicate)
  ultimately show ?thesis
    using vls_length_errors[of "replicate 32 65" 40 "[]" "replicate (2 ^ 32) 32" "[Some 0]"] by simp
qed

text \<open>C11: \<open>bu_vls_detab\<close> replaces every tab by the spaces up to the next multiple of eight columns, and
  on one line their number is what \<open>bu_vls_print_positions_used\<close> says of the line with tabs.\<close>

theorem detab_expands:
  assumes "vls_ok v" "0 \<notin> set (content v)" "content v \<noteq> []" "length (content v) < 2 ^ 31"
    and "unat (vls_max v) + 265 * length (content v) + 512 < 2 ^ 63"
  shows "\<exists>v'. bu_vls_detab v = Some v' \<and> vls_view v' = ([], expand (content v) 0)
    \<and> (10 \<notin> set (content v) \<longrightarrow> bu_vls_print_positions_used v = Some (vls_len v'))"
proof -
  obtain v' where d: "bu_vls_detab v = Some v'" "vls_wf v'" "vls_view v' = ([], expand (content v) 0)"
    using detab_refines[OF assms(1-3,5,4)] by blast
  have tw: "takeWhile (\<lambda>b. b \<noteq> 0) (content v) = content v" using assms(2) by (auto simp: takeWhile_eq_all_conv)
  obtain p where p: "bu_vls_addr v = Some p" "c_str p = Some (content v)" using addr_ok[OF assms(1)] unfolding tw .
  have none: "strrchr 10 s = None" if "10 \<notin> set s" for s using that by (induction s) auto
  have "bu_vls_print_positions_used v = Some (vls_len v')" if "10 \<notin> set (content v)"
  proof -
    have "vls_len v' = of_nat (length (expand (content v) 0))" using len_wf[OF d(2)] d(3) by (metis of_nat_unat snd_conv ucast_id)
    then show ?thesis using positions_expand[OF that, of 0] assms(5) p none[OF that]
      by (simp add: bu_vls_print_positions_used_def)
  qed
  then show ?thesis using d by blast
qed

lemma detab_expands_witness:
  "\<exists>v v'. bu_vls_strcat (Some [65, 9, 66]) bu_vls_init = Some v \<and> bu_vls_detab v = Some v'
     \<and> content v' = 65 # replicate 7 32 @ [66] \<and> bu_vls_print_positions_used v = Some (vls_len v')"
proof -
  obtain v where v: "bu_vls_strcat (Some [65, 9, 66]) bu_vls_init = Some v" "vls_ok v" "vls_view v = ([], [65, 9, 66])"
    "unat (vls_max v) \<le> 259"
    using strcat_room[of bu_vls_init "[65, 9, 66]"] by (auto simp: vls_wf_def)
  have "expand [65, 9, 66] 0 = 65 # replicate 7 32 @ [66]" by code_simp
  then show ?thesis using detab_expands[OF v(2)] v by auto
qed

text \<open>A string that ends with a tab is not terminated after \<open>bu_vls_detab\<close>: reading it up to a zero
  runs into bytes that were never written.\<close>

theorem detab_unterminated:
  "(do { v \<leftarrow> bu_vls_strcpy (Some [65, 66, 9]) bu_vls_init; v \<leftarrow> bu_vls_detab v; p \<leftarrow> bu_vls_addr v; Some (c_str p) }) = Some None"
  by code_simp

end
