(* ===== verification/BuVlsPrintf.thy ===== *)
theory BuVlsPrintf
  imports BuVls
begin

text \<open>
  \<open>bu_vls_vprintf\<close> of \<open>libbu/vls_vprintf.c\<close>: the scan of a format, the conversions for strings, for
  \<open>bu_vls\<close> strings and, through \<open>snprintf\<close>, for characters and integers.  A format is a string of
  characters; the arguments are tagged with the type they were passed with, and taking one with
  another type is \<open>None\<close>, as is a conversion that the C standard leaves undefined.  What \<open>snprintf\<close>
  makes of floating-point numbers and pointers is left to the implementation there and is the
  argument \<open>impl\<close> here, a function of the conversion specification and the arguments.  The
  lengths \<open>z\<close>, \<open>t\<close> and \<open>j\<close> are known to the C library (\<open>HAVE_PERCENT_Z\<close>).
\<close>

unbundle bit_operations_syntax

section \<open>Arguments and flags\<close>

datatype va_arg =
  Arg_int "32 word" | Arg_long "64 word" | Arg_str "byte list option" | Arg_vls "bu_vls option"
  | Arg_ptr "64 word" | Arg_double "64 word"

definition take_int :: "va_arg list \<Rightarrow> (32 word \<times> va_arg list) option" where
  "take_int ap = (case ap of Arg_int i # ap \<Rightarrow> Some (i, ap) | _ \<Rightarrow> None)"

definition take_long :: "va_arg list \<Rightarrow> (64 word \<times> va_arg list) option" where
  "take_long ap = (case ap of Arg_long l # ap \<Rightarrow> Some (l, ap) | _ \<Rightarrow> None)"

definition SHORTINT :: "32 word" where "SHORTINT = 0x0001"
definition SHHRTINT :: "32 word" where "SHHRTINT = 0x0002"
definition LONG_INT :: "32 word" where "LONG_INT = 0x0004"
definition LLONGINT :: "32 word" where "LLONGINT = 0x0008"
definition LONGDBLE :: "32 word" where "LONGDBLE = 0x0010"
definition INTMAX_T :: "32 word" where "INTMAX_T = 0x0020"
definition PTRDIFFT :: "32 word" where "PTRDIFFT = 0x0040"
definition SIZETINT :: "32 word" where "SIZETINT = 0x0080"
definition FIELDLEN :: "32 word" where "FIELDLEN = 0x0100"
definition PRECISION :: "32 word" where "PRECISION = 0x0200"

definition ALL_LENGTHMODS :: "32 word" where
  "ALL_LENGTHMODS = SHORTINT OR SHHRTINT OR LONG_INT OR LLONGINT OR INTMAX_T OR PTRDIFFT OR SIZETINT OR LONGDBLE"

lemmas vflag_defs = SHORTINT_def SHHRTINT_def LONG_INT_def LLONGINT_def LONGDBLE_def INTMAX_T_def
  PTRDIFFT_def SIZETINT_def FIELDLEN_def PRECISION_def ALL_LENGTHMODS_def

record vflags =
  fieldlen :: int
  vf_flags :: "32 word"
  have_digit :: bool
  have_dot :: bool
  left_justify :: bool
  precision :: int

definition reset_vflags :: vflags where
  "reset_vflags = \<lparr>fieldlen = - 1, vf_flags = 0, have_digit = False, have_dot = False, left_justify = False, precision = 0\<rparr>"

definition flag_set :: "vflags \<Rightarrow> 32 word \<Rightarrow> bool" where
  "flag_set f b \<longleftrightarrow> vf_flags f AND b \<noteq> 0"

definition VP_UNKNOWN :: "32 word" where "VP_UNKNOWN = 0x0001"
definition VP_FLAG :: "32 word" where "VP_FLAG = 0x0002"
definition VP_LENGTH_MOD :: "32 word" where "VP_LENGTH_MOD = 0x0004"
definition VP_CONVERSION_SPEC :: "32 word" where "VP_CONVERSION_SPEC = 0x0008"
definition VP_MISC :: "32 word" where "VP_MISC = 0x0010"
definition VP_VALID :: "32 word" where "VP_VALID = 0x0100"
definition VP_OBSOLETE :: "32 word" where "VP_OBSOLETE = 0x1000"

definition format_part_status :: "char \<Rightarrow> 32 word" where
  "format_part_status c =
     (if c \<in> set ''dioxXueEfFgGaAcspn%V'' then VP_VALID OR VP_CONVERSION_SPEC
      else if c \<in> set ''hlLjzt'' then VP_VALID OR VP_LENGTH_MOD
      else if c = CHR 0x27 \<or> c \<in> set ''#0- +'' then VP_VALID OR VP_FLAG
      else if c \<in> set ''*;'' then VP_VALID OR VP_MISC
      else if c \<in> set ''mCDOSU'' then VP_OBSOLETE OR VP_CONVERSION_SPEC
      else if c = CHR ''Z'' then VP_OBSOLETE OR VP_LENGTH_MOD
      else if c = CHR ''I'' then VP_OBSOLETE OR VP_FLAG
      else VP_UNKNOWN)"

text \<open>Whether the character is handled, and the flags; only length modifiers are.\<close>

definition handle_format_part :: "32 word \<Rightarrow> vflags \<Rightarrow> char \<Rightarrow> bool \<times> vflags" where
  "handle_format_part vp_part f c =
     (if vp_part \<noteq> VP_LENGTH_MOD then (False, f)
      else if c = CHR ''j'' then (True, f\<lparr>vf_flags := vf_flags f OR INTMAX_T\<rparr>)
      else if c = CHR ''t'' then (True, f\<lparr>vf_flags := vf_flags f OR PTRDIFFT\<rparr>)
      else if c = CHR ''z'' then (True, f\<lparr>vf_flags := vf_flags f OR SIZETINT\<rparr>)
      else if c = CHR ''l'' then
        (True, f\<lparr>vf_flags := (vf_flags f XOR ALL_LENGTHMODS) OR (if flag_set f LONG_INT then LLONGINT else LONG_INT)\<rparr>)
      else if c = CHR ''h'' then
        (True, f\<lparr>vf_flags := (vf_flags f XOR ALL_LENGTHMODS) OR (if flag_set f SHORTINT then SHHRTINT else SHORTINT)\<rparr>)
      else if c = CHR ''L'' then (True, f\<lparr>vf_flags := (vf_flags f XOR ALL_LENGTHMODS) OR LONGDBLE\<rparr>)
      else (False, f))"

section \<open>The scan of a conversion specification\<close>

text \<open>From behind the percent sign: the flags, the characters scanned, the character that ends the
  specification (\<open>None\<close> at the end of the format), the rest of the format and of the arguments.\<close>

fun scan_spec :: "string \<Rightarrow> vflags \<Rightarrow> va_arg list
    \<Rightarrow> (vflags \<times> string \<times> char option \<times> string \<times> va_arg list) option" where
  "scan_spec [] f ap = Some (f, [], None, [], ap)"
| "scan_spec (c # s) f ap =
     (let continue = (\<lambda>f ap. do { (f, cs, e, rest, ap) \<leftarrow> scan_spec s f ap; Some (f, c # cs, e, rest, ap) }) in
      if c \<in> set '' #+'' \<or> c = CHR 0x27 then continue f ap
      else if c = CHR ''.'' then continue (f\<lparr>have_dot := True\<rparr>) ap
      else if isdigit c then continue f ap
      else if c = CHR ''-'' then
        continue (if have_dot f then f\<lparr>precision := 0, have_digit := False\<rparr>
                  else if have_digit f then f else f\<lparr>left_justify := True\<rparr>) ap
      else if c = CHR ''*'' then do {
        (i, ap) \<leftarrow> take_int ap;
        continue (if \<not> have_dot f then f\<lparr>fieldlen := sint i, vf_flags := vf_flags f OR FIELDLEN\<rparr>
                  else f\<lparr>precision := sint i, vf_flags := vf_flags f OR PRECISION\<rparr>) ap }
      else if format_part_status c = VP_VALID OR VP_LENGTH_MOD
        then continue (snd (handle_format_part VP_LENGTH_MOD f c)) ap
      else Some (f, [], Some c, s, ap))"

definition negative_width :: "vflags \<Rightarrow> vflags" where
  "negative_width f = (if fieldlen f < 0 then f\<lparr>fieldlen := - fieldlen f, left_justify := True\<rparr> else f)"

section \<open>Conversion of strings\<close>

text \<open>The specification is read again for its numbers.\<close>

function str_fields :: "string \<Rightarrow> vflags \<Rightarrow> vflags" where
  "str_fields [] f = f"
| "str_fields (c # s) f =
     (if isdigit c then
        (let n = (if c = CHR ''0'' then fst (strtol10 (c # s)) else sint (atoi (c # s))) in
         str_fields (dropWhile isdigit s)
           (if \<not> have_dot f then f\<lparr>fieldlen := n, vf_flags := vf_flags f OR FIELDLEN\<rparr>
            else f\<lparr>precision := n, vf_flags := vf_flags f OR PRECISION\<rparr>))
      else if c = CHR ''.'' then str_fields s (f\<lparr>have_dot := True\<rparr>)
      else if c = CHR ''-'' then str_fields s (f\<lparr>left_justify := True\<rparr>)
      else str_fields s f)"
  by pat_completeness auto

termination
  by (relation "measure (\<lambda>(s, f). length s)") (auto simp: le_imp_less_Suc length_dropWhile_le)

fun put_spaces :: "nat \<Rightarrow> bu_vls \<Rightarrow> bu_vls option" where
  "put_spaces 0 v = Some v"
| "put_spaces (Suc n) v = do { v \<leftarrow> bu_vls_putc 32 v; put_spaces n v }"

text \<open>A string with spaces before or behind it, in a string of its own.\<close>

definition padded :: "bool \<Rightarrow> nat \<Rightarrow> bu_vls \<Rightarrow> bu_vls option" where
  "padded left n str =
     do { p \<leftarrow> (if left then bu_vls_vlscat str bu_vls_init else Some bu_vls_init);
          p \<leftarrow> put_spaces n p;
          if left then Some p else bu_vls_vlscat str p }"

definition print_str :: "vflags \<Rightarrow> string \<Rightarrow> byte list option \<Rightarrow> bu_vls \<Rightarrow> bu_vls option" where
  "print_str f fbuf str vls =
     (let f = str_fields fbuf (f\<lparr>left_justify := False, have_dot := False\<rparr>);
          minfldwid = (if flag_set f FIELDLEN then fieldlen f else - 1);
          maxstrlen = (if flag_set f PRECISION then precision f else - 1) in
      case str of
        None \<Rightarrow> if flag_set f FIELDLEN then bu_vls_strncat (Some (bytes_of ''(null)'')) (of_int (fieldlen f)) vls
                else bu_vls_strcat (Some (bytes_of ''(null)'')) vls
      | Some s \<Rightarrow> do {
          tmp \<leftarrow> bu_vls_strcpy (Some s) bu_vls_init;
          let cut = (maxstrlen \<ge> 0 \<and> nat maxstrlen < length s);
          tmp \<leftarrow> (if cut then bu_vls_trunc tmp (word_of_int maxstrlen) else Some tmp);
          let stringlen = (if cut then maxstrlen else int (length s));
          let maxstrlen = (if maxstrlen \<ge> 0 \<and> \<not> cut then int (length s) else maxstrlen);
          let minfldwid = (if minfldwid < maxstrlen then maxstrlen else minfldwid);
          tmp \<leftarrow> (if stringlen < minfldwid then do {
                    p \<leftarrow> padded (left_justify f) (nat (minfldwid - stringlen)) tmp;
                    tmp \<leftarrow> bu_vls_trunc tmp 0;
                    bu_vls_vlscat p tmp }
                  else Some tmp);
          bu_vls_vlscat tmp vls })"

definition print_vls :: "vflags \<Rightarrow> bu_vls option \<Rightarrow> bu_vls \<Rightarrow> bu_vls option" where
  "print_vls f vp vls =
     (case vp of
        Some vp \<Rightarrow>
          if flag_set f FIELDLEN then
            (let stringlen = unat (bu_vls_strlen vp) in
             if stringlen \<ge> nat (fieldlen f) then do {
               p \<leftarrow> bu_vls_addr vp; s \<leftarrow> c_str p; bu_vls_strncat (Some s) (of_int (fieldlen f)) vls }
             else do { p \<leftarrow> padded (left_justify f) (nat (fieldlen f) - stringlen) vp; bu_vls_vlscat p vls })
          else bu_vls_vlscat vp vls
      | None \<Rightarrow>
          if flag_set f FIELDLEN then bu_vls_strncat (Some (bytes_of ''(null)'')) (of_int (fieldlen f)) vls
          else bu_vls_strcat (Some (bytes_of ''(null)'')) vls)"

section \<open>Integers and characters\<close>

text \<open>What \<open>snprintf\<close> makes of one argument by a specification for an integer or a character: flags,
  width, precision, length and conversion.  The type of the argument must be the one that the
  specification names.  A width or precision given as a star takes an \<open>int\<close>, but the code passes a
  \<open>ssize_t\<close> for it.\<close>

record int_spec =
  is_flags :: string
  is_width :: nat
  is_precision :: "nat option"
  is_length :: string
  is_conv :: char

definition parse_spec :: "string \<Rightarrow> int_spec option" where
  "parse_spec s =
     (let flag = (\<lambda>c. c \<in> set ''-+ #0'' \<or> c = CHR 0x27);
          lenmod = (\<lambda>c. c \<in> set ''hlLjzt'');
          flags = takeWhile flag s;
          (w, s) = digits_val 0 (dropWhile flag s);
          (p, s) = (case s of [] \<Rightarrow> (None, s)
                    | c # s' \<Rightarrow> if c = CHR ''.'' then (let (p, s) = digits_val 0 s' in (Some p, s)) else (None, s)) in
      case dropWhile lenmod s of
        [c] \<Rightarrow> Some \<lparr>is_flags = flags, is_width = w, is_precision = p, is_length = takeWhile lenmod s, is_conv = c\<rparr>
      | _ \<Rightarrow> None)"

function digits_in :: "nat \<Rightarrow> string \<Rightarrow> nat \<Rightarrow> string" where
  "digits_in base alphabet n =
     (if base < 2 then [] else if n < base then [alphabet ! n]
      else digits_in base alphabet (n div base) @ [alphabet ! (n mod base)])"
  by pat_completeness auto

termination by (relation "measure (\<lambda>(base, a, n). n)") auto

declare digits_in.simps [simp del]

definition pad_number :: "int_spec \<Rightarrow> string \<Rightarrow> string \<Rightarrow> string" where
  "pad_number sp prefix digits =
     (let digits = replicate ((case is_precision sp of None \<Rightarrow> 0 | Some p \<Rightarrow> p) - length digits) (CHR ''0'') @ digits;
          n = is_width sp - (length prefix + length digits) in
      if CHR ''-'' \<in> set (is_flags sp) then prefix @ digits @ replicate n (CHR '' '')
      else if CHR ''0'' \<in> set (is_flags sp) \<and> is_precision sp = None then prefix @ replicate n (CHR ''0'') @ digits
      else replicate n (CHR '' '') @ prefix @ digits)"

definition int_digits :: "int_spec \<Rightarrow> nat \<Rightarrow> string \<Rightarrow> nat \<Rightarrow> string" where
  "int_digits sp base alphabet n =
     (if n = 0 \<and> is_precision sp = Some 0 then [] else digits_in base alphabet n)"

definition print_signed :: "int_spec \<Rightarrow> int \<Rightarrow> string" where
  "print_signed sp v =
     pad_number sp (if v < 0 then ''-'' else if CHR ''+'' \<in> set (is_flags sp) then ''+''
                    else if CHR '' '' \<in> set (is_flags sp) then '' '' else [])
       (int_digits sp 10 ''0123456789'' (nat \<bar>v\<bar>))"

definition print_unsigned :: "int_spec \<Rightarrow> nat \<Rightarrow> string" where
  "print_unsigned sp n =
     (let alt = CHR ''#'' \<in> set (is_flags sp); c = is_conv sp in
      if c = CHR ''u'' then pad_number sp [] (int_digits sp 10 ''0123456789'' n)
      else if c = CHR ''o'' then
        (let d = int_digits sp 8 ''01234567'' n in
         pad_number sp [] (if alt \<and> (d = [] \<or> hd d \<noteq> CHR ''0'') then CHR ''0'' # d else d))
      else if c = CHR ''x'' then pad_number sp (if alt \<and> n \<noteq> 0 then ''0x'' else []) (int_digits sp 16 ''0123456789abcdef'' n)
      else pad_number sp (if alt \<and> n \<noteq> 0 then ''0X'' else []) (int_digits sp 16 ''0123456789ABCDEF'' n))"

text \<open>The value of the argument as the type that the length and the conversion give.\<close>

definition arg_value :: "bool \<Rightarrow> string \<Rightarrow> va_arg \<Rightarrow> int option" where
  "arg_value sg m arg =
     (case arg of
        Arg_int i \<Rightarrow>
          if m = [] then Some (if sg then sint i else uint i)
          else if m = ''h'' then Some (if sg then sint (ucast i :: 16 word) else uint (ucast i :: 16 word))
          else if m = ''hh'' then Some (if sg then sint (ucast i :: 8 word) else uint (ucast i :: 8 word))
          else None
      | Arg_long l \<Rightarrow> if m \<in> {''l'', ''ll'', ''j'', ''t'', ''z''} then Some (if sg then sint l else uint l) else None
      | _ \<Rightarrow> None)"

definition BUFSIZ :: nat where "BUFSIZ = 8192"

text \<open>The text in the buffer, up to its first zero.\<close>

definition snprintf :: "string \<Rightarrow> va_arg \<Rightarrow> string option" where
  "snprintf fmt arg =
     do { sp \<leftarrow> (case fmt of [] \<Rightarrow> None | _ # s \<Rightarrow> parse_spec s);
          text \<leftarrow> (if is_conv sp \<in> set ''di'' then map_option (print_signed sp) (arg_value True (is_length sp) arg)
                  else if is_conv sp \<in> set ''ouxX''
                  then map_option (\<lambda>v. print_unsigned sp (nat v)) (arg_value False (is_length sp) arg)
                  else if is_conv sp = CHR ''c'' \<and> is_length sp = []
                  then (case arg of Arg_int i \<Rightarrow> Some (pad_number (sp\<lparr>is_precision := Some 0, is_flags := filter (\<lambda>c. c = CHR ''-'') (is_flags sp)\<rparr>) [] [char_of_byte (ucast i)])
                        | _ \<Rightarrow> None)
                  else None);
          Some (takeWhile (\<lambda>c. c \<noteq> CHR 0x00) (take (BUFSIZ - 1) text)) }"

text \<open>The argument of an integer conversion, taken by the flags and cast to the type of its branch,
  and what follows it.\<close>

definition take_integer :: "vflags \<Rightarrow> bool \<Rightarrow> va_arg list \<Rightarrow> (va_arg \<times> va_arg list) option" where
  "take_integer f sg ap =
     (let long = map_option (\<lambda>(l, ap). (Arg_long l, ap)) (take_long ap) in
      if flag_set f LONG_INT then long
      else if flag_set f LLONGINT then long
      else if flag_set f SHORTINT \<or> flag_set f SHHRTINT
      then map_option (\<lambda>(i, ap). (Arg_int (if sg then scast (ucast i :: 16 word) else ucast (ucast i :: 16 word)), ap)) (take_int ap)
      else if flag_set f INTMAX_T then long
      else if flag_set f PTRDIFFT then long
      else if flag_set f SIZETINT then long
      else map_option (\<lambda>(i, ap). (Arg_int i, ap)) (take_int ap))"

definition print_arg :: "vflags \<Rightarrow> string \<Rightarrow> va_arg \<Rightarrow> bu_vls \<Rightarrow> bu_vls option" where
  "print_arg f fbuf arg vls =
     (if flag_set f FIELDLEN then None
      else do { buf \<leftarrow> snprintf fbuf arg; bu_vls_strcat (Some (bytes_of buf)) vls })"

section \<open>The loop over the format\<close>

text \<open>One conversion specification, from its percent sign on: the string, the rest of the format and
  of the arguments.\<close>

definition print_spec :: "(string \<Rightarrow> va_arg list \<Rightarrow> (byte list \<times> va_arg list) option) \<Rightarrow> string \<Rightarrow> va_arg list \<Rightarrow> bu_vls
    \<Rightarrow> (bu_vls \<times> string \<times> va_arg list) option" where
  "print_spec impl s ap vls =
     do { (f, cs, e, rest, ap) \<leftarrow> scan_spec s reset_vflags ap;
          let f = negative_width f;
          c \<leftarrow> e;
          let fbuf = CHR ''%'' # cs @ [c];
          (vls, ap) \<leftarrow>
            (if c = CHR ''s'' then
               (case ap of Arg_str str # ap \<Rightarrow> do { vls \<leftarrow> print_str f fbuf str vls; Some (vls, ap) } | _ \<Rightarrow> None)
             else if c = CHR ''V'' then
               (case ap of Arg_vls vp # ap \<Rightarrow> do { vls \<leftarrow> print_vls f vp vls; Some (vls, ap) } | _ \<Rightarrow> None)
             else if c \<in> set ''eEfgGFnp'' then
               do { (buf, ap) \<leftarrow> impl fbuf ap; vls \<leftarrow> bu_vls_strcat (Some buf) vls; Some (vls, ap) }
             else if c \<in> set ''ouxXdi'' then
               do { (arg, ap) \<leftarrow> take_integer f (c \<in> set ''di'') ap; vls \<leftarrow> print_arg f fbuf arg vls; Some (vls, ap) }
             else if c = CHR ''%'' then do { vls \<leftarrow> bu_vls_putc (byte_of (CHR ''%'')) vls; Some (vls, ap) }
             else if c = CHR ''c'' then
               do { (i, ap) \<leftarrow> take_int ap; vls \<leftarrow> print_arg f fbuf (Arg_int i) vls; Some (vls, ap) }
             else None);
          Some (vls, rest, ap) }"

lemma scan_spec_rest: "scan_spec s f ap = Some (f', cs, e, rest, ap') \<Longrightarrow> length rest \<le> length s"
proof (induction s f ap arbitrary: f' cs e rest ap' rule: scan_spec.induct)
  case (2 c s f ap)
  show ?case using "2.prems"
    by (auto simp: Let_def split: if_splits elim!: option_elims) (auto dest!: "2.IH" simp: Let_def)
qed simp

lemma print_spec_rest: "print_spec impl s ap vls = Some (vls', rest, ap') \<Longrightarrow> length rest \<le> length s"
  by (auto simp: print_spec_def Let_def elim!: option_elims dest: scan_spec_rest)

function vprintf_loop :: "(string \<Rightarrow> va_arg list \<Rightarrow> (byte list \<times> va_arg list) option) \<Rightarrow> string \<Rightarrow> va_arg list \<Rightarrow> bu_vls \<Rightarrow> bu_vls option" where
  "vprintf_loop impl sp ap vls =
     (let lit = takeWhile (\<lambda>c. c \<noteq> CHR ''%'') sp in
      do { vls \<leftarrow> (if lit \<noteq> [] then bu_vls_strncat (Some (bytes_of sp)) (of_nat (length lit)) vls else Some vls);
           case dropWhile (\<lambda>c. c \<noteq> CHR ''%'') sp of
             [] \<Rightarrow> Some vls
           | _ # s \<Rightarrow> do { (vls, rest, ap) \<leftarrow> print_spec impl s ap vls; vprintf_loop impl rest ap vls } })"
  by pat_completeness auto

termination
proof (relation "measure (\<lambda>(impl, sp, ap, vls). length sp)", goal_cases)
  case (2 impl sp ap vls lit vls' c s t vls'' u rest ap')
  have "length (dropWhile (\<lambda>c. c \<noteq> CHR ''%'') sp) \<le> length sp" by (rule length_dropWhile_le)
  then show ?case using 2 by (auto dest!: print_spec_rest)
qed simp

definition bu_vls_vprintf :: "(string \<Rightarrow> va_arg list \<Rightarrow> (byte list \<times> va_arg list) option) \<Rightarrow> string option \<Rightarrow> va_arg list \<Rightarrow> bu_vls
    \<Rightarrow> bu_vls option" where
  "bu_vls_vprintf impl fmt ap vls =
     (case fmt of None \<Rightarrow> Some vls | Some sp \<Rightarrow> if sp = [] then Some vls else vprintf_loop impl sp ap vls)"

definition bu_vls_printf :: "(string \<Rightarrow> va_arg list \<Rightarrow> (byte list \<times> va_arg list) option) \<Rightarrow> string \<Rightarrow> va_arg list \<Rightarrow> bu_vls \<Rightarrow> bu_vls option" where
  "bu_vls_printf impl fmt ap vls = bu_vls_vprintf impl (Some fmt) ap vls"

definition bu_vls_sprintf :: "(string \<Rightarrow> va_arg list \<Rightarrow> (byte list \<times> va_arg list) option) \<Rightarrow> string \<Rightarrow> va_arg list \<Rightarrow> bu_vls \<Rightarrow> bu_vls option" where
  "bu_vls_sprintf impl fmt ap vls = do { vls \<leftarrow> bu_vls_trunc vls 0; bu_vls_vprintf impl (Some fmt) ap vls }"

end
