(* ===== verification/TextSink.thy ===== *)
theory TextSink
  imports BrlPrelude
begin

text \<open>
  The contract between the strings of libbu (\<open>BuVls\<close>) and the routines that print into them:
  appending text succeeds and appends it, as long as the memory used stays below a limit.
\<close>

locale text_sink =
  fixes inv :: "'v \<Rightarrow> bool" and chars :: "'v \<Rightarrow> 'c list" and used :: "'v \<Rightarrow> nat"
    and put :: "'c list \<Rightarrow> 'v \<Rightarrow> 'v option" and overhead limit :: nat
  assumes put_chars: "inv v \<Longrightarrow> used v + length s + overhead < limit \<Longrightarrow>
    \<exists>v'. put s v = Some v' \<and> inv v' \<and> chars v' = chars v @ s \<and> used v' \<le> used v + length s + overhead"
begin

text \<open>A routine that appends the text \<open>out\<close> and uses at most \<open>n\<close> bytes for it.\<close>

definition appends :: "('v \<Rightarrow> 'v option) \<Rightarrow> 'c list \<Rightarrow> nat \<Rightarrow> bool" where
  "appends f out n \<longleftrightarrow>
     (\<forall>v. inv v \<and> used v + n < limit \<longrightarrow>
        (\<exists>v'. f v = Some v' \<and> inv v' \<and> chars v' = chars v @ out \<and> used v' \<le> used v + n))"

lemma appendsE:
  assumes "appends f out n" "inv v" "used v + n < limit"
  obtains v' where "f v = Some v'" "inv v'" "chars v' = chars v @ out" "used v' \<le> used v + n"
  using assms unfolding appends_def by blast

lemma appends_put: "appends (put s) s (length s + overhead)"
  using put_chars unfolding appends_def by (metis add.assoc)

lemma appends_none: "appends Some [] n"
  by (simp add: appends_def)

lemma appends_seq:
  assumes "appends f a m" "appends g b n"
  shows "appends (\<lambda>v. Option.bind (f v) g) (a @ b) (m + n)"
  unfolding appends_def
proof (intro allI impI)
  fix v assume v: "inv v \<and> used v + (m + n) < limit"
  obtain v1 where f: "f v = Some v1" "inv v1" "chars v1 = chars v @ a" "used v1 \<le> used v + m"
    using appendsE[OF assms(1), of v] v by auto
  obtain v2 where "g v1 = Some v2" "inv v2" "chars v2 = chars v1 @ b" "used v2 \<le> used v1 + n"
    using appendsE[OF assms(2), of v1] f v by auto
  then show "\<exists>v'. Option.bind (f v) g = Some v' \<and> inv v' \<and> chars v' = chars v @ a @ b \<and> used v' \<le> used v + (m + n)"
    using f by simp
qed

lemma appends_more: "appends f out m \<Longrightarrow> m \<le> n \<Longrightarrow> appends f out n"
proof (unfold appends_def, intro allI impI)
  fix v assume a: "\<forall>v. inv v \<and> used v + m < limit \<longrightarrow> (\<exists>v'. f v = Some v' \<and> inv v' \<and> chars v' = chars v @ out \<and> used v' \<le> used v + m)"
    and n: "m \<le> n" "inv v \<and> used v + n < limit"
  then obtain v' where "f v = Some v'" "inv v'" "chars v' = chars v @ out" "used v' \<le> used v + m"
    by (metis add_left_mono order_le_less_trans)
  then show "\<exists>v'. f v = Some v' \<and> inv v' \<and> chars v' = chars v @ out \<and> used v' \<le> used v + n"
    using n(1) by auto
qed

lemma appends_if: "(b \<Longrightarrow> appends f x n) \<Longrightarrow> (\<not> b \<Longrightarrow> appends g y n) \<Longrightarrow> appends (if b then f else g) (if b then x else y) n"
  by simp

text \<open>One piece of text for each element of a list.\<close>

fun each :: "('a \<Rightarrow> 'v \<Rightarrow> 'v option) \<Rightarrow> 'a list \<Rightarrow> 'v \<Rightarrow> 'v option" where
  "each f [] v = Some v"
| "each f (x # xs) v = Option.bind (f x v) (each f xs)"

lemma appends_each:
  assumes "\<And>x. x \<in> set xs \<Longrightarrow> appends (f x) (out x) n"
  shows "appends (each f xs) (concat (map out xs)) (length xs * n)"
  using assms
proof (induction xs)
  case Nil
  have "each f [] = Some" by (simp add: fun_eq_iff)
  then show ?case by (simp add: appends_none)
next
  case (Cons x xs)
  have "each f (x # xs) = (\<lambda>v. Option.bind (f x v) (each f xs))" by (simp add: fun_eq_iff)
  then show ?case using appends_seq[of "f x" "out x" n "each f xs"] Cons by simp
qed

end

end
