(* ===== verification/BuVlsPrintfProof.thy ===== *)
theory BuVlsPrintfProof
  imports BuVlsPrintf BuVlsProof TextSink
begin

section \<open>Strings as a place for text\<close>

text \<open>The memory that a string may use.\<close>

definition vls_limit :: nat where "vls_limit = 2 ^ 63"

interpretation vls_sink: text_sink vls_ok content "\<lambda>v. unat (vls_max v)" "\<lambda>s. bu_vls_strcat (Some s)" 256 vls_limit
proof
  fix v :: bu_vls and s :: "byte list"
  assume v: "vls_ok v" and "unat (vls_max v) + length s + 256 < vls_limit"
  then have r: "unat (vls_max v) + length s + 256 < 2 ^ 63" by (simp add: vls_limit_def)
  show "\<exists>v'. bu_vls_strcat (Some s) v = Some v' \<and> vls_ok v' \<and> content v' = content v @ s
      \<and> unat (vls_max v') \<le> unat (vls_max v) + length s + 256"
  proof (cases "s = []")
    case True
    then show ?thesis using v by (simp add: bu_vls_strcat_def)
  next
    case False
    then show ?thesis using strcat_room[OF vls_ok_wf[OF v] r] by fastforce
  qed
qed

lemma sink_putc: "vls_sink.appends (bu_vls_putc c) [c] 257"
  unfolding vls_sink.appends_def unfolding vls_limit_def using putc_room vls_ok_wf by fastforce

lemma sink_strncat: "vls_sink.appends (bu_vls_strncat (Some s) n) (take (unat n) s) (length (take (unat n) s) + 256)"
  unfolding vls_sink.appends_def unfolding vls_limit_def
proof (intro allI impI)
  fix v assume v: "vls_ok v \<and> unat (vls_max v) + (length (take (unat n) s) + 256) < 2 ^ 63"
  show "\<exists>v'. bu_vls_strncat (Some s) n v = Some v' \<and> vls_ok v' \<and> content v' = content v @ take (unat n) s
      \<and> unat (vls_max v') \<le> unat (vls_max v) + (length (take (unat n) s) + 256)"
  proof (cases "take (unat n) s = []")
    case True
    then show ?thesis using v by (simp add: strncat_nothing del: take_eq_Nil)
  next
    case False
    then show ?thesis using strncat_room[of v "take (unat n) s" n s] v vls_ok_wf by fastforce
  qed
qed

lemma sink_vlscat: "vls_ok w \<Longrightarrow> vls_sink.appends (bu_vls_vlscat w) (content w) (length (content w) + 256)"
  using vls_sink.appends_put[of "content w"] unfolding vls_sink.appends_def by (simp add: vlscat_strcat)


lemma sink_spaces: "vls_sink.appends (put_spaces n) (replicate n 32) (n * 257)"
proof (induction n)
  case 0
  have "put_spaces 0 = Some" by (simp add: fun_eq_iff)
  then show ?case by (simp add: vls_sink.appends_none)
next
  case (Suc n)
  have "put_spaces (Suc n) = (\<lambda>v. Option.bind (bu_vls_putc 32 v) (put_spaces n))" by (simp add: fun_eq_iff)
  then show ?case using vls_sink.appends_seq[OF sink_putc Suc.IH] by simp
qed

lemma sink_start:
  assumes "vls_sink.appends f out n" "n < vls_limit"
  obtains v where "f bu_vls_init = Some v" "vls_ok v" "content v = out" "unat (vls_max v) \<le> n"
proof -
  have "vls_ok bu_vls_init" by (simp add: vls_ok_def)
  moreover have "unat (vls_max bu_vls_init) + n < vls_limit" using assms(2) by simp
  ultimately obtain v where "f bu_vls_init = Some v" "vls_ok v" "content v = content bu_vls_init @ out"
    "unat (vls_max v) \<le> unat (vls_max bu_vls_init) + n" by (rule vls_sink.appendsE[OF assms(1)])
  then show ?thesis using that by simp
qed

lemma padded_text:
  assumes "vls_ok w" "length (content w) + n * 257 + 512 < vls_limit"
  obtains p where "padded left n w = Some p" "vls_ok p"
    "content p = (if left then content w @ replicate n 32 else replicate n 32 @ content w)"
    "unat (vls_max p) \<le> length (content w) + n * 257 + 256"
proof (cases left)
  case True
  have "vls_sink.appends (\<lambda>v. Option.bind (bu_vls_vlscat w v) (put_spaces n)) (content w @ replicate n 32) (length (content w) + 256 + n * 257)"
    by (rule vls_sink.appends_seq[OF sink_vlscat[OF assms(1)] sink_spaces])
  from sink_start[OF this] obtain v where "Option.bind (bu_vls_vlscat w bu_vls_init) (put_spaces n) = Some v" "vls_ok v"
    "content v = content w @ replicate n 32" "unat (vls_max v) \<le> length (content w) + 256 + n * 257" using assms(2) by auto
  then show ?thesis using that True by (simp add: padded_def bind_assoc)
next
  case False
  have "vls_sink.appends (\<lambda>v. Option.bind (put_spaces n v) (bu_vls_vlscat w)) (replicate n 32 @ content w) (n * 257 + (length (content w) + 256))"
    by (rule vls_sink.appends_seq[OF sink_spaces sink_vlscat[OF assms(1)]])
  from sink_start[OF this] obtain v where "Option.bind (put_spaces n bu_vls_init) (bu_vls_vlscat w) = Some v" "vls_ok v"
    "content v = replicate n 32 @ content w" "unat (vls_max v) \<le> n * 257 + (length (content w) + 256)" using assms(2) by auto
  then show ?thesis using that False by (simp add: padded_def bind_assoc)
qed

section \<open>Strings\<close>

text \<open>A string cut to its precision and padded to its width.\<close>

definition fit_text :: "bool \<Rightarrow> nat \<Rightarrow> nat option \<Rightarrow> byte list \<Rightarrow> byte list" where
  "fit_text left width prec s =
     (let s = (case prec of None \<Rightarrow> s | Some p \<Rightarrow> take p s); pad = replicate (width - length s) 32 in
      if left then s @ pad else pad @ s)"

lemma length_fit_text: "length (fit_text left width prec s) = max width (length (case prec of None \<Rightarrow> s | Some p \<Rightarrow> take p s))"
  by (simp add: fit_text_def Let_def max_def)

text \<open>The fields as \<open>str_fields\<close> leaves them.\<close>

definition fields_of :: "bool \<Rightarrow> int option \<Rightarrow> int option \<Rightarrow> vflags \<Rightarrow> bool" where
  "fields_of left width prec f \<longleftrightarrow> left_justify f = left
     \<and> (if flag_set f FIELDLEN then Some (fieldlen f) else None) = width
     \<and> (if flag_set f PRECISION then Some (precision f) else None) = prec"

lemma print_str_text:
  assumes "fields_of left (map_option int width) (map_option int prec) (str_fields fbuf (f\<lparr>left_justify := False, have_dot := False\<rparr>))"
    and "length s < 2 ^ 31" "\<And>w. width = Some w \<Longrightarrow> w < 2 ^ 31"
  shows "vls_sink.appends (print_str f fbuf (Some s)) (fit_text left (case width of None \<Rightarrow> 0 | Some w \<Rightarrow> w) prec s)
    (length (fit_text left (case width of None \<Rightarrow> 0 | Some w \<Rightarrow> w) prec s) + 256)"
proof -
  let ?w = "case width of None \<Rightarrow> 0 | Some w \<Rightarrow> w" and ?t = "case prec of None \<Rightarrow> s | Some p \<Rightarrow> take p s"
  let ?f = "str_fields fbuf (f\<lparr>left_justify := False, have_dot := False\<rparr>)"
  have w31: "?w < 2 ^ 31" using assms(3) by (simp split: option.splits)
  have t31: "length ?t < 2 ^ 31" using assms(2) by (auto split: option.splits)
  define cut where "cut = (case prec of None \<Rightarrow> False | Some p \<Rightarrow> p < length s)"
  have F: "flag_set ?f FIELDLEN \<longleftrightarrow> width \<noteq> None" "width = Some w \<Longrightarrow> fieldlen ?f = int w"
    "flag_set ?f PRECISION \<longleftrightarrow> prec \<noteq> None" "prec = Some p \<Longrightarrow> precision ?f = int p" "left_justify ?f = left" for w p
    using assms(1) by (cases width; cases prec; auto simp: fields_of_def split: if_splits)+
  obtain t0 where t0: "bu_vls_strcpy (Some s) bu_vls_init = Some t0" "vls_ok t0" "vls_view t0 = ([], s)"
    "unat (vls_max t0) \<le> length s + 256"
    using strcpy_room[of bu_vls_init s] assms(2) by (auto simp: vls_wf_def bu_vls_init_def)
  have "\<exists>t1. (if cut then bu_vls_trunc t0 (word_of_int (precision ?f)) else Some t0) = Some t1 \<and> vls_ok t1 \<and> content t1 = ?t
    \<and> unat (vls_max t1) \<le> length s + 256"
  proof (cases cut)
    case True
    then obtain p where p: "prec = Some p" "p < length s" by (auto simp: cut_def split: option.splits)
    have "int p < 2 ^ 31" using p assms(2) by simp
    then show ?thesis using trunc_refines[OF vls_ok_wf[OF t0(2)], of "int p"] t0 assms(2) p F(4)[OF p(1)] True
      by (auto simp: trunc_spec_def)
  next
    case False
    then show ?thesis using t0 by (auto simp: cut_def split: option.splits)
  qed
  then obtain t1 where t1: "(if cut then bu_vls_trunc t0 (word_of_int (precision ?f)) else Some t0) = Some t1" "vls_ok t1"
    "content t1 = ?t" "unat (vls_max t1) \<le> length s + 256" by blast
  have "\<exists>t2. print_str f fbuf (Some s) = (\<lambda>v. bu_vls_vlscat t2 v) \<and> vls_ok t2 \<and> content t2 = fit_text left ?w prec s"
  proof (cases "length ?t < ?w")
    case True
    let ?n = "?w - length ?t"
    have lim: "length (content t1) + ?n * 257 + 512 < vls_limit" using t1(3) t31 w31 by (simp add: vls_limit_def)
    obtain p where p: "padded left ?n t1 = Some p" "vls_ok p"
      "content p = (if left then content t1 @ replicate ?n 32 else replicate ?n 32 @ content t1)"
      "unat (vls_max p) \<le> length (content t1) + ?n * 257 + 256" by (rule padded_text[OF t1(2) lim])
    obtain t2 where t2: "bu_vls_trunc t1 0 = Some t2" "vls_ok t2" "content t2 = []" "vls_max t2 = vls_max t1"
      using trunc_refines[OF vls_ok_wf[OF t1(2)], of 0] t1(2,3) t31 by (auto simp: trunc_spec_def split: if_splits)
    have "length (content p) = ?w" using p(3) t1(3) True by (cases left) auto
    then have "unat (vls_max t2) + (length (content p) + 256) < vls_limit"
      using t2(4) t1(4) w31 assms(2) by (simp add: vls_limit_def)
    then obtain t3 where t3: "bu_vls_vlscat p t2 = Some t3" "vls_ok t3" "content t3 = content p"
      using t2(3) by (auto elim!: vls_sink.appendsE[OF sink_vlscat[OF p(2)] t2(2)])
    have "print_str f fbuf (Some s) v = bu_vls_vlscat t3 v" for v
    proof (cases prec)
      case None
      then obtain w where w: "width = Some w" using True by (cases width) auto
      have "nat (int w - int (length s)) = ?n" "length s < w" using True None w by auto
      then show ?thesis using t0(1) t1(1) p(1) t2(1) t3(1) None w F
        by (simp add: print_str_def Let_def cut_def)
    next
      case (Some q)
      then obtain w where w: "width = Some w" using True by (cases width) auto
      then show ?thesis using t0(1) t1(1) p(1) t2(1) t3(1) Some F True
        by (auto simp add: print_str_def Let_def cut_def nat_diff_distrib)
    qed
    moreover have "content t3 = fit_text left ?w prec s" using t3(3) p(3) t1(3) by (simp add: fit_text_def Let_def)
    ultimately show ?thesis using t3(2) by blast
  next
    case False
    have "print_str f fbuf (Some s) v = bu_vls_vlscat t1 v" for v
      using t0(1) t1(1) F False by (cases prec; cases width; auto simp add: print_str_def Let_def cut_def)
    moreover have "content t1 = fit_text left ?w prec s" using t1(3) False by (simp add: fit_text_def Let_def)
    ultimately show ?thesis using t1(2) by blast
  qed
  then obtain t2 where "print_str f fbuf (Some s) = bu_vls_vlscat t2" "vls_ok t2" "content t2 = fit_text left ?w prec s" by blast
  then show ?thesis using sink_vlscat by metis
qed


section \<open>The scan\<close>

definition plain_char :: "char \<Rightarrow> bool" where
  "plain_char c \<longleftrightarrow> isdigit c \<or> c = CHR ''-'' \<or> c = CHR ''.''"

lemma not_digits: "\<not> isdigit (CHR ''-'')" "\<not> isdigit (CHR ''.'')" "\<not> isdigit (CHR ''%'')" "\<not> isdigit (CHR ''s'')"
  by (simp_all add: isdigit_def code_def)

lemma digit_marks: "isdigit c \<Longrightarrow> c \<notin> set '' #+'' \<and> c \<noteq> CHR 0x27 \<and> c \<noteq> CHR ''.'' \<and> c \<noteq> CHR ''-'' \<and> c \<noteq> CHR ''%''"
  by (auto simp: isdigit_def code_def)

lemma scan_plain:
  assumes "\<forall>c\<in>set cs. plain_char c"
  shows "\<exists>f'. vf_flags f' = vf_flags f \<and> fieldlen f' = fieldlen f
    \<and> scan_spec (cs @ s) f ap = map_option (\<lambda>(g, ds, e, r, ap). (g, cs @ ds, e, r, ap)) (scan_spec s f' ap)"
  using assms
proof (induction cs arbitrary: f)
  case Nil
  show ?case by (intro exI[of _ f]) (auto simp: option.map_ident)
next
  case (Cons c cs)
  define f1 where "f1 = (if isdigit c then f else if c = CHR ''.'' then f\<lparr>have_dot := True\<rparr>
    else if have_dot f then f\<lparr>precision := 0, have_digit := False\<rparr> else if have_digit f then f else f\<lparr>left_justify := True\<rparr>)"
  have "vf_flags f1 = vf_flags f" "fieldlen f1 = fieldlen f" by (auto simp: f1_def)
  moreover have "scan_spec ((c # cs) @ s) f ap = do { (g, ds, e, r, ap) \<leftarrow> scan_spec (cs @ s) f1 ap; Some (g, c # ds, e, r, ap) }"
    using Cons.prems digit_marks[of c] not_digits by (auto simp: plain_char_def Let_def f1_def)
  moreover from Cons.prems have cs: "\<forall>c\<in>set cs. plain_char c" by simp
  from Cons.IH[OF cs, of f1] obtain f' where "vf_flags f' = vf_flags f1" "fieldlen f' = fieldlen f1"
    "scan_spec (cs @ s) f1 ap = map_option (\<lambda>(g, ds, e, r, ap). (g, cs @ ds, e, r, ap)) (scan_spec s f' ap)"
    by blast
  ultimately show ?case by (intro exI[of _ f']) (cases "scan_spec s f' ap"; auto)
qed

section \<open>The numbers in a specification\<close>

lemma strtol_print:
  assumes "no_digit r" "n < 2 ^ 31" shows "fst (strtol10 (print_nat n @ r)) = int n" "sint (atoi (print_nat n @ r)) = int n"
proof -
  have "scan_int (print_nat n @ r) = Some (int n, r)" using scan_int_print[OF assms(1), of "int n"] by (simp add: print_long_def)
  then show "fst (strtol10 (print_nat n @ r)) = int n"
    using assms(2) by (simp add: strtol10_def LONG_MAX_def LONG_MIN_def)
  then show "sint (atoi (print_nat n @ r)) = int n"
    using assms(2) by (simp add: atoi_def sint_uint signed_take_bit_int_eq_self unsigned_of_nat take_bit_nat_eq_self)
qed

lemma dropWhile_digits: "\<forall>c\<in>set ds. isdigit c \<Longrightarrow> no_digit r \<Longrightarrow> dropWhile isdigit (ds @ r) = r"
  by (cases r) (auto simp: no_digit_def)

lemma str_fields_number:
  assumes "no_digit r" "n < 2 ^ 31"
  shows "str_fields (print_nat n @ r) f = str_fields r
    (if \<not> have_dot f then f\<lparr>fieldlen := int n, vf_flags := vf_flags f OR FIELDLEN\<rparr>
     else f\<lparr>precision := int n, vf_flags := vf_flags f OR PRECISION\<rparr>)"
proof -
  obtain c ds where p: "print_nat n = c # ds" using print_nat_ne[of n] by (cases "print_nat n") auto
  then have d: "isdigit c" "\<forall>c\<in>set ds. isdigit c" using print_nat_digits[of n] by auto
  have "(if c = CHR ''0'' then fst (strtol10 (c # ds @ r)) else sint (atoi (c # ds @ r))) = int n"
    using strtol_print[OF assms] by (auto simp: p)
  then show ?thesis unfolding p append_Cons
    by (subst str_fields.simps) (simp only: d(1) if_True Let_def dropWhile_digits[OF d(2) assms(1)])
qed

definition width_text :: "nat \<Rightarrow> string" where
  "width_text w = (if w = 0 then [] else print_nat w)"

definition prec_text :: "nat option \<Rightarrow> string" where
  "prec_text p = (case p of None \<Rightarrow> [] | Some p \<Rightarrow> CHR ''.'' # print_nat p)"

lemma text_fields:
  assumes "w < 2 ^ 31" "\<And>p. prec = Some p \<Longrightarrow> p < 2 ^ 31" "vf_flags f = 0"
  shows "fields_of left (if w = 0 then None else Some (int w)) (map_option int prec)
    (str_fields (CHR ''%'' # ((if left then ''-'' else []) @ width_text w @ prec_text prec) @ ''s'')
       (f\<lparr>left_justify := False, have_dot := False\<rparr>))"
proof -
  let ?g = "if left then f\<lparr>have_dot := False, left_justify := True\<rparr> else f\<lparr>left_justify := False, have_dot := False\<rparr>"
  let ?h = "if w = 0 then ?g else ?g\<lparr>fieldlen := int w, vf_flags := FIELDLEN\<rparr>"
  have e: "no_digit ''s''" "no_digit (CHR ''.'' # r)" for r using not_digits by (simp_all add: no_digit_def)
  have nd: "no_digit (prec_text prec @ ''s'')" using e by (cases prec) (auto simp: prec_text_def)
  have "str_fields (CHR ''%'' # ((if left then ''-'' else []) @ width_text w @ prec_text prec) @ ''s'')
       (f\<lparr>left_justify := False, have_dot := False\<rparr>) = str_fields (width_text w @ prec_text prec @ ''s'') ?g"
    using not_digits by simp
  also have "\<dots> = str_fields (prec_text prec @ ''s'') ?h"
    using str_fields_number[OF nd assms(1), of ?g] assms(3) by (auto simp: width_text_def)
  finally show ?thesis
    using str_fields_number[OF e(1), of _ "?h\<lparr>have_dot := True\<rparr>"] assms(2,3) not_digits
    by (cases prec) (auto simp: prec_text_def fields_of_def flag_set_def vflag_defs)
qed


section \<open>Numbers as \<open>snprintf\<close> prints them\<close>

lemma decimal_digit: "k < 10 \<Longrightarrow> ''0123456789'' ! k = char_of (48 + k)"
proof -
  have "\<forall>k\<in>set [0..<10]. ''0123456789'' ! k = char_of (48 + k)" by code_simp
  then show "k < 10 \<Longrightarrow> ''0123456789'' ! k = char_of (48 + k)" by simp
qed

lemma decimal_digits: "digits_in 10 ''0123456789'' n = print_nat n"
proof (induction n rule: print_nat.induct)
  case (1 n)
  then show ?case by (subst digits_in.simps, subst print_nat.simps) (simp add: decimal_digit)
qed

lemma print_nat_length: "n < 10 ^ Suc k \<Longrightarrow> length (print_nat n) \<le> Suc k"
proof (induction k arbitrary: n)
  case 0
  then show ?case by (subst print_nat.simps) simp
next
  case (Suc k)
  then have "n div 10 < 10 ^ Suc k" by simp
  then show ?case using Suc.IH[of "n div 10"] by (subst print_nat.simps) simp
qed

text \<open>Where the padding goes.\<close>

datatype padding = Spaces_before | Spaces_behind | Zeros

definition padding_text :: "padding \<Rightarrow> string" where
  "padding_text p = (case p of Spaces_before \<Rightarrow> [] | Spaces_behind \<Rightarrow> ''-'' | Zeros \<Rightarrow> ''0'')"

definition fit_number :: "padding \<Rightarrow> nat \<Rightarrow> int \<Rightarrow> string" where
  "fit_number p w i =
     (let t = print_long i; n = w - length t in
      case p of
        Spaces_before \<Rightarrow> replicate n (CHR '' '') @ t
      | Spaces_behind \<Rightarrow> t @ replicate n (CHR '' '')
      | Zeros \<Rightarrow> (if i < 0 then ''-'' else []) @ replicate n (CHR ''0'') @ print_nat (nat \<bar>i\<bar>))"

datatype num_arg = Num_int "32 word" | Num_uint "32 word" | Num_long "64 word" | Num_ulong "64 word" | Num_size "64 word"

definition num_conv :: "num_arg \<Rightarrow> string \<times> char" where
  "num_conv a = (case a of Num_int _ \<Rightarrow> ([], CHR ''d'') | Num_uint _ \<Rightarrow> ([], CHR ''u'') | Num_long _ \<Rightarrow> (''l'', CHR ''d'')
     | Num_ulong _ \<Rightarrow> (''l'', CHR ''u'') | Num_size _ \<Rightarrow> (''z'', CHR ''u''))"

definition num_value :: "num_arg \<Rightarrow> int" where
  "num_value a = (case a of Num_int i \<Rightarrow> sint i | Num_uint i \<Rightarrow> uint i | Num_long i \<Rightarrow> sint i | Num_ulong i \<Rightarrow> uint i | Num_size i \<Rightarrow> uint i)"

definition num_va :: "num_arg \<Rightarrow> va_arg" where
  "num_va a = (case a of Num_int i \<Rightarrow> Arg_int i | Num_uint i \<Rightarrow> Arg_int i | Num_long i \<Rightarrow> Arg_long i | Num_ulong i \<Rightarrow> Arg_long i | Num_size i \<Rightarrow> Arg_long i)"

definition num_text :: "padding \<Rightarrow> nat \<Rightarrow> num_arg \<Rightarrow> string" where
  "num_text p w a = padding_text p @ width_text w @ fst (num_conv a) @ [snd (num_conv a)]"

lemma digits_val_scan: "no_digit r \<Longrightarrow> digits_val 0 (print_nat n @ r) = (n, r)"
  using scan_digits_print[of r n] by (auto simp: scan_digits_def split: list.splits if_splits)

lemma parse_number:
  "parse_spec (num_text p w a) = Some \<lparr>is_flags = padding_text p, is_width = w, is_precision = None,
     is_length = fst (num_conv a), is_conv = snd (num_conv a)\<rparr>"
proof -
  let ?flag = "\<lambda>c. c \<in> set ''-+ #0'' \<or> c = CHR 0x27"
  let ?tail = "fst (num_conv a) @ [snd (num_conv a)]"
  have tail: "no_digit ?tail" "\<forall>c\<in>set ?tail. \<not> ?flag c \<and> c \<noteq> CHR ''.''"
    "takeWhile (\<lambda>c. c \<in> set ''hlLjzt'') ?tail = fst (num_conv a)" "dropWhile (\<lambda>c. c \<in> set ''hlLjzt'') ?tail = [snd (num_conv a)]"
    by (cases a; simp add: num_conv_def no_digit_def isdigit_def code_def)+
  have pad: "\<forall>c\<in>set (padding_text p). ?flag c" by (cases p) (simp_all add: padding_text_def)
  have w: "width_text w @ ?tail = [] \<or> \<not> ?flag (hd (width_text w @ ?tail))"
  proof (cases "w = 0")
    case True
    then show ?thesis using tail(2) by (cases ?tail) (auto simp: width_text_def)
  next
    case False
    obtain c ds where p: "print_nat w = c # ds" using print_nat_ne[of w] by (cases "print_nat w") auto
    have "isdigit c" "c \<noteq> CHR ''0''" using print_nat_digits[of w] print_nat_first[of w] False p by auto
    then show ?thesis using False p digit_marks[of c] by (auto simp: width_text_def)
  qed
  have f: "takeWhile ?flag (num_text p w a) = padding_text p" "dropWhile ?flag (num_text p w a) = width_text w @ ?tail"
    unfolding num_text_def using pad w by (cases "width_text w @ ?tail"; simp)+
  have d: "digits_val 0 (width_text w @ ?tail) = (w, ?tail)"
    using digits_val_scan[OF tail(1), of w] tail(1) by (cases ?tail) (auto simp: width_text_def no_digit_def)
  obtain c s where ct: "?tail = c # s" by (cases ?tail) auto
  have "c \<noteq> CHR ''.''" using tail(2) ct by simp
  then show ?thesis
    unfolding parse_spec_def Let_def f d using tail(3,4) by (simp add: ct)
qed


lemma fit_number_length: "length (fit_number p w i) = max w (length (print_long i))"
  by (cases p) (auto simp: fit_number_def print_long_def Let_def)

lemma snprintf_number:
  assumes "w < 8192"
  shows "snprintf (CHR ''%'' # num_text p w a) (num_va a) = Some (fit_number p w (num_value a))"
proof -
  let ?i = "num_value a"
  have i: "\<bar>?i\<bar> < 2 ^ 64"
    using sint_range_size[of "case a of Num_int i \<Rightarrow> i | _ \<Rightarrow> 0"] sint_range_size[of "case a of Num_long i \<Rightarrow> i | _ \<Rightarrow> 0"]
      uint_lt2p[of "case a of Num_uint i \<Rightarrow> i | _ \<Rightarrow> 0"] uint_lt2p[of "case a of Num_ulong i \<Rightarrow> i | Num_size i \<Rightarrow> i | _ \<Rightarrow> 0"]
    by (cases a) (auto simp: num_value_def word_size)
  have "nat \<bar>?i\<bar> < 10 ^ Suc 19" using i by simp
  then have "length (print_nat (nat \<bar>?i\<bar>)) \<le> 20" using print_nat_length[of "nat \<bar>?i\<bar>" 19] by simp
  then have "length (print_long ?i) \<le> 21" by (auto simp: print_long_def)
  then have len: "length (fit_number p w ?i) \<le> BUFSIZ - 1" using assms by (simp add: fit_number_length BUFSIZ_def)
  have "CHR 0x00 \<notin> set (print_nat n)" for n using print_nat_digits[of n] by (auto simp: isdigit_def code_def)
  then have "\<forall>c\<in>set (fit_number p w ?i). c \<noteq> CHR 0x00"
    by (cases p) (auto simp: fit_number_def print_long_def Let_def)
  then have cut: "takeWhile (\<lambda>c. c \<noteq> CHR 0x00) (take (BUFSIZ - 1) (fit_number p w ?i)) = fit_number p w ?i"
    using len by (simp add: takeWhile_eq_all_conv)
  let ?sp = "\<lparr>is_flags = padding_text p, is_width = w, is_precision = None, is_length = fst (num_conv a), is_conv = snd (num_conv a)\<rparr>"
  have pad: "pad_number ?sp (if j < 0 then ''-'' else []) (print_nat (nat \<bar>j\<bar>)) = fit_number p w j" for j
    by (cases p) (auto simp: pad_number_def fit_number_def padding_text_def print_long_def Let_def)
  have "CHR ''+'' \<notin> set (padding_text p)" "CHR '' '' \<notin> set (padding_text p)" by (cases p; simp add: padding_text_def)+
  then have s: "print_signed ?sp j = fit_number p w j" for j
    using pad[of j] by (cases "j < 0") (simp_all add: print_signed_def int_digits_def decimal_digits)
  have u: "print_unsigned ?sp (nat j) = fit_number p w j" if "snd (num_conv a) = CHR ''u''" "0 \<le> j" for j
    using that by (cases p) (auto simp: print_unsigned_def pad_number_def fit_number_def padding_text_def print_long_def
        int_digits_def decimal_digits Let_def)
  have "0 \<le> ?i" if "snd (num_conv a) = CHR ''u''" using that by (cases a) (simp_all add: num_conv_def num_value_def)
  then have u': "print_unsigned ?sp (nat ?i) = fit_number p w ?i" if "snd (num_conv a) = CHR ''u''"
    using u that by blast
  show ?thesis
    using cut s u' by (cases a) (simp_all add: snprintf_def parse_number num_conv_def num_va_def num_value_def arg_value_def)
qed

section \<open>Directives\<close>

datatype directive =
  Percent | Character "32 word" | Text bool nat "nat option" "byte list option" | Vls bu_vls | Number padding nat num_arg

definition directive_ok :: "directive \<Rightarrow> bool" where
  "directive_ok d =
     (case d of
        Text left w p s \<Rightarrow> w < 2 ^ 31 \<and> (case p of None \<Rightarrow> True | Some p \<Rightarrow> p < 2 ^ 31)
          \<and> (case s of None \<Rightarrow> True | Some s \<Rightarrow> length s < 2 ^ 31)
      | Vls v \<Rightarrow> vls_ok v
      | Number p w a \<Rightarrow> w < 8192
      | _ \<Rightarrow> True)"

text \<open>What stands behind the percent sign, the argument, and the text printed.\<close>

definition directive_text :: "directive \<Rightarrow> string" where
  "directive_text d =
     (case d of
        Percent \<Rightarrow> ''%''
      | Character i \<Rightarrow> ''c''
      | Text left w p s \<Rightarrow> (if left then ''-'' else []) @ width_text w @ prec_text p @ ''s''
      | Vls v \<Rightarrow> ''V''
      | Number p w a \<Rightarrow> num_text p w a)"

definition directive_args :: "directive \<Rightarrow> va_arg list" where
  "directive_args d =
     (case d of Percent \<Rightarrow> [] | Character i \<Rightarrow> [Arg_int i] | Text left w p s \<Rightarrow> [Arg_str s] | Vls v \<Rightarrow> [Arg_vls (Some v)]
      | Number p w a \<Rightarrow> [num_va a])"

definition directive_out :: "directive \<Rightarrow> byte list" where
  "directive_out d =
     (case d of
        Percent \<Rightarrow> bytes_of ''%''
      | Character i \<Rightarrow> if (ucast i :: byte) = 0 then [] else [ucast i]
      | Text left w p (Some s) \<Rightarrow> fit_text left w p s
      | Text left w p None \<Rightarrow> (if w = 0 then bytes_of ''(null)'' else take w (bytes_of ''(null)''))
      | Vls v \<Rightarrow> content v
      | Number p w a \<Rightarrow> bytes_of (fit_number p w (num_value a)))"


declare scan_spec.simps(2) [simp del]

lemma reset: "vf_flags reset_vflags = 0" "fieldlen reset_vflags = - 1"
  by (simp_all add: reset_vflags_def)

definition mark_char :: "char \<Rightarrow> bool" where
  "mark_char c \<longleftrightarrow> c \<in> set '' #+'' \<or> c = CHR 0x27 \<or> c = CHR ''.'' \<or> isdigit c \<or> c = CHR ''-'' \<or> c = CHR ''*''"

lemma conversions: "\<forall>c\<in>set ''dusVc%''. \<not> mark_char c \<and> format_part_status c \<noteq> VP_VALID OR VP_LENGTH_MOD"
  by code_simp

lemma lengths: "\<forall>c\<in>set ''hlLjzt''. \<not> mark_char c \<and> format_part_status c = VP_VALID OR VP_LENGTH_MOD"
  by code_simp

lemma scan_end:
  assumes "c \<in> set ''dusVc%''" shows "scan_spec (c # s) f ap = Some (f, [], Some c, s, ap)"
proof -
  have "\<not> mark_char c" "format_part_status c \<noteq> VP_VALID OR VP_LENGTH_MOD" using conversions assms by blast+
  then show ?thesis by (simp add: mark_char_def scan_spec.simps(2))
qed

lemma scan_length:
  assumes "c \<in> set ''hlLjzt''"
  shows "scan_spec (c # s) f ap = map_option (\<lambda>(g, cs, e, r, ap). (g, c # cs, e, r, ap))
     (scan_spec s (snd (handle_format_part VP_LENGTH_MOD f c)) ap)"
proof -
  have "\<not> mark_char c" "format_part_status c = VP_VALID OR VP_LENGTH_MOD" using lengths assms by blast+
  then have "scan_spec (c # s) f ap = do { (g, cs, e, r, ap) \<leftarrow> scan_spec s (snd (handle_format_part VP_LENGTH_MOD f c)) ap; Some (g, c # cs, e, r, ap) }"
    by (simp add: mark_char_def scan_spec.simps(2))
  then show ?thesis by (cases "scan_spec s (snd (handle_format_part VP_LENGTH_MOD f c)) ap") auto
qed

lemma bind_pair: "do { v \<leftarrow> x; Some (v, a, b) } = map_option (\<lambda>v. (v, a, b)) x"
  by (cases x) auto

lemma width_plain: "\<forall>c\<in>set (width_text w). plain_char c" "\<forall>c\<in>set (prec_text p). plain_char c"
  "\<forall>c\<in>set (padding_text q). plain_char c"
  using print_nat_digits not_digits
  by (auto simp: width_text_def prec_text_def padding_text_def plain_char_def isdigit_def code_def split: option.splits padding.splits)

lemma print_number:
  assumes "w < 8192"
  shows "print_spec impl (num_text p w a @ rest) (num_va a # ap) v =
    map_option (\<lambda>v. (v, rest, ap)) (bu_vls_strcat (Some (bytes_of (fit_number p w (num_value a)))) v)"
proof -
  let ?cs = "padding_text p @ width_text w"
  have pl: "\<forall>c\<in>set ?cs. plain_char c" using width_plain by auto
  obtain f where f: "vf_flags f = 0" "fieldlen f = - 1"
    "scan_spec (?cs @ fst (num_conv a) @ [snd (num_conv a)] @ rest) reset_vflags (num_va a # ap) =
      map_option (\<lambda>(g, ds, e, r, ap). (g, ?cs @ ds, e, r, ap)) (scan_spec (fst (num_conv a) @ [snd (num_conv a)] @ rest) f (num_va a # ap))"
    using scan_plain[OF pl, of reset_vflags "fst (num_conv a) @ [snd (num_conv a)] @ rest" "num_va a # ap"] unfolding reset by blast
  have "\<exists>g. scan_spec (fst (num_conv a) @ [snd (num_conv a)] @ rest) f (num_va a # ap)
      = Some (g, fst (num_conv a), Some (snd (num_conv a)), rest, num_va a # ap)
    \<and> \<not> flag_set (negative_width g) FIELDLEN
    \<and> take_integer (negative_width g) (snd (num_conv a) \<in> set ''di'') (num_va a # ap) = Some (num_va a, ap)"
    using f(1,2) by (cases a) (auto simp: num_conv_def num_va_def scan_end scan_length handle_format_part_def negative_width_def take_integer_def
        take_int_def take_long_def flag_set_def vflag_defs Let_def)
  then obtain g where g: "scan_spec (num_text p w a @ rest) reset_vflags (num_va a # ap)
      = Some (g, ?cs @ fst (num_conv a), Some (snd (num_conv a)), rest, num_va a # ap)"
    "\<not> flag_set (negative_width g) FIELDLEN"
    "take_integer (negative_width g) (snd (num_conv a) \<in> set ''di'') (num_va a # ap) = Some (num_va a, ap)"
    using f(3) by (auto simp: num_text_def)
  have "snd (num_conv a) \<in> {CHR ''d'', CHR ''u''}" by (cases a) (simp_all add: num_conv_def)
  moreover have "snprintf (CHR ''%'' # (?cs @ fst (num_conv a)) @ [snd (num_conv a)]) (num_va a) = Some (fit_number p w (num_value a))"
    using snprintf_number[OF assms] by (simp add: num_text_def)
  ultimately show ?thesis
    using g by (auto simp: print_spec_def Let_def print_arg_def bind_pair)
qed


lemma print_text_spec:
  fixes left w p
  defines "cs \<equiv> (if left then ''-'' else []) @ width_text w @ prec_text p"
  obtains f where "vf_flags f = 0"
    "\<And>v. print_spec impl (cs @ ''s'' @ rest) (Arg_str s # ap) v = map_option (\<lambda>v. (v, rest, ap)) (print_str f (CHR ''%'' # cs @ ''s'') s v)"
proof -
  have pl: "\<forall>c\<in>set cs. plain_char c" using width_plain not_digits by (auto simp: cs_def plain_char_def)
  obtain f where f: "vf_flags f = 0" "fieldlen f = - 1"
    "scan_spec (cs @ ''s'' @ rest) reset_vflags (Arg_str s # ap) =
      map_option (\<lambda>(g, ds, e, r, ap). (g, cs @ ds, e, r, ap)) (scan_spec (''s'' @ rest) f (Arg_str s # ap))"
    using scan_plain[OF pl, of reset_vflags "''s'' @ rest" "Arg_str s # ap"] unfolding reset by blast
  then have "scan_spec (cs @ ''s'' @ rest) reset_vflags (Arg_str s # ap) = Some (f, cs, Some (CHR ''s''), rest, Arg_str s # ap)"
    by (simp add: scan_end)
  then have "print_spec impl (cs @ ''s'' @ rest) (Arg_str s # ap) v =
      map_option (\<lambda>v. (v, rest, ap)) (print_str (negative_width f) (CHR ''%'' # cs @ ''s'') s v)" for v
    by (simp add: print_spec_def Let_def bind_pair)
  moreover have "vf_flags (negative_width f) = 0" using f(1) by (simp add: negative_width_def)
  ultimately show ?thesis using that by blast
qed

lemma print_str_null:
  assumes "fields_of left (if w = 0 then None else Some (int w)) prec (str_fields fbuf (f\<lparr>left_justify := False, have_dot := False\<rparr>))"
    and "w < 2 ^ 31"
  shows "vls_sink.appends (print_str f fbuf None) (if w = 0 then bytes_of ''(null)'' else take w (bytes_of ''(null)'')) (6 + 256)"
proof (cases "w = 0")
  case True
  then have "print_str f fbuf None = bu_vls_strcat (Some (bytes_of ''(null)''))"
    using assms(1) by (auto simp: print_str_def fields_of_def Let_def split: if_splits)
  then show ?thesis using True vls_sink.appends_more[OF vls_sink.appends_put[of "bytes_of ''(null)''"]] by simp
next
  case False
  have w: "unat (word_of_nat w :: size_t) = w" using assms(2) by (intro small_word) simp
  have "print_str f fbuf None = bu_vls_strncat (Some (bytes_of ''(null)'')) (of_nat w)"
    using assms(1) False by (auto simp: print_str_def fields_of_def Let_def split: if_splits)
  then show ?thesis
    using False vls_sink.appends_more[OF sink_strncat[of "bytes_of ''(null)''" "of_nat w", unfolded w], of "6 + 256"] by simp
qed

lemma byte_of_char: "byte_of (char_of_byte b) = b"
proof -
  have "unat b < 256" using unsigned_less[of b] by simp
  then show ?thesis by (simp add: word_unat_eq_iff unat_byte_of char_of_byte_def)
qed

lemma zero_char: "char_of_byte b = CHR 0x00 \<longleftrightarrow> b = 0"
  by (metis byte_of_char byte_of_eq_0)

lemma directive_appends:
  assumes "directive_ok d"
  obtains g where "\<And>v. print_spec impl (directive_text d @ rest) (directive_args d @ ap) v = map_option (\<lambda>v. (v, rest, ap)) (g v)"
    "vls_sink.appends g (directive_out d) (length (directive_out d) + 262)"
proof (cases d)
  case Percent
  have "print_spec impl (directive_text d @ rest) (directive_args d @ ap) v = map_option (\<lambda>v. (v, rest, ap)) (bu_vls_putc (byte_of (CHR ''%'')) v)" for v
    by (simp add: Percent directive_text_def directive_args_def print_spec_def scan_end Let_def bind_pair)
  then show ?thesis using that vls_sink.appends_more[OF sink_putc] by (simp add: Percent directive_out_def bytes_of_def)
next
  case (Character i)
  have "snprintf ''%c'' (Arg_int i) = Some (takeWhile (\<lambda>c. c \<noteq> CHR 0x00) [char_of_byte (ucast i)])"
    by (simp add: snprintf_def parse_spec_def pad_number_def BUFSIZ_def isdigit_def code_def Let_def)
  moreover have "bytes_of (takeWhile (\<lambda>c. c \<noteq> CHR 0x00) [char_of_byte (ucast i)]) = directive_out d"
    by (cases "char_of_byte (ucast i) = CHR 0x00") (auto simp: Character directive_out_def bytes_of_def byte_of_char zero_char)
  ultimately have "print_spec impl (directive_text d @ rest) (directive_args d @ ap) v = map_option (\<lambda>v. (v, rest, ap)) (bu_vls_strcat (Some (directive_out d)) v)" for v
    by (simp add: Character directive_text_def directive_args_def print_spec_def scan_end Let_def bind_pair take_int_def
        print_arg_def reset_vflags_def negative_width_def flag_set_def vflag_defs)
  then show ?thesis using that vls_sink.appends_more[OF vls_sink.appends_put] by simp
next
  case (Text left w p s)
  obtain f where f: "vf_flags f = 0" "\<And>v. print_spec impl (directive_text d @ rest) (directive_args d @ ap) v =
      map_option (\<lambda>v. (v, rest, ap)) (print_str f (CHR ''%'' # ((if left then ''-'' else []) @ width_text w @ prec_text p) @ ''s'') s v)"
    using print_text_spec[where left = left and w = w and p = p and s = s and rest = rest and ap = ap and impl = impl] by (auto simp: Text directive_text_def directive_args_def)
  have F: "fields_of left (if w = 0 then None else Some (int w)) (map_option int p)
      (str_fields (CHR ''%'' # ((if left then ''-'' else []) @ width_text w @ prec_text p) @ ''s'') (f\<lparr>left_justify := False, have_dot := False\<rparr>))"
    using assms f(1) by (intro text_fields) (auto simp: Text directive_ok_def)
  show ?thesis
  proof (cases s)
    case None
    show ?thesis
      using that[OF f(2)] print_str_null[OF F] vls_sink.appends_more[of _ _ "6 + 256" "length (directive_out d) + 262"] assms
      by (auto simp: Text None directive_out_def directive_ok_def)
  next
    case (Some str)
    let ?w = "if w = 0 then None else Some w"
    have "map_option int ?w = (if w = 0 then None else Some (int w))" "(case ?w of None \<Rightarrow> 0 | Some w \<Rightarrow> w) = w" by auto
    note F' = F[folded this(1)] and w = this(2)
    have "vls_sink.appends (print_str f (CHR ''%'' # ((if left then ''-'' else []) @ width_text w @ prec_text p) @ ''s'') (Some str))
        (fit_text left w p str) (length (fit_text left w p str) + 256)"
      using assms by (intro print_str_text[OF F', of str, unfolded w]) (simp_all add: Text Some directive_ok_def split: if_splits)
    from vls_sink.appends_more[OF this] show ?thesis using that[OF f(2)] by (simp add: Text Some directive_out_def)
  qed
next
  case (Vls w)
  have "print_spec impl (directive_text d @ rest) (directive_args d @ ap) v = map_option (\<lambda>v. (v, rest, ap)) (bu_vls_vlscat w v)" for v
    by (simp add: Vls directive_text_def directive_args_def print_spec_def scan_end Let_def bind_pair
        print_vls_def reset_vflags_def negative_width_def flag_set_def vflag_defs)
  then show ?thesis using that vls_sink.appends_more[OF sink_vlscat[of w]] assms by (simp add: Vls directive_out_def directive_ok_def)
next
  case (Number p w a)
  have "print_spec impl (directive_text d @ rest) (directive_args d @ ap) v = map_option (\<lambda>v. (v, rest, ap)) (bu_vls_strcat (Some (directive_out d)) v)" for v
    using print_number[of w impl p a rest ap v] assms by (simp add: Number directive_text_def directive_args_def directive_out_def directive_ok_def)
  then show ?thesis using that vls_sink.appends_more[OF vls_sink.appends_put] by simp
qed

section \<open>A whole format\<close>

text \<open>A format is literal text, and each directive with the literal text behind it.\<close>

type_synonym items = "(directive \<times> string) list"

definition literal :: "string \<Rightarrow> bool" where
  "literal l \<longleftrightarrow> CHR ''%'' \<notin> set l \<and> length l < 2 ^ 63"

definition items_ok :: "items \<Rightarrow> bool" where
  "items_ok ds \<longleftrightarrow> (\<forall>(d, l)\<in>set ds. directive_ok d \<and> literal l)"

definition format_text :: "items \<Rightarrow> string" where
  "format_text ds = concat (map (\<lambda>(d, l). CHR ''%'' # directive_text d @ l) ds)"

definition format_args :: "items \<Rightarrow> va_arg list" where
  "format_args ds = concat (map (\<lambda>(d, l). directive_args d) ds)"

definition format_out :: "items \<Rightarrow> byte list" where
  "format_out ds = concat (map (\<lambda>(d, l). directive_out d @ bytes_of l) ds)"

lemma literal_part:
  assumes "literal l" "s = [] \<or> hd s = CHR ''%''"
  shows "takeWhile (\<lambda>c. c \<noteq> CHR ''%'') (l @ s) = l" "dropWhile (\<lambda>c. c \<noteq> CHR ''%'') (l @ s) = s"
  using assms by (cases s; auto simp: literal_def takeWhile_tail dropWhile_append)+

definition put_literal :: "string \<Rightarrow> string \<Rightarrow> bu_vls \<Rightarrow> bu_vls option" where
  "put_literal l s v = (if l \<noteq> [] then bu_vls_strncat (Some (bytes_of (l @ s))) (of_nat (length l)) v else Some v)"

lemma literal_appends:
  assumes "literal l" shows "vls_sink.appends (put_literal l s) (bytes_of l) (length l + 256)"
proof (cases "l = []")
  case True
  then have "put_literal l s = Some" by (simp add: put_literal_def fun_eq_iff)
  then show ?thesis using True vls_sink.appends_none by (simp add: bytes_of_def)
next
  case False
  have n: "unat (of_nat (length l) :: size_t) = length l" using assms by (intro small_word) (simp add: literal_def)
  have "put_literal l s = bu_vls_strncat (Some (bytes_of (l @ s))) (of_nat (length l))"
    using False by (simp add: put_literal_def fun_eq_iff)
  then show ?thesis using sink_strncat[of "bytes_of (l @ s)" "of_nat (length l)", unfolded n] by (simp add: bytes_of_def)
qed

lemma loop_step:
  assumes "literal l" "s = [] \<or> hd s = CHR ''%''"
  shows "vprintf_loop impl (l @ s) ap v = do { v \<leftarrow> put_literal l s v;
    case s of [] \<Rightarrow> Some v | _ # s \<Rightarrow> do { (v, rest, ap) \<leftarrow> print_spec impl s ap v; vprintf_loop impl rest ap v } }"
  by (subst vprintf_loop.simps) (simp add: Let_def put_literal_def literal_part[OF assms])

declare vprintf_loop.simps [simp del]

lemma vprintf_appends:
  assumes "literal l" "items_ok ds"
  shows "vls_sink.appends (vprintf_loop impl (l @ format_text ds) (format_args ds @ ap)) (bytes_of l @ format_out ds)
    (length (bytes_of l @ format_out ds) + 518 * Suc (length ds))"
  using assms
proof (induction ds arbitrary: l)
  case Nil
  have "vprintf_loop impl (l @ format_text []) (format_args [] @ ap) = put_literal l []"
    using loop_step[OF Nil.prems(1), of "[]"] by (simp add: format_text_def fun_eq_iff)
  then show ?case using vls_sink.appends_more[OF literal_appends[OF Nil.prems(1)]] by (simp add: format_out_def)
next
  case (Cons e ds)
  obtain d l2 where e: "e = (d, l2)" by force
  let ?rest = "l2 @ format_text ds" and ?args = "format_args ds @ ap" and ?out = "bytes_of l2 @ format_out ds"
  have ok: "directive_ok d" "literal l2" "items_ok ds" using Cons.prems(2) by (auto simp: items_ok_def e)
  obtain g where g: "\<And>v. print_spec impl (directive_text d @ ?rest) (directive_args d @ ?args) v = map_option (\<lambda>v. (v, ?rest, ?args)) (g v)"
    "vls_sink.appends g (directive_out d) (length (directive_out d) + 262)" using directive_appends[OF ok(1), where impl = impl and rest = ?rest and ap = ?args] by blast
  have t: "format_text (e # ds) = CHR ''%'' # directive_text d @ ?rest" "format_args (e # ds) @ ap = directive_args d @ ?args"
    "format_out (e # ds) = directive_out d @ ?out" by (simp_all add: format_text_def format_args_def format_out_def e)
  have "vprintf_loop impl (l @ format_text (e # ds)) (format_args (e # ds) @ ap) v =
      Option.bind (put_literal l (format_text (e # ds)) v) (\<lambda>v. Option.bind (g v) (vprintf_loop impl ?rest ?args))" for v
    using loop_step[OF Cons.prems(1), of "format_text (e # ds)"] by (simp add: t g(1) bind_map_option comp_def)
  moreover have "vls_sink.appends (\<lambda>v. Option.bind (put_literal l (format_text (e # ds)) v) (\<lambda>v. Option.bind (g v) (vprintf_loop impl ?rest ?args)))
      (bytes_of l @ directive_out d @ ?out) ((length l + 256) + ((length (directive_out d) + 262) + (length ?out + 518 * Suc (length ds))))"
    by (intro vls_sink.appends_seq literal_appends[OF Cons.prems(1)] g(2) Cons.IH ok)
  ultimately show ?case using vls_sink.appends_more by (simp add: t(3) fun_eq_iff)
qed

section \<open>Properties\<close>

text \<open>C9: a format of literal text, strings with width, precision and justification, nested strings,
  characters and padded numbers appends exactly the text it stands for, and leaves a well-formed,
  terminated string.\<close>

theorem printf_renders:
  assumes "literal l" "items_ok ds" "vls_ok v"
    and "unat (vls_max v) + length (bytes_of l @ format_out ds) + 518 * Suc (length ds) < 2 ^ 63"
  shows "\<exists>v'. bu_vls_printf impl (l @ format_text ds) (format_args ds) v = Some v' \<and> vls_ok v'
    \<and> content v' = content v @ bytes_of l @ format_out ds"
proof (cases "l @ format_text ds = []")
  case True
  then have "ds = []" "l = []" by (cases ds; auto simp: format_text_def)+
  then show ?thesis using assms(3) by (simp add: bu_vls_printf_def bu_vls_vprintf_def format_text_def format_out_def bytes_of_def)
next
  case False
  let ?out = "bytes_of l @ format_out ds"
  have "vls_sink.appends (vprintf_loop impl (l @ format_text ds) (format_args ds)) ?out (length ?out + 518 * Suc (length ds))"
    using vprintf_appends[OF assms(1,2), of impl "[]"] by simp
  moreover have "unat (vls_max v) + (length ?out + 518 * Suc (length ds)) < vls_limit"
    using assms(4) unfolding vls_limit_def by (simp only: add.assoc)
  ultimately obtain v' where "vprintf_loop impl (l @ format_text ds) (format_args ds) v = Some v'" "vls_ok v'"
    "content v' = content v @ ?out" using vls_sink.appendsE[OF _ assms(3)] by blast
  moreover have "bu_vls_printf impl (l @ format_text ds) (format_args ds) v = vprintf_loop impl (l @ format_text ds) (format_args ds) v"
    using False by (auto simp: bu_vls_printf_def bu_vls_vprintf_def)
  ultimately show ?thesis by simp
qed


definition sample_format :: items where
  "sample_format = [(Text True 6 (Some 4) (Some (bytes_of ''sphere'')), ''|''), (Number Zeros 5 (Num_int (- 42)), '' ''),
     (Percent, []), (Number Spaces_before 0 (Num_ulong 77), ''.'')]"

lemma printf_renders_witness:
  "format_text sample_format = ''%-6.4s|%05d %%%lu.'' \<and>
   (\<exists>v'. bu_vls_printf (\<lambda>_ _. None) (''> '' @ format_text sample_format) (format_args sample_format) bu_vls_init = Some v'
     \<and> content v' = bytes_of ''> sphe  |-0042 %77.'')"
proof -
  have ok: "literal ''> ''" "items_ok sample_format" "length sample_format = 4"
    by (simp_all add: literal_def items_ok_def sample_format_def directive_ok_def)
  have out: "format_text sample_format = ''%-6.4s|%05d %%%lu.''" "bytes_of ''> '' @ format_out sample_format = bytes_of ''> sphe  |-0042 %77.''"
    by code_simp+
  then show ?thesis using printf_renders[OF ok(1,2), of bu_vls_init "\<lambda>_ _. None"] ok(3) by (auto simp: vls_ok_def)
qed

lemma one_directive:
  "vprintf_loop impl (CHR ''%'' # s) ap v = do { (v, rest, ap) \<leftarrow> print_spec impl s ap v; vprintf_loop impl rest ap v }"
  "vprintf_loop impl [] ap v = Some v"
  using loop_step[of "[]"] by (simp_all add: literal_def put_literal_def)

lemma star_fields:
  assumes "i <s 0"
  shows "\<exists>f. print_spec impl ''*s'' [Arg_int i, Arg_str s] v = map_option (\<lambda>v. (v, [], [])) (print_str f ''%*s'' s v)
    \<and> fields_of False (Some (- sint i)) None (str_fields ''%*s'' (f\<lparr>left_justify := False, have_dot := False\<rparr>))"
proof -
  let ?f = "negative_width (reset_vflags\<lparr>fieldlen := sint i, vf_flags := FIELDLEN\<rparr>)"
  have "sint i < 0" using assms by (simp add: word_sless_alt)
  then have "fields_of False (Some (- sint i)) None (str_fields ''%*s'' (?f\<lparr>left_justify := False, have_dot := False\<rparr>))"
    by (simp add: negative_width_def reset_vflags_def fields_of_def flag_set_def vflag_defs isdigit_def code_def)
  moreover have "print_spec impl ''*s'' [Arg_int i, Arg_str s] v = map_option (\<lambda>v. (v, [], [])) (print_str ?f ''%*s'' s v)"
    by (simp add: print_spec_def scan_spec.simps(2)[of "CHR ''*''"] scan_end take_int_def bind_pair reset_vflags_def isdigit_def code_def Let_def)
  ultimately show ?thesis by blast
qed

text \<open>C10: what departs from \<open>printf\<close>: a negative width given by a star right-justifies a string instead
  of left-justifying it, a width is ignored by \<open>%V\<close>, and \<open>%hd\<close> takes a \<open>long\<close> where the caller has
  passed an \<open>int\<close>.\<close>

theorem printf_departures:
  assumes "i <s 0" "- (2 ^ 31) < sint i" "length s < 2 ^ 31" "vls_ok w" "vls_ok v"
    and "unat (vls_max v) + max (length s) (nat (- sint i)) + length (content w) + 518 < 2 ^ 63"
  shows "(\<exists>v'. bu_vls_printf impl ''%*s'' [Arg_int i, Arg_str (Some s)] v = Some v'
        \<and> content v' = content v @ fit_text False (nat (- sint i)) None s)
    \<and> (\<exists>v'. bu_vls_printf impl ''%9V'' [Arg_vls (Some w)] v = Some v' \<and> content v' = content v @ content w)
    \<and> bu_vls_printf impl ''%hd'' [Arg_int i] v = None"
proof (intro conjI)
  have n: "sint i < 0" using assms(1) by (simp add: word_sless_alt)
  obtain f where f: "print_spec impl ''*s'' [Arg_int i, Arg_str (Some s)] v = map_option (\<lambda>v. (v, [], [])) (print_str f ''%*s'' (Some s) v)"
    "fields_of False (Some (- sint i)) None (str_fields ''%*s'' (f\<lparr>left_justify := False, have_dot := False\<rparr>))"
    using star_fields[OF assms(1)] by blast
  have ap: "vls_sink.appends (print_str f ''%*s'' (Some s)) (fit_text False (nat (- sint i)) None s) (length (fit_text False (nat (- sint i)) None s) + 256)"
    using print_str_text[of False "Some (nat (- sint i))" None "''%*s''" f s] f(2) n assms(2,3) by simp
  have "unat (vls_max v) + (length (fit_text False (nat (- sint i)) None s) + 256) < vls_limit"
    using assms(6) by (simp add: length_fit_text vls_limit_def)
  then obtain v' where "print_str f ''%*s'' (Some s) v = Some v'" "content v' = content v @ fit_text False (nat (- sint i)) None s"
    using vls_sink.appendsE[OF ap assms(5)] by blast
  then show "\<exists>v'. bu_vls_printf impl ''%*s'' [Arg_int i, Arg_str (Some s)] v = Some v'
      \<and> content v' = content v @ fit_text False (nat (- sint i)) None s"
    by (simp add: bu_vls_printf_def bu_vls_vprintf_def one_directive f(1))
  obtain v' where "bu_vls_vlscat w v = Some v'" "content v' = content v @ content w"
    using vls_sink.appendsE[OF sink_vlscat[OF assms(4)] assms(5)] assms(6) by (auto simp: vls_limit_def)
  then show "\<exists>v'. bu_vls_printf impl ''%9V'' [Arg_vls (Some w)] v = Some v' \<and> content v' = content v @ content w"
    by (simp add: bu_vls_printf_def bu_vls_vprintf_def one_directive print_spec_def scan_spec.simps(2)[of "CHR ''9''"] scan_end
        isdigit_def code_def Let_def negative_width_def reset_vflags_def print_vls_def flag_set_def)
  let ?g = "snd (handle_format_part VP_LENGTH_MOD reset_vflags (CHR ''h''))"
  have "scan_spec ''hd'' reset_vflags [Arg_int i] = Some (?g, ''h'', Some (CHR ''d''), [], [Arg_int i])"
    by (simp add: scan_length scan_end)
  moreover have "flag_set (negative_width ?g) LONG_INT" by code_simp
  then have "take_integer (negative_width ?g) True [Arg_int i] = None" by (simp add: take_integer_def take_long_def)
  ultimately show "bu_vls_printf impl ''%hd'' [Arg_int i] v = None"
    by (simp add: bu_vls_printf_def bu_vls_vprintf_def one_directive print_spec_def Let_def)
qed

lemma printf_departures_witness:
  "bu_vls_printf (\<lambda>_ _. None) ''%hd'' [Arg_int (- 5)] bu_vls_init = None
   \<and> (\<exists>v'. bu_vls_printf (\<lambda>_ _. None) ''%*s'' [Arg_int (- 5), Arg_str (Some [65, 66])] bu_vls_init = Some v'
        \<and> content v' = [32, 32, 32, 65, 66])"
proof -
  have "fit_text False (nat (- sint (- 5 :: 32 word))) None [65, 66] = [32, 32, 32, 65, 66]"
    by (simp add: fit_text_def numeral_eq_Suc)
  then show ?thesis
    using printf_departures[of "- 5" "[65, 66]" bu_vls_init bu_vls_init "\<lambda>_ _. None"] by (simp add: vls_ok_def word_sless_alt)
qed

end
